(* ===== verification/Emu_Prelude.thy ===== *)
theory Emu_Prelude
  imports Main "HOL-Library.Word"
begin

text \<open>
  Shared vocabulary of the development: the fixed-width integer types of
  \<^verbatim>\<open>src/src/common/common_types.h\<close>, the kernel result codes, results that may also be undefined
  behaviour, the alignment helpers of \<^verbatim>\<open>src/src/common/alignment.h\<close>, the \<open>BitField\<close> accessors of
  \<^verbatim>\<open>src/src/common/bit_field.h\<close>, and generic facts on words and lists that every component uses.
\<close>

unbundle bit_operations_syntax

named_theorems bf_simps \<open>reading a bit field back after an assignment\<close>
named_theorems unat_facts \<open>unsigned readings of word operations that do not wrap\<close>

section \<open>Machine integers\<close>

type_synonym u8 = "8 word"
type_synonym u16 = "16 word"
type_synonym u32 = "32 word"
type_synonym u64 = "64 word"

section \<open>Results\<close>

text \<open>
  The kernel result codes the modelled operations return, with the description numbers of
  \<^verbatim>\<open>svc_results.h\<close>. A result is a value, an error code, or undefined behaviour (an out-of-range
  index or a dereference of a null pointer or an end iterator): \<^verbatim>\<open>ASSERT\<close> only logs in the default
  configuration, so a failed assertion does not stop the code.
\<close>

datatype result_code =
    ResultOutOfSessions | ResultInvalidArgument | ResultNotImplemented
  | ResultNoSynchronizationObject | ResultTerminationRequested | ResultInvalidSize
  | ResultInvalidAddress | ResultOutOfResource | ResultOutOfMemory | ResultOutOfHandles
  | ResultInvalidCurrentMemory | ResultInvalidNewMemoryPermission | ResultInvalidMemoryRegion
  | ResultInvalidPriority | ResultInvalidCoreId | ResultInvalidHandle | ResultInvalidPointer
  | ResultInvalidCombination | ResultTimedOut | ResultCancelled | ResultOutOfRange
  | ResultInvalidEnumValue | ResultNotFound | ResultBusy | ResultSessionClosed
  | ResultInvalidState | ResultReservedUsed | ResultPortClosed | ResultLimitReached
  | ResultReceiveListBroken | ResultOutOfAddressSpace | ResultMessageTooLarge | ResultInvalidId

datatype 'a res = Ok 'a | Err result_code | UB

fun bind_res :: "'a res \<Rightarrow> ('a \<Rightarrow> 'b res) \<Rightarrow> 'b res" where
  "bind_res (Ok x) f = f x"
| "bind_res (Err e) f = Err e"
| "bind_res UB f = UB"

lemma bind_res_Ok_iff: "bind_res m f = Ok y \<longleftrightarrow> (\<exists>x. m = Ok x \<and> f x = Ok y)"
  by (cases m) auto

lemma bind_res_Err_iff: "bind_res m f = Err e \<longleftrightarrow> m = Err e \<or> (\<exists>x. m = Ok x \<and> f x = Err e)"
  by (cases m) auto

section \<open>Bit fields\<close>

definition bf_mask :: "nat \<Rightarrow> nat \<Rightarrow> 'a::len word" where
  "bf_mask pos n = push_bit pos (mask n)"

definition bf_format :: "nat \<Rightarrow> nat \<Rightarrow> 'a::len word \<Rightarrow> 'a word" where
  "bf_format pos n v = push_bit pos v AND bf_mask pos n"

definition bf_extract :: "nat \<Rightarrow> nat \<Rightarrow> 'a::len word \<Rightarrow> 'a word" where
  "bf_extract pos n w = drop_bit pos (w AND bf_mask pos n)"

definition bf_extract_signed :: "nat \<Rightarrow> nat \<Rightarrow> 'a::len word \<Rightarrow> 'a word" where
  "bf_extract_signed pos n w =
     (let shift = LENGTH('a) - n in signed_drop_bit shift (push_bit (shift - pos) w))"

definition bf_assign :: "nat \<Rightarrow> nat \<Rightarrow> 'a::len word \<Rightarrow> 'a word \<Rightarrow> 'a word" where
  "bf_assign pos n w v = (w AND NOT (bf_mask pos n)) OR bf_format pos n v"

lemma bit_bf_mask: "bit (bf_mask pos n :: 'a::len word) i \<longleftrightarrow> i < LENGTH('a) \<and> pos \<le> i \<and> i < pos + n"
  by (auto simp: bf_mask_def bit_simps)

lemma bit_bf_extract:
  "bit (bf_extract pos n (w :: 'a::len word)) i \<longleftrightarrow> i < n \<and> bit w (pos + i)"
  by (auto simp: bf_extract_def bit_simps bit_bf_mask dest: bit_imp_le_length)

lemma bit_bf_assign:
  "bit (bf_assign pos n (w :: 'a::len word) v) i \<longleftrightarrow>
     (if pos \<le> i \<and> i < pos + n then i < LENGTH('a) \<and> bit v (i - pos) else bit w i)"
  by (auto simp: bf_assign_def bf_format_def bit_simps bit_bf_mask dest: bit_imp_le_length)

lemma bf_extract_assign_same [bf_simps]:
  fixes w v :: "'a::len word"
  assumes "pos + n \<le> LENGTH('a)"
  shows "bf_extract pos n (bf_assign pos n w v) = take_bit n v"
  using assms by (auto intro!: bit_word_eqI simp: bit_bf_extract bit_bf_assign bit_simps)

lemma bf_extract_assign_other [bf_simps]:
  fixes w v :: "'a::len word"
  assumes "pos + n \<le> pos' \<or> pos' + n' \<le> pos"
  shows "bf_extract pos n (bf_assign pos' n' w v) = bf_extract pos n w"
  using assms by (auto intro!: bit_word_eqI simp: bit_bf_extract bit_bf_assign)

lemma bf_extract_zero [bf_simps]: "bf_extract pos n (0 :: 'a::len word) = 0"
  by (simp add: bf_extract_def)

lemma bf_extract_eq_take_bit: "bf_extract pos n (w :: 'a::len word) = take_bit n (drop_bit pos w)"
  by (rule bit_word_eqI) (auto simp: bit_bf_extract bit_simps)

lemma unat_bf_extract_less: "unat (bf_extract pos n (w :: 'a::len word)) < 2 ^ n"
proof -
  have "unat (take_bit n (drop_bit pos w)) = take_bit n (unat (drop_bit pos w))"
    by (simp add: unsigned_take_bit_eq)
  also have "\<dots> < 2 ^ n"
    by (rule take_bit_nat_less_exp)
  finally show ?thesis
    by (simp add: bf_extract_eq_take_bit)
qed

section \<open>Alignment\<close>

definition AlignUp :: "u64 \<Rightarrow> u64 \<Rightarrow> u64" where
  "AlignUp value sz =
     (let m = value mod sz; v = value - m in if m = 0 then v else v + sz)"

definition AlignDown :: "u64 \<Rightarrow> u64 \<Rightarrow> u64" where
  "AlignDown value sz = value - value mod sz"

definition IsAligned :: "u64 \<Rightarrow> u64 \<Rightarrow> bool" where
  "IsAligned value alignment \<longleftrightarrow> value AND (alignment - 1) = 0"

section \<open>Words without wrap-around\<close>

lemma unat_add_no_wrap [unat_facts]:
  "unat a + unat b < 2 ^ LENGTH('a) \<Longrightarrow> unat (a + b :: 'a::len word) = unat a + unat b"
  by (simp add: unat_word_ariths)

lemma unat_diff_no_wrap [unat_facts]:
  "unat b \<le> unat a \<Longrightarrow> unat (a - b :: 'a::len word) = unat a - unat b"
  by (simp add: unat_sub word_le_nat_alt)

lemma unat_mult_no_wrap [unat_facts]:
  "unat a * unat b < 2 ^ LENGTH('a) \<Longrightarrow> unat (a * b :: 'a::len word) = unat a * unat b"
  by (simp add: unat_word_ariths)

lemma unat_ucast_up:
  "LENGTH('a) \<le> LENGTH('b) \<Longrightarrow> unat (ucast (x :: 'a::len word) :: 'b::len word) = unat x"
  by (simp add: unsigned_ucast_eq take_bit_nat_eq_self less_le_trans [OF unsigned_less])
lemma unat_word_of_int:
  "0 \<le> x \<Longrightarrow> x < 2 ^ LENGTH('a) \<Longrightarrow> unat (word_of_int x :: 'a::len word) = nat x"
  by (metis mod_pos_pos_trivial uint_word_of_int unat_eq_nat_uint)

lemma ucast_up_eq_iff:
  "LENGTH('a) \<le> LENGTH('b) \<Longrightarrow> (ucast (x :: 'a::len word) :: 'b::len word) = ucast y \<longleftrightarrow> x = y"
  by (simp add: word_unat_eq_iff unat_ucast_up)

lemma unat_AlignDown:
  assumes "0 < alignment" shows "unat (AlignDown v alignment) = unat v - unat v mod unat alignment"
proof -
  have "unat (v mod alignment) = unat v mod unat alignment" by (rule unat_mod_distrib)
  then show ?thesis by (simp add: AlignDown_def unat_diff_no_wrap)
qed

lemma AlignDown_props:
  assumes "0 < unat sz"
  shows "unat sz dvd unat (AlignDown v sz)" "unat (AlignDown v sz) \<le> unat v" "unat v < unat (AlignDown v sz) + unat sz"
proof -
  have d: "unat (AlignDown v sz) = unat v - unat v mod unat sz"
    using assms by (intro unat_AlignDown) (simp add: word_less_nat_alt)
  show "unat sz dvd unat (AlignDown v sz)" unfolding d by (metis minus_mod_eq_mult_div dvd_triv_left)
  show "unat (AlignDown v sz) \<le> unat v" unfolding d by simp
  show "unat v < unat (AlignDown v sz) + unat sz" unfolding d using mod_less_divisor[OF assms, of "unat v"] by linarith
qed

lemma AlignUp_props:
  assumes "0 < unat sz" "unat v + unat sz < 2 ^ 64"
  shows "unat sz dvd unat (AlignUp v sz)" "unat v \<le> unat (AlignUp v sz)" "unat (AlignUp v sz) < unat v + unat sz"
proof -
  note d = AlignDown_props[OF assms(1), of v]
  have "AlignUp v sz = (if v mod sz = 0 then v else AlignDown v sz + sz)"
    by (simp add: AlignUp_def AlignDown_def Let_def)
  moreover have "v mod sz = 0 \<longleftrightarrow> unat v mod unat sz = 0" by (simp add: word_unat_eq_iff unat_mod_distrib)
  moreover have "unat (AlignDown v sz + sz) = unat (AlignDown v sz) + unat sz"
    using d(2) assms(2) by (intro unat_add_no_wrap) simp
  moreover have "unat v \<noteq> unat (AlignDown v sz)" if "unat v mod unat sz \<noteq> 0"
    using d(1) that by (metis dvd_imp_mod_0)
  ultimately have "(unat v mod unat sz = 0 \<and> unat (AlignUp v sz) = unat v) \<or>
      (unat (AlignUp v sz) = unat (AlignDown v sz) + unat sz \<and> unat v \<noteq> unat (AlignDown v sz))" by auto
  then have "unat sz dvd unat (AlignUp v sz) \<and> unat v \<le> unat (AlignUp v sz) \<and> unat (AlignUp v sz) < unat v + unat sz"
    using d assms(1) by auto
  then show "unat sz dvd unat (AlignUp v sz)" "unat v \<le> unat (AlignUp v sz)" "unat (AlignUp v sz) < unat v + unat sz"
    by blast+
qed

lemma unat_pow2: "s < 64 \<Longrightarrow> unat (push_bit s 1 :: u64) = 2 ^ s"
proof -
  assume s: "s < 64"
  then show ?thesis by (simp only: unsigned_push_bit_eq) (simp add: push_bit_eq_mult take_bit_nat_eq_self)
qed

lemma unat_shift_right: "unat (drop_bit s (w :: u64)) = unat w div 2 ^ s"
  using unsigned_less[of w, where 'a = nat]
  by (simp only: unsigned_drop_bit_eq) (simp add: drop_bit_eq_div take_bit_nat_eq_self)

lemma unat_shift_left: "unat w * 2 ^ s < 2 ^ 64 \<Longrightarrow> unat (push_bit s (w :: u64)) = unat w * 2 ^ s"
  by (simp only: unsigned_push_bit_eq) (simp add: push_bit_eq_mult take_bit_nat_eq_self)

end
