(* ===== verification/Handle_Table.thy ===== *)
theory Handle_Table
  imports Emu_Prelude
begin

text \<open>
  The kernel handle table, \<^verbatim>\<open>src/src/core/hle/kernel/k_handle_table.h\<close> and
  \<^verbatim>\<open>k_handle_table.cpp\<close>, and the reference counts of \<^verbatim>\<open>k_auto_object.h\<close> it drives.
  A table holds 1024 entries; a free entry stores the index of the next free one in the same
  16 bits that hold the linear id of a used entry, so the free entries form a list threaded
  through the array. The lock and dispatch guards are left out: every operation holds the lock
  for its whole body. Pointers to kernel objects are values of an arbitrary type, and a null
  pointer is \<open>None\<close>.
\<close>

section \<open>Kernel objects\<close>

record 'o object_store =
  ref_count :: "'o \<Rightarrow> u32"
  in_use :: "'o set"
  destroyed :: "'o list"

definition KAutoObject_IsDerivedFrom :: "u16 \<Rightarrow> u16 \<Rightarrow> bool" where
  "KAutoObject_IsDerivedFrom tok rhs \<longleftrightarrow> tok OR rhs = tok"

definition KAutoObject_DynamicCast :: "('o \<Rightarrow> u16) \<Rightarrow> u16 \<Rightarrow> 'o \<Rightarrow> 'o option" where
  "KAutoObject_DynamicCast tok target p =
     (if KAutoObject_IsDerivedFrom (tok p) target then Some p else None)"

definition KAutoObject_Open :: "'o \<Rightarrow> 'o object_store \<Rightarrow> bool \<times> 'o object_store" where
  "KAutoObject_Open p s =
     (if ref_count s p = 0 then (False, s)
      else (True, s\<lparr>ref_count := (ref_count s)(p := ref_count s p + 1)\<rparr>))"

definition KAutoObject_Close :: "'o \<Rightarrow> 'o object_store \<Rightarrow> 'o object_store" where
  "KAutoObject_Close p s =
     (let cur_ref_count = ref_count s p;
          s' = s\<lparr>ref_count := (ref_count s)(p := cur_ref_count - 1)\<rparr>
      in if cur_ref_count - 1 = 0 then s'\<lparr>destroyed := p # destroyed s'\<rparr> else s')"

definition KScopedAutoObject_new ::
  "'o option \<Rightarrow> 'o object_store \<Rightarrow> 'o option \<times> 'o object_store" where
  "KScopedAutoObject_new o' s =
     (case o' of None \<Rightarrow> (None, s) | Some p \<Rightarrow> (Some p, snd (KAutoObject_Open p s)))"

definition KernelCore_UnregisterInUseObject :: "'o \<Rightarrow> 'o object_store \<Rightarrow> 'o object_store" where
  "KernelCore_UnregisterInUseObject p s = s\<lparr>in_use := in_use s - {p}\<rparr>"

section \<open>Handles\<close>

definition MaxTableSize :: nat where "MaxTableSize = 1024"
definition MinLinearId :: u16 where "MinLinearId = 1"
definition MaxLinearId :: u16 where "MaxLinearId = 0x7FFF"

definition PseudoHandle_CurrentThread :: u32 where "PseudoHandle_CurrentThread = 0xFFFF8000"
definition PseudoHandle_CurrentProcess :: u32 where "PseudoHandle_CurrentProcess = 0xFFFF8001"

definition IsPseudoHandle :: "u32 \<Rightarrow> bool" where
  "IsPseudoHandle handle \<longleftrightarrow>
     handle = PseudoHandle_CurrentProcess \<or> handle = PseudoHandle_CurrentThread"

text \<open>The fields of \<open>HandlePack\<close>.\<close>

definition handle_index :: "u32 \<Rightarrow> u32" where "handle_index h = bf_extract 0 15 h"
definition handle_linear_id :: "u32 \<Rightarrow> u32" where "handle_linear_id h = bf_extract 15 15 h"
definition handle_reserved :: "u32 \<Rightarrow> u32" where "handle_reserved h = bf_extract 30 2 h"

definition EncodeHandle :: "u16 \<Rightarrow> u16 \<Rightarrow> u32" where
  "EncodeHandle index linear_id =
     bf_assign 30 2 (bf_assign 15 15 (bf_assign 0 15 0 (ucast index)) (ucast linear_id)) 0"

section \<open>The table\<close>

record 'o handle_table =
  m_entry_infos :: "u16 list"
  m_objects :: "'o option list"
  m_free_head_index :: int
  m_table_size :: u16
  m_max_count :: u16
  m_next_linear_id :: u16
  m_count :: u16

text \<open>\<open>EntryInfo\<close> is a union of \<open>u16 linear_id\<close> and \<open>s16 next_free_index\<close>.\<close>

definition GetLinearId :: "u16 \<Rightarrow> u16" where "GetLinearId e = e"
definition GetNextFreeIndex :: "u16 \<Rightarrow> int" where "GetNextFreeIndex e = sint e"

definition set_info :: "int \<Rightarrow> u16 \<Rightarrow> 'o handle_table \<Rightarrow> 'o handle_table" where
  "set_info i e t = t\<lparr>m_entry_infos := (m_entry_infos t)[nat i := e]\<rparr>"

definition set_object :: "int \<Rightarrow> 'o option \<Rightarrow> 'o handle_table \<Rightarrow> 'o handle_table" where
  "set_object i p t = t\<lparr>m_objects := (m_objects t)[nat i := p]\<rparr>"

definition in_array :: "'o handle_table \<Rightarrow> int \<Rightarrow> bool" where
  "in_array t i \<longleftrightarrow> 0 \<le> i \<and> i < int (length (m_objects t)) \<and> i < int (length (m_entry_infos t))"

definition KHandleTable_default :: "'o handle_table" where
  "KHandleTable_default =
     \<lparr>m_entry_infos = replicate MaxTableSize 0, m_objects = replicate MaxTableSize None,
      m_free_head_index = 0, m_table_size = 0, m_max_count = 0, m_next_linear_id = 0,
      m_count = 0\<rparr>"

definition KHandleTable_init_entry :: "nat \<Rightarrow> 'o handle_table \<Rightarrow> 'o handle_table" where
  "KHandleTable_init_entry i t =
     (set_info (int i) (word_of_int (int i - 1)) (set_object (int i) None t))
       \<lparr>m_free_head_index := int i\<rparr>"

definition KHandleTable_Initialize :: "int \<Rightarrow> 'o handle_table \<Rightarrow> 'o handle_table res" where
  "KHandleTable_Initialize sz t =
     (if \<not> sz \<le> int MaxTableSize then Err ResultOutOfMemory
      else let t1 = t\<lparr>m_max_count := 0,
                     m_table_size := (if sz \<le> 0 then of_nat MaxTableSize else word_of_int sz),
                     m_next_linear_id := MinLinearId, m_count := 0, m_free_head_index := -1\<rparr>
           in Ok (fold KHandleTable_init_entry [0..<unat (m_table_size t1)] t1))"

definition KHandleTable_Finalize ::
  "'o handle_table \<Rightarrow> 'o object_store \<Rightarrow> 'o handle_table \<times> 'o object_store" where
  "KHandleTable_Finalize t s =
     (let saved_table_size = m_table_size t in
      (t\<lparr>m_table_size := 0\<rparr>,
       fold (\<lambda>i s. case m_objects t ! i of None \<Rightarrow> s | Some p \<Rightarrow> KAutoObject_Close p s)
         [0..<unat saved_table_size] s))"

definition KHandleTable_AllocateEntry :: "'o handle_table \<Rightarrow> (int \<times> 'o handle_table) res" where
  "KHandleTable_AllocateEntry t =
     (let index = m_free_head_index t in
      if \<not> in_array t index then UB
      else Ok (index,
        t\<lparr>m_free_head_index := GetNextFreeIndex (m_entry_infos t ! nat index),
          m_count := m_count t + 1,
          m_max_count := max (m_max_count t) (m_count t + 1)\<rparr>))"

definition KHandleTable_FreeEntry :: "int \<Rightarrow> 'o handle_table \<Rightarrow> 'o handle_table" where
  "KHandleTable_FreeEntry index t =
     (set_info index (word_of_int (m_free_head_index t)) (set_object index None t))
       \<lparr>m_free_head_index := index, m_count := m_count t - 1\<rparr>"

definition KHandleTable_AllocateLinearId :: "'o handle_table \<Rightarrow> u16 \<times> 'o handle_table" where
  "KHandleTable_AllocateLinearId t =
     (let id = m_next_linear_id t; nxt = id + 1 in
      (id, t\<lparr>m_next_linear_id := (if nxt > MaxLinearId then MinLinearId else nxt)\<rparr>))"

definition KHandleTable_IsValidHandle :: "'o handle_table \<Rightarrow> u32 \<Rightarrow> bool" where
  "KHandleTable_IsValidHandle t handle =
     (let index = handle_index handle; linear_id = handle_linear_id handle in
      if handle = 0 then False
      else if linear_id = 0 then False
      else if index \<ge> ucast (m_table_size t) then False
      else if m_objects t ! unat index = None then False
      else if ucast (GetLinearId (m_entry_infos t ! unat index)) \<noteq> linear_id then False
      else True)"

definition KHandleTable_GetObjectImpl :: "'o handle_table \<Rightarrow> u32 \<Rightarrow> 'o option" where
  "KHandleTable_GetObjectImpl t handle =
     (if handle_reserved handle \<noteq> 0 then None
      else if KHandleTable_IsValidHandle t handle then m_objects t ! unat (handle_index handle)
      else None)"

definition KHandleTable_GetObjectByIndexImpl ::
  "'o handle_table \<Rightarrow> u64 \<Rightarrow> (u32 \<times> 'o) option" where
  "KHandleTable_GetObjectByIndexImpl t index =
     (if index \<ge> ucast (m_table_size t) then None
      else case m_objects t ! unat index of
          None \<Rightarrow> None
        | Some p \<Rightarrow>
            Some (EncodeHandle (ucast index) (GetLinearId (m_entry_infos t ! unat index)), p))"

definition KHandleTable_GetObjectWithoutPseudoHandle ::
  "('o \<Rightarrow> u16) \<Rightarrow> u16 option \<Rightarrow> u32 \<Rightarrow> 'o handle_table \<Rightarrow> 'o object_store \<Rightarrow>
     'o option \<times> 'o object_store" where
  \<comment> \<open>the target is \<open>None\<close> for the instance at \<open>KAutoObject\<close>, which does not cast\<close>
  "KHandleTable_GetObjectWithoutPseudoHandle tok target handle t s =
     KScopedAutoObject_new
       (case target of
          None \<Rightarrow> KHandleTable_GetObjectImpl t handle
        | Some cls \<Rightarrow>
            (case KHandleTable_GetObjectImpl t handle of
               Some p \<Rightarrow> KAutoObject_DynamicCast tok cls p
             | None \<Rightarrow> None)) s"

definition KHandleTable_GetObject ::
  "('o \<Rightarrow> u16) \<Rightarrow> bool \<Rightarrow> bool \<Rightarrow> u16 option \<Rightarrow> 'o \<Rightarrow> 'o \<Rightarrow> u32 \<Rightarrow> 'o handle_table \<Rightarrow>
     'o object_store \<Rightarrow> 'o option \<times> 'o object_store" where
  \<comment> \<open>the two flags are the template conditions: \<open>KProcess\<close> or \<open>KThread\<close> derives from the target\<close>
  "KHandleTable_GetObject tok process_derives thread_derives target cur_process cur_thread handle t s =
     (if process_derives \<and> handle = PseudoHandle_CurrentProcess
      then KScopedAutoObject_new (Some cur_process) s
      else if \<not> process_derives \<and> thread_derives \<and> handle = PseudoHandle_CurrentThread
      then KScopedAutoObject_new (Some cur_thread) s
      else KHandleTable_GetObjectWithoutPseudoHandle tok target handle t s)"

definition KHandleTable_GetObjectForIpc ::
  "('o \<Rightarrow> 'o) \<Rightarrow> 'o \<Rightarrow> u32 \<Rightarrow> 'o handle_table \<Rightarrow> 'o object_store \<Rightarrow>
     'o option \<times> 'o object_store" where
  "KHandleTable_GetObjectForIpc owner_process cur_thread handle t s =
     (if handle = PseudoHandle_CurrentProcess
      then KScopedAutoObject_new (Some (owner_process cur_thread)) s
      else if handle = PseudoHandle_CurrentThread then KScopedAutoObject_new (Some cur_thread) s
      else KScopedAutoObject_new (KHandleTable_GetObjectImpl t handle) s)"

text \<open>The opening loop of \<open>GetMultipleObjects\<close> stops at the first handle it cannot convert.\<close>

fun KHandleTable_open_all ::
  "('o \<Rightarrow> u16) \<Rightarrow> u16 \<Rightarrow> u32 list \<Rightarrow> 'o handle_table \<Rightarrow> 'o object_store \<Rightarrow>
     'o list \<times> 'o object_store" where
  "KHandleTable_open_all tok target [] t s = ([], s)"
| "KHandleTable_open_all tok target (h # hs) t s =
     (case KHandleTable_GetObjectImpl t h of
        None \<Rightarrow> ([], s)
      | Some cur_object \<Rightarrow>
          (case KAutoObject_DynamicCast tok target cur_object of
             None \<Rightarrow> ([], s)
           | Some cur_t \<Rightarrow>
               (let (out, s') = KHandleTable_open_all tok target hs t
                                  (snd (KAutoObject_Open cur_t s))
                in (cur_t # out, s'))))"

definition KHandleTable_GetMultipleObjects ::
  "('o \<Rightarrow> u16) \<Rightarrow> u16 \<Rightarrow> u32 list \<Rightarrow> 'o handle_table \<Rightarrow> 'o object_store \<Rightarrow>
     bool \<times> 'o list \<times> 'o object_store" where
  "KHandleTable_GetMultipleObjects tok target handles t s =
     (let (out, s') = KHandleTable_open_all tok target handles t s in
      if length out = length handles then (True, out, s')
      else (False, out, fold KAutoObject_Close out s'))"

definition KHandleTable_Remove ::
  "u32 \<Rightarrow> 'o handle_table \<Rightarrow> 'o object_store \<Rightarrow> bool \<times> 'o handle_table \<times> 'o object_store" where
  "KHandleTable_Remove handle t s =
     (if IsPseudoHandle handle then (False, t, s)
      else if handle_reserved handle \<noteq> 0 then (False, t, s)
      else if KHandleTable_IsValidHandle t handle then
        (let index = int (unat (handle_index handle)) in
         case m_objects t ! nat index of
           None \<Rightarrow> (False, t, s) \<comment> \<open>excluded by \<open>IsValidHandle\<close>\<close>
         | Some p \<Rightarrow>
             (True, KHandleTable_FreeEntry index t,
              KAutoObject_Close p (KernelCore_UnregisterInUseObject p s)))
      else (False, t, s))"

definition KHandleTable_Add ::
  "'o \<Rightarrow> 'o handle_table \<Rightarrow> 'o object_store \<Rightarrow> (u32 \<times> 'o handle_table \<times> 'o object_store) res" where
  "KHandleTable_Add p t s =
     (if \<not> m_count t < m_table_size t then Err ResultOutOfHandles
      else let (linear_id, t1) = KHandleTable_AllocateLinearId t in
        bind_res (KHandleTable_AllocateEntry t1) (\<lambda>(index, t2).
          Ok (EncodeHandle (word_of_int index) linear_id,
              set_object index (Some p) (set_info index linear_id t2),
              snd (KAutoObject_Open p s))))"

definition KHandleTable_Reserve :: "'o handle_table \<Rightarrow> (u32 \<times> 'o handle_table) res" where
  \<comment> \<open>the two arguments of \<open>EncodeHandle\<close> touch different fields, so their order is immaterial\<close>
  "KHandleTable_Reserve t =
     (if \<not> m_count t < m_table_size t then Err ResultOutOfHandles
      else bind_res (KHandleTable_AllocateEntry t) (\<lambda>(index, t1).
        let (linear_id, t2) = KHandleTable_AllocateLinearId t1 in
        Ok (EncodeHandle (word_of_int index) linear_id, t2)))"

definition KHandleTable_Unreserve :: "u32 \<Rightarrow> 'o handle_table \<Rightarrow> 'o handle_table" where
  "KHandleTable_Unreserve handle t =
     (let index = handle_index handle in
      if index < ucast (m_table_size t) then KHandleTable_FreeEntry (int (unat index)) t else t)"

definition KHandleTable_Register ::
  "u32 \<Rightarrow> 'o \<Rightarrow> 'o handle_table \<Rightarrow> 'o object_store \<Rightarrow> 'o handle_table \<times> 'o object_store" where
  "KHandleTable_Register handle p t s =
     (let index = handle_index handle; linear_id = handle_linear_id handle in
      if index < ucast (m_table_size t) then
        (set_object (int (unat index)) (Some p) (set_info (int (unat index)) (ucast linear_id) t),
         snd (KAutoObject_Open p s))
      else (t, s))"

section \<open>The invariant\<close>

text \<open>The free entries, followed from the head through the stored next indices.\<close>

fun free_chain :: "u16 list \<Rightarrow> int \<Rightarrow> nat list \<Rightarrow> bool" where
  "free_chain es h [] \<longleftrightarrow> h = -1"
| "free_chain es h (i # fl) \<longleftrightarrow>
     h = int i \<and> i < length es \<and> free_chain es (GetNextFreeIndex (es ! i)) fl"

definition ht_rep :: "'o handle_table \<Rightarrow> nat list \<Rightarrow> bool" where
  "ht_rep t fl \<longleftrightarrow>
     length (m_entry_infos t) = MaxTableSize \<and> length (m_objects t) = MaxTableSize \<and>
     unat (m_table_size t) \<le> MaxTableSize \<and>
     free_chain (m_entry_infos t) (m_free_head_index t) fl \<and> distinct fl \<and>
     (\<forall>i \<in> set fl. i < unat (m_table_size t) \<and> m_objects t ! i = None) \<and>
     length fl + unat (m_count t) = unat (m_table_size t) \<and>
     m_count t \<le> m_max_count t \<and> m_max_count t \<le> m_table_size t \<and>
     MinLinearId \<le> m_next_linear_id t \<and> m_next_linear_id t \<le> MaxLinearId \<and>
     (\<forall>i < unat (m_table_size t). m_objects t ! i \<noteq> None \<longrightarrow>
        MinLinearId \<le> m_entry_infos t ! i \<and> m_entry_infos t ! i \<le> MaxLinearId)"

definition ht_inv :: "'o handle_table \<Rightarrow> bool" where
  "ht_inv t \<longleftrightarrow> (\<exists>fl. ht_rep t fl)"

text \<open>An entry that is neither free nor holds an object: it was reserved.\<close>

definition ht_reserved :: "'o handle_table \<Rightarrow> nat \<Rightarrow> bool" where
  "ht_reserved t i \<longleftrightarrow>
     i < unat (m_table_size t) \<and> m_objects t ! i = None \<and> (\<forall>fl. ht_rep t fl \<longrightarrow> i \<notin> set fl)"

section \<open>Encoding\<close>

lemma sint_next_index: "- 1 \<le> x \<Longrightarrow> x < 32768 \<Longrightarrow> GetNextFreeIndex (word_of_int x) = x"
  by (simp add: GetNextFreeIndex_def int_word_sint)

lemma next_index_of_nat: "n < 32768 \<Longrightarrow> GetNextFreeIndex (word_of_nat n - 1) = int n - 1"
  using sint_next_index[of "int n - 1"] by simp

lemma handle_index_Encode [simp]:
  "unat i < 2 ^ 15 \<Longrightarrow> unat (handle_index (EncodeHandle i l)) = unat i"
  by (simp add: handle_index_def EncodeHandle_def bf_simps unsigned_take_bit_eq
      take_bit_nat_eq_self unsigned_ucast_eq)

lemma handle_linear_id_Encode [simp]:
  "unat l < 2 ^ 15 \<Longrightarrow> handle_linear_id (EncodeHandle i l) = ucast l"
  by (simp add: word_unat_eq_iff handle_linear_id_def EncodeHandle_def bf_simps unsigned_take_bit_eq
      take_bit_nat_eq_self unsigned_ucast_eq)

lemma handle_reserved_Encode [simp]: "handle_reserved (EncodeHandle i l) = 0"
  by (simp add: handle_reserved_def EncodeHandle_def bf_simps)

lemma handle_cong:
  assumes "handle_index h = handle_index h'" "handle_linear_id h = handle_linear_id h'"
    "handle_reserved h = handle_reserved h'"
  shows "h = h'"
proof (rule bit_word_eqI)
  fix n assume n: "n < LENGTH(32)"
  have *: "\<And>p k i. bf_extract p k h = bf_extract p k h' \<Longrightarrow> i < k \<Longrightarrow> bit h (p + i) = bit h' (p + i)"
    by (metis bit_bf_extract)
  consider "n < 15" | "15 \<le> n" "n < 30" | "30 \<le> n" by linarith
  then show "bit h n = bit h' n"
  proof cases
    case 1 then show ?thesis using *[of 0 15 n] assms by (simp add: handle_index_def)
  next
    case 2 then show ?thesis using *[of 15 15 "n - 15"] assms by (simp add: handle_linear_id_def)
  next
    case 3 then show ?thesis using *[of 30 2 "n - 30"] assms n by (simp add: handle_reserved_def)
  qed
qed

lemma reserved_not_pseudo: "handle_reserved h = 0 \<Longrightarrow> \<not> IsPseudoHandle h"
  by (auto simp: IsPseudoHandle_def PseudoHandle_CurrentProcess_def PseudoHandle_CurrentThread_def
      handle_reserved_def bf_extract_eq_take_bit)

lemma ucast_u16_less [simp]:
  "(ucast (x :: u16) :: u32) \<le> h \<longleftrightarrow> unat x \<le> unat h" "h < (ucast x :: u32) \<longleftrightarrow> unat h < unat x"
  by (simp_all add: word_le_nat_alt word_less_nat_alt unat_ucast_up)

lemma ucast_u16_u32_eq_iff [simp]: "(ucast (x :: u16) :: u32) = ucast y \<longleftrightarrow> x = y"
  by (simp add: ucast_up_eq_iff)

section \<open>Every operation keeps the invariant\<close>

lemma set_info_fields [simp]:
  "m_entry_infos (set_info i e t) = (m_entry_infos t)[nat i := e]"
  "m_objects (set_info i e t) = m_objects t" "m_table_size (set_info i e t) = m_table_size t"
  "m_count (set_info i e t) = m_count t" "m_max_count (set_info i e t) = m_max_count t"
  "m_next_linear_id (set_info i e t) = m_next_linear_id t"
  "m_free_head_index (set_info i e t) = m_free_head_index t"
  by (simp_all add: set_info_def)

lemma set_object_fields [simp]:
  "m_objects (set_object i p t) = (m_objects t)[nat i := p]"
  "m_entry_infos (set_object i p t) = m_entry_infos t" "m_table_size (set_object i p t) = m_table_size t"
  "m_count (set_object i p t) = m_count t" "m_max_count (set_object i p t) = m_max_count t"
  "m_next_linear_id (set_object i p t) = m_next_linear_id t"
  "m_free_head_index (set_object i p t) = m_free_head_index t"
  by (simp_all add: set_object_def)

lemma FreeEntry_fields [simp]:
  "m_objects (KHandleTable_FreeEntry i t) = (m_objects t)[nat i := None]"
  "m_entry_infos (KHandleTable_FreeEntry i t) = (m_entry_infos t)[nat i := word_of_int (m_free_head_index t)]"
  "m_table_size (KHandleTable_FreeEntry i t) = m_table_size t"
  "m_count (KHandleTable_FreeEntry i t) = m_count t - 1" "m_max_count (KHandleTable_FreeEntry i t) = m_max_count t"
  "m_next_linear_id (KHandleTable_FreeEntry i t) = m_next_linear_id t"
  "m_free_head_index (KHandleTable_FreeEntry i t) = i"
  by (simp_all add: KHandleTable_FreeEntry_def)

lemma free_chain_update_other:
  "i \<notin> set fl \<Longrightarrow> free_chain (es[i := e]) h fl = free_chain es h fl"
  by (induction es h fl rule: free_chain.induct) auto

lemma free_chain_unique: "free_chain es h fl \<Longrightarrow> free_chain es h fl' \<Longrightarrow> fl = fl'"
proof (induction fl arbitrary: h fl')
  case Nil then show ?case by (cases fl') auto
next
  case (Cons i fl) then show ?case by (cases fl') auto
qed

lemma ht_rep_unique: "ht_rep t fl \<Longrightarrow> ht_rep t fl' \<Longrightarrow> fl = fl'"
  unfolding ht_rep_def by (blast intro: free_chain_unique)

lemma ht_rep_in_array: "ht_rep t fl \<Longrightarrow> i < unat (m_table_size t) \<Longrightarrow> in_array t (int i)"
  by (auto simp: ht_rep_def in_array_def)

lemma init_entries_chain:
  assumes "length (m_entry_infos t) = MaxTableSize" "m_free_head_index t = -1" "n \<le> MaxTableSize"
  shows "let t' = fold KHandleTable_init_entry [0..<n] t in
    free_chain (m_entry_infos t') (m_free_head_index t') (rev [0..<n]) \<and>
    m_free_head_index t' = int n - 1 \<and>
    length (m_entry_infos t') = MaxTableSize \<and> length (m_objects t') = length (m_objects t) \<and>
    (\<forall>i < n. i < length (m_objects t) \<longrightarrow> m_objects t' ! i = None) \<and>
    m_table_size t' = m_table_size t \<and> m_count t' = m_count t \<and> m_max_count t' = m_max_count t \<and>
    m_next_linear_id t' = m_next_linear_id t"
  using assms
proof (induction n)
  case 0 then show ?case by simp
next
  case (Suc n)
  then show ?case
    by (auto simp: Let_def KHandleTable_init_entry_def MaxTableSize_def
        next_index_of_nat free_chain_update_other nth_list_update less_Suc_eq)
qed

lemma Initialize_rep:
  assumes "KHandleTable_Initialize sz t = Ok t'"
    "length (m_entry_infos t) = MaxTableSize" "length (m_objects t) = MaxTableSize"
  shows "ht_rep t' (rev [0..<unat (m_table_size t')]) \<and> m_count t' = 0 \<and>
    unat (m_table_size t') = (if sz \<le> 0 then MaxTableSize else nat sz)"
proof -
  define ts :: u16 where "ts = (if sz \<le> 0 then of_nat MaxTableSize else word_of_int sz)"
  define t1 where "t1 = t\<lparr>m_max_count := 0, m_table_size := ts, m_next_linear_id := MinLinearId,
    m_count := 0, m_free_head_index := -1\<rparr>"
  have ts: "unat ts = (if sz \<le> 0 then MaxTableSize else nat sz)" "unat ts \<le> MaxTableSize"
    using assms(1)
    by (auto simp: ts_def KHandleTable_Initialize_def MaxTableSize_def unat_word_of_int split: if_splits)
  have t': "t' = fold KHandleTable_init_entry [0..<unat ts] t1"
    using assms(1) by (simp add: KHandleTable_Initialize_def Let_def t1_def ts_def split: if_splits)
  have t1: "length (m_entry_infos t1) = MaxTableSize" "length (m_objects t1) = MaxTableSize"
    "m_free_head_index t1 = -1" "m_table_size t1 = ts" "m_count t1 = 0" "m_max_count t1 = 0"
    "m_next_linear_id t1 = MinLinearId"
    using assms(2,3) by (simp_all add: t1_def)
  have "MinLinearId \<le> MaxLinearId" by (simp add: MinLinearId_def MaxLinearId_def)
  with init_entries_chain[OF t1(1,3) ts(2)] t1(2,4-) ts(2)
  have "ht_rep t' (rev [0..<unat ts]) \<and> m_count t' = 0 \<and> m_table_size t' = ts"
    unfolding t'[symmetric] Let_def ht_rep_def by auto
  with ts(1) show ?thesis by auto
qed

lemma AllocateLinearId_rep:
  assumes "ht_rep t fl" "KHandleTable_AllocateLinearId t = (lid, t')"
  shows "ht_rep t' fl" "lid = m_next_linear_id t" "MinLinearId \<le> lid" "lid \<le> MaxLinearId"
    "m_objects t' = m_objects t" "m_entry_infos t' = m_entry_infos t" "m_table_size t' = m_table_size t"
    "m_count t' = m_count t" "m_free_head_index t' = m_free_head_index t"
  using assms
  by (auto simp: KHandleTable_AllocateLinearId_def Let_def ht_rep_def MinLinearId_def MaxLinearId_def
      word_le_nat_alt word_less_nat_alt unat_word_ariths split: if_splits)

lemma AllocateEntry_rep:
  assumes "ht_rep t fl" "m_count t < m_table_size t"
  shows "\<exists>i fl' t'. fl = i # fl' \<and> KHandleTable_AllocateEntry t = Ok (int i, t') \<and>
    ht_rep t' fl' \<and> i \<notin> set fl' \<and> i < unat (m_table_size t) \<and> m_objects t ! i = None \<and>
    m_objects t' = m_objects t \<and> m_entry_infos t' = m_entry_infos t \<and>
    m_table_size t' = m_table_size t \<and> m_next_linear_id t' = m_next_linear_id t"
proof -
  from assms obtain i fl' where fl: "fl = i # fl'"
    by (cases fl) (auto simp: ht_rep_def word_less_nat_alt)
  then show ?thesis using assms
    by (auto simp: KHandleTable_AllocateEntry_def Let_def ht_rep_def in_array_def MaxTableSize_def
        word_less_nat_alt word_le_nat_alt unat_word_ariths max_def)
qed

lemma FreeEntry_rep:
  assumes rep: "ht_rep t fl" and i: "i < unat (m_table_size t)" "i \<notin> set fl"
  shows "ht_rep (KHandleTable_FreeEntry (int i) t) (i # fl)"
proof -
  have "set (i # fl) \<subseteq> {..<unat (m_table_size t)}" "distinct (i # fl)"
    using assms by (auto simp: ht_rep_def)
  then have "length (i # fl) \<le> unat (m_table_size t)"
    by (metis card_lessThan card_mono distinct_card finite_lessThan)
  then have cnt: "0 < unat (m_count t)" using rep by (auto simp: ht_rep_def)
  have head: "- 1 \<le> m_free_head_index t \<and> m_free_head_index t < 32768"
    using rep by (cases fl) (auto simp: ht_rep_def MaxTableSize_def)
  from cnt have "unat (m_count t - 1) = unat (m_count t) - 1"
    by (simp add: unat_diff_no_wrap)
  with cnt head assms show ?thesis
    by (auto simp: ht_rep_def MaxTableSize_def
        sint_next_index free_chain_update_other nth_list_update word_le_nat_alt)
qed

lemma linear_id_bounds: "MinLinearId \<le> e \<Longrightarrow> e \<le> MaxLinearId \<Longrightarrow> e \<noteq> 0 \<and> unat e < 2 ^ 15"
  by (auto simp: MinLinearId_def MaxLinearId_def word_le_nat_alt)

lemma GetObjectImpl_iff:
  assumes "ht_rep t fl"
  shows "KHandleTable_GetObjectImpl t h = Some p \<longleftrightarrow>
    handle_reserved h = 0 \<and> unat (handle_index h) < unat (m_table_size t) \<and>
    m_objects t ! unat (handle_index h) = Some p \<and>
    handle_linear_id h = ucast (m_entry_infos t ! unat (handle_index h))"
proof -
  have "handle_linear_id h \<noteq> 0 \<and> h \<noteq> 0"
    if "unat (handle_index h) < unat (m_table_size t)"
      "m_objects t ! unat (handle_index h) = Some p"
      "handle_linear_id h = ucast (m_entry_infos t ! unat (handle_index h))"
  proof -
    from that assms have "m_entry_infos t ! unat (handle_index h) \<noteq> 0"
      using linear_id_bounds by (auto simp: ht_rep_def)
    with that(3) have "handle_linear_id h \<noteq> 0"
      by (simp add: word_unat_eq_iff unat_ucast_up)
    then show ?thesis by (auto simp: handle_linear_id_def bf_simps)
  qed
  then show ?thesis
    by (cases "handle_linear_id h = ucast (m_entry_infos t ! unat (handle_index h))")
       (auto simp: KHandleTable_GetObjectImpl_def KHandleTable_IsValidHandle_def Let_def
        GetLinearId_def not_le)
qed

lemma set_entry_rep:
  assumes rep: "ht_rep t fl" and i: "i < unat (m_table_size t)" "i \<notin> set fl"
    and id: "MinLinearId \<le> lid" "lid \<le> MaxLinearId"
  shows "ht_rep (set_object (int i) (Some p) (set_info (int i) lid t)) fl"
  using assms
  by (auto simp: ht_rep_def free_chain_update_other nth_list_update)

text \<open>Storing an object in an empty entry adds exactly one handle to the table.\<close>

lemma lookup_set_entry:
  assumes rep: "ht_rep t fl" and i: "i < unat (m_table_size t)" "i \<notin> set fl"
    and empty: "m_objects t ! i = None"
    and id: "MinLinearId \<le> lid" "lid \<le> MaxLinearId"
    and h: "unat (handle_index h) = i" "handle_linear_id h = ucast lid" "handle_reserved h = 0"
  shows "KHandleTable_GetObjectImpl t h = None"
    "KHandleTable_GetObjectImpl (set_object (int i) (Some p) (set_info (int i) lid t)) =
       (KHandleTable_GetObjectImpl t)(h \<mapsto> p)"
proof -
  let ?t' = "set_object (int i) (Some p) (set_info (int i) lid t)"
  have lens: "length (m_objects t) = MaxTableSize" "length (m_entry_infos t) = MaxTableSize"
    "unat (m_table_size t) \<le> MaxTableSize" using rep by (auto simp: ht_rep_def)
  show none: "KHandleTable_GetObjectImpl t h = None"
    using GetObjectImpl_iff[OF rep, of h] empty h
    by (cases "KHandleTable_GetObjectImpl t h") auto
  have iff: "KHandleTable_GetObjectImpl ?t' h' = Some q \<longleftrightarrow>
    ((KHandleTable_GetObjectImpl t)(h \<mapsto> p)) h' = Some q" for h' q
  proof (cases "h' = h")
    case True
    then show ?thesis
      using GetObjectImpl_iff[OF set_entry_rep[OF rep i id, of p], of h] h i lens
      by auto
  next
    case False
    show ?thesis
    proof (cases "unat (handle_index h') = i")
      case True
      have "\<not> (handle_reserved h' = 0 \<and> handle_linear_id h' = ucast lid)"
        using False handle_cong[of h' h] True h by (auto simp: word_unat_eq_iff)
      with True False empty i lens show ?thesis
        by (auto simp: GetObjectImpl_iff[OF set_entry_rep[OF rep i id, of p]] GetObjectImpl_iff[OF rep]
           )
    next
      case neq: False
      with False show ?thesis
        by (auto simp: GetObjectImpl_iff[OF set_entry_rep[OF rep i id, of p]] GetObjectImpl_iff[OF rep]
           )
    qed
  qed
  show "KHandleTable_GetObjectImpl ?t' = (KHandleTable_GetObjectImpl t)(h \<mapsto> p)"
  proof
    fix h' from iff[of h'] show "KHandleTable_GetObjectImpl ?t' h' = ((KHandleTable_GetObjectImpl t)(h \<mapsto> p)) h'"
      by (metis not_Some_eq)
  qed
qed

text \<open>The linear id counter runs through 1 to 0x7FFF and wraps.\<close>

definition next_id :: "u16 \<Rightarrow> u16" where
  "next_id i = (if i + 1 > MaxLinearId then MinLinearId else i + 1)"

lemma AllocateLinearId_next: "m_next_linear_id (snd (KHandleTable_AllocateLinearId t)) = next_id (m_next_linear_id t)"
  by (simp add: KHandleTable_AllocateLinearId_def next_id_def Let_def)

lemma Add_spec:
  assumes inv: "ht_inv t" and cnt: "m_count t < m_table_size t"
  shows "\<exists>h t'. KHandleTable_Add p t s = Ok (h, t', snd (KAutoObject_Open p s)) \<and> ht_inv t' \<and>
    KHandleTable_GetObjectImpl t h = None \<and>
    KHandleTable_GetObjectImpl t' = (KHandleTable_GetObjectImpl t)(h \<mapsto> p) \<and>
    m_table_size t' = m_table_size t \<and> m_count t' = m_count t + 1 \<and>
    handle_linear_id h = ucast (m_next_linear_id t) \<and> handle_reserved h = 0 \<and>
    m_next_linear_id t' = next_id (m_next_linear_id t)"
proof -
  from inv obtain fl where rep: "ht_rep t fl" by (auto simp: ht_inv_def)
  obtain lid t1 where a: "KHandleTable_AllocateLinearId t = (lid, t1)" by fastforce
  note l = AllocateLinearId_rep[OF rep a]
  from l cnt have "m_count t1 < m_table_size t1" by simp
  from AllocateEntry_rep[OF l(1) this] obtain i fl' t2 where e: "fl = i # fl'"
    "KHandleTable_AllocateEntry t1 = Ok (int i, t2)" "ht_rep t2 fl'" "i \<notin> set fl'"
    "i < unat (m_table_size t)" "m_objects t ! i = None" "m_objects t2 = m_objects t"
    "m_entry_infos t2 = m_entry_infos t" "m_table_size t2 = m_table_size t"
    "m_next_linear_id t2 = m_next_linear_id t1"
    by (auto simp: l)
  let ?h = "EncodeHandle (word_of_int (int i)) lid"
  let ?t' = "set_object (int i) (Some p) (set_info (int i) lid t2)"
  from e(5) rep have "i < 2 ^ 15" by (auto simp: ht_rep_def MaxTableSize_def)
  with linear_id_bounds[OF l(3,4)] have h: "unat (handle_index ?h) = i" "handle_linear_id ?h = ucast lid" "handle_reserved ?h = 0"
    by (simp_all add: unsigned_of_nat take_bit_nat_eq_self)
  have same: "KHandleTable_GetObjectImpl t2 = KHandleTable_GetObjectImpl t"
    by (intro ext) (simp add: KHandleTable_GetObjectImpl_def KHandleTable_IsValidHandle_def e)
  have i2: "i < unat (m_table_size t2)" "m_objects t2 ! i = None" using e by simp_all
  have "KHandleTable_Add p t s = Ok (?h, ?t', snd (KAutoObject_Open p s))"
    using cnt by (simp add: KHandleTable_Add_def a e)
  moreover have "ht_inv ?t'"
    using set_entry_rep[OF e(3) i2(1) e(4) l(3,4)] by (auto simp: ht_inv_def)
  moreover have "m_count ?t' = m_count t + 1"
    using e(2) l by (auto simp: KHandleTable_AllocateEntry_def Let_def split: if_splits)
  moreover have "m_next_linear_id ?t' = next_id (m_next_linear_id t)"
    using AllocateLinearId_next[of t] a e by simp
  ultimately show ?thesis
    using lookup_set_entry(1)[OF e(3) i2(1) e(4) i2(2) l(3,4) h]
      lookup_set_entry(2)[OF e(3) i2(1) e(4) i2(2) l(3,4) h, of p] h l(2) e(9) same
    by auto
qed

lemma Add_full: "\<not> m_count t < m_table_size t \<Longrightarrow> KHandleTable_Add p t s = Err ResultOutOfHandles"
  by (simp add: KHandleTable_Add_def)

lemma GetObjectImpl_not_free:
  assumes "ht_rep t fl" "KHandleTable_GetObjectImpl t h = Some p"
  shows "unat (handle_index h) \<notin> set fl"
  using assms by (auto simp: GetObjectImpl_iff ht_rep_def)

lemma Remove_spec:
  assumes inv: "ht_inv t"
  shows "KHandleTable_Remove h t s =
      (case KHandleTable_GetObjectImpl t h of
         None \<Rightarrow> (False, t, s)
       | Some p \<Rightarrow> (True, KHandleTable_FreeEntry (int (unat (handle_index h))) t,
                    KAutoObject_Close p (KernelCore_UnregisterInUseObject p s)))"
proof -
  from inv obtain fl where rep: "ht_rep t fl" by (auto simp: ht_inv_def)
  show ?thesis
    using reserved_not_pseudo[of h]
    by (auto simp: KHandleTable_Remove_def KHandleTable_GetObjectImpl_def KHandleTable_IsValidHandle_def
        Let_def split: option.splits if_splits)
qed

lemma lookup_FreeEntry:
  assumes rep: "ht_rep t fl" and p: "KHandleTable_GetObjectImpl t h = Some p"
  shows "KHandleTable_GetObjectImpl (KHandleTable_FreeEntry (int (unat (handle_index h))) t) =
    (KHandleTable_GetObjectImpl t)(h := None)"
proof
  fix h'
  let ?i = "unat (handle_index h)"
  let ?t' = "KHandleTable_FreeEntry (int ?i) t"
  have i: "?i < unat (m_table_size t)" "?i \<notin> set fl" "?i < length (m_objects t)"
    using p rep GetObjectImpl_not_free[OF rep p] by (auto simp: GetObjectImpl_iff ht_rep_def)
  note rep' = FreeEntry_rep[OF rep i(1,2)]
  show "KHandleTable_GetObjectImpl ?t' h' = ((KHandleTable_GetObjectImpl t)(h := None)) h'"
  proof (cases "unat (handle_index h') = ?i")
    case True
    have "KHandleTable_GetObjectImpl ?t' h' = None"
      using GetObjectImpl_iff[OF rep', of h'] True i
      by (cases "KHandleTable_GetObjectImpl ?t' h'")
         auto
    moreover have "h' = h \<or> KHandleTable_GetObjectImpl t h' = None"
      using p True handle_cong[of h' h]
      by (cases "KHandleTable_GetObjectImpl t h'") (auto simp: GetObjectImpl_iff[OF rep] word_unat_eq_iff)
    ultimately show ?thesis by auto
  next
    case False
    then have "KHandleTable_GetObjectImpl ?t' h' = Some q \<longleftrightarrow> KHandleTable_GetObjectImpl t h' = Some q" for q
      unfolding GetObjectImpl_iff[OF rep'] GetObjectImpl_iff[OF rep] by auto
    with False show ?thesis by (metis fun_upd_other not_Some_eq)
  qed
qed

lemma Remove_keeps:
  assumes inv: "ht_inv t"
  shows "ht_inv (fst (snd (KHandleTable_Remove h t s)))"
    "KHandleTable_GetObjectImpl (fst (snd (KHandleTable_Remove h t s))) =
      (KHandleTable_GetObjectImpl t)(h := None)"
    "m_next_linear_id (fst (snd (KHandleTable_Remove h t s))) = m_next_linear_id t"
proof -
  from inv obtain fl where rep: "ht_rep t fl" by (auto simp: ht_inv_def)
  have "ht_inv (KHandleTable_FreeEntry (int (unat (handle_index h))) t)"
    if "KHandleTable_GetObjectImpl t h = Some p" for p
    using FreeEntry_rep[OF rep _ GetObjectImpl_not_free[OF rep that]] that
    unfolding ht_inv_def GetObjectImpl_iff[OF rep] by blast
  with inv lookup_FreeEntry[OF rep] show "ht_inv (fst (snd (KHandleTable_Remove h t s)))"
    "KHandleTable_GetObjectImpl (fst (snd (KHandleTable_Remove h t s))) =
      (KHandleTable_GetObjectImpl t)(h := None)"
    "m_next_linear_id (fst (snd (KHandleTable_Remove h t s))) = m_next_linear_id t"
    by (auto simp: Remove_spec[OF inv] fun_upd_idem split: option.splits)
qed
lemma AllocateEntry_lookup:
  assumes "KHandleTable_AllocateEntry t = Ok (i, t')"
  shows "KHandleTable_GetObjectImpl t' = KHandleTable_GetObjectImpl t"
  using assms
  by (intro ext) (auto simp: KHandleTable_AllocateEntry_def KHandleTable_GetObjectImpl_def
      KHandleTable_IsValidHandle_def Let_def split: if_splits)

lemma Reserve_spec:
  assumes inv: "ht_inv t" and cnt: "m_count t < m_table_size t"
  shows "\<exists>h t'. KHandleTable_Reserve t = Ok (h, t') \<and> ht_inv t' \<and>
    KHandleTable_GetObjectImpl t' = KHandleTable_GetObjectImpl t \<and>
    ht_reserved t' (unat (handle_index h)) \<and> handle_linear_id h = ucast (m_next_linear_id t) \<and>
    handle_reserved h = 0 \<and> handle_linear_id h \<noteq> 0 \<and>
    m_count t' = m_count t + 1 \<and> m_table_size t' = m_table_size t"
proof -
  from inv obtain fl where rep: "ht_rep t fl" by (auto simp: ht_inv_def)
  from AllocateEntry_rep[OF rep cnt] obtain i fl' t1 where e: "fl = i # fl'"
    "KHandleTable_AllocateEntry t = Ok (int i, t1)" "ht_rep t1 fl'" "i \<notin> set fl'"
    "i < unat (m_table_size t)" "m_objects t ! i = None" "m_objects t1 = m_objects t"
    "m_entry_infos t1 = m_entry_infos t" "m_table_size t1 = m_table_size t"
    "m_next_linear_id t1 = m_next_linear_id t"
    by auto
  obtain lid t2 where a: "KHandleTable_AllocateLinearId t1 = (lid, t2)" by fastforce
  note l = AllocateLinearId_rep[OF e(3) a]
  let ?h = "EncodeHandle (word_of_int (int i)) lid"
  have "KHandleTable_Reserve t = Ok (?h, t2)"
    using cnt by (simp add: KHandleTable_Reserve_def a e)
  moreover have "KHandleTable_GetObjectImpl t2 = KHandleTable_GetObjectImpl t1"
    by (intro ext) (simp add: KHandleTable_GetObjectImpl_def KHandleTable_IsValidHandle_def l)
  moreover have "ht_inv t2" using l(1) by (auto simp: ht_inv_def)
  moreover have h: "unat (handle_index ?h) = i" "handle_linear_id ?h = ucast lid" "handle_reserved ?h = 0"
  proof -
    have "i < 2 ^ 15" using e(5) rep by (auto simp: ht_rep_def MaxTableSize_def)
    with linear_id_bounds[OF l(3,4)] show "unat (handle_index ?h) = i"
      "handle_linear_id ?h = ucast lid" "handle_reserved ?h = 0"
      by (simp_all add: unsigned_of_nat take_bit_nat_eq_self)
  qed
  moreover have "(ucast lid :: u32) \<noteq> 0"
    using linear_id_bounds[OF l(3,4)] by (simp add: word_unat_eq_iff unat_ucast_up)
  moreover have "ht_reserved t2 i"
    unfolding ht_reserved_def using e(4-7,9) l(5,7) ht_rep_unique[OF l(1)] by (metis (no_types))
  moreover have "m_count t2 = m_count t + 1" "m_table_size t2 = m_table_size t"
    using e(2) l by (auto simp: KHandleTable_AllocateEntry_def Let_def split: if_splits)
  ultimately show ?thesis
    using l(2) e(10) AllocateEntry_lookup[OF e(2)] by (intro exI[of _ ?h] exI[of _ t2]) simp
qed

lemma Reserve_full: "\<not> m_count t < m_table_size t \<Longrightarrow> KHandleTable_Reserve t = Err ResultOutOfHandles"
  by (simp add: KHandleTable_Reserve_def)

lemma handle_id_u16:
  assumes "handle_linear_id h \<noteq> 0"
  shows "MinLinearId \<le> (ucast (handle_linear_id h) :: u16)" "(ucast (handle_linear_id h) :: u16) \<le> MaxLinearId"
    "ucast (ucast (handle_linear_id h) :: u16) = handle_linear_id h"
proof -
  have b: "unat (handle_linear_id h) < 2 ^ 15"
    unfolding handle_linear_id_def by (rule unat_bf_extract_less)
  then have u: "unat (ucast (handle_linear_id h) :: u16) = unat (handle_linear_id h)"
    by (simp add: unsigned_ucast_eq take_bit_nat_eq_self)
  have "unat (handle_linear_id h) \<noteq> 0" using assms by (simp add: unat_eq_0)
  with b u show "MinLinearId \<le> (ucast (handle_linear_id h) :: u16)" "(ucast (handle_linear_id h) :: u16) \<le> MaxLinearId"
    by (simp_all add: MinLinearId_def MaxLinearId_def word_le_nat_alt)
  show "ucast (ucast (handle_linear_id h) :: u16) = handle_linear_id h"
    using u by (simp add: word_unat_eq_iff unat_ucast_up)
qed

lemma Register_spec:
  assumes inv: "ht_inv t" and r: "ht_reserved t (unat (handle_index h))"
    and h: "handle_reserved h = 0" "handle_linear_id h \<noteq> 0"
  shows "\<exists>t'. KHandleTable_Register h p t s = (t', snd (KAutoObject_Open p s)) \<and> ht_inv t' \<and>
    KHandleTable_GetObjectImpl t' = (KHandleTable_GetObjectImpl t)(h \<mapsto> p)"
proof -
  from inv obtain fl where rep: "ht_rep t fl" by (auto simp: ht_inv_def)
  let ?i = "unat (handle_index h)"
  from r rep have i: "?i < unat (m_table_size t)" "?i \<notin> set fl" "m_objects t ! ?i = None"
    by (auto simp: ht_reserved_def)
  note id = handle_id_u16[OF h(2)]
  show ?thesis
    using i set_entry_rep[OF rep i(1,2) id(1,2), of p]
      lookup_set_entry(2)[OF rep i id(1,2) refl id(3)[symmetric] h(1), of p]
    unfolding KHandleTable_Register_def Let_def by (auto simp: ht_inv_def)
qed

lemma Unreserve_spec:
  assumes inv: "ht_inv t" and r: "ht_reserved t (unat (handle_index h))"
  shows "ht_inv (KHandleTable_Unreserve h t)"
    "KHandleTable_GetObjectImpl (KHandleTable_Unreserve h t) = KHandleTable_GetObjectImpl t"
proof -
  from inv obtain fl where rep: "ht_rep t fl" by (auto simp: ht_inv_def)
  let ?i = "unat (handle_index h)"
  from r rep have i: "?i < unat (m_table_size t)" "?i \<notin> set fl" "m_objects t ! ?i = None"
    by (auto simp: ht_reserved_def)
  note rep' = FreeEntry_rep[OF rep i(1,2)]
  have eq: "KHandleTable_Unreserve h t = KHandleTable_FreeEntry (int ?i) t"
    unfolding KHandleTable_Unreserve_def Let_def using i by simp
  from rep' show "ht_inv (KHandleTable_Unreserve h t)"
    unfolding eq ht_inv_def by blast
  have "KHandleTable_GetObjectImpl (KHandleTable_FreeEntry (int ?i) t) h' = Some q \<longleftrightarrow>
    KHandleTable_GetObjectImpl t h' = Some q" for h' q
    unfolding GetObjectImpl_iff[OF rep'] GetObjectImpl_iff[OF rep] using i rep
    by (cases "unat (handle_index h') = ?i") (auto simp: ht_rep_def)
  then show "KHandleTable_GetObjectImpl (KHandleTable_Unreserve h t) = KHandleTable_GetObjectImpl t"
    unfolding eq by (intro ext) (metis not_Some_eq)
qed

text \<open>Giving a reservation back puts the entry at the head of the chain again, with the same next entry.\<close>

lemma Reserve_Unreserve:
  assumes inv: "ht_inv t" and r: "KHandleTable_Reserve t = Ok (h, t1)"
  shows "KHandleTable_Unreserve h t1 =
    t\<lparr>m_next_linear_id := next_id (m_next_linear_id t), m_max_count := max (m_max_count t) (m_count t + 1)\<rparr>"
proof -
  from inv obtain fl where rep: "ht_rep t fl" by (auto simp: ht_inv_def)
  have cnt: "m_count t < m_table_size t" using r Reserve_full[of t] by (cases "m_count t < m_table_size t") auto
  from AllocateEntry_rep[OF rep cnt] obtain i fl' t' where e: "fl = i # fl'" "KHandleTable_AllocateEntry t = Ok (int i, t')"
    "i < unat (m_table_size t)" "m_objects t ! i = None" by auto
  have head: "m_free_head_index t = int i" using rep e(1) by (simp add: ht_rep_def)
  define lid where "lid = m_next_linear_id t"
  have t1: "h = EncodeHandle (word_of_int (int i)) lid"
    "t1 = t\<lparr>m_free_head_index := GetNextFreeIndex (m_entry_infos t ! i), m_count := m_count t + 1,
      m_max_count := max (m_max_count t) (m_count t + 1), m_next_linear_id := next_id (m_next_linear_id t)\<rparr>"
    using r cnt e(2) by (auto simp: KHandleTable_Reserve_def KHandleTable_AllocateEntry_def KHandleTable_AllocateLinearId_def
        lid_def next_id_def head Let_def split: if_splits)
  have "i < 2 ^ 15" using e(3) rep by (auto simp: ht_rep_def MaxTableSize_def)
  moreover have "MinLinearId \<le> lid" "lid \<le> MaxLinearId" using rep by (auto simp: ht_rep_def lid_def)
  ultimately have i: "unat (handle_index h) = i" using linear_id_bounds unfolding t1(1)
    by (simp_all add: unsigned_of_nat take_bit_nat_eq_self)
  have "KHandleTable_Unreserve h t1 = KHandleTable_FreeEntry (int i) t1"
    unfolding KHandleTable_Unreserve_def Let_def word_less_nat_alt i using e(3) by (simp add: t1(2) unat_ucast_up)
  also have "\<dots> = t\<lparr>m_next_linear_id := next_id (m_next_linear_id t), m_max_count := max (m_max_count t) (m_count t + 1)\<rparr>"
    using head e(4) list_update_id[of "m_objects t" i]
    by (simp add: KHandleTable_FreeEntry_def set_info_def set_object_def t1(2) GetNextFreeIndex_def)
  finally show ?thesis .
qed

section \<open>The table as a map from handles to objects\<close>

text \<open>
  What a client of the table relies on: a successful insertion names its object by a handle that
  was not in use and changes no other handle, and a deletion drops exactly one.
\<close>

locale handle_map =
  fixes lookup :: "'t \<Rightarrow> 'h \<Rightarrow> 'o option"
    and insert_op :: "'o \<Rightarrow> 't \<Rightarrow> ('h \<times> 't) option"
    and delete_op :: "'h \<Rightarrow> 't \<Rightarrow> 't"
    and wf_map :: "'t \<Rightarrow> bool"
  assumes wf_insert: "wf_map t \<Longrightarrow> insert_op p t = Some (h, t') \<Longrightarrow> wf_map t'"
    and fresh_insert: "wf_map t \<Longrightarrow> insert_op p t = Some (h, t') \<Longrightarrow> lookup t h = None"
    and lookup_insert: "wf_map t \<Longrightarrow> insert_op p t = Some (h, t') \<Longrightarrow> lookup t' = (lookup t)(h \<mapsto> p)"
    and wf_delete: "wf_map t \<Longrightarrow> wf_map (delete_op h t)"
    and lookup_delete: "wf_map t \<Longrightarrow> lookup (delete_op h t) = (lookup t)(h := None)"
begin

definition step :: "'o + 'h \<Rightarrow> 't \<Rightarrow> 't" where
  "step e t = (case e of
       Inl p \<Rightarrow> (case insert_op p t of None \<Rightarrow> t | Some (h, t') \<Rightarrow> t')
     | Inr h \<Rightarrow> delete_op h t)"

lemma step_wf: "wf_map t \<Longrightarrow> wf_map (step e t)"
  by (auto simp: step_def split: sum.splits option.splits intro: wf_insert wf_delete)

lemma run_wf: "wf_map t \<Longrightarrow> wf_map (fold step es t)"
  by (induction es arbitrary: t) (auto intro: step_wf)

text \<open>An open handle keeps its object until it is deleted.\<close>

lemma step_survives:
  "wf_map t \<Longrightarrow> lookup t h = Some p \<Longrightarrow> e \<noteq> Inr h \<Longrightarrow> lookup (step e t) h = Some p"
  by (auto simp: step_def lookup_insert lookup_delete split: sum.splits option.splits
      dest: fresh_insert)

lemma run_survives:
  "wf_map t \<Longrightarrow> lookup t h = Some p \<Longrightarrow> Inr h \<notin> set es \<Longrightarrow> lookup (fold step es t) h = Some p"
  by (induction es arbitrary: t) (auto simp: step_survives step_wf)

text \<open>A handle names only an object that was inserted.\<close>

lemma step_origin:
  "wf_map t \<Longrightarrow> lookup (step e t) h = Some p \<Longrightarrow> lookup t h = Some p \<or> e = Inl p"
  by (auto simp: step_def lookup_insert lookup_delete split: sum.splits option.splits if_splits)

lemma run_origin:
  "wf_map t \<Longrightarrow> lookup (fold step es t) h = Some p \<Longrightarrow> lookup t h = Some p \<or> Inl p \<in> set es"
proof (induction es arbitrary: t)
  case Nil then show ?case by simp
next
  case (Cons e es)
  then show ?case using step_origin[of t e h p] step_wf[of t e] by auto
qed

end

definition ht_insert :: "'o object_store \<Rightarrow> 'o \<Rightarrow> 'o handle_table \<Rightarrow> (u32 \<times> 'o handle_table) option" where
  "ht_insert s p t = (case KHandleTable_Add p t s of Ok (h, t', s') \<Rightarrow> Some (h, t') | _ \<Rightarrow> None)"

definition ht_delete :: "'o object_store \<Rightarrow> u32 \<Rightarrow> 'o handle_table \<Rightarrow> 'o handle_table" where
  "ht_delete s h t = fst (snd (KHandleTable_Remove h t s))"

lemma ht_insert_cases:
  assumes "ht_inv t" "ht_insert s p t = Some (h, t')"
  shows "ht_inv t' \<and> KHandleTable_GetObjectImpl t h = None \<and>
    KHandleTable_GetObjectImpl t' = (KHandleTable_GetObjectImpl t)(h \<mapsto> p) \<and>
    handle_linear_id h = ucast (m_next_linear_id t) \<and> m_next_linear_id t' = next_id (m_next_linear_id t)"
proof (cases "m_count t < m_table_size t")
  case True
  from Add_spec[OF assms(1) this, of p s] assms(2) show ?thesis by (auto simp: ht_insert_def)
next
  case False
  with assms(2) show ?thesis by (simp add: ht_insert_def Add_full)
qed

interpretation ht: handle_map KHandleTable_GetObjectImpl "ht_insert s" "ht_delete s" ht_inv
  by unfold_locales (auto simp: ht_delete_def Remove_keeps dest: ht_insert_cases)

section \<open>Stale handles\<close>

lemma unat_next_id:
  assumes "1 \<le> unat i" "unat i \<le> 32767"
  shows "unat (next_id i) = unat i mod 32767 + 1"
proof (cases "unat i = 32767")
  case True
  then have "unat (i + 1) = 32768" by (simp add: unat_word_ariths)
  then show ?thesis using True
    by (simp add: next_id_def MaxLinearId_def MinLinearId_def word_less_nat_alt)
next
  case False
  with assms have "unat (i + 1) = unat i + 1" by (simp add: unat_word_ariths)
  with False assms show ?thesis
    by (simp add: next_id_def MaxLinearId_def MinLinearId_def word_less_nat_alt)
qed

lemma unat_next_id_iterate:
  assumes "1 \<le> unat i" "unat i \<le> 32767"
  shows "unat ((next_id ^^ k) i) = (unat i - 1 + k) mod 32767 + 1"
proof (induction k)
  case 0
  from assms show ?case by simp
next
  case (Suc k)
  have "unat ((next_id ^^ Suc k) i) = unat ((next_id ^^ k) i) mod 32767 + 1"
    using unat_next_id[of "(next_id ^^ k) i"] Suc.IH by simp
  also have "\<dots> = ((unat i - 1 + k) mod 32767 + 1) mod 32767 + 1"
    by (simp only: Suc.IH)
  also have "\<dots> = (unat i - 1 + Suc k) mod 32767 + 1"
    by (simp add: mod_simps)
  finally show ?case .
qed

lemma next_id_no_return:
  assumes "1 \<le> unat i" "unat i \<le> 32767" "0 < k" "k < 32767"
  shows "(next_id ^^ k) i \<noteq> i"
proof
  define x where "x = unat i - 1"
  assume "(next_id ^^ k) i = i"
  then have "unat i = (x + k) mod 32767 + 1"
    using unat_next_id_iterate[OF assms(1,2), of k] unfolding x_def by metis
  then have eq: "(x + k) mod 32767 = x"
    unfolding x_def by (metis add_diff_cancel_right')
  have "x < 32767" using assms(2) by (simp add: x_def)
  with eq assms(3,4) show False by (cases "x + k < 32767") (auto simp: mod_if split: if_splits)
qed

definition ht_step :: "'o object_store \<Rightarrow> 'o + u32 \<Rightarrow> 'o handle_table \<Rightarrow> 'o handle_table" where
  "ht_step s e t = (case e of
       Inl p \<Rightarrow> (case KHandleTable_Add p t s of Ok (h, t', s') \<Rightarrow> t' | _ \<Rightarrow> t)
     | Inr h \<Rightarrow> fst (snd (KHandleTable_Remove h t s)))"

lemma ht_step_eq: "ht_step s = ht.step s"
  by (intro ext) (auto simp: ht_step_def ht.step_def ht_insert_def ht_delete_def
      split: sum.splits res.splits)

definition num_adds :: "('o + u32) list \<Rightarrow> nat" where
  "num_adds es = length (filter isl es)"

lemma num_adds_simps [simp]:
  "num_adds [] = 0" "num_adds (Inl p # es) = Suc (num_adds es)" "num_adds (Inr h # es) = num_adds es"
  by (simp_all add: num_adds_def)

lemma stale_run:
  assumes i: "MinLinearId \<le> i" "i \<le> MaxLinearId" and h: "handle_linear_id h = ucast i"
  shows "ht_inv t \<Longrightarrow> m_next_linear_id t = (next_id ^^ k) i \<Longrightarrow> 0 < k \<Longrightarrow> k + num_adds es \<le> 32767 \<Longrightarrow>
    KHandleTable_GetObjectImpl t h = None \<Longrightarrow>
    KHandleTable_GetObjectImpl (fold (ht_step s) es t) h = None"
proof (induction es arbitrary: t k)
  case Nil then show ?case by simp
next
  case (Cons e es)
  have ib: "1 \<le> unat i" "unat i \<le> 32767"
    using i by (simp_all add: MinLinearId_def MaxLinearId_def word_le_nat_alt)
  have wf: "ht_inv (ht_step s e t)" using ht.step_wf[OF Cons.prems(1)] by (simp add: ht_step_eq)
  show ?case
  proof (cases e)
    case (Inr h')
    have "KHandleTable_GetObjectImpl (ht_step s e t) h = None"
      using Cons.prems(1,5) by (simp add: ht_step_def Inr Remove_keeps)
    moreover have "m_next_linear_id (ht_step s e t) = (next_id ^^ k) i"
      using Cons.prems(1,2) by (simp add: ht_step_def Inr Remove_keeps)
    ultimately show ?thesis using Cons.IH[OF wf] Cons.prems Inr by simp
  next
    case (Inl p)
    show ?thesis
    proof (cases "ht_insert s p t")
      case None
      then have "ht_step s e t = t" by (simp add: ht_step_eq ht.step_def Inl)
      with Cons.IH[of t k] Cons.prems Inl show ?thesis by simp
    next
      case (Some r)
      obtain h' t' where r: "r = (h', t')" by fastforce
      with Some have st: "ht_step s e t = t'" by (simp add: ht_step_eq ht.step_def Inl)
      note c = ht_insert_cases[OF Cons.prems(1) Some[unfolded r]]
      have "(next_id ^^ k) i \<noteq> i"
        using next_id_no_return[OF ib Cons.prems(3)] Cons.prems(4) Inl by simp
      with c h Cons.prems(2) have "h' \<noteq> h" by auto
      with c Cons.prems(5) have "KHandleTable_GetObjectImpl t' h = None" by simp
      moreover have "m_next_linear_id t' = (next_id ^^ Suc k) i" using c Cons.prems(2) by simp
      ultimately show ?thesis
        using Cons.IH[of t' "Suc k"] c Cons.prems(4) Inl st by simp
    qed
  qed
qed

lemma handle_run:
  assumes i: "MinLinearId \<le> i" "i \<le> MaxLinearId" and h: "handle_linear_id h = ucast i"
  shows "ht_inv t \<Longrightarrow> m_next_linear_id t = (next_id ^^ k) i \<Longrightarrow> 0 < k \<Longrightarrow> k + num_adds es \<le> 32767 \<Longrightarrow>
    KHandleTable_GetObjectImpl t h = Some p \<Longrightarrow>
    KHandleTable_GetObjectImpl (fold (ht_step s) es t) h = (if Inr h \<in> set es then None else Some p)"
proof (induction es arbitrary: t k)
  case Nil then show ?case by simp
next
  case (Cons e es)
  have wf: "ht_inv (ht_step s e t)" using ht.step_wf[OF Cons.prems(1)] by (simp add: ht_step_eq)
  define k' where "k' = (if ht_step s e t = t \<or> \<not> isl e then k else Suc k)"
  have nid: "m_next_linear_id (ht_step s e t) = (next_id ^^ k') i"
  proof (cases e)
    case (Inl q)
    then show ?thesis using Cons.prems(1,2) ht_insert_cases[of t s q]
      by (cases "ht_insert s q t") (auto simp: k'_def ht_step_eq ht.step_def)
  qed (use Cons.prems(1,2) in \<open>simp add: k'_def ht_step_def Remove_keeps\<close>)
  have k': "0 < k'" "k' + num_adds es \<le> 32767"
    using Cons.prems(3,4) by (cases e; auto simp: k'_def)+
  show ?case
  proof (cases "e = Inr h")
    case True
    then have "KHandleTable_GetObjectImpl (ht_step s e t) h = None"
      using Cons.prems(1) by (simp add: ht_step_def Remove_keeps)
    from stale_run[OF i h wf nid k' this] True show ?thesis by simp
  next
    case False
    then have "KHandleTable_GetObjectImpl (ht_step s e t) h = Some p"
      using ht.step_survives[OF Cons.prems(1,5)] by (simp add: ht_step_eq)
    from Cons.IH[OF wf nid k' this] False show ?thesis by auto
  qed
qed

section \<open>Reference counts of bulk lookups\<close>

definition bump_refs :: "'o list \<Rightarrow> 'o object_store \<Rightarrow> 'o object_store" where
  "bump_refs ps s = s\<lparr>ref_count := \<lambda>p. ref_count s p + of_nat (count_list ps p)\<rparr>"

lemma bump_refs_Cons:
  "ref_count s p \<noteq> 0 \<Longrightarrow> bump_refs ps (snd (KAutoObject_Open p s)) = bump_refs (p # ps) s"
  by (auto simp: bump_refs_def KAutoObject_Open_def fun_eq_iff)

definition refs_live :: "'o handle_table \<Rightarrow> nat \<Rightarrow> 'o object_store \<Rightarrow> bool" where
  "refs_live t n s \<longleftrightarrow>
     (\<forall>h p. KHandleTable_GetObjectImpl t h = Some p \<longrightarrow>
        0 < unat (ref_count s p) \<and> unat (ref_count s p) + n < 2 ^ 32)"

lemma refs_live_Open:
  assumes "refs_live t (Suc n) s" "KHandleTable_GetObjectImpl t h = Some p"
  shows "refs_live t n (snd (KAutoObject_Open p s))"
  using assms unfolding refs_live_def KAutoObject_Open_def
  by (fastforce simp: unat_word_ariths)

lemma open_all_spec:
  "refs_live t (length hs) s \<Longrightarrow> KHandleTable_open_all tok target hs t s = (out, s') \<Longrightarrow>
     s' = bump_refs out s \<and> length out \<le> length hs \<and>
     (\<forall>i < length out. KHandleTable_GetObjectImpl t (hs ! i) = Some (out ! i) \<and>
        KAutoObject_IsDerivedFrom (tok (out ! i)) target) \<and>
     (length out < length hs \<longrightarrow>
        (case KHandleTable_GetObjectImpl t (hs ! length out) of None \<Rightarrow> True
         | Some p \<Rightarrow> \<not> KAutoObject_IsDerivedFrom (tok p) target))"
proof (induction hs arbitrary: s out s')
  case Nil then show ?case by (simp add: bump_refs_def)
next
  case (Cons h hs)
  show ?case
  proof (cases "\<exists>p. KHandleTable_GetObjectImpl t h = Some p \<and> KAutoObject_IsDerivedFrom (tok p) target")
    case False
    then have "out = [] \<and> s' = s"
      using Cons.prems(2) by (auto simp: KAutoObject_DynamicCast_def split: option.splits)
    with False show ?thesis by (auto simp: bump_refs_def split: option.splits)
  next
    case True
    then obtain p where p: "KHandleTable_GetObjectImpl t h = Some p" "KAutoObject_IsDerivedFrom (tok p) target"
      by blast
    obtain out' where o: "out = p # out'"
      "KHandleTable_open_all tok target hs t (snd (KAutoObject_Open p s)) = (out', s')"
      using Cons.prems(2) p by (auto simp: KAutoObject_DynamicCast_def split: prod.splits)
    have live: "refs_live t (length hs) (snd (KAutoObject_Open p s))"
      using refs_live_Open[OF _ p(1)] Cons.prems(1) by simp
    have "ref_count s p \<noteq> 0" using Cons.prems(1) p(1) unfolding refs_live_def by fastforce
    with Cons.IH[OF live o(2)] o(1) p show ?thesis
      by (auto simp: bump_refs_Cons nth_Cons split: nat.splits)
  qed
qed

lemma close_all_spec:
  "\<forall>p \<in> set ps. count_list ps p < unat (ref_count s p) \<Longrightarrow>
     fold KAutoObject_Close ps s = s\<lparr>ref_count := \<lambda>p. ref_count s p - of_nat (count_list ps p)\<rparr>"
proof (induction ps arbitrary: s)
  case Nil then show ?case by simp
next
  case (Cons q ps)
  from Cons.prems have q: "1 < unat (ref_count s q)" by auto
  then have "ref_count s q - 1 \<noteq> 0" "unat (ref_count s q - 1) = unat (ref_count s q) - 1"
    by (auto simp: unat_diff_no_wrap dest: arg_cong[of _ _ unat])
  then have cl: "KAutoObject_Close q s = s\<lparr>ref_count := (ref_count s)(q := ref_count s q - 1)\<rparr>"
    "unat (ref_count s q - 1) = unat (ref_count s q) - 1"
    by (simp_all add: KAutoObject_Close_def)
  have "\<forall>p \<in> set ps. count_list ps p < unat (ref_count (KAutoObject_Close q s) p)"
    using Cons.prems cl by auto
  from Cons.IH[OF this] show ?case by (auto simp: cl(1) fun_eq_iff)
qed

lemma bump_then_close:
  assumes "\<forall>p \<in> set ps. 0 < unat (ref_count s p) \<and> unat (ref_count s p) + length ps < 2 ^ 32"
  shows "fold KAutoObject_Close ps (bump_refs ps s) = s"
proof -
  have "count_list ps p < unat (ref_count (bump_refs ps s) p)" if "p \<in> set ps" for p
  proof -
    have "count_list ps p \<le> length ps" by (rule count_le_length)
    then have "unat (of_nat (count_list ps p) :: u32) = count_list ps p"
      "unat (ref_count s p) + count_list ps p < 2 ^ 32"
      using assms that by (fastforce simp: unsigned_of_nat take_bit_nat_eq_self)+
    then show ?thesis using assms that by (simp add: bump_refs_def unat_add_no_wrap)
  qed
  then have "fold KAutoObject_Close ps (bump_refs ps s) = (bump_refs ps s)
    \<lparr>ref_count := \<lambda>p. ref_count (bump_refs ps s) p - of_nat (count_list ps p)\<rparr>"
    by (intro close_all_spec) blast
  then show ?thesis by (simp add: bump_refs_def)
qed

section \<open>Reachable tables\<close>

text \<open>
  A run of the table keeps the set of the handles that were reserved and neither registered nor given back. \<open>Register\<close> and
  \<open>Unreserve\<close> do not test that their handle is one of them; their callers owe it, and the two
  rules ask for it. Every other call is allowed at any time, \<open>Initialize\<close> and \<open>Finalize\<close> too.
\<close>

inductive ht_reach :: "'o handle_table \<Rightarrow> u32 set \<Rightarrow> bool" where
  default: "ht_reach KHandleTable_default {}"
| initialize: "ht_reach t R \<Longrightarrow> KHandleTable_Initialize sz t = Ok t' \<Longrightarrow> ht_reach t' {}"
| finalize: "ht_reach t R \<Longrightarrow> KHandleTable_Finalize t s = (t', s') \<Longrightarrow> ht_reach t' R"
| add: "ht_reach t R \<Longrightarrow> KHandleTable_Add p t s = Ok (h, t', s') \<Longrightarrow> ht_reach t' R"
| remove: "ht_reach t R \<Longrightarrow> KHandleTable_Remove h t s = (b, t', s') \<Longrightarrow> ht_reach t' R"
| reserve: "ht_reach t R \<Longrightarrow> KHandleTable_Reserve t = Ok (h, t') \<Longrightarrow> ht_reach t' (insert h R)"
| register: "ht_reach t R \<Longrightarrow> h \<in> R \<Longrightarrow> KHandleTable_Register h p t s = (t', s') \<Longrightarrow> ht_reach t' (R - {h})"
| unreserve: "ht_reach t R \<Longrightarrow> h \<in> R \<Longrightarrow> ht_reach (KHandleTable_Unreserve h t) (R - {h})"

text \<open>The entries that are held without an object are exactly those of the outstanding reservations.\<close>

definition held_entries :: "'o handle_table \<Rightarrow> nat list \<Rightarrow> nat set" where
  "held_entries t fl = {i. i < unat (m_table_size t) \<and> m_objects t ! i = None \<and> i \<notin> set fl}"

definition accounts :: "'o handle_table \<Rightarrow> nat list \<Rightarrow> u32 set \<Rightarrow> bool" where
  "accounts t fl R \<longleftrightarrow> ht_rep t fl \<and> inj_on handle_index R \<and>
     (\<forall>h \<in> R. handle_reserved h = 0 \<and> handle_linear_id h \<noteq> 0) \<and>
     (\<lambda>h. unat (handle_index h)) ` R = held_entries t fl"

lemma accounts_same_held:
  "accounts t fl R \<Longrightarrow> ht_rep t' fl' \<Longrightarrow> held_entries t' fl' = held_entries t fl \<Longrightarrow> accounts t' fl' R"
  by (simp add: accounts_def)

lemma accounts_inj: "accounts t fl R \<Longrightarrow> inj_on (\<lambda>h. unat (handle_index h)) R"
  by (simp add: accounts_def inj_on_def word_unat_eq_iff[symmetric])

lemma accounts_drop:
  assumes a: "accounts t fl R" "h \<in> R" and r: "ht_rep t' fl'"
    and e: "held_entries t' fl' = held_entries t fl - {unat (handle_index h)}"
  shows "accounts t' fl' (R - {h})"
proof -
  note accounts_inj[OF a(1)]
  from this have "(\<lambda>h. unat (handle_index h)) ` (R - {h}) = (\<lambda>h. unat (handle_index h)) ` R - {unat (handle_index h)}"
    using a(2) by (simp add: inj_on_image_set_diff[where C = R])
  then show ?thesis using a(1) r e by (auto simp: accounts_def intro: inj_on_subset)
qed

lemma accounts_entry:
  assumes "accounts t fl R" "h \<in> R"
  shows "unat (handle_index h) < unat (m_table_size t)" "m_objects t ! unat (handle_index h) = None"
    "unat (handle_index h) \<notin> set fl" "handle_linear_id h \<noteq> 0"
proof -
  have "unat (handle_index h) \<in> held_entries t fl" using assms by (auto simp: accounts_def)
  then show "unat (handle_index h) < unat (m_table_size t)" "m_objects t ! unat (handle_index h) = None"
    "unat (handle_index h) \<notin> set fl" by (simp_all add: held_entries_def)
  show "handle_linear_id h \<noteq> 0" using assms by (simp add: accounts_def)
qed

lemma accounts_Add:
  assumes a: "accounts t fl R" and o: "KHandleTable_Add p t s = Ok (h, t', s')"
  shows "\<exists>fl'. accounts t' fl' R"
proof -
  have rep: "ht_rep t fl" using a by (simp add: accounts_def)
  have cnt: "m_count t < m_table_size t" using o Add_full[of t p s] by (cases "m_count t < m_table_size t") auto
  obtain lid t1 where l: "KHandleTable_AllocateLinearId t = (lid, t1)" by fastforce
  note r1 = AllocateLinearId_rep[OF rep l]
  from AllocateEntry_rep[OF r1(1)] cnt r1(5,7,8) obtain i fl' t2 where e: "fl = i # fl'"
    "KHandleTable_AllocateEntry t1 = Ok (int i, t2)" "ht_rep t2 fl'" "i \<notin> set fl'" "i < unat (m_table_size t)"
    "m_objects t ! i = None" "m_objects t2 = m_objects t" "m_table_size t2 = m_table_size t" by auto
  have t': "t' = set_object (int i) (Some p) (set_info (int i) lid t2)" using o cnt by (simp add: KHandleTable_Add_def l e)
  have "i < length (m_objects t)" using rep e(5) by (simp add: ht_rep_def)
  then have "held_entries t' fl' = held_entries t fl" using e by (auto simp: held_entries_def t' nth_list_update)
  moreover have "ht_rep t' fl'" unfolding t' using set_entry_rep[OF e(3) _ e(4) r1(3,4)] e(5,8) by simp
  ultimately show ?thesis using accounts_same_held[OF a] by blast
qed

lemma accounts_Reserve:
  assumes a: "accounts t fl R" and o: "KHandleTable_Reserve t = Ok (h, t')"
  shows "\<exists>fl'. accounts t' fl' (insert h R)"
proof -
  have rep: "ht_rep t fl" using a by (simp add: accounts_def)
  have cnt: "m_count t < m_table_size t" using o Reserve_full[of t] by (cases "m_count t < m_table_size t") auto
  from AllocateEntry_rep[OF rep cnt] obtain i fl' t1 where e: "fl = i # fl'"
    "KHandleTable_AllocateEntry t = Ok (int i, t1)" "ht_rep t1 fl'" "i \<notin> set fl'" "i < unat (m_table_size t)"
    "m_objects t ! i = None" "m_objects t1 = m_objects t" "m_table_size t1 = m_table_size t" by auto
  obtain lid t2 where l: "KHandleTable_AllocateLinearId t1 = (lid, t2)" by fastforce
  note r2 = AllocateLinearId_rep[OF e(3) l]
  have h: "h = EncodeHandle (word_of_int (int i)) lid" "t' = t2" using o cnt by (simp_all add: KHandleTable_Reserve_def e l)
  have i: "unat (handle_index h) = i"
    using Reserve_spec[of t] o cnt rep e(5) unfolding h
    by (auto simp: ht_rep_def MaxTableSize_def unsigned_of_nat take_bit_nat_eq_self)
  have z: "handle_reserved h = 0" "handle_linear_id h \<noteq> 0"
    using Reserve_spec[of t] o cnt rep by (auto simp: ht_inv_def)
  have held: "held_entries t' fl' = insert i (held_entries t fl)" "i \<notin> held_entries t fl"
    using e r2(5,7) by (auto simp: held_entries_def h(2))
  have "handle_index h \<notin> handle_index ` (R - {h})"
  proof
    assume "handle_index h \<in> handle_index ` (R - {h})"
    then have "i \<in> (\<lambda>h. unat (handle_index h)) ` R" using i by force
    then show False using held(2) a by (simp add: accounts_def)
  qed
  then show ?thesis using a r2(1) held i z by (auto simp: accounts_def h(2))
qed

lemma accounts_Remove:
  assumes a: "accounts t fl R" and o: "KHandleTable_Remove h t s = (b, t', s')"
  shows "\<exists>fl'. accounts t' fl' R"
proof (cases "KHandleTable_GetObjectImpl t h")
  case None
  then have "t' = t" using a o Remove_spec[of t h s] by (auto simp: accounts_def ht_inv_def)
  then show ?thesis using a by blast
next
  case (Some p)
  let ?i = "unat (handle_index h)"
  have rep: "ht_rep t fl" using a by (simp add: accounts_def)
  have t': "t' = KHandleTable_FreeEntry (int ?i) t" using Some rep o Remove_spec[of t h s] by (auto simp: ht_inv_def)
  have i: "?i < unat (m_table_size t)" "m_objects t ! ?i = Some p" using Some by (simp_all add: GetObjectImpl_iff[OF rep])
  have "?i < length (m_objects t)" using i(1) rep by (simp add: ht_rep_def)
  then have "held_entries t' (?i # fl) = held_entries t fl" using i by (auto simp: held_entries_def t' nth_list_update)
  then show ?thesis using accounts_same_held[OF a] FreeEntry_rep[OF rep i(1) GetObjectImpl_not_free[OF rep Some]] t' by blast
qed

lemma accounts_Register:
  assumes a: "accounts t fl R" "h \<in> R" and o: "KHandleTable_Register h p t s = (t', s')"
  shows "accounts t' fl (R - {h})"
proof -
  let ?i = "unat (handle_index h)" and ?e = "ucast (handle_linear_id h) :: u16"
  note i = accounts_entry[OF a]
  have rep: "ht_rep t fl" using a by (simp add: accounts_def)
  have t': "t' = set_object (int ?i) (Some p) (set_info (int ?i) ?e t)"
    using o i(1) unfolding KHandleTable_Register_def Let_def by auto
  have "?i < length (m_objects t)" using i(1) rep by (simp add: ht_rep_def)
  then have "held_entries t' fl = held_entries t fl - {?i}" using i(1) by (auto simp: held_entries_def t' nth_list_update)
  then show ?thesis using accounts_drop[OF a set_entry_rep[OF rep i(1,3) handle_id_u16(1,2)[OF i(4)], of p]] t' by simp
qed

lemma accounts_Unreserve:
  assumes a: "accounts t fl R" "h \<in> R"
  shows "accounts (KHandleTable_Unreserve h t) (unat (handle_index h) # fl) (R - {h})"
proof -
  let ?i = "unat (handle_index h)"
  note i = accounts_entry[OF a]
  have rep: "ht_rep t fl" using a by (simp add: accounts_def)
  have u: "KHandleTable_Unreserve h t = KHandleTable_FreeEntry (int ?i) t"
    unfolding KHandleTable_Unreserve_def Let_def using i(1) by simp
  have "held_entries (KHandleTable_FreeEntry (int ?i) t) (?i # fl) = held_entries t fl - {?i}"
    by (auto simp: held_entries_def nth_list_update)
  then show ?thesis unfolding u using accounts_drop[OF a FreeEntry_rep[OF rep i(1,3)]] by simp
qed

text \<open>A table of size 0, before \<open>Initialize\<close> or after \<open>Finalize\<close>, refuses every operation.\<close>

lemma closed_table:
  assumes "m_table_size t = 0"
  shows "\<not> m_count t < m_table_size t" "KHandleTable_GetObjectImpl t = Map.empty" "KHandleTable_Remove h t s = (False, t, s)"
    "KHandleTable_Unreserve h t = t" "KHandleTable_Register h p t s = (t, s)"
  using assms by (auto simp: KHandleTable_GetObjectImpl_def KHandleTable_IsValidHandle_def KHandleTable_Remove_def
      KHandleTable_Unreserve_def KHandleTable_Register_def Let_def)

lemma accounts_open:
  "accounts t fl R \<Longrightarrow> length (m_entry_infos t) = MaxTableSize \<and> length (m_objects t) = MaxTableSize \<and>
    (m_table_size t = 0 \<or> (\<exists>fl. accounts t fl R))"
  by (rule conjI[OF _ conjI[OF _ disjI2]]) (auto simp: accounts_def ht_rep_def)

lemma ht_reach_accounts:
  "ht_reach t R \<Longrightarrow> length (m_entry_infos t) = MaxTableSize \<and> length (m_objects t) = MaxTableSize \<and>
    (m_table_size t = 0 \<or> (\<exists>fl. accounts t fl R))"
proof (induction rule: ht_reach.induct)
  case default
  show ?case by (simp add: KHandleTable_default_def)
next
  case (initialize t R sz t')
  let ?fl = "rev [0..<unat (m_table_size t')]"
  have "ht_rep t' ?fl" using Initialize_rep[OF initialize.hyps(2)] initialize.IH by blast
  then have "accounts t' ?fl {}" by (auto simp: accounts_def held_entries_def)
  then show ?case by (rule accounts_open)
next
  case (finalize t R s t' s')
  then show ?case by (auto simp: KHandleTable_Finalize_def Let_def)
next
  case (add t R p s h t' s')
  then have "m_table_size t \<noteq> 0" using closed_table(1)[of t] Add_full[of t p s] by auto
  then obtain fl where "accounts t fl R" using add.IH by auto
  from accounts_Add[OF this add.hyps(2)] obtain fl' where "accounts t' fl' R" ..
  then show ?case by (rule accounts_open)
next
  case (remove t R h s b t' s')
  show ?case
  proof (cases "m_table_size t = 0")
    case False
    then obtain fl where "accounts t fl R" using remove.IH by auto
    from accounts_Remove[OF this remove.hyps(2)] obtain fl' where "accounts t' fl' R" ..
    then show ?thesis by (rule accounts_open)
  qed (use remove closed_table(3)[of t h s] in auto)
next
  case (reserve t R h t')
  then have "m_table_size t \<noteq> 0" using closed_table(1)[of t] Reserve_full[of t] by auto
  then obtain fl where "accounts t fl R" using reserve.IH by auto
  from accounts_Reserve[OF this reserve.hyps(2)] obtain fl' where "accounts t' fl' (insert h R)" ..
  then show ?case by (rule accounts_open)
next
  case (register t R h p s t' s')
  show ?case
  proof (cases "m_table_size t = 0")
    case False
    then obtain fl where "accounts t fl R" using register.IH by auto
    from accounts_Register[OF this register.hyps(2,3)] show ?thesis by (rule accounts_open)
  qed (use register closed_table(5)[of t h p s] in auto)
next
  case (unreserve t R h)
  show ?case
  proof (cases "m_table_size t = 0")
    case False
    then obtain fl where "accounts t fl R" using unreserve.IH by auto
    from accounts_Unreserve[OF this unreserve.hyps(2)] show ?thesis by (rule accounts_open)
  qed (use unreserve closed_table(4)[of t h] in auto)
qed

text \<open>Every object in the table has one handle, so that the count is shared by the live handles and the reservations.\<close>

lemma live_handles_entries:
  assumes rep: "ht_rep t fl"
  shows "bij_betw (\<lambda>h. unat (handle_index h)) (dom (KHandleTable_GetObjectImpl t))
    {i. i < unat (m_table_size t) \<and> m_objects t ! i \<noteq> None}"
proof (rule bij_betw_imageI)
  let ?D = "dom (KHandleTable_GetObjectImpl t)" and ?f = "\<lambda>h. unat (handle_index h)"
  show "inj_on ?f ?D"
    by (rule inj_onI, rule handle_cong)
       (auto simp: GetObjectImpl_iff[OF rep] dest: word_unat_eq_iff[THEN iffD2])
  show "?f ` ?D = {i. i < unat (m_table_size t) \<and> m_objects t ! i \<noteq> None}"
  proof (intro equalityI subsetI)
    fix i assume "i \<in> {i. i < unat (m_table_size t) \<and> m_objects t ! i \<noteq> None}"
    then obtain p where i: "i < unat (m_table_size t)" "m_objects t ! i = Some p" by auto
    let ?h = "EncodeHandle (word_of_int (int i)) (m_entry_infos t ! i)"
    have "i < 2 ^ 15" "MinLinearId \<le> m_entry_infos t ! i" "m_entry_infos t ! i \<le> MaxLinearId"
      using rep i by (auto simp: ht_rep_def MaxTableSize_def)
    then have h: "unat (handle_index ?h) = i" "handle_linear_id ?h = ucast (m_entry_infos t ! i)" "handle_reserved ?h = 0"
      using linear_id_bounds by (simp_all add: unsigned_of_nat take_bit_nat_eq_self)
    have "KHandleTable_GetObjectImpl t ?h = Some p" unfolding GetObjectImpl_iff[OF rep] h using i by simp
    then show "i \<in> ?f ` ?D" using h(1) by force
  qed (auto simp: GetObjectImpl_iff[OF rep])
qed

lemma accounts_count:
  assumes a: "accounts t fl R"
  shows "card (dom (KHandleTable_GetObjectImpl t)) + card R = unat (m_count t)"
proof -
  let ?n = "unat (m_table_size t)" and ?L = "{i. i < unat (m_table_size t) \<and> m_objects t ! i \<noteq> None}"
  have rep: "ht_rep t fl" using a by (simp add: accounts_def)
  have fl: "set fl \<subseteq> {..<?n}" "card (set fl) = length fl" "\<forall>i \<in> set fl. m_objects t ! i = None"
    using rep by (auto simp: ht_rep_def distinct_card)
  have "card R = card (held_entries t fl)" using a card_image[OF accounts_inj[OF a]] by (simp add: accounts_def)
  moreover have "card (dom (KHandleTable_GetObjectImpl t)) = card ?L" using bij_betw_same_card[OF live_handles_entries[OF rep]] .
  moreover have "card ?L + card (held_entries t fl) = card (?L \<union> held_entries t fl)"
    by (rule card_Un_disjoint[symmetric]) (auto simp: held_entries_def)
  moreover have "?L \<union> held_entries t fl = {..<?n} - set fl" using fl(3) by (auto simp: held_entries_def)
  moreover have "card ({..<?n} - set fl) = unat (m_count t)" using fl rep by (auto simp: card_Diff_subset ht_rep_def)
  ultimately show ?thesis by simp
qed

section \<open>Properties\<close>

text \<open>A table of two entries, an object that is alive, and the store that holds it.\<close>

definition demo_table :: "nat handle_table" where
  "demo_table = (case KHandleTable_Initialize 2 KHandleTable_default of Ok t \<Rightarrow> t | _ \<Rightarrow> KHandleTable_default)"

definition demo_store :: "nat object_store" where
  "demo_store = \<lparr>ref_count = (\<lambda>_. 1), in_use = {}, destroyed = []\<rparr>"

lemma demo_table_Ok: "KHandleTable_Initialize 2 KHandleTable_default = Ok demo_table"
  by (simp add: demo_table_def KHandleTable_Initialize_def MaxTableSize_def Let_def)

lemma demo_table_facts: "ht_inv demo_table" "m_count demo_table = 0" "m_table_size demo_table = 2"
proof -
  have "ht_rep demo_table (rev [0..<unat (m_table_size demo_table)]) \<and> m_count demo_table = 0 \<and>
    unat (m_table_size demo_table) = 2"
    using Initialize_rep[OF demo_table_Ok] by (auto simp: KHandleTable_default_def)
  then show "ht_inv demo_table" "m_count demo_table = 0" "m_table_size demo_table = 2"
    unfolding ht_inv_def by (blast, blast, auto simp: word_unat_eq_iff)
qed

text \<open>
  Claim C3. In every well-formed table, \<open>Add\<close> fails with \<open>ResultOutOfHandles\<close> exactly when the
  table is full; otherwise it returns a handle that named nothing before, the handle names the
  object afterwards, every other handle names what it named, one reference is opened, and the
  table stays well formed.
\<close>

theorem handle_add_correct:
  assumes "ht_inv t"
  shows "if m_count t < m_table_size t
    then \<exists>h t'. KHandleTable_Add p t s = Ok (h, t', snd (KAutoObject_Open p s)) \<and> ht_inv t' \<and>
      KHandleTable_GetObjectImpl t h = None \<and>
      KHandleTable_GetObjectImpl t' = (KHandleTable_GetObjectImpl t)(h \<mapsto> p) \<and>
      m_count t' = m_count t + 1
    else KHandleTable_Add p t s = Err ResultOutOfHandles"
  using Add_spec[OF assms, of p s] Add_full[of t p s] by (cases "m_count t < m_table_size t") auto

theorem handle_add_correct_witness:
  "\<exists>h t'. KHandleTable_Add 7 demo_table demo_store = Ok (h, t', snd (KAutoObject_Open 7 demo_store)) \<and>
     KHandleTable_GetObjectImpl t' h = Some 7"
  using handle_add_correct[OF demo_table_facts(1), of 7 demo_store]
  by (auto simp: demo_table_facts)

text \<open>
  Claim C5. \<open>Remove\<close> reports success exactly when the handle names an object. It then drops that
  handle and no other, closes one reference of the object and unregisters it; on failure nothing
  changes. The table stays well formed either way.
\<close>

theorem handle_remove_correct:
  assumes "ht_inv t"
  shows "\<exists>t'. ht_inv t' \<and> KHandleTable_GetObjectImpl t' = (KHandleTable_GetObjectImpl t)(h := None) \<and>
    KHandleTable_Remove h t s =
      (case KHandleTable_GetObjectImpl t h of
         None \<Rightarrow> (False, t, s)
       | Some p \<Rightarrow> (True, t', KAutoObject_Close p (KernelCore_UnregisterInUseObject p s)))"
  using Remove_keeps(1,2)[OF assms, of h s] Remove_spec[OF assms, of h s]
  by (intro exI[of _ "fst (snd (KHandleTable_Remove h t s))"]) (auto split: option.splits)

theorem handle_remove_correct_witness:
  "\<exists>t'. ht_inv t' \<and> KHandleTable_GetObjectImpl t' = (KHandleTable_GetObjectImpl demo_table)(5 := None) \<and>
    KHandleTable_Remove 5 demo_table demo_store =
      (case KHandleTable_GetObjectImpl demo_table 5 of
         None \<Rightarrow> (False, demo_table, demo_store)
       | Some p \<Rightarrow> (True, t', KAutoObject_Close p (KernelCore_UnregisterInUseObject p demo_store)))"
  by (rule handle_remove_correct[OF demo_table_facts(1)])

text \<open>
  Claim C19. A handle returned by \<open>Add\<close> never comes to name another object as long as fewer than
  32767 further handles are added: after any run of additions and removals it names its own
  object, or nothing once it has been removed.
\<close>

theorem handle_lifetime:
  assumes "ht_inv t" and "KHandleTable_Add p t s = Ok (h, t1, s1)" and "num_adds es < 32767"
  shows "KHandleTable_GetObjectImpl (fold (ht_step s0) es t1) h = (if Inr h \<in> set es then None else Some p)"
proof -
  have cnt: "m_count t < m_table_size t"
    using assms(2) Add_full[of t p s] by (cases "m_count t < m_table_size t") auto
  from Add_spec[OF assms(1) cnt, of p s] assms(2)
  have a: "ht_inv t1" "KHandleTable_GetObjectImpl t1 h = Some p" "handle_linear_id h = ucast (m_next_linear_id t)"
    "m_next_linear_id t1 = (next_id ^^ 1) (m_next_linear_id t)" by auto
  from assms(1) have i: "MinLinearId \<le> m_next_linear_id t" "m_next_linear_id t \<le> MaxLinearId"
    by (auto simp: ht_inv_def ht_rep_def)
  from handle_run[OF i a(3,1,4) _ _ a(2), of es s0] assms(3) show ?thesis by simp
qed

theorem handle_lifetime_witness:
  "\<exists>h t1 s1. KHandleTable_Add 7 demo_table demo_store = Ok (h, t1, s1) \<and>
     KHandleTable_GetObjectImpl (fold (ht_step demo_store) [Inl 8, Inr h, Inl 9] t1) h = None"
proof -
  obtain h t1 s1 where a: "KHandleTable_Add 7 demo_table demo_store = Ok (h, t1, s1)"
    using Add_spec[OF demo_table_facts(1), of 7 demo_store] by (auto simp: demo_table_facts)
  from handle_lifetime[OF demo_table_facts(1) a, of "[Inl 8, Inr h, Inl 9]" demo_store]
  have "KHandleTable_GetObjectImpl (fold (ht_step demo_store) [Inl 8, Inr h, Inl 9] t1) h = None"
    by simp
  with a show ?thesis by blast
qed

text \<open>
  Claim C20. A handle obtained from \<open>Reserve\<close> names nothing and disturbs no other handle;
  registering an object under it makes it name that object. Giving it back by \<open>Unreserve\<close> restores the table
  exactly, its chain of free entries and its count included; only the linear id counter and the
  highest count keep their new values. A full table refuses the reservation.
\<close>

theorem handle_reserve_roundtrip:
  assumes "ht_inv t"
  shows "if m_count t < m_table_size t
    then \<exists>h t1. KHandleTable_Reserve t = Ok (h, t1) \<and> ht_inv t1 \<and>
      KHandleTable_GetObjectImpl t1 = KHandleTable_GetObjectImpl t \<and>
      (\<exists>t2. KHandleTable_Register h p t1 s = (t2, snd (KAutoObject_Open p s)) \<and> ht_inv t2 \<and>
         KHandleTable_GetObjectImpl t2 = (KHandleTable_GetObjectImpl t)(h \<mapsto> p)) \<and>
      ht_inv (KHandleTable_Unreserve h t1) \<and>
      KHandleTable_GetObjectImpl (KHandleTable_Unreserve h t1) = KHandleTable_GetObjectImpl t \<and>
      KHandleTable_Unreserve h t1 = t\<lparr>m_next_linear_id := next_id (m_next_linear_id t),
        m_max_count := max (m_max_count t) (m_count t + 1)\<rparr>
    else KHandleTable_Reserve t = Err ResultOutOfHandles"
proof (cases "m_count t < m_table_size t")
  case True
  from Reserve_spec[OF assms this] obtain h t1 where r: "KHandleTable_Reserve t = Ok (h, t1)" "ht_inv t1"
    "KHandleTable_GetObjectImpl t1 = KHandleTable_GetObjectImpl t"
    "ht_reserved t1 (unat (handle_index h))" "handle_reserved h = 0" "handle_linear_id h \<noteq> 0"
    by blast
  from Register_spec[OF r(2,4,5,6), of p s] Unreserve_spec[OF r(2,4)] Reserve_Unreserve[OF assms r(1)] r True show ?thesis by auto
qed (simp add: Reserve_full)

theorem handle_reserve_roundtrip_witness:
  "\<exists>h t1. KHandleTable_Reserve demo_table = Ok (h, t1) \<and>
     KHandleTable_GetObjectImpl (fst (KHandleTable_Register h 7 t1 demo_store)) h = Some 7"
  using handle_reserve_roundtrip[OF demo_table_facts(1), of 7 demo_store]
  by (auto simp: demo_table_facts)



text \<open>
  Claim C4. Every table reachable by \<open>Initialize\<close>, \<open>Finalize\<close>, \<open>Add\<close>, \<open>Remove\<close>, \<open>Reserve\<close>, \<open>Register\<close> and
  \<open>Unreserve\<close> in any order, where \<open>Register\<close> and \<open>Unreserve\<close> are called with a handle that is still reserved (the
  code does not test it). A table that is not initialised or was finalised names nothing. Any other
  table is well formed (its free entries are exactly the chain from the head), and its count is exactly the number of
  handles that name an object plus the number of outstanding reservations; it never exceeds the table's capacity of at
  most 1024.
\<close>

theorem handle_table_reachable_inv:
  assumes "ht_reach t R"
  shows "if m_table_size t = 0 then KHandleTable_GetObjectImpl t = Map.empty
    else ht_inv t \<and> unat (m_count t) = card (dom (KHandleTable_GetObjectImpl t)) + card R \<and>
      unat (m_count t) \<le> unat (m_table_size t) \<and> unat (m_table_size t) \<le> MaxTableSize"
proof (cases "m_table_size t = 0")
  case False
  then obtain fl where a: "accounts t fl R" using ht_reach_accounts[OF assms] by blast
  then have "ht_rep t fl" by (simp add: accounts_def)
  then show ?thesis using False accounts_count[OF a] by (auto simp: ht_inv_def ht_rep_def)
qed (simp add: closed_table)

theorem handle_table_reachable_inv_witness:
  "\<exists>h t1 k t2 s2. KHandleTable_Reserve demo_table = Ok (h, t1) \<and> KHandleTable_Add 7 t1 demo_store = Ok (k, t2, s2) \<and>
    card (dom (KHandleTable_GetObjectImpl t2)) = 1"
proof -
  have d: "ht_reach demo_table {}" by (rule ht_reach.initialize[OF ht_reach.default demo_table_Ok])
  have "0 < (2 :: u16)" "(1 :: u16) < 2" by simp_all
  then obtain h t1 where r: "KHandleTable_Reserve demo_table = Ok (h, t1)" "ht_inv t1" "m_count t1 = 1" "m_table_size t1 = 2"
    using Reserve_spec[OF demo_table_facts(1)] by (auto simp: demo_table_facts)
  then obtain k t2 s2 where k: "KHandleTable_Add 7 t1 demo_store = Ok (k, t2, s2)" "m_count t2 = 2" "m_table_size t2 = 2"
    using Add_spec[OF r(2), of 7 demo_store] \<open>1 < 2\<close> by auto
  have "ht_reach t2 {h}" using ht_reach.add[OF ht_reach.reserve[OF d r(1)] k(1)] .
  from handle_table_reachable_inv[OF this] k r(1) show ?thesis by auto
qed

end
