(* ===== verification/Memory_Block.thy ===== *)
theory Memory_Block
  imports Emu_Prelude
begin

text \<open>
  Memory blocks, \<^verbatim>\<open>src/src/core/hle/kernel/k_memory_block.h\<close>: the flag words of a memory
  state, permissions and attributes, the block record with its lock, share and merge counters, and
  every operation of \<open>KMemoryBlock\<close>. The intrusive tree links are left out; the block manager
  theory keeps the blocks in address order.
\<close>

section \<open>Memory states\<close>

datatype svc_memory_state =
    SvcFree | SvcIo | SvcStatic | SvcCode | SvcCodeData | SvcNormal | SvcShared | SvcAlias
  | SvcAliasCode | SvcAliasCodeData | SvcIpc | SvcStack | SvcThreadLocal | SvcTransferred
  | SvcSharedTransferred | SvcSharedCode | SvcInaccessible | SvcNonSecureIpc | SvcNonDeviceIpc
  | SvcKernel | SvcGeneratedCode | SvcCodeOut | SvcCoverage | SvcInsecure

fun svc_state_value :: "svc_memory_state \<Rightarrow> u32" where
  "svc_state_value SvcFree = 0x0"
| "svc_state_value SvcIo = 0x1"
| "svc_state_value SvcStatic = 0x2"
| "svc_state_value SvcCode = 0x3"
| "svc_state_value SvcCodeData = 0x4"
| "svc_state_value SvcNormal = 0x5"
| "svc_state_value SvcShared = 0x6"
| "svc_state_value SvcAlias = 0x7"
| "svc_state_value SvcAliasCode = 0x8"
| "svc_state_value SvcAliasCodeData = 0x9"
| "svc_state_value SvcIpc = 0xa"
| "svc_state_value SvcStack = 0xb"
| "svc_state_value SvcThreadLocal = 0xc"
| "svc_state_value SvcTransferred = 0xd"
| "svc_state_value SvcSharedTransferred = 0xe"
| "svc_state_value SvcSharedCode = 0xf"
| "svc_state_value SvcInaccessible = 0x10"
| "svc_state_value SvcNonSecureIpc = 0x11"
| "svc_state_value SvcNonDeviceIpc = 0x12"
| "svc_state_value SvcKernel = 0x13"
| "svc_state_value SvcGeneratedCode = 0x14"
| "svc_state_value SvcCodeOut = 0x15"
| "svc_state_value SvcCoverage = 0x16"
| "svc_state_value SvcInsecure = 0x17"

text \<open>The capability flags, one bit each from bit 8.\<close>

definition FlagCanReprotect :: u32 where "FlagCanReprotect = push_bit 8 1"
definition FlagCanDebug :: u32 where "FlagCanDebug = push_bit 9 1"
definition FlagCanUseIpc :: u32 where "FlagCanUseIpc = push_bit 10 1"
definition FlagCanUseNonDeviceIpc :: u32 where "FlagCanUseNonDeviceIpc = push_bit 11 1"
definition FlagCanUseNonSecureIpc :: u32 where "FlagCanUseNonSecureIpc = push_bit 12 1"
definition FlagMapped :: u32 where "FlagMapped = push_bit 13 1"
definition FlagCode :: u32 where "FlagCode = push_bit 14 1"
definition FlagCanAlias :: u32 where "FlagCanAlias = push_bit 15 1"
definition FlagCanCodeAlias :: u32 where "FlagCanCodeAlias = push_bit 16 1"
definition FlagCanTransfer :: u32 where "FlagCanTransfer = push_bit 17 1"
definition FlagCanQueryPhysical :: u32 where "FlagCanQueryPhysical = push_bit 18 1"
definition FlagCanDeviceMap :: u32 where "FlagCanDeviceMap = push_bit 19 1"
definition FlagCanAlignedDeviceMap :: u32 where "FlagCanAlignedDeviceMap = push_bit 20 1"
definition FlagCanIpcUserBuffer :: u32 where "FlagCanIpcUserBuffer = push_bit 21 1"
definition FlagReferenceCounted :: u32 where "FlagReferenceCounted = push_bit 22 1"
definition FlagCanMapProcess :: u32 where "FlagCanMapProcess = push_bit 23 1"
definition FlagCanChangeAttribute :: u32 where "FlagCanChangeAttribute = push_bit 24 1"
definition FlagCanCodeMemory :: u32 where "FlagCanCodeMemory = push_bit 25 1"
definition FlagLinearMapped :: u32 where "FlagLinearMapped = push_bit 26 1"
definition FlagCanPermissionLock :: u32 where "FlagCanPermissionLock = push_bit 27 1"

definition FlagsData :: u32 where
  "FlagsData =
     FlagCanReprotect OR FlagCanUseIpc OR FlagCanUseNonDeviceIpc OR FlagCanUseNonSecureIpc OR
     FlagMapped OR FlagCanAlias OR FlagCanTransfer OR FlagCanQueryPhysical OR FlagCanDeviceMap OR
     FlagCanAlignedDeviceMap OR FlagCanIpcUserBuffer OR FlagReferenceCounted OR
     FlagCanChangeAttribute OR FlagLinearMapped"

definition FlagsCode :: u32 where
  "FlagsCode =
     FlagCanDebug OR FlagCanUseIpc OR FlagCanUseNonDeviceIpc OR FlagCanUseNonSecureIpc OR
     FlagMapped OR FlagCode OR FlagCanQueryPhysical OR FlagCanDeviceMap OR
     FlagCanAlignedDeviceMap OR FlagReferenceCounted OR FlagLinearMapped"

definition FlagsMisc :: u32 where
  "FlagsMisc =
     FlagMapped OR FlagReferenceCounted OR FlagCanQueryPhysical OR FlagCanDeviceMap OR
     FlagLinearMapped"

datatype kmemory_state =
    KMemoryState_Free | KMemoryState_IoMemory | KMemoryState_IoRegister
  | KMemoryState_Static | KMemoryState_Code | KMemoryState_CodeData
  | KMemoryState_Normal | KMemoryState_Shared | KMemoryState_AliasCode
  | KMemoryState_AliasCodeData | KMemoryState_Ipc | KMemoryState_Stack
  | KMemoryState_ThreadLocal | KMemoryState_Transferred | KMemoryState_SharedTransferred
  | KMemoryState_SharedCode | KMemoryState_Inaccessible | KMemoryState_NonSecureIpc
  | KMemoryState_NonDeviceIpc | KMemoryState_Kernel | KMemoryState_GeneratedCode
  | KMemoryState_CodeOut | KMemoryState_Coverage | KMemoryState_Insecure

fun KMemoryState_value :: "kmemory_state \<Rightarrow> u32" where
  "KMemoryState_value KMemoryState_Free =
     svc_state_value SvcFree"
| "KMemoryState_value KMemoryState_IoMemory =
     svc_state_value SvcIo OR FlagMapped OR FlagCanDeviceMap OR FlagCanAlignedDeviceMap"
| "KMemoryState_value KMemoryState_IoRegister =
     svc_state_value SvcIo OR FlagCanDeviceMap OR FlagCanAlignedDeviceMap"
| "KMemoryState_value KMemoryState_Static =
     svc_state_value SvcStatic OR FlagMapped OR FlagCanQueryPhysical"
| "KMemoryState_value KMemoryState_Code =
     svc_state_value SvcCode OR FlagsCode OR FlagCanMapProcess"
| "KMemoryState_value KMemoryState_CodeData =
     svc_state_value SvcCodeData OR FlagsData OR FlagCanMapProcess OR FlagCanCodeMemory OR
     FlagCanPermissionLock"
| "KMemoryState_value KMemoryState_Normal =
     svc_state_value SvcNormal OR FlagsData OR FlagCanCodeMemory"
| "KMemoryState_value KMemoryState_Shared =
     svc_state_value SvcShared OR FlagMapped OR FlagReferenceCounted OR FlagLinearMapped"
| "KMemoryState_value KMemoryState_AliasCode =
     svc_state_value SvcAliasCode OR FlagsCode OR FlagCanMapProcess OR FlagCanCodeAlias"
| "KMemoryState_value KMemoryState_AliasCodeData =
     svc_state_value SvcAliasCodeData OR FlagsData OR FlagCanMapProcess OR FlagCanCodeAlias OR
     FlagCanCodeMemory OR FlagCanPermissionLock"
| "KMemoryState_value KMemoryState_Ipc =
     svc_state_value SvcIpc OR FlagsMisc OR FlagCanAlignedDeviceMap OR FlagCanUseIpc OR
     FlagCanUseNonSecureIpc OR FlagCanUseNonDeviceIpc"
| "KMemoryState_value KMemoryState_Stack =
     svc_state_value SvcStack OR FlagsMisc OR FlagCanAlignedDeviceMap OR FlagCanUseIpc OR
     FlagCanUseNonSecureIpc OR FlagCanUseNonDeviceIpc"
| "KMemoryState_value KMemoryState_ThreadLocal =
     svc_state_value SvcThreadLocal OR FlagLinearMapped"
| "KMemoryState_value KMemoryState_Transferred =
     svc_state_value SvcTransferred OR FlagsMisc OR FlagCanAlignedDeviceMap OR
     FlagCanChangeAttribute OR FlagCanUseIpc OR FlagCanUseNonSecureIpc OR
     FlagCanUseNonDeviceIpc"
| "KMemoryState_value KMemoryState_SharedTransferred =
     svc_state_value SvcSharedTransferred OR FlagsMisc OR FlagCanAlignedDeviceMap OR
     FlagCanUseNonSecureIpc OR FlagCanUseNonDeviceIpc"
| "KMemoryState_value KMemoryState_SharedCode =
     svc_state_value SvcSharedCode OR FlagMapped OR FlagReferenceCounted OR FlagLinearMapped OR
     FlagCanUseNonSecureIpc OR FlagCanUseNonDeviceIpc"
| "KMemoryState_value KMemoryState_Inaccessible =
     svc_state_value SvcInaccessible"
| "KMemoryState_value KMemoryState_NonSecureIpc =
     svc_state_value SvcNonSecureIpc OR FlagsMisc OR FlagCanAlignedDeviceMap OR
     FlagCanUseNonSecureIpc OR FlagCanUseNonDeviceIpc"
| "KMemoryState_value KMemoryState_NonDeviceIpc =
     svc_state_value SvcNonDeviceIpc OR FlagsMisc OR FlagCanUseNonDeviceIpc"
| "KMemoryState_value KMemoryState_Kernel =
     svc_state_value SvcKernel"
| "KMemoryState_value KMemoryState_GeneratedCode =
     svc_state_value SvcGeneratedCode OR FlagMapped OR FlagReferenceCounted OR FlagCanDebug OR
     FlagLinearMapped"
| "KMemoryState_value KMemoryState_CodeOut =
     svc_state_value SvcCodeOut OR FlagMapped OR FlagReferenceCounted OR FlagLinearMapped"
| "KMemoryState_value KMemoryState_Coverage =
     svc_state_value SvcCoverage OR FlagMapped"
| "KMemoryState_value KMemoryState_Insecure =
     svc_state_value SvcInsecure OR FlagMapped OR FlagReferenceCounted OR FlagLinearMapped OR
     FlagCanChangeAttribute OR FlagCanDeviceMap OR FlagCanAlignedDeviceMap OR
     FlagCanQueryPhysical OR FlagCanUseNonSecureIpc OR FlagCanUseNonDeviceIpc"

definition KMemoryState_Mask :: u32 where "KMemoryState_Mask = 0xFF"

section \<open>Permissions and attributes\<close>

definition MemoryPermission_Read :: u8 where "MemoryPermission_Read = push_bit 0 1"
definition MemoryPermission_Write :: u8 where "MemoryPermission_Write = push_bit 1 1"
definition MemoryPermission_Execute :: u8 where "MemoryPermission_Execute = push_bit 2 1"

definition KernelShift :: nat where "KernelShift = 3"
definition KernelRead :: u8 where "KernelRead = push_bit KernelShift MemoryPermission_Read"
definition KernelWrite :: u8 where "KernelWrite = push_bit KernelShift MemoryPermission_Write"
definition KernelExecute :: u8 where "KernelExecute = push_bit KernelShift MemoryPermission_Execute"
definition NotMapped :: u8 where "NotMapped = push_bit (2 * KernelShift) 1"
definition UserRead :: u8 where "UserRead = MemoryPermission_Read OR KernelRead"
definition UserWrite :: u8 where "UserWrite = MemoryPermission_Write OR KernelWrite"
definition UserExecute :: u8 where "UserExecute = MemoryPermission_Execute"
definition UserReadWrite :: u8 where "UserReadWrite = UserRead OR UserWrite"
definition UserMask :: u8 where
  "UserMask = MemoryPermission_Read OR MemoryPermission_Write OR MemoryPermission_Execute"
definition IpcLockChangeMask :: u8 where "IpcLockChangeMask = NotMapped OR UserReadWrite"

definition ConvertToKMemoryPermission :: "u32 \<Rightarrow> u8" where
  "ConvertToKMemoryPermission perm =
     (ucast perm AND UserMask) OR KernelRead OR
     push_bit KernelShift (ucast perm AND UserWrite) OR
     (if perm = 0 then NotMapped else 0)"

definition Attr_Locked :: u8 where "Attr_Locked = push_bit 0 1"
definition Attr_IpcLocked :: u8 where "Attr_IpcLocked = push_bit 1 1"
definition Attr_DeviceShared :: u8 where "Attr_DeviceShared = push_bit 2 1"
definition Attr_Uncached :: u8 where "Attr_Uncached = push_bit 3 1"
definition Attr_PermissionLocked :: u8 where "Attr_PermissionLocked = push_bit 4 1"
definition Attr_UserMask :: u8 where "Attr_UserMask = 0xFF"
definition Attr_SetMask :: u8 where "Attr_SetMask = Attr_Uncached OR Attr_PermissionLocked"

definition DisableMerge_Normal :: u8 where "DisableMerge_Normal = push_bit 0 1"
definition DisableMerge_DeviceLeft :: u8 where "DisableMerge_DeviceLeft = push_bit 1 1"
definition DisableMerge_IpcLeft :: u8 where "DisableMerge_IpcLeft = push_bit 2 1"
definition DisableMerge_Locked :: u8 where "DisableMerge_Locked = push_bit 3 1"
definition DisableMerge_DeviceRight :: u8 where "DisableMerge_DeviceRight = push_bit 4 1"
definition DisableMerge_AllLeft :: u8 where
  "DisableMerge_AllLeft =
     DisableMerge_Normal OR DisableMerge_DeviceLeft OR DisableMerge_IpcLeft OR DisableMerge_Locked"
definition DisableMerge_AllRight :: u8 where "DisableMerge_AllRight = DisableMerge_DeviceRight"

section \<open>Blocks\<close>

definition PageBits :: nat where "PageBits = 12"
definition PageSize :: u64 where "PageSize = push_bit PageBits 1"

record memory_block =
  mb_device_disable_merge_left_count :: u16
  mb_device_disable_merge_right_count :: u16
  mb_address :: u64
  mb_num_pages :: u64
  mb_memory_state :: u32
  mb_ipc_lock_count :: u16
  mb_device_use_count :: u16
  mb_ipc_disable_merge_count :: u16
  mb_permission :: u8
  mb_original_permission :: u8
  mb_attribute :: u8
  mb_disable_merge_attribute :: u8

definition KMemoryBlock_GetSize :: "memory_block \<Rightarrow> u64" where
  "KMemoryBlock_GetSize b = mb_num_pages b * PageSize"

definition KMemoryBlock_GetEndAddress :: "memory_block \<Rightarrow> u64" where
  "KMemoryBlock_GetEndAddress b = mb_address b + KMemoryBlock_GetSize b"

definition KMemoryBlock_GetLastAddress :: "memory_block \<Rightarrow> u64" where
  "KMemoryBlock_GetLastAddress b = KMemoryBlock_GetEndAddress b - 1"

definition KMemoryBlock_Compare :: "memory_block \<Rightarrow> memory_block \<Rightarrow> int" where
  "KMemoryBlock_Compare lhs rhs =
     (if mb_address lhs < mb_address rhs then - 1
      else if mb_address lhs \<le> KMemoryBlock_GetLastAddress rhs then 0
      else 1)"

record memory_info =
  info_address :: u64
  info_size :: u64
  info_state :: u32
  info_device_disable_merge_left_count :: u16
  info_device_disable_merge_right_count :: u16
  info_ipc_lock_count :: u16
  info_device_use_count :: u16
  info_ipc_disable_merge_count :: u16
  info_permission :: u8
  info_attribute :: u8
  info_original_permission :: u8
  info_disable_merge_attribute :: u8

record svc_memory_info =
  svc_base_address :: u64
  svc_size :: u64
  svc_state :: u32
  svc_attribute :: u32
  svc_permission :: u32
  svc_ipc_count :: u32
  svc_device_count :: u32

definition KMemoryInfo_GetSvcMemoryInfo :: "memory_info \<Rightarrow> svc_memory_info" where
  "KMemoryInfo_GetSvcMemoryInfo i =
     \<lparr>svc_base_address = info_address i, svc_size = info_size i,
      svc_state = info_state i AND KMemoryState_Mask,
      svc_attribute = ucast (info_attribute i AND Attr_UserMask),
      svc_permission = ucast (info_permission i AND UserMask),
      svc_ipc_count = ucast (info_ipc_lock_count i),
      svc_device_count = ucast (info_device_use_count i)\<rparr>"

definition KMemoryInfo_GetNumPages :: "memory_info \<Rightarrow> u64" where
  "KMemoryInfo_GetNumPages i = info_size i div PageSize"

definition KMemoryInfo_GetEndAddress :: "memory_info \<Rightarrow> u64" where
  "KMemoryInfo_GetEndAddress i = info_address i + info_size i"

definition KMemoryInfo_GetLastAddress :: "memory_info \<Rightarrow> u64" where
  "KMemoryInfo_GetLastAddress i = KMemoryInfo_GetEndAddress i - 1"

definition KMemoryBlock_GetMemoryInfo :: "memory_block \<Rightarrow> memory_info" where
  "KMemoryBlock_GetMemoryInfo b =
     \<lparr>info_address = mb_address b, info_size = KMemoryBlock_GetSize b,
      info_state = mb_memory_state b,
      info_device_disable_merge_left_count = mb_device_disable_merge_left_count b,
      info_device_disable_merge_right_count = mb_device_disable_merge_right_count b,
      info_ipc_lock_count = mb_ipc_lock_count b, info_device_use_count = mb_device_use_count b,
      info_ipc_disable_merge_count = mb_ipc_disable_merge_count b,
      info_permission = mb_permission b, info_attribute = mb_attribute b,
      info_original_permission = mb_original_permission b,
      info_disable_merge_attribute = mb_disable_merge_attribute b\<rparr>"

definition KMemoryBlock_new :: "u64 \<Rightarrow> u64 \<Rightarrow> u32 \<Rightarrow> u8 \<Rightarrow> u8 \<Rightarrow> memory_block" where
  "KMemoryBlock_new addr np ms p attr =
     \<lparr>mb_device_disable_merge_left_count = 0, mb_device_disable_merge_right_count = 0,
      mb_address = addr, mb_num_pages = np, mb_memory_state = ms, mb_ipc_lock_count = 0,
      mb_device_use_count = 0, mb_ipc_disable_merge_count = 0, mb_permission = p,
      mb_original_permission = 0, mb_attribute = attr, mb_disable_merge_attribute = 0\<rparr>"

definition KMemoryBlock_default :: memory_block where
  "KMemoryBlock_default = KMemoryBlock_new 0 0 0 0 0"

definition KMemoryBlock_Initialize ::
  "u64 \<Rightarrow> u64 \<Rightarrow> u32 \<Rightarrow> u8 \<Rightarrow> u8 \<Rightarrow> memory_block \<Rightarrow> memory_block" where
  \<comment> \<open>\<open>m_ipc_disable_merge_count\<close> is not assigned\<close>
  "KMemoryBlock_Initialize addr np ms p attr b =
     b\<lparr>mb_device_disable_merge_left_count := 0, mb_device_disable_merge_right_count := 0,
       mb_address := addr, mb_num_pages := np, mb_memory_state := ms, mb_ipc_lock_count := 0,
       mb_device_use_count := 0, mb_permission := p, mb_original_permission := 0,
       mb_attribute := attr, mb_disable_merge_attribute := 0\<rparr>"

definition KMemoryBlock_HasProperties :: "u32 \<Rightarrow> u8 \<Rightarrow> u8 \<Rightarrow> memory_block \<Rightarrow> bool" where
  "KMemoryBlock_HasProperties s p a b \<longleftrightarrow>
     mb_memory_state b = s \<and> mb_permission b = p \<and>
     mb_attribute b OR (Attr_IpcLocked OR Attr_DeviceShared) =
       a OR (Attr_IpcLocked OR Attr_DeviceShared)"

definition KMemoryBlock_HasSameProperties :: "memory_block \<Rightarrow> memory_block \<Rightarrow> bool" where
  "KMemoryBlock_HasSameProperties b rhs \<longleftrightarrow>
     mb_memory_state b = mb_memory_state rhs \<and> mb_permission b = mb_permission rhs \<and>
     mb_original_permission b = mb_original_permission rhs \<and>
     mb_attribute b = mb_attribute rhs \<and> mb_ipc_lock_count b = mb_ipc_lock_count rhs \<and>
     mb_device_use_count b = mb_device_use_count rhs"

definition KMemoryBlock_CanMergeWith :: "memory_block \<Rightarrow> memory_block \<Rightarrow> bool" where
  "KMemoryBlock_CanMergeWith b rhs \<longleftrightarrow>
     KMemoryBlock_HasSameProperties b rhs \<and>
     mb_disable_merge_attribute b AND DisableMerge_AllRight = 0 \<and>
     mb_disable_merge_attribute rhs AND DisableMerge_AllLeft = 0"

definition KMemoryBlock_Contains :: "memory_block \<Rightarrow> u64 \<Rightarrow> bool" where
  "KMemoryBlock_Contains b addr \<longleftrightarrow>
     mb_address b \<le> addr \<and> addr \<le> KMemoryBlock_GetEndAddress b"

definition KMemoryBlock_Add :: "memory_block \<Rightarrow> memory_block \<Rightarrow> memory_block" where
  "KMemoryBlock_Add added_block b =
     b\<lparr>mb_num_pages := mb_num_pages b + mb_num_pages added_block,
       mb_disable_merge_attribute :=
         mb_disable_merge_attribute b OR mb_disable_merge_attribute added_block,
       mb_device_disable_merge_right_count := mb_device_disable_merge_right_count added_block\<rparr>"

definition KMemoryBlock_Update ::
  "u32 \<Rightarrow> u8 \<Rightarrow> u8 \<Rightarrow> bool \<Rightarrow> u8 \<Rightarrow> u8 \<Rightarrow> memory_block \<Rightarrow> memory_block" where
  "KMemoryBlock_Update s p a set_disable_merge_attr set_mask clear_mask b =
     (let b1 = b\<lparr>mb_memory_state := s, mb_permission := p,
                 mb_attribute :=
                   a OR (mb_attribute b AND (Attr_IpcLocked OR Attr_DeviceShared))\<rparr>;
          b2 = (if set_disable_merge_attr \<and> set_mask \<noteq> 0
                then b1\<lparr>mb_disable_merge_attribute := mb_disable_merge_attribute b1 OR set_mask\<rparr>
                else b1)
      in if clear_mask \<noteq> 0
         then b2\<lparr>mb_disable_merge_attribute := mb_disable_merge_attribute b2 AND NOT clear_mask\<rparr>
         else b2)"

definition KMemoryBlock_UpdateAttribute :: "u8 \<Rightarrow> u8 \<Rightarrow> memory_block \<Rightarrow> memory_block" where
  "KMemoryBlock_UpdateAttribute msk attr b =
     b\<lparr>mb_attribute := (mb_attribute b AND NOT msk) OR attr\<rparr>"

text \<open>\<open>Split\<close> fills the fresh block with the part before the address and keeps the rest.\<close>

definition KMemoryBlock_Split ::
  "memory_block \<Rightarrow> u64 \<Rightarrow> memory_block \<Rightarrow> memory_block \<times> memory_block" where
  "KMemoryBlock_Split block addr b =
     (let block' = block\<lparr>mb_address := mb_address b,
            mb_num_pages := (addr - mb_address b) div PageSize,
            mb_memory_state := mb_memory_state b, mb_ipc_lock_count := mb_ipc_lock_count b,
            mb_device_use_count := mb_device_use_count b, mb_permission := mb_permission b,
            mb_original_permission := mb_original_permission b, mb_attribute := mb_attribute b,
            mb_disable_merge_attribute := mb_disable_merge_attribute b AND DisableMerge_AllLeft,
            mb_ipc_disable_merge_count := mb_ipc_disable_merge_count b,
            mb_device_disable_merge_left_count := mb_device_disable_merge_left_count b,
            mb_device_disable_merge_right_count := 0\<rparr>
      in (block',
          b\<lparr>mb_address := addr, mb_num_pages := mb_num_pages b - mb_num_pages block',
            mb_ipc_disable_merge_count := 0, mb_device_disable_merge_left_count := 0,
            mb_disable_merge_attribute :=
              mb_disable_merge_attribute b AND DisableMerge_AllRight\<rparr>))"

section \<open>Sharing with devices\<close>

text \<open>
  The handlers the block manager passes to \<open>UpdateLock\<close> take the new permission and whether the
  block is the leftmost or the rightmost of the range.
\<close>

definition UpdateDeviceDisableMergeStateForShareLeft ::
  "u8 \<Rightarrow> bool \<Rightarrow> bool \<Rightarrow> memory_block \<Rightarrow> memory_block" where
  "UpdateDeviceDisableMergeStateForShareLeft new_perm left right b =
     (if left
      then b\<lparr>mb_disable_merge_attribute := mb_disable_merge_attribute b OR DisableMerge_DeviceLeft,
             mb_device_disable_merge_left_count := mb_device_disable_merge_left_count b + 1\<rparr>
      else b)"

definition UpdateDeviceDisableMergeStateForShareRight ::
  "u8 \<Rightarrow> bool \<Rightarrow> bool \<Rightarrow> memory_block \<Rightarrow> memory_block" where
  "UpdateDeviceDisableMergeStateForShareRight new_perm left right b =
     (if right
      then b\<lparr>mb_disable_merge_attribute := mb_disable_merge_attribute b OR DisableMerge_DeviceRight,
             mb_device_disable_merge_right_count := mb_device_disable_merge_right_count b + 1\<rparr>
      else b)"

definition UpdateDeviceDisableMergeStateForShare ::
  "u8 \<Rightarrow> bool \<Rightarrow> bool \<Rightarrow> memory_block \<Rightarrow> memory_block" where
  "UpdateDeviceDisableMergeStateForShare new_perm left right b =
     UpdateDeviceDisableMergeStateForShareRight new_perm left right
       (UpdateDeviceDisableMergeStateForShareLeft new_perm left right b)"

definition KMemoryBlock_ShareToDevice :: "u8 \<Rightarrow> bool \<Rightarrow> bool \<Rightarrow> memory_block \<Rightarrow> memory_block" where
  "KMemoryBlock_ShareToDevice new_perm left right b =
     (let b1 = b\<lparr>mb_device_use_count := mb_device_use_count b + 1\<rparr>;
          b2 = b1\<lparr>mb_attribute := mb_attribute b1 OR Attr_DeviceShared\<rparr>
      in UpdateDeviceDisableMergeStateForShare new_perm left right b2)"

definition UpdateDeviceDisableMergeStateForUnshareLeft ::
  "u8 \<Rightarrow> bool \<Rightarrow> bool \<Rightarrow> memory_block \<Rightarrow> memory_block" where
  "UpdateDeviceDisableMergeStateForUnshareLeft new_perm left right b =
     (if left \<and> mb_device_disable_merge_left_count b = 0 then b
      else
        let b1 = (if left
                  then b\<lparr>mb_device_disable_merge_left_count := mb_device_disable_merge_left_count b - 1\<rparr>
                  else b);
            b2 = b1\<lparr>mb_device_disable_merge_left_count :=
                      min (mb_device_disable_merge_left_count b1) (mb_device_use_count b1)\<rparr>
        in if mb_device_disable_merge_left_count b2 = 0
           then b2\<lparr>mb_disable_merge_attribute :=
                     mb_disable_merge_attribute b2 AND NOT DisableMerge_DeviceLeft\<rparr>
           else b2)"

definition UpdateDeviceDisableMergeStateForUnshareRight ::
  "u8 \<Rightarrow> bool \<Rightarrow> bool \<Rightarrow> memory_block \<Rightarrow> memory_block" where
  "UpdateDeviceDisableMergeStateForUnshareRight new_perm left right b =
     (if right
      then
        let old = mb_device_disable_merge_right_count b;
            b1 = b\<lparr>mb_device_disable_merge_right_count := old - 1\<rparr>
        in if old = 1
           then b1\<lparr>mb_disable_merge_attribute :=
                     mb_disable_merge_attribute b1 AND NOT DisableMerge_DeviceRight\<rparr>
           else b1
      else b)"

definition UpdateDeviceDisableMergeStateForUnshare ::
  "u8 \<Rightarrow> bool \<Rightarrow> bool \<Rightarrow> memory_block \<Rightarrow> memory_block" where
  "UpdateDeviceDisableMergeStateForUnshare new_perm left right b =
     UpdateDeviceDisableMergeStateForUnshareRight new_perm left right
       (UpdateDeviceDisableMergeStateForUnshareLeft new_perm left right b)"

text \<open>The part the two unshare operations have in common.\<close>

definition unshare_count :: "memory_block \<Rightarrow> memory_block" where
  "unshare_count b =
     (let old_count = mb_device_use_count b;
          b1 = b\<lparr>mb_device_use_count := old_count - 1\<rparr>
      in if old_count = 1
         then b1\<lparr>mb_attribute := mb_attribute b1 AND NOT Attr_DeviceShared\<rparr> else b1)"

definition KMemoryBlock_UnshareToDevice :: "u8 \<Rightarrow> bool \<Rightarrow> bool \<Rightarrow> memory_block \<Rightarrow> memory_block" where
  "KMemoryBlock_UnshareToDevice new_perm left right b =
     UpdateDeviceDisableMergeStateForUnshare new_perm left right (unshare_count b)"

definition KMemoryBlock_UnshareToDeviceRight ::
  "u8 \<Rightarrow> bool \<Rightarrow> bool \<Rightarrow> memory_block \<Rightarrow> memory_block" where
  "KMemoryBlock_UnshareToDeviceRight new_perm left right b =
     UpdateDeviceDisableMergeStateForUnshareRight new_perm left right (unshare_count b)"

section \<open>Locking for IPC\<close>

definition KMemoryBlock_LockForIpc :: "u8 \<Rightarrow> bool \<Rightarrow> bool \<Rightarrow> memory_block \<Rightarrow> memory_block" where
  "KMemoryBlock_LockForIpc new_perm left right b =
     (let new_lock_count = mb_ipc_lock_count b + 1;
          b1 = b\<lparr>mb_ipc_lock_count := new_lock_count\<rparr>;
          b2 = (if new_lock_count = 1
                then b1\<lparr>mb_original_permission := mb_permission b1,
                        mb_permission := (new_perm AND IpcLockChangeMask) OR
                          (mb_permission b1 AND NOT IpcLockChangeMask)\<rparr>
                else b1);
          b3 = b2\<lparr>mb_attribute := mb_attribute b2 OR Attr_IpcLocked\<rparr>
      in if left
         then b3\<lparr>mb_disable_merge_attribute := mb_disable_merge_attribute b3 OR DisableMerge_IpcLeft,
                 mb_ipc_disable_merge_count := mb_ipc_disable_merge_count b3 + 1\<rparr>
         else b3)"

definition KMemoryBlock_UnlockForIpc :: "u8 \<Rightarrow> bool \<Rightarrow> bool \<Rightarrow> memory_block \<Rightarrow> memory_block" where
  "KMemoryBlock_UnlockForIpc new_perm left right b =
     (let old_lock_count = mb_ipc_lock_count b;
          b1 = b\<lparr>mb_ipc_lock_count := old_lock_count - 1\<rparr>;
          b2 = (if old_lock_count = 1
                then b1\<lparr>mb_permission := mb_original_permission b1, mb_original_permission := 0,
                        mb_attribute := mb_attribute b1 AND NOT Attr_IpcLocked\<rparr>
                else b1)
      in if left
         then
           let old = mb_ipc_disable_merge_count b2;
               b3 = b2\<lparr>mb_ipc_disable_merge_count := old - 1\<rparr>
           in if old = 1
              then b3\<lparr>mb_disable_merge_attribute :=
                        mb_disable_merge_attribute b3 AND NOT DisableMerge_IpcLeft\<rparr>
              else b3
         else b2)"

section \<open>The flag words\<close>

lemmas flag_defs =
  FlagCanReprotect_def FlagCanDebug_def FlagCanUseIpc_def FlagCanUseNonDeviceIpc_def
  FlagCanUseNonSecureIpc_def FlagMapped_def FlagCode_def FlagCanAlias_def FlagCanCodeAlias_def
  FlagCanTransfer_def FlagCanQueryPhysical_def FlagCanDeviceMap_def FlagCanAlignedDeviceMap_def
  FlagCanIpcUserBuffer_def FlagReferenceCounted_def FlagCanMapProcess_def
  FlagCanChangeAttribute_def FlagCanCodeMemory_def FlagLinearMapped_def FlagCanPermissionLock_def
  FlagsData_def FlagsCode_def FlagsMisc_def

lemmas permission_defs =
  MemoryPermission_Read_def MemoryPermission_Write_def MemoryPermission_Execute_def
  KernelShift_def KernelRead_def KernelWrite_def KernelExecute_def NotMapped_def UserRead_def
  UserWrite_def UserExecute_def UserReadWrite_def UserMask_def IpcLockChangeMask_def

lemmas attr_defs =
  Attr_Locked_def Attr_IpcLocked_def Attr_DeviceShared_def Attr_Uncached_def
  Attr_PermissionLocked_def Attr_UserMask_def Attr_SetMask_def DisableMerge_Normal_def
  DisableMerge_DeviceLeft_def DisableMerge_IpcLeft_def DisableMerge_Locked_def
  DisableMerge_DeviceRight_def DisableMerge_AllLeft_def DisableMerge_AllRight_def

text \<open>The state constants the header pins down by static assertions.\<close>

fun static_asserted_state :: "kmemory_state \<Rightarrow> u32" where
  "static_asserted_state KMemoryState_Free = 0x00000000"
| "static_asserted_state KMemoryState_IoMemory = 0x00182001"
| "static_asserted_state KMemoryState_IoRegister = 0x00180001"
| "static_asserted_state KMemoryState_Static = 0x00042002"
| "static_asserted_state KMemoryState_Code = 0x04DC7E03"
| "static_asserted_state KMemoryState_CodeData = 0x0FFEBD04"
| "static_asserted_state KMemoryState_Normal = 0x077EBD05"
| "static_asserted_state KMemoryState_Shared = 0x04402006"
| "static_asserted_state KMemoryState_AliasCode = 0x04DD7E08"
| "static_asserted_state KMemoryState_AliasCodeData = 0x0FFFBD09"
| "static_asserted_state KMemoryState_Ipc = 0x045C3C0A"
| "static_asserted_state KMemoryState_Stack = 0x045C3C0B"
| "static_asserted_state KMemoryState_ThreadLocal = 0x0400000C"
| "static_asserted_state KMemoryState_Transferred = 0x055C3C0D"
| "static_asserted_state KMemoryState_SharedTransferred = 0x045C380E"
| "static_asserted_state KMemoryState_SharedCode = 0x0440380F"
| "static_asserted_state KMemoryState_Inaccessible = 0x00000010"
| "static_asserted_state KMemoryState_NonSecureIpc = 0x045C3811"
| "static_asserted_state KMemoryState_NonDeviceIpc = 0x044C2812"
| "static_asserted_state KMemoryState_Kernel = 0x00000013"
| "static_asserted_state KMemoryState_GeneratedCode = 0x04402214"
| "static_asserted_state KMemoryState_CodeOut = 0x04402015"
| "static_asserted_state KMemoryState_Coverage = 0x00002016"
| "static_asserted_state KMemoryState_Insecure = 0x055C3817"

lemma memory_state_values: "KMemoryState_value s = static_asserted_state s"
  by (cases s) (simp_all add: flag_defs)

lemma ConvertToKMemoryPermission_bits:
  "bit (ConvertToKMemoryPermission perm) n \<longleftrightarrow>
     n < 3 \<and> bit perm n \<or> n = 3 \<or> n = 4 \<and> bit perm 1 \<or> n = 6 \<and> perm = 0 \<or>
     n = 7 \<and> bit perm 4"
proof -
  have "n < 8 \<Longrightarrow> n = 0 \<or> n = 1 \<or> n = 2 \<or> n = 3 \<or> n = 4 \<or> n = 5 \<or> n = 6 \<or> n = 7" by linarith
  then show ?thesis
    unfolding ConvertToKMemoryPermission_def permission_defs
    by (auto simp: bit_simps bit_unsigned_iff bit_1_iff dest: bit_imp_le_length)
qed

lemma bit_eq_word_iff: "(x :: 'a::len word) = y \<longleftrightarrow> (\<forall>n < LENGTH('a). bit x n = bit y n)"
  by (auto intro: bit_word_eqI)

lemma and_flag_eq_0_iff:
  "x AND push_bit n 1 = (0 :: 'a::len word) \<longleftrightarrow> \<not> (n < LENGTH('a) \<and> bit x n)"
  by (auto simp: bit_eq_word_iff bit_simps)

section \<open>Well-formed blocks\<close>

text \<open>Each flag is set exactly when the counter it summarises is not zero.\<close>

definition mb_wf :: "memory_block \<Rightarrow> bool" where
  "mb_wf b \<longleftrightarrow>
     (mb_attribute b AND Attr_IpcLocked \<noteq> 0 \<longleftrightarrow> mb_ipc_lock_count b \<noteq> 0) \<and>
     (mb_ipc_lock_count b = 0 \<longrightarrow> mb_original_permission b = 0) \<and>
     (mb_attribute b AND Attr_DeviceShared \<noteq> 0 \<longleftrightarrow> mb_device_use_count b \<noteq> 0) \<and>
     (mb_disable_merge_attribute b AND DisableMerge_DeviceLeft \<noteq> 0 \<longleftrightarrow>
        mb_device_disable_merge_left_count b \<noteq> 0) \<and>
     (mb_disable_merge_attribute b AND DisableMerge_DeviceRight \<noteq> 0 \<longleftrightarrow>
        mb_device_disable_merge_right_count b \<noteq> 0) \<and>
     (mb_disable_merge_attribute b AND DisableMerge_IpcLeft \<noteq> 0 \<longleftrightarrow>
        mb_ipc_disable_merge_count b \<noteq> 0)"

lemma mb_wf_bits:
  "mb_wf b \<longleftrightarrow>
     (bit (mb_attribute b) 1 \<longleftrightarrow> mb_ipc_lock_count b \<noteq> 0) \<and>
     (mb_ipc_lock_count b = 0 \<longrightarrow> mb_original_permission b = 0) \<and>
     (bit (mb_attribute b) 2 \<longleftrightarrow> mb_device_use_count b \<noteq> 0) \<and>
     (bit (mb_disable_merge_attribute b) 1 \<longleftrightarrow> mb_device_disable_merge_left_count b \<noteq> 0) \<and>
     (bit (mb_disable_merge_attribute b) 4 \<longleftrightarrow> mb_device_disable_merge_right_count b \<noteq> 0) \<and>
     (bit (mb_disable_merge_attribute b) 2 \<longleftrightarrow> mb_ipc_disable_merge_count b \<noteq> 0)"
  unfolding mb_wf_def attr_defs and_flag_eq_0_iff by simp

lemma flag_bits:
  "bit Attr_IpcLocked i \<longleftrightarrow> i = 1" "bit Attr_DeviceShared i \<longleftrightarrow> i = 2"
  "bit DisableMerge_DeviceLeft i \<longleftrightarrow> i = 1" "bit DisableMerge_IpcLeft i \<longleftrightarrow> i = 2"
  "bit DisableMerge_DeviceRight i \<longleftrightarrow> i = 4" "bit DisableMerge_AllRight i \<longleftrightarrow> i = 4"
  "bit DisableMerge_AllLeft i \<longleftrightarrow> i < 4"
proof -
  have *: "i < 4 \<longleftrightarrow> i = 0 \<or> i = 1 \<or> i = 2 \<or> i = 3" by linarith
  show "bit Attr_IpcLocked i \<longleftrightarrow> i = 1" "bit Attr_DeviceShared i \<longleftrightarrow> i = 2"
    "bit DisableMerge_DeviceLeft i \<longleftrightarrow> i = 1" "bit DisableMerge_IpcLeft i \<longleftrightarrow> i = 2"
    "bit DisableMerge_DeviceRight i \<longleftrightarrow> i = 4" "bit DisableMerge_AllRight i \<longleftrightarrow> i = 4"
    unfolding attr_defs bit_push_bit_iff bit_1_iff by auto
  show "bit DisableMerge_AllLeft i \<longleftrightarrow> i < 4"
    unfolding attr_defs bit_or_iff bit_push_bit_iff bit_1_iff * by auto
qed

lemma flag_nonzero: "Attr_IpcLocked \<noteq> 0" "Attr_DeviceShared \<noteq> 0" 
  by (simp_all add: attr_defs)

lemma disjoint_flag: "x AND f = (0 :: 'a::len word) \<Longrightarrow> bit f i \<Longrightarrow> \<not> bit x i"
  by (metis bit_and_iff bit_0_eq bot_apply bot_bool_def)

lemma CanMergeWith_bits:
  "KMemoryBlock_CanMergeWith b c \<longleftrightarrow>
     KMemoryBlock_HasSameProperties b c \<and> \<not> bit (mb_disable_merge_attribute b) 4 \<and>
     (\<forall>n < 4. \<not> bit (mb_disable_merge_attribute c) n)"
proof -
  have r: "x AND DisableMerge_AllRight = 0 \<longleftrightarrow> \<not> bit x 4" for x :: u8
    unfolding DisableMerge_AllRight_def DisableMerge_DeviceRight_def and_flag_eq_0_iff by simp
  have l: "x AND DisableMerge_AllLeft = 0 \<longleftrightarrow> (\<forall>n < 4. \<not> bit x n)" for x :: u8
    by (auto dest: disjoint_flag simp: flag_bits intro!: bit_word_eqI simp: bit_and_iff)
  show ?thesis
    unfolding KMemoryBlock_CanMergeWith_def r l by (rule refl)
qed

text \<open>The operations that change the properties of one block, as the block manager applies them.\<close>

datatype mb_op =
    OpUpdate u32 u8 u8 bool u8 u8
  | OpUpdateAttribute u8 u8
  | OpShare u8 bool bool
  | OpUnshare u8 bool bool
  | OpUnshareRight u8 bool bool
  | OpLock u8 bool bool
  | OpUnlock u8 bool bool

fun mb_apply :: "mb_op \<Rightarrow> memory_block \<Rightarrow> memory_block" where
  "mb_apply (OpUpdate s p a d sm cm) b = KMemoryBlock_Update s p a d sm cm b"
| "mb_apply (OpUpdateAttribute msk attr) b = KMemoryBlock_UpdateAttribute msk attr b"
| "mb_apply (OpShare p l r) b = KMemoryBlock_ShareToDevice p l r b"
| "mb_apply (OpUnshare p l r) b = KMemoryBlock_UnshareToDevice p l r b"
| "mb_apply (OpUnshareRight p l r) b = KMemoryBlock_UnshareToDeviceRight p l r b"
| "mb_apply (OpLock p l r) b = KMemoryBlock_LockForIpc p l r b"
| "mb_apply (OpUnlock p l r) b = KMemoryBlock_UnlockForIpc p l r b"

text \<open>
  What a caller has to respect, as the assertions of the source say: the flags that the counters
  own are not written directly, no counter overflows, and nothing is released that is not held.
\<close>

fun mb_allowed :: "mb_op \<Rightarrow> memory_block \<Rightarrow> bool" where
  "mb_allowed (OpUpdate s p a d sm cm) b \<longleftrightarrow>
     a AND (Attr_IpcLocked OR Attr_DeviceShared) = 0 \<and>
     (sm OR cm) AND (DisableMerge_DeviceLeft OR DisableMerge_IpcLeft OR DisableMerge_DeviceRight) = 0"
| "mb_allowed (OpUpdateAttribute msk attr) b \<longleftrightarrow>
     (msk OR attr) AND (Attr_IpcLocked OR Attr_DeviceShared) = 0"
| "mb_allowed (OpShare p l r) b \<longleftrightarrow>
     mb_device_use_count b \<noteq> -1 \<and> (l \<longrightarrow> mb_device_disable_merge_left_count b \<noteq> -1) \<and>
     (r \<longrightarrow> mb_device_disable_merge_right_count b \<noteq> -1)"
| "mb_allowed (OpUnshare p l r) b \<longleftrightarrow>
     mb_device_use_count b \<noteq> 0 \<and> (r \<longrightarrow> mb_device_disable_merge_right_count b \<noteq> 0)"
| "mb_allowed (OpUnshareRight p l r) b \<longleftrightarrow>
     mb_device_use_count b \<noteq> 0 \<and> (r \<longrightarrow> mb_device_disable_merge_right_count b \<noteq> 0)"
| "mb_allowed (OpLock p l r) b \<longleftrightarrow>
     mb_ipc_lock_count b \<noteq> -1 \<and> (l \<longrightarrow> mb_ipc_disable_merge_count b \<noteq> -1)"
| "mb_allowed (OpUnlock p l r) b \<longleftrightarrow>
     mb_ipc_lock_count b \<noteq> 0 \<and> (l \<longrightarrow> mb_ipc_disable_merge_count b \<noteq> 0)"

lemma plus_one_eq_0_iff: "x + 1 = (0 :: 'a::len word) \<longleftrightarrow> x = -1"
  by (metis add.commute eq_neg_iff_add_eq_0)

lemma share_defs:
  "KMemoryBlock_ShareToDevice p l r b =
     (let b1 = b\<lparr>mb_device_use_count := mb_device_use_count b + 1,
                 mb_attribute := mb_attribute b OR Attr_DeviceShared\<rparr>;
          b2 = (if l then b1\<lparr>mb_disable_merge_attribute := mb_disable_merge_attribute b OR DisableMerge_DeviceLeft,
                 mb_device_disable_merge_left_count := mb_device_disable_merge_left_count b + 1\<rparr> else b1)
      in if r then b2\<lparr>mb_disable_merge_attribute := mb_disable_merge_attribute b2 OR DisableMerge_DeviceRight,
                 mb_device_disable_merge_right_count := mb_device_disable_merge_right_count b + 1\<rparr> else b2)"
  by (simp add: KMemoryBlock_ShareToDevice_def UpdateDeviceDisableMergeStateForShare_def
      UpdateDeviceDisableMergeStateForShareLeft_def UpdateDeviceDisableMergeStateForShareRight_def Let_def)

lemmas unshare_defs =
  KMemoryBlock_UnshareToDevice_def KMemoryBlock_UnshareToDeviceRight_def unshare_count_def
  UpdateDeviceDisableMergeStateForUnshare_def UpdateDeviceDisableMergeStateForUnshareLeft_def
  UpdateDeviceDisableMergeStateForUnshareRight_def

lemmas lock_defs = KMemoryBlock_LockForIpc_def KMemoryBlock_UnlockForIpc_def

lemma u16_min_eq_0: "min (x :: u16) y = 0 \<longleftrightarrow> x = 0 \<or> y = 0"
  by (auto simp: min_def)

lemma set_clear_flag:
  "(\<And>i. bit f i \<longleftrightarrow> i = n) \<Longrightarrow> \<not> bit x n \<Longrightarrow> (x OR f) AND NOT f = (x :: 'a::len word)"
  by (auto intro!: bit_word_eqI simp: bit_simps)

lemma set_flag_idem: "(\<And>i. bit f i \<longleftrightarrow> i = n) \<Longrightarrow> bit x n \<Longrightarrow> x OR f = (x :: 'a::len word)"
  by (auto intro!: bit_word_eqI simp: bit_simps)

lemma set_other_clear_flag:
  "(\<And>i. bit f i \<longleftrightarrow> i = n) \<Longrightarrow> (\<And>i. bit g i \<longleftrightarrow> i = m) \<Longrightarrow> n \<noteq> m \<Longrightarrow>
   (x OR g) AND NOT f = (x AND NOT f) OR (g :: 'a::len word)"
  by (auto intro!: bit_word_eqI simp: bit_simps)

lemma clear_flag_idem:
  "(\<And>i. bit f i \<longleftrightarrow> i = n) \<Longrightarrow> \<not> bit x n \<Longrightarrow> x AND NOT f = (x :: 'a::len word)"
  by (auto intro!: bit_word_eqI simp: bit_simps)

lemmas set_clear_flags =
  clear_flag_idem[OF flag_bits(3)]
  set_clear_flag[OF flag_bits(1)] set_clear_flag[OF flag_bits(2)] set_clear_flag[OF flag_bits(3)]
  set_clear_flag[OF flag_bits(4)] set_clear_flag[OF flag_bits(5)]
  set_flag_idem[OF flag_bits(1)] set_flag_idem[OF flag_bits(2)] set_flag_idem[OF flag_bits(3)]
  set_flag_idem[OF flag_bits(4)] set_flag_idem[OF flag_bits(5)]
  set_other_clear_flag[OF flag_bits(3) flag_bits(5)]

lemma Update_wf:
  assumes "mb_wf b" "mb_allowed (OpUpdate s p a d sm cm) b"
  shows "mb_wf (KMemoryBlock_Update s p a d sm cm b)"
proof -
  have a: "\<not> bit a 1" "\<not> bit a 2"
    using disjoint_flag[of a "Attr_IpcLocked OR Attr_DeviceShared"] assms(2)
    by (auto simp: bit_or_iff flag_bits)
  have m: "\<not> bit (sm OR cm) 1" "\<not> bit (sm OR cm) 2" "\<not> bit (sm OR cm) 4"
    using disjoint_flag[of "sm OR cm"
        "DisableMerge_DeviceLeft OR DisableMerge_IpcLeft OR DisableMerge_DeviceRight"] assms(2)
    unfolding mb_allowed.simps bit_or_iff flag_bits by blast+
  show ?thesis
    using assms(1) a m
    by (auto simp: mb_wf_bits KMemoryBlock_Update_def Let_def bit_or_iff bit_and_iff bit_not_iff flag_bits)
qed

lemma UpdateAttribute_wf:
  assumes "mb_wf b" "mb_allowed (OpUpdateAttribute msk attr) b"
  shows "mb_wf (KMemoryBlock_UpdateAttribute msk attr b)"
proof -
  have m: "\<not> bit (msk OR attr) 1" "\<not> bit (msk OR attr) 2"
    using disjoint_flag[of "msk OR attr" "Attr_IpcLocked OR Attr_DeviceShared"] assms(2)
    unfolding mb_allowed.simps bit_or_iff flag_bits by blast+
  show ?thesis
    using assms(1) m
    by (auto simp: mb_wf_bits KMemoryBlock_UpdateAttribute_def bit_or_iff bit_and_iff bit_not_iff)
qed

lemma mb_apply_wf:
  assumes "mb_wf b" "mb_allowed opn b"
  shows "mb_wf (mb_apply opn b)"
proof (cases opn)
  case (OpUpdate s p a d sm cm)
  then show ?thesis using assms Update_wf by simp
next
  case (OpUpdateAttribute msk attr)
  then show ?thesis using assms UpdateAttribute_wf by simp
next
  case (OpShare p l r)
  then show ?thesis using assms
    by (auto simp: mb_wf_bits share_defs flag_bits bit_simps Let_def plus_one_eq_0_iff)
next
  case (OpUnshare p l r)
  then show ?thesis using assms
    by (auto simp: mb_wf_bits unshare_defs flag_bits bit_simps Let_def u16_min_eq_0)
next
  case (OpUnshareRight p l r)
  then show ?thesis using assms
    by (auto simp: mb_wf_bits unshare_defs flag_bits bit_simps Let_def)
next
  case (OpLock p l r)
  then show ?thesis using assms
    by (auto simp: mb_wf_bits lock_defs flag_bits bit_simps Let_def plus_one_eq_0_iff)
next
  case (OpUnlock p l r)
  then show ?thesis using assms
    by (auto simp: mb_wf_bits lock_defs flag_bits bit_simps Let_def)
qed

lemma lock_unlock_ipc:
  assumes "mb_wf b" "mb_allowed (OpLock p l r) b"
  shows "KMemoryBlock_UnlockForIpc p' l r' (KMemoryBlock_LockForIpc p l r b) = b"
  using assms
  by (cases b; cases "mb_ipc_lock_count b = 0"; cases l; cases "mb_ipc_disable_merge_count b = 0")
    (simp_all add: mb_wf_bits lock_defs Let_def set_clear_flags)

lemma share_unshare_device:
  assumes "mb_wf b" "mb_allowed (OpShare p l r) b" "mb_device_disable_merge_left_count b \<le> mb_device_use_count b"
  shows "KMemoryBlock_UnshareToDevice p' l r (KMemoryBlock_ShareToDevice p l r b) = b"
  using assms
  by (cases b; cases l; cases r; cases "mb_device_use_count b = 0"; cases "mb_device_disable_merge_left_count b = 0"; 
    cases "mb_device_disable_merge_right_count b = 0")
   (simp_all add: mb_wf_bits share_defs unshare_defs Let_def set_clear_flags plus_one_eq_0_iff min_absorb1)

lemma mb_apply_range [simp]:
  "mb_address (mb_apply opn b) = mb_address b" "mb_num_pages (mb_apply opn b) = mb_num_pages b"
  by (cases opn; simp add: KMemoryBlock_Update_def KMemoryBlock_UpdateAttribute_def share_defs
      unshare_defs lock_defs Let_def)+

lemma Split_same_properties:
  assumes "KMemoryBlock_Split fresh addr b = (l, r)"
  shows "KMemoryBlock_HasSameProperties b l" "KMemoryBlock_HasSameProperties b r"
  using assms by (auto simp: KMemoryBlock_Split_def Let_def KMemoryBlock_HasSameProperties_def)

lemma Split_wf:
  assumes "mb_wf b" "KMemoryBlock_Split fresh addr b = (l, r)"
  shows "mb_wf l" "mb_wf r"
proof -
  have "l = fst (KMemoryBlock_Split fresh addr b)" "r = snd (KMemoryBlock_Split fresh addr b)"
    using assms(2) by simp_all
  then show "mb_wf l" "mb_wf r"
    using assms(1)
    by (simp_all add: mb_wf_bits KMemoryBlock_Split_def Let_def flag_bits bit_and_iff)
qed

lemma Add_wf:
  assumes "mb_wf b" "mb_wf c" "KMemoryBlock_CanMergeWith b c"
  shows "mb_wf (KMemoryBlock_Add c b)"
  using assms by (auto simp: mb_wf_bits KMemoryBlock_Add_def bit_or_iff CanMergeWith_bits)

lemma split_add:
  assumes "mb_disable_merge_attribute b AND NOT (DisableMerge_AllLeft OR DisableMerge_AllRight) = 0"
    "KMemoryBlock_Split fresh addr b = (l, r)"
  shows "KMemoryBlock_Add r l = b"
proof -
  let ?d = "mb_disable_merge_attribute b"
  have "bit ?d i \<Longrightarrow> i < 5" for i
    using disjoint_flag[OF assms(1), of i] bit_imp_le_length[of ?d i]
    unfolding bit_not_iff bit_or_iff flag_bits by fastforce
  then have "(?d AND DisableMerge_AllLeft) OR (?d AND DisableMerge_AllRight) = ?d"
    by (intro bit_word_eqI) (force simp: bit_simps flag_bits)
  then show ?thesis
    using assms(2)
    by (intro memory_block.equality)
      (auto simp: KMemoryBlock_Split_def KMemoryBlock_Add_def Let_def)
qed

section \<open>Address ranges\<close>

text \<open>A block as the half-open interval of byte addresses it covers, without wrap-around.\<close>

definition naddr :: "memory_block \<Rightarrow> nat" where "naddr b = unat (mb_address b)"
definition nend :: "memory_block \<Rightarrow> nat" where
  "nend b = unat (mb_address b) + unat (mb_num_pages b) * 4096"

definition mb_range_ok :: "memory_block \<Rightarrow> bool" where
  "mb_range_ok b \<longleftrightarrow> 4096 dvd naddr b \<and> naddr b < nend b \<and> nend b < 2 ^ 64"

lemma PageSize_value: "PageSize = 4096" "unat PageSize = 4096"
  by (simp_all add: PageSize_def PageBits_def)

lemma nend_dvd: "mb_range_ok b \<Longrightarrow> 4096 dvd nend b"
  by (auto simp: mb_range_ok_def nend_def naddr_def)

lemma unat_GetSize:
  "mb_range_ok b \<Longrightarrow> unat (KMemoryBlock_GetSize b) = unat (mb_num_pages b) * 4096"
  by (simp add: KMemoryBlock_GetSize_def mb_range_ok_def nend_def unat_mult_no_wrap PageSize_value)

lemma unat_GetEndAddress: "mb_range_ok b \<Longrightarrow> unat (KMemoryBlock_GetEndAddress b) = nend b"
  by (simp add: KMemoryBlock_GetEndAddress_def unat_GetSize unat_add_no_wrap)
    (simp add: mb_range_ok_def nend_def unat_GetSize unat_add_no_wrap)

lemma unat_GetLastAddress: "mb_range_ok b \<Longrightarrow> unat (KMemoryBlock_GetLastAddress b) = nend b - 1"
  unfolding KMemoryBlock_GetLastAddress_def
  by (subst unat_diff_no_wrap) (auto simp: unat_GetEndAddress mb_range_ok_def)

lemma Split_geometry:
  assumes "mb_range_ok b" "naddr b < unat addr" "unat addr < nend b" "4096 dvd unat addr"
    "KMemoryBlock_Split fresh addr b = (l, r)"
  shows "naddr l = naddr b" "nend l = unat addr" "naddr r = unat addr" "nend r = nend b"
    "mb_range_ok l" "mb_range_ok r"
proof -
  have d: "unat (addr - mb_address b) = unat addr - naddr b"
    using assms(2) by (simp add: naddr_def unat_diff_no_wrap)
  have n: "unat ((addr - mb_address b) div PageSize) = (unat addr - naddr b) div 4096"
    using d by (simp add: unat_div_distrib PageSize_value)
  have dv: "4096 dvd unat addr - naddr b"
    using assms(1,4) by (simp add: mb_range_ok_def)
  have le: "(unat addr - naddr b) div 4096 \<le> unat (mb_num_pages b)"
    using assms(3) by (simp add: nend_def naddr_def div_le_mono less_imp_le Suc_leI)
  have l: "l = fst (KMemoryBlock_Split fresh addr b)" and r: "r = snd (KMemoryBlock_Split fresh addr b)"
    using assms(5) by simp_all
  show 1: "naddr l = naddr b" "naddr r = unat addr"
    by (simp_all add: l r naddr_def KMemoryBlock_Split_def Let_def)
  show 2: "nend l = unat addr"
    using dv n assms(2) by (simp add: l nend_def KMemoryBlock_Split_def Let_def) (simp add: naddr_def)
  have "unat (mb_num_pages r) = unat (mb_num_pages b) - (unat addr - naddr b) div 4096"
    using n le by (simp add: r KMemoryBlock_Split_def Let_def unat_diff_no_wrap)
  then show 3: "nend r = nend b"
    using dv assms(2,3) 1 by (simp add: nend_def naddr_def diff_mult_distrib)
  show "mb_range_ok l" "mb_range_ok r"
    using assms 1 2 3 unfolding mb_range_ok_def by simp_all
qed

lemma Add_geometry:
  assumes "mb_range_ok b" "mb_range_ok c" "nend b = naddr c"
  shows "naddr (KMemoryBlock_Add c b) = naddr b" "nend (KMemoryBlock_Add c b) = nend c"
    "mb_range_ok (KMemoryBlock_Add c b)"
proof -
  have n: "unat (mb_num_pages b + mb_num_pages c) = unat (mb_num_pages b) + unat (mb_num_pages c)"
    using assms by (subst unat_add_no_wrap) (auto simp: mb_range_ok_def nend_def naddr_def)
  show 1: "naddr (KMemoryBlock_Add c b) = naddr b"
    by (simp add: naddr_def KMemoryBlock_Add_def)
  show 2: "nend (KMemoryBlock_Add c b) = nend c"
    using n assms(3) by (simp add: nend_def KMemoryBlock_Add_def) (simp add: naddr_def nend_def algebra_simps)
  show "mb_range_ok (KMemoryBlock_Add c b)"
    using assms 1 2 unfolding mb_range_ok_def by simp
qed

section \<open>Properties\<close>

lemma LockForIpc_fields:
  "mb_ipc_lock_count (KMemoryBlock_LockForIpc p l r b) = mb_ipc_lock_count b + 1"
  "mb_ipc_lock_count b = 0 \<Longrightarrow>
     mb_original_permission (KMemoryBlock_LockForIpc p l r b) = mb_permission b"
  "mb_ipc_lock_count b = 0 \<Longrightarrow>
     mb_permission (KMemoryBlock_LockForIpc p l r b) =
       (p AND IpcLockChangeMask) OR (mb_permission b AND NOT IpcLockChangeMask)"
  by (simp_all add: lock_defs Let_def)

lemma and_mask_merge: "((p AND m) OR (x AND NOT m)) AND m = p AND (m :: 'a::len word)"
  by (rule bit_word_eqI) (auto simp: bit_simps)

definition demo_block :: memory_block where
  "demo_block = (KMemoryBlock_new 0x8000000 16 (KMemoryState_value KMemoryState_Normal)
     (ConvertToKMemoryPermission 3) 0)\<lparr>mb_disable_merge_attribute := DisableMerge_Normal\<rparr>"

lemma demo_block_wf: "mb_wf demo_block" "mb_range_ok demo_block"
  by (simp_all add: demo_block_def KMemoryBlock_new_def mb_wf_def attr_defs mb_range_ok_def naddr_def
      nend_def)

text \<open>
  On a well-formed block, locking for IPC records the original permission on the first
  lock, leaves exactly the requested access within the changeable bits, and unlocking with the
  same side flag restores the block exactly, whatever new permission the unlock is given.
\<close>
theorem memory_block_ipc_lock_roundtrip:
  assumes "mb_wf b" "mb_allowed (OpLock p l r) b"
  shows "mb_wf (KMemoryBlock_LockForIpc p l r b) \<and>
    mb_attribute (KMemoryBlock_LockForIpc p l r b) AND Attr_IpcLocked \<noteq> 0 \<and>
    (mb_ipc_lock_count b = 0 \<longrightarrow>
       mb_original_permission (KMemoryBlock_LockForIpc p l r b) = mb_permission b \<and>
       mb_permission (KMemoryBlock_LockForIpc p l r b) AND IpcLockChangeMask = p AND IpcLockChangeMask) \<and>
    KMemoryBlock_UnlockForIpc p' l r' (KMemoryBlock_LockForIpc p l r b) = b"
proof -
  have w: "mb_wf (KMemoryBlock_LockForIpc p l r b)"
    using mb_apply_wf[OF assms] by simp
  then have "mb_attribute (KMemoryBlock_LockForIpc p l r b) AND Attr_IpcLocked \<noteq> 0"
    using assms(2) by (simp add: mb_wf_def LockForIpc_fields plus_one_eq_0_iff)
  then show ?thesis
    using w lock_unlock_ipc[OF assms] by (simp add: LockForIpc_fields and_mask_merge)
qed

theorem memory_block_ipc_lock_roundtrip_witness:
  "KMemoryBlock_UnlockForIpc 0 True True (KMemoryBlock_LockForIpc UserRead True False demo_block)
     = demo_block \<and> mb_allowed (OpLock UserRead True False) demo_block"
proof -
  have a: "mb_allowed (OpLock UserRead True False) demo_block"
    by (simp add: demo_block_def KMemoryBlock_new_def)
  show ?thesis
    using a memory_block_ipc_lock_roundtrip[OF demo_block_wf(1) a, of 0 True] by blast
qed

text \<open>
  Sharing a well-formed block with a device and unsharing it with the same side flags
  restores the block exactly: use count, attribute, both merge counters and merge flags. The left
  merge counter must not exceed the use count, since the unshare path clamps it.
\<close>
theorem memory_block_device_share_roundtrip:
  assumes "mb_wf b" "mb_allowed (OpShare p l r) b"
    "mb_device_disable_merge_left_count b \<le> mb_device_use_count b"
  shows "mb_wf (KMemoryBlock_ShareToDevice p l r b) \<and>
    mb_device_disable_merge_left_count (KMemoryBlock_ShareToDevice p l r b)
      \<le> mb_device_use_count (KMemoryBlock_ShareToDevice p l r b) \<and>
    KMemoryBlock_UnshareToDevice p' l r (KMemoryBlock_ShareToDevice p l r b) = b"
proof -
  have s: "x \<noteq> -1 \<Longrightarrow> unat (x + 1) = unat x + 1" for x :: u16
    using unatSuc[of x] plus_one_eq_0_iff[of x] by (simp add: add.commute)
  have "x \<noteq> -1 \<Longrightarrow> y \<le> x \<Longrightarrow> y + 1 \<le> x + 1 \<and> y \<le> x + 1" for x y :: u16
    using s[of x] s[of y] by (cases "y = -1") (auto simp: word_le_nat_alt)
  then show ?thesis
    using mb_apply_wf[OF assms(1,2)] share_unshare_device[OF assms] assms(2,3)
    by (simp add: share_defs Let_def)
qed

theorem memory_block_device_share_roundtrip_witness:
  "KMemoryBlock_UnshareToDevice 0 True True (KMemoryBlock_ShareToDevice 0 True True demo_block)
     = demo_block \<and> mb_allowed (OpShare 0 True True) demo_block"
proof -
  have a: "mb_allowed (OpShare 0 True True) demo_block"
    "mb_device_disable_merge_left_count demo_block \<le> mb_device_use_count demo_block"
    by (simp_all add: demo_block_def KMemoryBlock_new_def)
  show ?thesis
    using a(1) memory_block_device_share_roundtrip[OF demo_block_wf(1) a, of 0] by blast
qed

text \<open>
  Splitting a block at a page address strictly inside it gives two well-formed blocks
  with the same properties that tile the range of the original, the first unable to refuse a merge
  on its right side and the second on its left, and adding the second to the first restores the
  original block exactly.
\<close>
theorem memory_block_split_add_roundtrip:
  assumes "mb_wf b" "mb_range_ok b" "naddr b < unat addr" "unat addr < nend b" "4096 dvd unat addr"
    "mb_disable_merge_attribute b AND NOT (DisableMerge_AllLeft OR DisableMerge_AllRight) = 0"
    "KMemoryBlock_Split fresh addr b = (l, r)"
  shows "mb_wf l \<and> mb_wf r \<and> mb_range_ok l \<and> mb_range_ok r \<and>
    naddr l = naddr b \<and> nend l = unat addr \<and> naddr r = unat addr \<and> nend r = nend b \<and>
    KMemoryBlock_CanMergeWith l r \<and> KMemoryBlock_Add r l = b"
proof -
  have "KMemoryBlock_CanMergeWith l r"
    using assms(7) unfolding CanMergeWith_bits
    by (auto simp: KMemoryBlock_Split_def Let_def KMemoryBlock_HasSameProperties_def bit_and_iff flag_bits)
  then show ?thesis
    using Split_wf[OF assms(1,7)] Split_geometry[OF assms(2-5,7)] split_add[OF assms(6,7)] by simp
qed

theorem memory_block_split_add_roundtrip_witness:
  "KMemoryBlock_Add (snd (KMemoryBlock_Split KMemoryBlock_default 0x8004000 demo_block))
     (fst (KMemoryBlock_Split KMemoryBlock_default 0x8004000 demo_block)) = demo_block"
proof -
  have "naddr demo_block < unat (0x8004000 :: u64)" "unat (0x8004000 :: u64) < nend demo_block"
    "4096 dvd unat (0x8004000 :: u64)"
    "mb_disable_merge_attribute demo_block AND
       NOT (DisableMerge_AllLeft OR DisableMerge_AllRight) = 0"
    by (simp_all add: demo_block_def KMemoryBlock_new_def naddr_def nend_def attr_defs)
  then show ?thesis
    using memory_block_split_add_roundtrip[OF demo_block_wf, of "0x8004000"] by (metis prod.collapse)
qed

text \<open>
  Every state constant has the value the header's static assertions pin down, and the
  guest sees through \<open>GetSvcMemoryInfo\<close> the state number, the permission it asked for, and the
  lock and share counters of the block.
\<close>
theorem memory_block_svc_info:
  assumes "mb_memory_state b = KMemoryState_value s" "mb_permission b = ConvertToKMemoryPermission p"
    "p < 8"
  shows "mb_memory_state b = static_asserted_state s \<and>
    svc_state (KMemoryInfo_GetSvcMemoryInfo (KMemoryBlock_GetMemoryInfo b)) = static_asserted_state s AND 0xFF \<and>
    svc_permission (KMemoryInfo_GetSvcMemoryInfo (KMemoryBlock_GetMemoryInfo b)) = p \<and>
    svc_ipc_count (KMemoryInfo_GetSvcMemoryInfo (KMemoryBlock_GetMemoryInfo b)) = ucast (mb_ipc_lock_count b) \<and>
    svc_device_count (KMemoryInfo_GetSvcMemoryInfo (KMemoryBlock_GetMemoryInfo b)) = ucast (mb_device_use_count b)"
proof -
  have "take_bit 3 p = p"
    using assms(3)
    by (simp add: word_unat_eq_iff unsigned_take_bit_eq take_bit_nat_eq_self word_less_nat_alt)
  then have "bit p i \<longrightarrow> i < 3" for i
    by (metis bit_take_bit_iff)
  moreover have "bit UserMask i \<longleftrightarrow> i < 3" for i
    unfolding UserMask_def MemoryPermission_Read_def MemoryPermission_Write_def
      MemoryPermission_Execute_def bit_or_iff bit_push_bit_iff bit_1_iff by auto
  ultimately have "ucast (ConvertToKMemoryPermission p AND UserMask) = p"
    by (intro bit_word_eqI) (auto simp: bit_unsigned_iff bit_and_iff ConvertToKMemoryPermission_bits)
  then show ?thesis
    using assms by (simp add: KMemoryInfo_GetSvcMemoryInfo_def KMemoryBlock_GetMemoryInfo_def
        KMemoryState_Mask_def memory_state_values)
qed

theorem memory_block_svc_info_witness:
  "svc_permission (KMemoryInfo_GetSvcMemoryInfo (KMemoryBlock_GetMemoryInfo demo_block)) = 3 \<and>
   svc_state (KMemoryInfo_GetSvcMemoryInfo (KMemoryBlock_GetMemoryInfo demo_block)) = 5"
proof -
  have "mb_memory_state demo_block = KMemoryState_value KMemoryState_Normal"
    "mb_permission demo_block = ConvertToKMemoryPermission 3"
    by (simp_all add: demo_block_def KMemoryBlock_new_def)
  from memory_block_svc_info[OF this] show ?thesis by simp
qed

end
