(* ===== verification/Block_Manager.thy ===== *)
theory Block_Manager
  imports Memory_Block
begin

text \<open>
  The address space map of a process, \<^verbatim>\<open>src/src/core/hle/kernel/k_memory_block_manager.cpp\<close> and
  \<^verbatim>\<open>k_memory_block_manager.h\<close>: an ordered tree of memory blocks that tiles the address space.
  The tree is the list of its blocks in order, an iterator is a position in that list (the length is
  the end iterator), and search and insertion walk it with \<open>KMemoryBlock::Compare\<close>, as the tree
  does. Dereferencing the end iterator, writing through a null block and inserting a block that
  compares equal to one in the tree are undefined behaviour (\<open>UB\<close>). The slab manager is the number
  of blocks it can still hand out.
\<close>

section \<open>The update allocator\<close>

definition MaxBlocks :: nat where "MaxBlocks = 2"

record update_allocator =
  ua_blocks :: "memory_block option list"
  ua_index :: nat
  ua_slab :: nat

definition slab_Allocate :: "nat \<Rightarrow> memory_block option \<times> nat" where
  "slab_Allocate n = (if n = 0 then (None, 0) else (Some KMemoryBlock_default, n - 1))"

definition slab_Free :: "nat \<Rightarrow> nat" where "slab_Free n = n + 1"

fun UpdateAllocator_fill :: "nat \<Rightarrow> nat \<Rightarrow> update_allocator \<Rightarrow> result_code option \<times> update_allocator" where
  "UpdateAllocator_fill i 0 al = (None, al)"
| "UpdateAllocator_fill i (Suc n) al =
     (let (blk, sl) = slab_Allocate (ua_slab al);
          al' = al\<lparr>ua_blocks := (ua_blocks al)[ua_index al + i := blk], ua_slab := sl\<rparr>
      in if blk = None then (Some ResultOutOfResource, al')
         else UpdateAllocator_fill (Suc i) n al')"

text \<open>
  The constructor always leaves an object; the result is an out parameter. More than \<open>MaxBlocks\<close>
  blocks make the index wrap below zero and the first store go out of the array.
\<close>

definition UpdateAllocator_new :: "nat \<Rightarrow> nat \<Rightarrow> (result_code option \<times> update_allocator) res" where
  "UpdateAllocator_new num_blocks slab =
     (if num_blocks > MaxBlocks then UB
      else Ok (UpdateAllocator_fill 0 num_blocks
        \<lparr>ua_blocks = replicate MaxBlocks None, ua_index = MaxBlocks - num_blocks, ua_slab = slab\<rparr>))"

definition UpdateAllocator_destroy :: "update_allocator \<Rightarrow> nat" where
  "UpdateAllocator_destroy al =
     fold (\<lambda>blk sl. if blk \<noteq> None then slab_Free sl else sl) (ua_blocks al) (ua_slab al)"

definition UpdateAllocator_Allocate ::
  "update_allocator \<Rightarrow> (memory_block option \<times> update_allocator) res" where
  "UpdateAllocator_Allocate al =
     (if ua_index al \<ge> length (ua_blocks al) then UB
      else Ok (ua_blocks al ! ua_index al,
        al\<lparr>ua_blocks := (ua_blocks al)[ua_index al := None], ua_index := ua_index al + 1\<rparr>))"

definition UpdateAllocator_Free ::
  "memory_block \<Rightarrow> update_allocator \<Rightarrow> update_allocator res" where
  "UpdateAllocator_Free block al =
     (if ua_index al = 0 then Ok (al\<lparr>ua_slab := slab_Free (ua_slab al)\<rparr>)
      else if ua_index al - 1 \<ge> length (ua_blocks al) then UB
      else Ok (al\<lparr>ua_index := ua_index al - 1,
                  ua_blocks := (ua_blocks al)[ua_index al - 1 := Some block]\<rparr>))"

section \<open>The tree\<close>

record block_manager =
  bm_tree :: "memory_block list"
  bm_start_address :: u64
  bm_end_address :: u64

fun tree_insert :: "memory_block \<Rightarrow> memory_block list \<Rightarrow> (memory_block list \<times> nat) res" where
  "tree_insert b [] = Ok ([b], 0)"
| "tree_insert b (x # xs) =
     (if KMemoryBlock_Compare b x < 0 then Ok (b # x # xs, 0)
      else if KMemoryBlock_Compare b x > 0 then
        bind_res (tree_insert b xs) (\<lambda>(ys, i). Ok (x # ys, Suc i))
      else UB)"

fun tree_find :: "memory_block \<Rightarrow> memory_block list \<Rightarrow> nat" where
  "tree_find key [] = 0"
| "tree_find key (x # xs) =
     (if KMemoryBlock_Compare key x = 0 then 0 else Suc (tree_find key xs))"

definition FindIterator :: "memory_block list \<Rightarrow> u64 \<Rightarrow> nat" where
  "FindIterator bs address =
     tree_find (KMemoryBlock_new address 1 (KMemoryState_value KMemoryState_Free) 0 0) bs"

definition FindBlock :: "memory_block list \<Rightarrow> u64 \<Rightarrow> memory_block option" where
  "FindBlock bs address =
     (let it = FindIterator bs address in if it \<noteq> length bs then Some (bs ! it) else None)"

definition KMemoryBlockManager_Initialize ::
  "u64 \<Rightarrow> u64 \<Rightarrow> nat \<Rightarrow> block_manager \<Rightarrow> (block_manager \<times> nat) res" where
  "KMemoryBlockManager_Initialize st nd slab m =
     (case slab_Allocate slab of
        (None, _) \<Rightarrow> Err ResultOutOfResource
      | (Some start_block, slab') \<Rightarrow>
          bind_res (tree_insert
              (KMemoryBlock_Initialize st ((nd - st) div PageSize)
                 (KMemoryState_value KMemoryState_Free) 0 0 start_block) (bm_tree m)) (\<lambda>(bs, _).
            Ok (\<lparr>bm_tree = bs, bm_start_address = st, bm_end_address = nd\<rparr>, slab')))"

text \<open>\<open>Finalize\<close> returns the ranges it passes to the callback, in order.\<close>

fun KMemoryBlockManager_Finalize ::
  "memory_block list \<Rightarrow> nat \<Rightarrow> (u64 \<times> u64) list \<times> memory_block list \<times> nat" where
  "KMemoryBlockManager_Finalize [] slab = ([], [], slab)"
| "KMemoryBlockManager_Finalize (b # bs) slab =
     (let (calls, bs', slab') = KMemoryBlockManager_Finalize bs (slab_Free slab)
      in ((mb_address b, KMemoryBlock_GetSize b) # calls, bs', slab'))"

definition candidate_area :: "u64 \<Rightarrow> u64 \<Rightarrow> u64 \<Rightarrow> u64 \<Rightarrow> u64 \<Rightarrow> u64" where
  "candidate_area block_address region_start alignment offset guard_pages =
     (let area0 = (if block_address \<le> region_start then region_start else block_address);
          area1 = area0 + guard_pages * PageSize;
          offset_area = AlignDown area1 alignment + offset
      in if area1 \<le> offset_area then offset_area else offset_area + alignment)"

fun FindFreeArea_loop ::
  "memory_block list \<Rightarrow> u64 \<Rightarrow> u64 \<Rightarrow> u64 \<Rightarrow> u64 \<Rightarrow> u64 \<Rightarrow> u64 \<Rightarrow> u64" where
  "FindFreeArea_loop [] region_start region_last num_pages alignment offset guard_pages = 0"
| "FindFreeArea_loop (b # bs) region_start region_last num_pages alignment offset guard_pages =
     (let info = KMemoryBlock_GetMemoryInfo b in
      if region_last < info_address info then 0
      else if info_state info \<noteq> KMemoryState_value KMemoryState_Free then
        FindFreeArea_loop bs region_start region_last num_pages alignment offset guard_pages
      else
        let area = candidate_area (info_address info) region_start alignment offset guard_pages;
            area_end = area + num_pages * PageSize + guard_pages * PageSize;
            area_last = area_end - 1
        in if info_address info \<le> area \<and> area < area_last \<and> area_last \<le> region_last \<and>
              area_last \<le> KMemoryInfo_GetLastAddress info
           then area
           else FindFreeArea_loop bs region_start region_last num_pages alignment offset guard_pages)"

definition FindFreeArea ::
  "memory_block list \<Rightarrow> u64 \<Rightarrow> u64 \<Rightarrow> u64 \<Rightarrow> u64 \<Rightarrow> u64 \<Rightarrow> u64 \<Rightarrow> u64" where
  "FindFreeArea bs region_start region_num_pages num_pages alignment offset guard_pages =
     (if num_pages > 0 then
        let region_end = region_start + region_num_pages * PageSize;
            region_last = region_end - 1
        in FindFreeArea_loop (drop (FindIterator bs region_start) bs)
             region_start region_last num_pages alignment offset guard_pages
      else 0)"

section \<open>Coalescing\<close>

function CoalesceForUpdate_loop ::
  "u64 \<Rightarrow> update_allocator \<Rightarrow> memory_block list \<Rightarrow> nat \<Rightarrow> (update_allocator \<times> memory_block list) res" where
  "CoalesceForUpdate_loop end_address al bs prev =
     (if prev \<ge> length bs then UB
      else if prev + 1 = length bs then Ok (al, bs)
      else if KMemoryBlock_CanMergeWith (bs ! prev) (bs ! (prev + 1)) then
        (let block = bs ! (prev + 1);
             bs' = take prev bs @ KMemoryBlock_Add block (bs ! prev) # drop (prev + 2) bs
         in bind_res (UpdateAllocator_Free block al) (\<lambda>al'.
              if end_address < KMemoryInfo_GetEndAddress (KMemoryBlock_GetMemoryInfo (bs' ! prev))
              then Ok (al', bs')
              else CoalesceForUpdate_loop end_address al' bs' prev))
      else if end_address < KMemoryInfo_GetEndAddress (KMemoryBlock_GetMemoryInfo (bs ! (prev + 1)))
        then Ok (al, bs)
      else CoalesceForUpdate_loop end_address al bs (prev + 1))"
  by pat_completeness auto
termination
  by (relation "measure (\<lambda>(e, al, bs, prev). length bs - prev)") auto

definition CoalesceForUpdate ::
  "u64 \<Rightarrow> update_allocator \<Rightarrow> u64 \<Rightarrow> u64 \<Rightarrow> memory_block list \<Rightarrow>
     (update_allocator \<times> memory_block list) res" where
  "CoalesceForUpdate start_address al address num_pages bs =
     (let it = FindIterator bs address in
      if address \<noteq> start_address \<and> (it = 0 \<or> it \<ge> length bs) then UB
      else CoalesceForUpdate_loop (address + num_pages * PageSize) al bs
             (if address \<noteq> start_address then it - 1 else it))"

section \<open>Updating a range\<close>

text \<open>The parts the four update loops share: advancing over a block, and cutting one.\<close>

definition advance :: "u64 \<Rightarrow> u64 \<Rightarrow> memory_info \<Rightarrow> u64 \<times> u64" where
  "advance cur_address remaining_size cur_info =
     (if cur_address + remaining_size < KMemoryInfo_GetEndAddress cur_info
      then (cur_address + remaining_size, 0)
      else (KMemoryInfo_GetEndAddress cur_info,
            (cur_address + remaining_size - KMemoryInfo_GetEndAddress cur_info) div PageSize))"

definition split_at ::
  "u64 \<Rightarrow> update_allocator \<Rightarrow> memory_block list \<Rightarrow> nat \<Rightarrow>
     (update_allocator \<times> memory_block list \<times> nat) res" where
  "split_at addr al bs it =
     bind_res (UpdateAllocator_Allocate al) (\<lambda>(blk, al').
       case blk of
         None \<Rightarrow> UB
       | Some new_block \<Rightarrow>
           (let (l, r) = KMemoryBlock_Split new_block addr (bs ! it)
            in bind_res (tree_insert l (bs[it := r])) (\<lambda>(bs', it').
                 if it' < length bs' then Ok (al', bs', it') else UB)))"

definition cut_before ::
  "u64 \<Rightarrow> update_allocator \<Rightarrow> memory_block list \<Rightarrow> nat \<Rightarrow>
     (update_allocator \<times> memory_block list \<times> nat \<times> u64) res" where
  "cut_before cur_address al bs it =
     (if mb_address (bs ! it) \<noteq> cur_address then
        bind_res (split_at cur_address al bs it) (\<lambda>(al', bs', it').
          if it' + 1 < length bs' then Ok (al', bs', it' + 1, mb_address (bs' ! (it' + 1))) else UB)
      else Ok (al, bs, it, cur_address))"

definition cut_after ::
  "u64 \<Rightarrow> u64 \<Rightarrow> update_allocator \<Rightarrow> memory_block list \<Rightarrow> nat \<Rightarrow>
     (update_allocator \<times> memory_block list \<times> nat) res" where
  "cut_after cur_address remaining_size al bs it =
     (if KMemoryBlock_GetSize (bs ! it) > remaining_size
      then split_at (cur_address + remaining_size) al bs it
      else Ok (al, bs, it))"

definition cut_range ::
  "u64 \<Rightarrow> u64 \<Rightarrow> update_allocator \<Rightarrow> memory_block list \<Rightarrow> nat \<Rightarrow>
     (update_allocator \<times> memory_block list \<times> nat \<times> u64) res" where
  "cut_range cur_address remaining_size al bs it =
     bind_res (cut_before cur_address al bs it) (\<lambda>(al1, bs1, it1, cur1).
       bind_res (cut_after cur1 remaining_size al1 bs1 it1) (\<lambda>(al2, bs2, it2).
         Ok (al2, bs2, it2, cur1)))"

definition ua_rank :: "update_allocator \<Rightarrow> nat" where
  "ua_rank al = length (ua_blocks al) - ua_index al"

lemma split_at_rank: "split_at addr al bs it = Ok (al', bs', it') \<Longrightarrow> ua_rank al' < ua_rank al"
  by (auto simp: split_at_def UpdateAllocator_Allocate_def bind_res_Ok_iff ua_rank_def
      split: if_splits option.splits prod.splits)

lemma cut_range_rank:
  assumes "cut_range cur rs al bs it = Ok (al', bs', it', cur')"
  shows "ua_rank al' < ua_rank al \<or> ua_rank al' = ua_rank al \<and> bs' = bs \<and> it' = it"
  using assms
  by (auto simp: cut_range_def cut_before_def cut_after_def bind_res_Ok_iff
      dest!: split_at_rank split: if_splits)

text \<open>Every loop either cuts, which uses up a block of the allocator, or moves on.\<close>

definition loop_rel ::
  "((update_allocator \<times> memory_block list \<times> nat) \<times> (update_allocator \<times> memory_block list \<times> nat)) set" where
  "loop_rel = measures [\<lambda>(al, bs, it). ua_rank al, \<lambda>(al, bs, it). length bs - it]"

lemma wf_loop_rel [simp]: "wf loop_rel"
  by (simp add: loop_rel_def)

lemma loop_rel_advance: "it < length bs \<Longrightarrow> ((al, bs, Suc it), (al, bs, it)) \<in> loop_rel"
  by (auto simp: loop_rel_def)

lemma loop_rel_cut:
  assumes "cut_range cur rs al bs it = Ok (al', bs', it', cur')" "it < length bs"
    "length bs'' = length bs'"
  shows "((al', bs'', Suc it'), (al, bs, it)) \<in> loop_rel"
  using cut_range_rank[OF assms(1)] assms(2,3) by (auto simp: loop_rel_def)

function Update_loop ::
  "u32 \<Rightarrow> u8 \<Rightarrow> u8 \<Rightarrow> u8 \<Rightarrow> u8 \<Rightarrow> u64 \<Rightarrow> update_allocator \<Rightarrow> memory_block list \<Rightarrow> nat \<Rightarrow> u64 \<Rightarrow> u64 \<Rightarrow>
     (update_allocator \<times> memory_block list) res" where
  "Update_loop state perm attr set_disable_attr clear_disable_attr address al bs it cur_address remaining_pages =
     (if remaining_pages = 0 then Ok (al, bs)
      else if it \<ge> length bs then UB
      else
        let remaining_size = remaining_pages * PageSize;
            cur_info = KMemoryBlock_GetMemoryInfo (bs ! it)
        in if KMemoryBlock_HasProperties state perm attr (bs ! it) then
             (let (cur', rem') = advance cur_address remaining_size cur_info
              in Update_loop state perm attr set_disable_attr clear_disable_attr address
                   al bs (it + 1) cur' rem')
           else (case cut_range cur_address remaining_size al bs it of
               Ok (al', bs', it', cur') \<Rightarrow>
                 let info = KMemoryBlock_GetMemoryInfo (bs' ! it') in
                 Update_loop state perm attr set_disable_attr clear_disable_attr address al'
                   (bs'[it' := KMemoryBlock_Update state perm attr
                      (mb_address (bs' ! it') = address) set_disable_attr clear_disable_attr
                      (bs' ! it')])
                   (it' + 1) (cur' + info_size info) (remaining_pages - KMemoryInfo_GetNumPages info)
             | Err e \<Rightarrow> Err e
             | UB \<Rightarrow> UB))"
  by pat_completeness auto
termination
  by (relation "inv_image loop_rel
      (\<lambda>(s, p, a, sd, cd, ad, al, bs, it, cur, rem). (al, bs, it))")
    (auto intro: loop_rel_advance loop_rel_cut)

function UpdateIfMatch_loop ::
  "u32 \<Rightarrow> u8 \<Rightarrow> u8 \<Rightarrow> u32 \<Rightarrow> u8 \<Rightarrow> u8 \<Rightarrow> u8 \<Rightarrow> u8 \<Rightarrow> update_allocator \<Rightarrow> memory_block list \<Rightarrow> nat \<Rightarrow> u64 \<Rightarrow>
     u64 \<Rightarrow> (update_allocator \<times> memory_block list) res" where
  "UpdateIfMatch_loop test_state test_perm test_attr state perm attr set_disable_attr clear_disable_attr
       al bs it cur_address remaining_pages =
     (if remaining_pages = 0 then Ok (al, bs)
      else if it \<ge> length bs then UB
      else
        let remaining_size = remaining_pages * PageSize;
            cur_info = KMemoryBlock_GetMemoryInfo (bs ! it)
        in if KMemoryBlock_HasProperties test_state test_perm test_attr (bs ! it) \<and>
              \<not> KMemoryBlock_HasProperties state perm attr (bs ! it) then
             (case cut_range cur_address remaining_size al bs it of
               Ok (al', bs', it', cur') \<Rightarrow>
                 let info = KMemoryBlock_GetMemoryInfo (bs' ! it') in
                 UpdateIfMatch_loop test_state test_perm test_attr state perm attr
                   set_disable_attr clear_disable_attr al'
                   (bs'[it' := KMemoryBlock_Update state perm attr False set_disable_attr
                      clear_disable_attr (bs' ! it')])
                   (it' + 1) (cur' + info_size info) (remaining_pages - KMemoryInfo_GetNumPages info)
             | Err e \<Rightarrow> Err e
             | UB \<Rightarrow> UB)
           else
             (let (cur', rem') = advance cur_address remaining_size cur_info
              in UpdateIfMatch_loop test_state test_perm test_attr state perm attr
                   set_disable_attr clear_disable_attr al bs (it + 1) cur' rem'))"
  by pat_completeness auto
termination
  by (relation "inv_image loop_rel
      (\<lambda>(ts, tp, ta, s, p, a, sd, cd, al, bs, it, cur, rem). (al, bs, it))")
    (auto intro: loop_rel_advance loop_rel_cut)

function UpdateLock_loop ::
  "(u8 \<Rightarrow> bool \<Rightarrow> bool \<Rightarrow> memory_block \<Rightarrow> memory_block) \<Rightarrow> u8 \<Rightarrow> u64 \<Rightarrow> u64 \<Rightarrow> update_allocator \<Rightarrow>
     memory_block list \<Rightarrow> nat \<Rightarrow> u64 \<Rightarrow> u64 \<Rightarrow> (update_allocator \<times> memory_block list) res" where
  "UpdateLock_loop lock_func perm address end_address al bs it cur_address remaining_pages =
     (if remaining_pages = 0 then Ok (al, bs)
      else if it \<ge> length bs then UB
      else
        let remaining_size = remaining_pages * PageSize
        in (case cut_range cur_address remaining_size al bs it of
               Ok (al', bs', it', cur') \<Rightarrow>
                 let info = KMemoryBlock_GetMemoryInfo (bs' ! it') in
                 UpdateLock_loop lock_func perm address end_address al'
                   (bs'[it' := lock_func perm (info_address info = address)
                      (KMemoryInfo_GetEndAddress info = end_address) (bs' ! it')])
                   (it' + 1) (cur' + info_size info) (remaining_pages - KMemoryInfo_GetNumPages info)
             | Err e \<Rightarrow> Err e
             | UB \<Rightarrow> UB))"
  by pat_completeness auto
termination
  by (relation "inv_image loop_rel
      (\<lambda>(f, p, ad, ea, al, bs, it, cur, rem). (al, bs, it))")
    (auto intro: loop_rel_cut)

function UpdateAttribute_loop ::
  "u8 \<Rightarrow> u8 \<Rightarrow> update_allocator \<Rightarrow> memory_block list \<Rightarrow> nat \<Rightarrow> u64 \<Rightarrow> u64 \<Rightarrow>
     (update_allocator \<times> memory_block list) res" where
  "UpdateAttribute_loop msk attr al bs it cur_address remaining_pages =
     (if remaining_pages = 0 then Ok (al, bs)
      else if it \<ge> length bs then UB
      else
        let remaining_size = remaining_pages * PageSize;
            cur_info = KMemoryBlock_GetMemoryInfo (bs ! it)
        in if mb_attribute (bs ! it) AND msk \<noteq> attr then
             (case cut_range cur_address remaining_size al bs it of
               Ok (al', bs', it', cur') \<Rightarrow>
                 let info = KMemoryBlock_GetMemoryInfo (bs' ! it') in
                 UpdateAttribute_loop msk attr al'
                   (bs'[it' := KMemoryBlock_UpdateAttribute msk attr (bs' ! it')])
                   (it' + 1) (cur' + info_size info) (remaining_pages - KMemoryInfo_GetNumPages info)
             | Err e \<Rightarrow> Err e
             | UB \<Rightarrow> UB)
           else
             (let (cur', rem') = advance cur_address remaining_size cur_info
              in UpdateAttribute_loop msk attr al bs (it + 1) cur' rem'))"
  by pat_completeness auto
termination
  by (relation "inv_image loop_rel (\<lambda>(m, a, al, bs, it, cur, rem). (al, bs, it))")
    (auto intro: loop_rel_advance loop_rel_cut)

declare Update_loop.simps [simp del] UpdateIfMatch_loop.simps [simp del]
  UpdateLock_loop.simps [simp del] UpdateAttribute_loop.simps [simp del]
  CoalesceForUpdate_loop.simps [simp del]

text \<open>Each operation runs its loop and coalesces around the range.\<close>

definition finish_update ::
  "u64 \<Rightarrow> u64 \<Rightarrow> block_manager \<Rightarrow> (update_allocator \<times> memory_block list) res \<Rightarrow>
     (update_allocator \<times> block_manager) res" where
  "finish_update address num_pages m r =
     bind_res r (\<lambda>(al, bs).
       bind_res (CoalesceForUpdate (bm_start_address m) al address num_pages bs) (\<lambda>(al', bs').
         Ok (al', m\<lparr>bm_tree := bs'\<rparr>)))"

definition KMemoryBlockManager_Update ::
  "update_allocator \<Rightarrow> u64 \<Rightarrow> u64 \<Rightarrow> u32 \<Rightarrow> u8 \<Rightarrow> u8 \<Rightarrow> u8 \<Rightarrow> u8 \<Rightarrow> block_manager \<Rightarrow>
     (update_allocator \<times> block_manager) res" where
  "KMemoryBlockManager_Update al address num_pages state perm attr set_disable_attr clear_disable_attr m =
     finish_update address num_pages m
       (Update_loop state perm attr set_disable_attr clear_disable_attr address al (bm_tree m)
          (FindIterator (bm_tree m) address) address num_pages)"

definition KMemoryBlockManager_UpdateIfMatch ::
  "update_allocator \<Rightarrow> u64 \<Rightarrow> u64 \<Rightarrow> u32 \<Rightarrow> u8 \<Rightarrow> u8 \<Rightarrow> u32 \<Rightarrow> u8 \<Rightarrow> u8 \<Rightarrow> u8 \<Rightarrow> u8 \<Rightarrow> block_manager \<Rightarrow>
     (update_allocator \<times> block_manager) res" where
  "KMemoryBlockManager_UpdateIfMatch al address num_pages test_state test_perm test_attr
       state perm attr set_disable_attr clear_disable_attr m =
     finish_update address num_pages m
       (UpdateIfMatch_loop test_state test_perm test_attr state perm attr set_disable_attr
          clear_disable_attr al (bm_tree m) (FindIterator (bm_tree m) address) address num_pages)"

definition KMemoryBlockManager_UpdateLock ::
  "update_allocator \<Rightarrow> u64 \<Rightarrow> u64 \<Rightarrow> (u8 \<Rightarrow> bool \<Rightarrow> bool \<Rightarrow> memory_block \<Rightarrow> memory_block) \<Rightarrow> u8 \<Rightarrow>
     block_manager \<Rightarrow> (update_allocator \<times> block_manager) res" where
  "KMemoryBlockManager_UpdateLock al address num_pages lock_func perm m =
     finish_update address num_pages m
       (UpdateLock_loop lock_func perm address (address + num_pages * PageSize) al (bm_tree m)
          (FindIterator (bm_tree m) address) address num_pages)"

definition KMemoryBlockManager_UpdateAttribute ::
  "update_allocator \<Rightarrow> u64 \<Rightarrow> u64 \<Rightarrow> u8 \<Rightarrow> u8 \<Rightarrow> block_manager \<Rightarrow>
     (update_allocator \<times> block_manager) res" where
  "KMemoryBlockManager_UpdateAttribute al address num_pages msk attr m =
     finish_update address num_pages m
       (UpdateAttribute_loop msk attr al (bm_tree m) (FindIterator (bm_tree m) address) address
          num_pages)"

section \<open>The audit\<close>

definition check_counts :: "memory_block \<Rightarrow> bool" where
  "check_counts b \<longleftrightarrow>
     \<not> (mb_attribute b AND Attr_IpcLocked \<noteq> 0 \<and> mb_ipc_lock_count b = 0) \<and>
     \<not> (mb_attribute b AND Attr_DeviceShared \<noteq> 0 \<and> mb_device_use_count b = 0)"

fun CheckState_loop :: "memory_block \<Rightarrow> memory_block list \<Rightarrow> bool" where
  "CheckState_loop prev [] \<longleftrightarrow> check_counts prev"
| "CheckState_loop prev (cur # bs) \<longleftrightarrow>
     \<not> KMemoryBlock_CanMergeWith prev cur \<and>
     KMemoryBlock_GetEndAddress prev = mb_address cur \<and>
     check_counts cur \<and> CheckState_loop cur bs"

definition CheckState :: "memory_block list \<Rightarrow> bool res" where
  "CheckState bs = (case bs of [] \<Rightarrow> UB | b # bs' \<Rightarrow> Ok (CheckState_loop b bs'))"

section \<open>Tilings of the address space\<close>

fun tiles :: "nat \<Rightarrow> memory_block list \<Rightarrow> nat \<Rightarrow> bool" where
  "tiles st [] nd \<longleftrightarrow> st = nd"
| "tiles st (b # bs) nd \<longleftrightarrow> naddr b = st \<and> mb_range_ok b \<and> tiles (nend b) bs nd"

lemma tiles_append: "tiles st (xs @ ys) nd \<longleftrightarrow> (\<exists>m. tiles st xs m \<and> tiles m ys nd)"
  by (induction xs arbitrary: st) auto

lemma tiles_le: "tiles st bs nd \<Longrightarrow> st \<le> nd"
  by (induction bs arbitrary: st) (fastforce simp: mb_range_ok_def)+

lemma tiles_in:
  "tiles st bs nd \<Longrightarrow> b \<in> set bs \<Longrightarrow> mb_range_ok b \<and> st \<le> naddr b \<and> nend b \<le> nd"
proof (induction bs arbitrary: st)
  case (Cons c bs)
  then show ?case
    using tiles_le[of "nend c" bs nd] by (force simp: mb_range_ok_def)
qed simp

lemma tiles_cover:
  "tiles st bs nd \<Longrightarrow> st \<le> n \<Longrightarrow> n < nd \<Longrightarrow>
     \<exists>pre b post. bs = pre @ b # post \<and> naddr b \<le> n \<and> n < nend b"
proof (induction bs arbitrary: st)
  case (Cons c bs)
  show ?case
  proof (cases "n < nend c")
    case True
    with Cons.prems show ?thesis by (intro exI[of _ "[]"]) auto
  next
    case False
    with Cons.prems Cons.IH[of "nend c"] obtain pre b post where
      "bs = pre @ b # post" "naddr b \<le> n" "n < nend b" by auto
    then show ?thesis by (intro exI[of _ "c # pre"]) auto
  qed
qed simp

section \<open>Search and insertion\<close>

lemma Compare_cases:
  assumes "mb_range_ok x"
  shows "naddr b < naddr x \<Longrightarrow> KMemoryBlock_Compare b x = - 1"
    "naddr x \<le> naddr b \<Longrightarrow> naddr b < nend x \<Longrightarrow> KMemoryBlock_Compare b x = 0"
    "nend x \<le> naddr b \<Longrightarrow> KMemoryBlock_Compare b x = 1"
  using assms unat_GetLastAddress[OF assms]
  by (auto simp: KMemoryBlock_Compare_def word_less_nat_alt word_le_nat_alt naddr_def mb_range_ok_def)

lemma tree_find_skip:
  "(\<And>x. x \<in> set pre \<Longrightarrow> KMemoryBlock_Compare key x \<noteq> 0) \<Longrightarrow>
     tree_find key (pre @ bs) = length pre + tree_find key bs"
  by (induction pre) auto

lemma naddr_key [simp]: "naddr (KMemoryBlock_new a np s p at) = unat a"
  by (simp add: naddr_def KMemoryBlock_new_def)

lemma FindIterator_at:
  assumes "tiles st (pre @ b # post) nd" "naddr b \<le> unat a" "unat a < nend b"
  shows "FindIterator (pre @ b # post) a = length pre"
proof -
  obtain m where m: "tiles st pre m" "m = naddr b" "mb_range_ok b"
    using assms(1) by (auto simp: tiles_append)
  have "KMemoryBlock_Compare (KMemoryBlock_new a 1 (KMemoryState_value KMemoryState_Free) 0 0) x \<noteq> 0"
    if "x \<in> set pre" for x
    using tiles_in[OF m(1) that] m(2) assms(2) by (subst Compare_cases(3)) auto
  then show ?thesis
    using Compare_cases(2)[OF m(3), of "KMemoryBlock_new a 1 (KMemoryState_value KMemoryState_Free) 0 0"]
      assms(2,3) by (simp add: FindIterator_def tree_find_skip)
qed

lemma FindIterator_outside:
  assumes "tiles st bs nd" "unat a < st \<or> nd \<le> unat a"
  shows "FindIterator bs a = length bs"
proof -
  have "KMemoryBlock_Compare (KMemoryBlock_new a 1 (KMemoryState_value KMemoryState_Free) 0 0) x \<noteq> 0"
    if "x \<in> set bs" for x
    using tiles_in[OF assms(1) that] assms(2) Compare_cases(1,3)[of x]
    by (metis add.inverse_inverse le_trans less_le_trans naddr_key neg_equal_zero one_neq_zero)
  then show ?thesis
    using tree_find_skip[of bs _ "[]"] by (simp add: FindIterator_def)
qed

lemma tree_insert_at:
  assumes "\<And>x. x \<in> set pre \<Longrightarrow> mb_range_ok x \<and> nend x \<le> naddr l" "mb_range_ok r" "naddr l < naddr r"
  shows "tree_insert l (pre @ r # post) = Ok (pre @ l # r # post, length pre)"
  using assms by (induction pre) (auto simp: Compare_cases)

section \<open>The allocator\<close>

definition ua_wf :: "update_allocator \<Rightarrow> bool" where
  "ua_wf al \<longleftrightarrow> length (ua_blocks al) = MaxBlocks \<and> ua_index al \<le> MaxBlocks \<and>
     (\<forall>i < MaxBlocks. ua_blocks al ! i \<noteq> None \<longleftrightarrow> ua_index al \<le> i)"

definition ua_live :: "update_allocator \<Rightarrow> nat" where
  "ua_live al = MaxBlocks - ua_index al"

lemma Allocate_ok:
  assumes "ua_wf al" "0 < ua_live al"
  obtains blk al' where "UpdateAllocator_Allocate al = Ok (Some blk, al')" "ua_wf al'"
    "ua_live al' = ua_live al - 1" "ua_slab al' = ua_slab al"
proof -
  have "ua_index al < length (ua_blocks al)" "ua_index al < MaxBlocks"
    using assms by (auto simp: ua_wf_def ua_live_def)
  moreover from this assms obtain blk where "ua_blocks al ! ua_index al = Some blk"
    by (auto simp: ua_wf_def)
  ultimately show ?thesis
    using assms
    by (intro that[of blk "al\<lparr>ua_blocks := (ua_blocks al)[ua_index al := None], ua_index := ua_index al + 1\<rparr>"])
      (auto simp: UpdateAllocator_Allocate_def ua_wf_def ua_live_def nth_list_update)
qed

lemma Free_ok:
  assumes "ua_wf al"
  obtains al' where "UpdateAllocator_Free blk al = Ok al'" "ua_wf al'"
    "ua_live al' + ua_slab al' = ua_live al + ua_slab al + 1"
proof (cases "ua_index al = 0")
  case True
  then show ?thesis
    using assms that by (auto simp: UpdateAllocator_Free_def ua_wf_def ua_live_def slab_Free_def)
next
  case False
  then show ?thesis
    using assms
    by (intro that[of "al\<lparr>ua_index := ua_index al - 1, ua_blocks := (ua_blocks al)[ua_index al - 1 := Some blk]\<rparr>"])
      (auto simp: UpdateAllocator_Free_def ua_wf_def ua_live_def nth_list_update split: if_splits
        intro: le_trans[OF diff_le_self])
qed

section \<open>Cutting\<close>

definition split_l :: "u64 \<Rightarrow> memory_block \<Rightarrow> memory_block" where
  "split_l addr b = fst (KMemoryBlock_Split KMemoryBlock_default addr b)"

definition split_r :: "u64 \<Rightarrow> memory_block \<Rightarrow> memory_block" where
  "split_r addr b = snd (KMemoryBlock_Split KMemoryBlock_default addr b)"

lemma Split_fresh: "KMemoryBlock_Split blk addr b = (split_l addr b, split_r addr b)"
  by (auto simp: split_l_def split_r_def KMemoryBlock_Split_def Let_def)

lemma split_geometry:
  assumes "mb_range_ok b" "naddr b < unat addr" "unat addr < nend b" "4096 dvd unat addr"
  shows "naddr (split_l addr b) = naddr b" "nend (split_l addr b) = unat addr"
    "naddr (split_r addr b) = unat addr" "nend (split_r addr b) = nend b"
    "mb_range_ok (split_l addr b)" "mb_range_ok (split_r addr b)"
  using Split_geometry[OF assms Split_fresh] by auto

lemma split_at_ok:
  assumes "ua_wf al" "0 < ua_live al" "tiles st (pre @ b # post) nd"
    "naddr b < unat addr" "unat addr < nend b" "4096 dvd unat addr"
  obtains al' where "split_at addr al (pre @ b # post) (length pre) =
      Ok (al', pre @ split_l addr b # split_r addr b # post, length pre)"
    "ua_wf al'" "ua_live al' = ua_live al - 1" "ua_slab al' = ua_slab al"
proof -
  obtain m where m: "tiles st pre m" "m = naddr b" "mb_range_ok b"
    using assms(3) by (auto simp: tiles_append)
  note g = split_geometry[OF m(3) assms(4-6)]
  have i: "tree_insert (split_l addr b) (pre @ split_r addr b # post) =
      Ok (pre @ split_l addr b # split_r addr b # post, length pre)"
    using tiles_in[OF m(1)] m(2) g assms(4) by (intro tree_insert_at) auto
  obtain blk al' where "UpdateAllocator_Allocate al = Ok (Some blk, al')" "ua_wf al'"
    "ua_live al' = ua_live al - 1" "ua_slab al' = ua_slab al"
    by (rule Allocate_ok[OF assms(1,2)])
  then show ?thesis
    using that i by (simp add: split_at_def Split_fresh)
qed


lemma info_geometry:
  assumes "mb_range_ok b"
  shows "unat (info_size (KMemoryBlock_GetMemoryInfo b)) = nend b - naddr b"
    "unat (KMemoryInfo_GetNumPages (KMemoryBlock_GetMemoryInfo b)) * 4096 = nend b - naddr b"
    "unat (KMemoryInfo_GetEndAddress (KMemoryBlock_GetMemoryInfo b)) = nend b"
    "unat (KMemoryBlock_GetSize b) = nend b - naddr b"
  using unat_GetSize[OF assms] unat_GetEndAddress[OF assms]
  by (simp_all add: KMemoryBlock_GetMemoryInfo_def KMemoryInfo_GetNumPages_def nend_def naddr_def
      unat_div_distrib PageSize_value KMemoryInfo_GetEndAddress_def KMemoryBlock_GetEndAddress_def)

definition cut_l :: "u64 \<Rightarrow> memory_block \<Rightarrow> memory_block list" where
  "cut_l lo b = (if naddr b < unat lo then [split_l lo b] else [])"

definition cut_m :: "u64 \<Rightarrow> memory_block \<Rightarrow> memory_block" where
  "cut_m lo b = (if naddr b < unat lo then split_r lo b else b)"

definition cut_mid :: "u64 \<Rightarrow> u64 \<Rightarrow> memory_block \<Rightarrow> memory_block" where
  "cut_mid lo hi b = (if unat hi < nend b then split_l hi (cut_m lo b) else cut_m lo b)"

definition cut_r :: "u64 \<Rightarrow> u64 \<Rightarrow> memory_block \<Rightarrow> memory_block list" where
  "cut_r lo hi b = (if unat hi < nend b then [split_r hi (cut_m lo b)] else [])"

definition overlaps :: "u64 \<Rightarrow> u64 \<Rightarrow> memory_block \<Rightarrow> bool" where
  "overlaps lo hi b \<longleftrightarrow> naddr b < unat hi \<and> unat lo < nend b"

definition pieces ::
  "u64 \<Rightarrow> u64 \<Rightarrow> (memory_block \<Rightarrow> bool) \<Rightarrow> (memory_block \<Rightarrow> memory_block) \<Rightarrow> memory_block \<Rightarrow> memory_block list" where
  "pieces lo hi sel upd b =
     (if overlaps lo hi b \<and> sel b then cut_l lo b @ upd (cut_mid lo hi b) # cut_r lo hi b else [b])"

definition cuts :: "u64 \<Rightarrow> u64 \<Rightarrow> (memory_block \<Rightarrow> bool) \<Rightarrow> memory_block \<Rightarrow> nat" where
  "cuts lo hi sel b =
     (if overlaps lo hi b \<and> sel b then of_bool (naddr b < unat lo) + of_bool (unat hi < nend b) else 0)"

lemma cut_m_geometry:
  assumes "mb_range_ok b" "unat lo < nend b" "4096 dvd unat lo"
  shows "naddr (cut_m lo b) = max (unat lo) (naddr b)" "nend (cut_m lo b) = nend b"
    "mb_range_ok (cut_m lo b)"
  using split_geometry[OF assms(1) _ assms(2,3)] assms(1)
  by (auto simp: cut_m_def mb_range_ok_def)

lemma cut_mid_geometry:
  assumes "mb_range_ok b" "overlaps lo hi b" "4096 dvd unat lo" "4096 dvd unat hi" "unat lo < unat hi"
  shows "naddr (cut_mid lo hi b) = max (unat lo) (naddr b)"
    "nend (cut_mid lo hi b) = min (unat hi) (nend b)" "mb_range_ok (cut_mid lo hi b)"
proof -
  have lo: "unat lo < nend b" and hi: "naddr b < unat hi"
    using assms(2) by (auto simp: overlaps_def)
  note g = cut_m_geometry[OF assms(1) lo assms(3)]
  have "naddr (cut_m lo b) < unat hi" using g(1) hi assms(5) by simp
  from split_geometry[OF g(3) this _ assms(4)] g
  show "naddr (cut_mid lo hi b) = max (unat lo) (naddr b)"
    "nend (cut_mid lo hi b) = min (unat hi) (nend b)" "mb_range_ok (cut_mid lo hi b)"
    by (auto simp: cut_mid_def)
qed

lemma cut_r_geometry:
  assumes "mb_range_ok b" "overlaps lo hi b" "4096 dvd unat lo" "4096 dvd unat hi" "unat lo < unat hi"
    "unat hi < nend b"
  shows "naddr (split_r hi (cut_m lo b)) = unat hi" "nend (split_r hi (cut_m lo b)) = nend b"
    "mb_range_ok (split_r hi (cut_m lo b))"
proof -
  have lo: "unat lo < nend b" and hi: "naddr b < unat hi"
    using assms(2) by (auto simp: overlaps_def)
  note g = cut_m_geometry[OF assms(1) lo assms(3)]
  have "naddr (cut_m lo b) < unat hi" using g(1) hi assms(5) by simp
  from split_geometry[OF g(3) this _ assms(4)] g assms(6)
  show "naddr (split_r hi (cut_m lo b)) = unat hi" "nend (split_r hi (cut_m lo b)) = nend b"
    "mb_range_ok (split_r hi (cut_m lo b))" by auto
qed

lemma cut_before_ok:
  assumes t: "tiles st (pre @ b # post) nd" and lo: "unat lo < nend b" "4096 dvd unat lo"
    and cur: "unat cur = max (unat lo) (naddr b)"
    and wf: "ua_wf al" and live: "of_bool (naddr b < unat lo) \<le> ua_live al"
  obtains al' where "cut_before cur al (pre @ b # post) (length pre) =
      Ok (al', (pre @ cut_l lo b) @ cut_m lo b # post, length (pre @ cut_l lo b), cur)"
    "ua_wf al'" "ua_slab al' = ua_slab al" "ua_live al' = ua_live al - of_bool (naddr b < unat lo)"
proof (cases "naddr b < unat lo")
  case True
  then have c: "cur = lo" using cur by (simp add: word_unat_eq_iff)
  have "0 < ua_live al" using live True by simp
  from split_at_ok[OF wf this t True lo] obtain al1 where
    "split_at lo al (pre @ b # post) (length pre) =
       Ok (al1, pre @ split_l lo b # split_r lo b # post, length pre)"
    "ua_wf al1" "ua_live al1 = ua_live al - 1" "ua_slab al1 = ua_slab al" .
  moreover have "mb_address b \<noteq> lo" using True by (auto simp: naddr_def)
  moreover have "mb_address (split_r lo b) = lo"
    by (simp add: split_r_def KMemoryBlock_Split_def Let_def)
  ultimately show ?thesis
    using True c by (intro that[of al1]) (simp_all add: cut_before_def cut_l_def cut_m_def nth_append)
next
  case False
  then have "mb_address b = cur" using cur by (simp add: word_unat_eq_iff naddr_def)
  with False show ?thesis
    using wf by (intro that[of al]) (simp_all add: cut_before_def cut_l_def cut_m_def)
qed

lemma cut_after_ok:
  assumes t: "tiles st (pre @ b # post) nd" and hi: "naddr b < unat hi" "4096 dvd unat hi"
    and cur: "unat cur = naddr b" "unat cur + unat rs = unat hi"
    and wf: "ua_wf al" and live: "of_bool (unat hi < nend b) \<le> ua_live al"
  obtains al' where "cut_after cur rs al (pre @ b # post) (length pre) =
      Ok (al', pre @ (if unat hi < nend b then [split_l hi b, split_r hi b] else [b]) @ post, length pre)"
    "ua_wf al'" "ua_slab al' = ua_slab al" "ua_live al' = ua_live al - of_bool (unat hi < nend b)"
proof -
  have b: "mb_range_ok b" using t by (auto simp: tiles_append)
  have sz: "KMemoryBlock_GetSize b > rs \<longleftrightarrow> unat hi < nend b"
    using info_geometry(4)[OF b] cur hi by (auto simp: word_less_nat_alt)
  have hi': "cur + rs = hi" using cur(2) by (metis unsigned_less word_unat_eq_iff unat_add_no_wrap)
  show ?thesis
  proof (cases "unat hi < nend b")
    case True
    have l: "0 < ua_live al" using live True by simp
    from split_at_ok[OF wf l t hi(1) True hi(2)] obtain al2 where
      "split_at hi al (pre @ b # post) (length pre) =
        Ok (al2, pre @ split_l hi b # split_r hi b # post, length pre)"
      "ua_wf al2" "ua_live al2 = ua_live al - 1" "ua_slab al2 = ua_slab al" .
    then show ?thesis
      using True hi' sz by (intro that[of al2]) (simp_all add: cut_after_def)
  next
    case False
    then show ?thesis
      using sz wf by (intro that[of al]) (simp_all add: cut_after_def)
  qed
qed

lemma cut_range_ok:
  assumes t: "tiles st (pre @ b # post) nd" and ov: "overlaps lo hi b"
    and al: "4096 dvd unat lo" "4096 dvd unat hi" "unat lo < unat hi"
    and cur: "unat cur = max (unat lo) (naddr b)" "unat cur + unat rs = unat hi"
    and wf: "ua_wf al" and live: "of_bool (naddr b < unat lo) + of_bool (unat hi < nend b) \<le> ua_live al"
  obtains al' where "cut_range cur rs al (pre @ b # post) (length pre) =
      Ok (al', pre @ cut_l lo b @ cut_mid lo hi b # cut_r lo hi b @ post, length (pre @ cut_l lo b), cur)"
    "ua_wf al'" "ua_slab al' = ua_slab al"
    "ua_live al' = ua_live al - (of_bool (naddr b < unat lo) + of_bool (unat hi < nend b))"
proof -
  have b: "mb_range_ok b" using t by (auto simp: tiles_append)
  have lo: "unat lo < nend b" and hi: "naddr b < unat hi"
    using ov by (auto simp: overlaps_def)
  note g = cut_m_geometry[OF b lo al(1)]
  have "of_bool (naddr b < unat lo) \<le> ua_live al" using live by linarith
  from cut_before_ok[OF t lo al(1) cur(1) wf this] obtain al1 where
    1: "cut_before cur al (pre @ b # post) (length pre) =
      Ok (al1, (pre @ cut_l lo b) @ cut_m lo b # post, length (pre @ cut_l lo b), cur)"
    "ua_wf al1" "ua_slab al1 = ua_slab al" "ua_live al1 = ua_live al - of_bool (naddr b < unat lo)" .
  have t1: "tiles st ((pre @ cut_l lo b) @ cut_m lo b # post) nd"
    using t b lo al(1) split_geometry[OF b] by (auto simp: tiles_append cut_l_def cut_m_def)
  have "naddr (cut_m lo b) < unat hi" "unat cur = naddr (cut_m lo b)"
    "of_bool (unat hi < nend (cut_m lo b)) \<le> ua_live al1"
    using g hi al(3) cur(1) live 1(4) by simp_all
  from cut_after_ok[OF t1 this(1) al(2) this(2) cur(2) 1(2) this(3)] obtain al2 where
    2: "cut_after cur rs al1 ((pre @ cut_l lo b) @ cut_m lo b # post) (length (pre @ cut_l lo b)) =
      Ok (al2, (pre @ cut_l lo b) @ (if unat hi < nend (cut_m lo b)
          then [split_l hi (cut_m lo b), split_r hi (cut_m lo b)] else [cut_m lo b]) @ post,
        length (pre @ cut_l lo b))"
    "ua_wf al2" "ua_slab al2 = ua_slab al1"
    "ua_live al2 = ua_live al1 - of_bool (unat hi < nend (cut_m lo b))" .
  have "(if unat hi < nend (cut_m lo b) then [split_l hi (cut_m lo b), split_r hi (cut_m lo b)]
      else [cut_m lo b]) = cut_mid lo hi b # cut_r lo hi b"
    by (simp add: g(2) cut_mid_def cut_r_def)
  then show ?thesis
    using 1 2 g(2) by (intro that[of al2]) (simp_all add: cut_range_def)
qed

lemma unat_u64_less: "unat (x :: u64) < 18446744073709551616"
  by (rule order.strict_trans2[OF unsigned_less]) simp

lemma remaining_size:
  assumes "unat (cur :: u64) + unat rem * 4096 = unat (hi :: u64)"
  shows "unat (rem * PageSize) = unat rem * 4096" "unat cur + unat (rem * PageSize) = unat hi"
proof -
  show "unat (rem * PageSize) = unat rem * 4096"
    using assms unat_u64_less[of hi] by (subst unat_mult_no_wrap) (simp_all add: PageSize_value)
  then show "unat cur + unat (rem * PageSize) = unat hi" using assms by simp
qed

lemma advance_ok:
  fixes hi :: u64
  assumes "mb_range_ok b" "unat cur + unat rs = unat hi" "4096 dvd unat hi"
  obtains cur' rem' where "advance cur rs (KMemoryBlock_GetMemoryInfo b) = (cur', rem')"
    "unat cur' = min (unat hi) (nend b)" "unat cur' + unat rem' * 4096 = unat hi"
proof -
  let ?e = "KMemoryInfo_GetEndAddress (KMemoryBlock_GetMemoryInfo b)"
  have hi: "cur + rs = hi" using assms(2) by (metis unsigned_less word_unat_eq_iff unat_add_no_wrap)
  note e = info_geometry(3)[OF assms(1)]
  show ?thesis
  proof (cases "unat hi < nend b")
    case True
    then show ?thesis
      using that[of hi 0] e hi by (simp add: advance_def word_less_nat_alt)
  next
    case False
    have "unat ((hi - ?e) div PageSize) * 4096 = unat hi - nend b"
      using False e assms(3) nend_dvd[OF assms(1)]
      by (simp add: unat_div_distrib PageSize_value unat_diff_no_wrap)
    then show ?thesis
      using False that[of ?e "(hi - ?e) div PageSize"] e hi
      by (simp add: advance_def word_less_nat_alt)
  qed
qed

section \<open>The common update loop\<close>

text \<open>The state at the head of a round: where the cursor is in the rest of the tree.\<close>

definition at_cursor :: "u64 \<Rightarrow> u64 \<Rightarrow> u64 \<Rightarrow> u64 \<Rightarrow> memory_block list \<Rightarrow> bool" where
  "at_cursor lo hi cur rem rest \<longleftrightarrow>
     unat cur + unat rem * 4096 = unat hi \<and>
     (if rem = 0 then \<forall>b \<in> set rest. unat hi \<le> naddr b
      else rest \<noteq> [] \<and> unat cur = max (unat lo) (naddr (hd rest)) \<and> unat cur < nend (hd rest))"

lemma at_cursor_next:
  assumes "unat lo < nend b" "tiles (nend b) post nd" "unat hi \<le> nd"
    "unat cur' = min (unat hi) (nend b)" "unat cur' + unat rem' * 4096 = unat hi"
  shows "at_cursor lo hi cur' rem' post"
proof (cases "rem' = 0")
  case True
  then have "unat hi \<le> nend b" using assms(4,5) by simp
  then show ?thesis
    using True assms(5) tiles_in[OF assms(2)] by (force simp: at_cursor_def)
next
  case False
  then have "unat rem' > 0" by (simp add: unat_gt_0)
  then have lt: "nend b < unat hi" "unat cur' = nend b" using assms(4,5) by auto
  then show ?thesis
    using False assms by (cases post) (auto simp: at_cursor_def mb_range_ok_def)
qed

lemma at_cursor_overlaps:
  assumes "at_cursor lo hi cur rem (b # post)" "rem \<noteq> 0" "unat lo < unat hi"
  shows "overlaps lo hi b" "unat cur = max (unat lo) (naddr b)" "unat lo < nend b"
proof -
  have "unat rem > 0" using assms(2) by (simp add: unat_gt_0)
  then show "overlaps lo hi b" "unat cur = max (unat lo) (naddr b)" "unat lo < nend b"
    using assms by (auto simp: at_cursor_def overlaps_def)
qed

text \<open>
  The four update loops differ in which blocks they change and how. The locale states the loop
  they share; its result is the tree with each selected block of the range cut and updated.
\<close>

locale range_update =
  fixes loop :: "update_allocator \<Rightarrow> memory_block list \<Rightarrow> nat \<Rightarrow> u64 \<Rightarrow> u64 \<Rightarrow>
      (update_allocator \<times> memory_block list) res"
    and sel :: "memory_block \<Rightarrow> bool"
    and upd :: "memory_block \<Rightarrow> memory_block"
  assumes loop_eq: "loop al bs it cur rem =
      (if rem = 0 then Ok (al, bs)
       else if it \<ge> length bs then UB
       else if sel (bs ! it) then
         (case cut_range cur (rem * PageSize) al bs it of
            Ok (al', bs', it', cur') \<Rightarrow>
              loop al' (bs'[it' := upd (bs' ! it')]) (it' + 1)
                (cur' + info_size (KMemoryBlock_GetMemoryInfo (bs' ! it')))
                (rem - KMemoryInfo_GetNumPages (KMemoryBlock_GetMemoryInfo (bs' ! it')))
          | Err e \<Rightarrow> Err e | UB \<Rightarrow> UB)
       else (case advance cur (rem * PageSize) (KMemoryBlock_GetMemoryInfo (bs ! it)) of
          (cur', rem') \<Rightarrow> loop al bs (it + 1) cur' rem'))"
    and upd_address: "mb_address (upd b) = mb_address b"
    and upd_num_pages: "mb_num_pages (upd b) = mb_num_pages b"
begin

lemma upd_geometry [simp]:
  "naddr (upd b) = naddr b" "nend (upd b) = nend b" "mb_range_ok (upd b) = mb_range_ok b"
  by (simp_all add: naddr_def nend_def mb_range_ok_def upd_address upd_num_pages)

lemma loop_done [simp]: "loop al bs it cur 0 = Ok (al, bs)"
  by (simp add: loop_eq)

lemma pieces_outside:
  "\<forall>b \<in> set bs. unat hi \<le> naddr b \<Longrightarrow> concat (map (pieces lo hi sel upd) bs) = bs"
  by (induction bs) (auto simp: pieces_def overlaps_def)

lemma cuts_outside:
  assumes "\<forall>b \<in> set bs. unat hi \<le> naddr b"
  shows "sum_list (map (cuts lo hi sel) bs) = 0"
proof -
  have "cuts lo hi sel b = 0" if "b \<in> set bs" for b
    using assms that unfolding cuts_def overlaps_def by force
  then show ?thesis by simp
qed

lemma tiles_pieces:
  assumes "mb_range_ok b" "4096 dvd unat lo" "4096 dvd unat hi" "unat lo < unat hi"
  shows "tiles (naddr b) (pieces lo hi sel upd b) (nend b)"
proof (cases "overlaps lo hi b \<and> sel b")
  case True
  then show ?thesis
    using assms split_geometry[OF assms(1), of lo] cut_mid_geometry[of b lo hi] cut_r_geometry[of b lo hi]
    by (auto simp: pieces_def cut_l_def cut_r_def tiles_append overlaps_def)
next
  case False
  then show ?thesis using assms by (auto simp: pieces_def)
qed

lemma tiles_concat_pieces:
  assumes "4096 dvd unat lo" "4096 dvd unat hi" "unat lo < unat hi"
  shows "tiles st bs nd \<Longrightarrow> tiles st (concat (map (pieces lo hi sel upd) bs)) nd"
  by (induction bs arbitrary: st) (auto simp: tiles_append intro: tiles_pieces[OF _ assms])

text \<open>One round of the loop, on a block it skips and on one it changes.\<close>

lemma loop_skip:
  fixes hi :: u64
  assumes "\<not> sel b" "rem \<noteq> 0" "mb_range_ok b" "unat cur + unat rem * 4096 = unat hi" "4096 dvd unat hi"
  obtains cur' rem' where
    "loop al (pre @ b # post) (length pre) cur rem = loop al ((pre @ [b]) @ post) (length (pre @ [b])) cur' rem'"
    "unat cur' = min (unat hi) (nend b)" "unat cur' + unat rem' * 4096 = unat hi"
proof -
  from advance_ok[OF assms(3) remaining_size(2)[OF assms(4)] assms(5)] obtain cur' rem' where
    a: "advance cur (rem * PageSize) (KMemoryBlock_GetMemoryInfo b) = (cur', rem')"
      "unat cur' = min (unat hi) (nend b)" "unat cur' + unat rem' * 4096 = unat hi" .
  have "loop al (pre @ b # post) (length pre) cur rem = loop al ((pre @ [b]) @ post) (length (pre @ [b])) cur' rem'"
    using assms(1,2) a(1) by (subst loop_eq) simp
  then show ?thesis using that a by blast
qed

lemma loop_change:
  assumes "sel b" "rem \<noteq> 0" "tiles st (pre @ b # post) nd" "overlaps lo hi b"
    and lohi: "4096 dvd unat lo" "4096 dvd unat hi" "unat lo < unat hi"
    and cur: "unat cur = max (unat lo) (naddr b)" "unat cur + unat rem * 4096 = unat hi"
    and "ua_wf al" "cuts lo hi sel b \<le> ua_live al"
  obtains al' cur' rem' where
    "loop al (pre @ b # post) (length pre) cur rem =
       loop al' ((pre @ cut_l lo b @ [upd (cut_mid lo hi b)]) @ cut_r lo hi b @ post)
         (length (pre @ cut_l lo b @ [upd (cut_mid lo hi b)])) cur' rem'"
    "unat cur' = min (unat hi) (nend b)" "unat cur' + unat rem' * 4096 = unat hi"
    "ua_wf al'" "ua_slab al' = ua_slab al" "ua_live al' = ua_live al - cuts lo hi sel b"
proof -
  have b: "mb_range_ok b" using assms(3) by (auto simp: tiles_append)
  note rs = remaining_size(2)[OF cur(2)]
  have c: "cuts lo hi sel b = of_bool (naddr b < unat lo) + of_bool (unat hi < nend b)"
    using assms(1,4) by (simp add: cuts_def)
  from cut_range_ok[OF assms(3,4) lohi cur(1) rs assms(10) assms(11)[unfolded c]]
  obtain al1 where 1: "cut_range cur (rem * PageSize) al (pre @ b # post) (length pre) =
      Ok (al1, pre @ cut_l lo b @ cut_mid lo hi b # cut_r lo hi b @ post, length (pre @ cut_l lo b), cur)"
    "ua_wf al1" "ua_slab al1 = ua_slab al"
    "ua_live al1 = ua_live al - (of_bool (naddr b < unat lo) + of_bool (unat hi < nend b))" .
  let ?m = "cut_mid lo hi b"
  note g = cut_mid_geometry[OF b assms(4) lohi]
  note ig = info_geometry[OF g(3)]
  let ?cur = "cur + info_size (KMemoryBlock_GetMemoryInfo ?m)"
  let ?rem = "rem - KMemoryInfo_GetNumPages (KMemoryBlock_GetMemoryInfo ?m)"
  have lt: "max (unat lo) (naddr b) < min (unat hi) (nend b)"
    using assms(4) lohi(3) b by (auto simp: overlaps_def mb_range_ok_def)
  have cur': "unat ?cur = min (unat hi) (nend b)"
    using ig(1) g cur(1) lt unat_u64_less[of hi] by (subst unat_add_no_wrap) auto
  have "unat (KMemoryInfo_GetNumPages (KMemoryBlock_GetMemoryInfo ?m)) * 4096 \<le> unat rem * 4096"
    using ig(2) g(1,2) cur lt min.cobounded1[of "unat hi" "nend b"] by linarith
  then have "unat ?rem * 4096 = unat rem * 4096 - (nend ?m - naddr ?m)"
    using ig(2) by (simp add: unat_diff_no_wrap diff_mult_distrib)
  then have rem': "unat ?cur + unat ?rem * 4096 = unat hi"
    using cur' g cur lt min.cobounded1[of "unat hi" "nend b"] by linarith
  have "loop al (pre @ b # post) (length pre) cur rem =
      loop al1 ((pre @ cut_l lo b @ [upd ?m]) @ cut_r lo hi b @ post)
        (length (pre @ cut_l lo b @ [upd ?m])) ?cur ?rem"
    using assms(1,2) 1(1) by (subst loop_eq) (simp add: list_update_append nth_append)
  then show ?thesis
    using that cur' rem' 1(2-4) c by metis
qed

lemma loop_result:
  assumes "tiles st (pre @ rest) nd" "4096 dvd unat lo" "4096 dvd unat hi" "unat lo < unat hi"
    "unat hi \<le> nd" "at_cursor lo hi cur rem rest"
    "ua_wf al" "sum_list (map (cuts lo hi sel) rest) \<le> ua_live al"
  shows "\<exists>al'. loop al (pre @ rest) (length pre) cur rem =
      Ok (al', pre @ concat (map (pieces lo hi sel upd) rest)) \<and> ua_wf al' \<and>
      ua_slab al' = ua_slab al \<and>
      ua_live al' = ua_live al - sum_list (map (cuts lo hi sel) rest)"
  using assms
proof (induction rest arbitrary: pre cur rem al)
  case Nil
  then show ?case by (auto simp: at_cursor_def split: if_splits)
next
  case (Cons b post)
  note lohi = Cons.prems(2,3,4) and curs = Cons.prems(6)
  have b: "mb_range_ok b" and post: "tiles (nend b) post nd"
    using Cons.prems(1) by (auto simp: tiles_append)
  have hi: "unat cur + unat rem * 4096 = unat hi" using curs by (simp add: at_cursor_def)
  consider "rem = 0" | "rem \<noteq> 0" "sel b" | "rem \<noteq> 0" "\<not> sel b" by blast
  then show ?case
  proof cases
    case 1
    then show ?thesis
      using Cons.prems pieces_outside[of "b # post" hi lo] cuts_outside[of "b # post" hi lo]
      by (intro exI[of _ al]) (simp add: at_cursor_def del: sum_list_eq_0_iff)
  next
    case 2
    note ov = at_cursor_overlaps[OF curs 2(1) lohi(3)]
    have "cuts lo hi sel b \<le> ua_live al" using Cons.prems(8) by simp
    from loop_change[OF 2(2,1) Cons.prems(1) ov(1) lohi ov(2) hi Cons.prems(7) this]
    obtain al1 cur' rem' where 3: "loop al (pre @ b # post) (length pre) cur rem =
        loop al1 ((pre @ cut_l lo b @ [upd (cut_mid lo hi b)]) @ cut_r lo hi b @ post)
          (length (pre @ cut_l lo b @ [upd (cut_mid lo hi b)])) cur' rem'"
      "unat cur' = min (unat hi) (nend b)" "unat cur' + unat rem' * 4096 = unat hi"
      "ua_wf al1" "ua_slab al1 = ua_slab al" "ua_live al1 = ua_live al - cuts lo hi sel b" .
    note nxt = at_cursor_next[OF ov(3) post Cons.prems(5) 3(2,3)]
    have p: "tiles (naddr b) (cut_l lo b @ upd (cut_mid lo hi b) # cut_r lo hi b) (nend b)"
      "pieces lo hi sel upd b = cut_l lo b @ upd (cut_mid lo hi b) # cut_r lo hi b"
      using tiles_pieces[OF b lohi] 2(2) ov by (simp_all add: pieces_def)
    show ?thesis
    proof (cases "unat hi < nend b")
      case True
      then have "rem' = 0" using 3(2,3) by (simp add: unat_eq_0)
      then show ?thesis
        using 3 p nxt pieces_outside[of post hi lo] cuts_outside[of post hi lo]
        by (simp add: at_cursor_def del: sum_list_eq_0_iff)
    next
      case False
      then have r: "cut_r lo hi b = []" by (simp add: cut_r_def)
      have t: "tiles st ((pre @ cut_l lo b @ [upd (cut_mid lo hi b)]) @ post) nd"
        using Cons.prems(1) p(1) post r by (auto simp: tiles_append)
      show ?thesis
        using Cons.IH[OF t lohi Cons.prems(5) nxt 3(4)] Cons.prems(8) 3 p(2) r by simp
    qed
  next
    case 3
    from loop_skip[OF 3(2,1) b hi lohi(2)]
    obtain cur' rem' where 4: "loop al (pre @ b # post) (length pre) cur rem =
        loop al ((pre @ [b]) @ post) (length (pre @ [b])) cur' rem'"
      "unat cur' = min (unat hi) (nend b)" "unat cur' + unat rem' * 4096 = unat hi" .
    note nxt = at_cursor_next[OF at_cursor_overlaps(3)[OF curs 3(1) lohi(3)] post Cons.prems(5) 4(2,3)]
    then show ?thesis
      using Cons.IH[OF _ lohi Cons.prems(5) nxt, of "pre @ [b]" al] Cons.prems(1,7,8) 4 3
      by (simp add: pieces_def cuts_def)
  qed
qed

end

section \<open>The abstract address space\<close>

text \<open>What the blocks say about one address: the properties that decide whether blocks are equal.\<close>

record page_props =
  pp_state :: u32
  pp_permission :: u8
  pp_original_permission :: u8
  pp_attribute :: u8
  pp_ipc_lock_count :: u16
  pp_device_use_count :: u16

definition props :: "memory_block \<Rightarrow> page_props" where
  "props b = \<lparr>pp_state = mb_memory_state b, pp_permission = mb_permission b,
     pp_original_permission = mb_original_permission b, pp_attribute = mb_attribute b,
     pp_ipc_lock_count = mb_ipc_lock_count b, pp_device_use_count = mb_device_use_count b\<rparr>"

definition covers :: "nat \<Rightarrow> memory_block \<Rightarrow> bool" where
  "covers n b \<longleftrightarrow> naddr b \<le> n \<and> n < nend b"

definition view :: "memory_block list \<Rightarrow> nat \<Rightarrow> page_props option" where
  "view bs n = map_option props (find (covers n) bs)"

lemma HasSameProperties_props: "KMemoryBlock_HasSameProperties b c \<longleftrightarrow> props b = props c"
  by (auto simp: KMemoryBlock_HasSameProperties_def props_def)

lemma props_Add [simp]: "props (KMemoryBlock_Add c b) = props b"
  by (simp add: props_def KMemoryBlock_Add_def)

lemma props_split [simp]: "props (split_l a b) = props b" "props (split_r a b) = props b"
  by (simp_all add: props_def split_l_def split_r_def KMemoryBlock_Split_def Let_def)

lemma view_Nil [simp]: "view [] n = None"
  by (simp add: view_def)

lemma view_Cons: "view (b # bs) n = (if covers n b then Some (props b) else view bs n)"
  by (simp add: view_def)

lemma view_append: "view (xs @ ys) n = (case view xs n of None \<Rightarrow> view ys n | Some q \<Rightarrow> Some q)"
  by (induction xs) (auto simp: view_Cons)

lemma tiles_view: "tiles st bs nd \<Longrightarrow> view bs n \<noteq> None \<longleftrightarrow> st \<le> n \<and> n < nd"
proof (induction bs arbitrary: st)
  case (Cons b bs)
  have "view bs n \<noteq> None \<longleftrightarrow> nend b \<le> n \<and> n < nd"
    using Cons by simp
  then show ?case
    using Cons.prems tiles_le[of "nend b" bs nd] by (auto simp: view_Cons covers_def mb_range_ok_def)
qed simp

section \<open>Coalescing\<close>

text \<open>The left and right keys of a block: what a merge with a neighbour looks at.\<close>

definition lkey :: "memory_block \<Rightarrow> page_props \<times> u8" where
  "lkey b = (props b, mb_disable_merge_attribute b AND DisableMerge_AllLeft)"

definition rkey :: "memory_block \<Rightarrow> page_props \<times> u8" where
  "rkey b = (props b, mb_disable_merge_attribute b AND DisableMerge_AllRight)"

lemma CanMergeWith_keys:
  "rkey b = rkey b' \<Longrightarrow> lkey c = lkey c' \<Longrightarrow>
     KMemoryBlock_CanMergeWith b c \<longleftrightarrow> KMemoryBlock_CanMergeWith b' c'"
  by (auto simp: rkey_def lkey_def KMemoryBlock_CanMergeWith_def HasSameProperties_props)

lemma CanMergeWith_props: "KMemoryBlock_CanMergeWith b c \<Longrightarrow> props b = props c"
  by (simp add: KMemoryBlock_CanMergeWith_def HasSameProperties_props)

lemma and_or_other: "y AND m = 0 \<Longrightarrow> (x OR y) AND m = x AND (m :: 'a::len word)"
  by (simp add: bit.conj_disj_distrib2)

lemma Add_keys:
  assumes "KMemoryBlock_CanMergeWith b c"
  shows "lkey (KMemoryBlock_Add c b) = lkey b" "rkey (KMemoryBlock_Add c b) = rkey c"
proof -
  have "mb_disable_merge_attribute b AND DisableMerge_AllRight = 0"
    "mb_disable_merge_attribute c AND DisableMerge_AllLeft = 0"
    using assms by (simp_all add: KMemoryBlock_CanMergeWith_def)
  note f = and_or_other[OF this(2), of "mb_disable_merge_attribute b"]
    and_or_other[OF this(1), of "mb_disable_merge_attribute c"]
  show "lkey (KMemoryBlock_Add c b) = lkey b" "rkey (KMemoryBlock_Add c b) = rkey c"
    using f CanMergeWith_props[OF assms]
    by (simp_all add: lkey_def rkey_def) (simp_all add: KMemoryBlock_Add_def or.commute)
qed

lemma split_keys:
  "lkey (split_l a b) = lkey b" "rkey (split_r a b) = rkey b"
  by (simp_all add: lkey_def rkey_def) 
    (simp_all add: split_l_def split_r_def KMemoryBlock_Split_def Let_def and.assoc)

text \<open>The result of the coalescing loop, started at a block.\<close>

fun coalesce :: "nat \<Rightarrow> memory_block \<Rightarrow> memory_block list \<Rightarrow> memory_block list" where
  "coalesce e b [] = [b]"
| "coalesce e b (c # rest) =
     (if KMemoryBlock_CanMergeWith b c then
        (if e < nend c then KMemoryBlock_Add c b # rest else coalesce e (KMemoryBlock_Add c b) rest)
      else if e < nend c then b # c # rest
      else b # coalesce e c rest)"

definition blocks_held :: "update_allocator \<Rightarrow> memory_block list \<Rightarrow> nat" where
  "blocks_held al bs = length bs + ua_live al + ua_slab al"

lemma CoalesceForUpdate_loop_ok:
  assumes "tiles st (pre @ b # rest) nd" "ua_wf al"
  shows "\<exists>al'. CoalesceForUpdate_loop e al (pre @ b # rest) (length pre) =
      Ok (al', pre @ coalesce (unat e) b rest) \<and> ua_wf al' \<and>
      blocks_held al' (pre @ coalesce (unat e) b rest) = blocks_held al (pre @ b # rest)"
  using assms
proof (induction rest arbitrary: pre b al)
  case Nil
  then show ?case by (subst CoalesceForUpdate_loop.simps) simp
next
  case (Cons c rest)
  have ok: "mb_range_ok b" "mb_range_ok c" "nend b = naddr c" and rest: "tiles (nend c) rest nd"
    and pre: "tiles st pre (naddr b)"
    using Cons.prems(1) by (auto simp: tiles_append)
  note g = Add_geometry[OF ok]
  have e: "e < KMemoryInfo_GetEndAddress (KMemoryBlock_GetMemoryInfo x) \<longleftrightarrow> unat e < nend x"
    if "mb_range_ok x" for x using info_geometry(3)[OF that] by (simp add: word_less_nat_alt)
  show ?case
  proof (cases "KMemoryBlock_CanMergeWith b c")
    case True
    obtain al1 where al1: "UpdateAllocator_Free c al = Ok al1" "ua_wf al1"
      "ua_live al1 + ua_slab al1 = ua_live al + ua_slab al + 1"
      by (rule Free_ok[OF Cons.prems(2)])
    have "tiles st (pre @ KMemoryBlock_Add c b # rest) nd"
      using g rest pre by (auto simp: tiles_append)
    from Cons.IH[OF this al1(2)] show ?thesis
      using True al1 e[OF g(3)] g(2)
      by (subst CoalesceForUpdate_loop.simps) (auto simp: nth_append blocks_held_def)
  next
    case False
    have "tiles st ((pre @ [b]) @ c # rest) nd" using Cons.prems(1) by simp
    from Cons.IH[OF this Cons.prems(2)] show ?thesis
      using False e[OF ok(2)] Cons.prems(2)
      by (subst CoalesceForUpdate_loop.simps) (auto simp: nth_append blocks_held_def)
  qed
qed

lemma tiles_coalesce: "tiles st (b # rest) nd \<Longrightarrow> tiles st (coalesce e b rest) nd"
proof (induction rest arbitrary: st b)
  case (Cons c rest)
  have ok: "mb_range_ok b" "mb_range_ok c" "nend b = naddr c" using Cons.prems by auto
  show ?case
    using Cons.IH[of st "KMemoryBlock_Add c b"] Cons.IH[of "nend b" c] Cons.prems Add_geometry[OF ok]
    by auto
qed simp

lemma view_coalesce: "tiles st (b # rest) nd \<Longrightarrow> view (coalesce e b rest) n = view (b # rest) n"
proof (induction rest arbitrary: st b)
  case (Cons c rest)
  have ok: "mb_range_ok b" "mb_range_ok c" "nend b = naddr c" using Cons.prems by auto
  note g = Add_geometry[OF ok]
  have m: "view (KMemoryBlock_Add c b # rest) n = view (b # c # rest) n" if "KMemoryBlock_CanMergeWith b c"
    using CanMergeWith_props[OF that] g ok by (auto simp: view_Cons covers_def mb_range_ok_def)
  have "tiles (naddr b) (KMemoryBlock_Add c b # rest) nd"
    using g Cons.prems by auto
  then show ?case
    using Cons.IH[of "naddr b" "KMemoryBlock_Add c b"] Cons.IH[of "nend b" c] Cons.prems m
    by (auto simp: view_Cons)
qed simp

lemma props_coalesce: "props ` set (coalesce e b rest) \<subseteq> props ` set (b # rest)"
  by (induction e b rest rule: coalesce.induct) (auto simp: image_iff split: if_splits)

abbreviation no_merge :: "memory_block list \<Rightarrow> bool" where
  "no_merge \<equiv> successively (\<lambda>x y. \<not> KMemoryBlock_CanMergeWith x y)"

lemma settled_no_merge:
  "tiles st (b # rest) nd \<Longrightarrow> e < nend b \<Longrightarrow>
     successively (\<lambda>x y. e < nend x \<longrightarrow> \<not> KMemoryBlock_CanMergeWith x y) (b # rest) \<Longrightarrow>
     no_merge (b # rest)"
  by (induction rest arbitrary: st b) (auto simp: mb_range_ok_def)

lemma no_merge_coalesce:
  assumes "tiles st (b # rest) nd" "no_merge (pre @ [b])"
    "successively (\<lambda>x y. e < nend x \<longrightarrow> \<not> KMemoryBlock_CanMergeWith x y) (b # rest)"
  shows "no_merge (pre @ coalesce e b rest)"
  using assms
proof (induction rest arbitrary: st b pre)
  case (Cons c rest)
  have ok: "mb_range_ok b" "mb_range_ok c" "nend b = naddr c" using Cons.prems by auto
  note g = Add_geometry[OF ok]
  show ?case
  proof (cases "KMemoryBlock_CanMergeWith b c")
    case True
    let ?b = "KMemoryBlock_Add c b"
    note k = Add_keys[OF True]
    have t: "tiles (naddr b) (?b # rest) nd" using g Cons.prems by auto
    have s: "successively (\<lambda>x y. e < nend x \<longrightarrow> \<not> KMemoryBlock_CanMergeWith x y) (?b # rest)"
      using Cons.prems(3) g(2) CanMergeWith_keys[OF k(2) refl] by (cases rest) auto
    have p: "no_merge (pre @ [?b])"
      using Cons.prems(2) CanMergeWith_keys[OF refl k(1)] by (auto simp: successively_append_iff)
    show ?thesis
      using Cons.IH[OF t p s] settled_no_merge[OF t _ s] True g(2) p
      by (auto simp: successively_append_iff)
  next
    case False
    have "no_merge ((pre @ [b]) @ [c])" using Cons.prems(2) False by (simp add: successively_append_iff)
    from Cons.IH[OF _ this] settled_no_merge[of "nend b" c rest nd e] Cons.prems False
    show ?thesis by (auto simp: successively_append_iff)
  qed
qed simp

section \<open>Operations on a range\<close>

definition bm_wf :: "block_manager \<Rightarrow> bool" where
  "bm_wf m \<longleftrightarrow> bm_start_address m < bm_end_address m \<and>
     tiles (unat (bm_start_address m)) (bm_tree m) (unat (bm_end_address m))"

definition range_in :: "block_manager \<Rightarrow> u64 \<Rightarrow> u64 \<Rightarrow> bool" where
  "range_in m address num_pages \<longleftrightarrow> 4096 dvd unat address \<and> 0 < num_pages \<and>
     bm_start_address m \<le> address \<and>
     unat address + unat num_pages * 4096 \<le> unat (bm_end_address m)"

text \<open>
  The coalescing step goes back one block unless the range starts the address space, so the range
  must not start inside the first block when that block is left uncut.
\<close>

definition coalesce_ok :: "block_manager \<Rightarrow> u64 \<Rightarrow> (memory_block \<Rightarrow> bool) \<Rightarrow> bool" where
  "coalesce_ok m address sel \<longleftrightarrow> address = bm_start_address m \<or>
     (case FindBlock (bm_tree m) address of None \<Rightarrow> True
      | Some b \<Rightarrow> mb_address b \<noteq> bm_start_address m \<or> sel b)"

definition in_range :: "u64 \<Rightarrow> u64 \<Rightarrow> nat \<Rightarrow> bool" where
  "in_range address num_pages n \<longleftrightarrow> unat address \<le> n \<and> n < unat address + unat num_pages * 4096"

lemma range_in_end:
  assumes "range_in m address np"
  shows "unat (address + np * PageSize) = unat address + unat np * 4096"
    "unat address < unat (address + np * PageSize)" "4096 dvd unat (address + np * PageSize)"
proof -
  have s: "unat address + unat np * 4096 < 2 ^ 64"
    using assms unat_u64_less[of "bm_end_address m"] by (simp add: range_in_def)
  have m: "unat (np * PageSize) = unat np * 4096"
    using s by (subst unat_mult_no_wrap) (simp_all add: PageSize_value)
  show e: "unat (address + np * PageSize) = unat address + unat np * 4096"
    using s m by (subst unat_add_no_wrap) simp_all
  show "unat address < unat (address + np * PageSize)" "4096 dvd unat (address + np * PageSize)"
    using assms e by (auto simp: range_in_def word_less_nat_alt)
qed

definition settled :: "u64 \<Rightarrow> u64 \<Rightarrow> memory_block \<Rightarrow> memory_block \<Rightarrow> bool" where
  "settled lo hi x y \<longleftrightarrow>
     (nend y \<le> unat lo \<or> unat hi < nend x \<longrightarrow> \<not> KMemoryBlock_CanMergeWith x y)"

locale props_update = range_update loop sel upd
  for loop sel upd +
  fixes pf :: "page_props \<Rightarrow> page_props"
  assumes props_upd: "sel b \<Longrightarrow> props c = props b \<Longrightarrow> props (upd c) = pf (props b)"
    and props_skip: "\<not> sel b \<Longrightarrow> pf (props b) = props b"
begin

lemma view_pieces:
  assumes "mb_range_ok b" "4096 dvd unat lo" "4096 dvd unat hi" "unat lo < unat hi"
  shows "view (pieces lo hi sel upd b) n =
    (if covers n b then Some (if unat lo \<le> n \<and> n < unat hi then pf (props b) else props b) else None)"
proof (cases "overlaps lo hi b \<and> sel b")
  case True
  have p: "props (cut_m lo b) = props b" "props (cut_mid lo hi b) = props b"
    by (simp_all add: cut_m_def cut_mid_def)
  have u: "props (upd (cut_mid lo hi b)) = pf (props b)"
    using props_upd True p(2) by blast
  show ?thesis
    using True split_geometry[OF assms(1), of lo] cut_mid_geometry[of b lo hi] cut_r_geometry[of b lo hi]
      assms
    by (auto simp: pieces_def cut_l_def cut_r_def view_append view_Cons covers_def overlaps_def p u
        split: if_splits)
next
  case False
  then show ?thesis
    using assms props_skip[of b] by (auto simp: pieces_def view_Cons covers_def overlaps_def)
qed

lemma view_concat_pieces:
  assumes "4096 dvd unat lo" "4096 dvd unat hi" "unat lo < unat hi"
  shows "tiles st bs nd \<Longrightarrow> view (concat (map (pieces lo hi sel upd) bs)) n =
    map_option (\<lambda>q. if unat lo \<le> n \<and> n < unat hi then pf q else q) (view bs n)"
  by (induction bs arbitrary: st) (auto simp: view_append view_Cons view_pieces[OF _ assms])

end

context range_update
begin

text \<open>After the loop only pairs that touch the range can be mergeable.\<close>

lemma pieces_ends:
  assumes "mb_range_ok b" "4096 dvd unat lo" "4096 dvd unat hi" "unat lo < unat hi"
  shows "pieces lo hi sel upd b \<noteq> []"
    "nend (hd (pieces lo hi sel upd b)) \<le> unat lo \<Longrightarrow> lkey (hd (pieces lo hi sel upd b)) = lkey b"
    "unat hi < nend (last (pieces lo hi sel upd b)) \<Longrightarrow> rkey (last (pieces lo hi sel upd b)) = rkey b"
proof -
  show "pieces lo hi sel upd b \<noteq> []" by (simp add: pieces_def)
  have "rkey (cut_m lo b) = rkey b" by (simp add: cut_m_def split_keys)
  then show "nend (hd (pieces lo hi sel upd b)) \<le> unat lo \<Longrightarrow> lkey (hd (pieces lo hi sel upd b)) = lkey b"
    "unat hi < nend (last (pieces lo hi sel upd b)) \<Longrightarrow> rkey (last (pieces lo hi sel upd b)) = rkey b"
    using cut_mid_geometry[of b lo hi] assms
    by (auto simp: pieces_def cut_l_def cut_r_def split_keys overlaps_def split: if_splits)
qed

lemma settled_within:
  assumes "mb_range_ok b" "4096 dvd unat lo" "4096 dvd unat hi" "unat lo < unat hi"
  shows "successively (settled lo hi) (pieces lo hi sel upd b)"
  using split_geometry[OF assms(1), of lo] cut_mid_geometry[of b lo hi] cut_r_geometry[of b lo hi] assms
  by (auto simp: pieces_def cut_l_def cut_r_def settled_def overlaps_def)

lemma settled_pieces:
  assumes "4096 dvd unat lo" "4096 dvd unat hi" "unat lo < unat hi"
  shows "tiles st bs nd \<Longrightarrow> no_merge bs \<Longrightarrow>
    successively (settled lo hi) (concat (map (pieces lo hi sel upd) bs))"
proof (induction bs arbitrary: st)
  case (Cons b bs)
  show ?case
  proof (cases bs)
    case Nil
    then show ?thesis using settled_within[OF _ assms] Cons.prems by simp
  next
    case (Cons c cs)
    have ok: "mb_range_ok b" "mb_range_ok c" "nend b = naddr c" "\<not> KMemoryBlock_CanMergeWith b c"
      using Cons Cons.prems by auto
    let ?x = "last (pieces lo hi sel upd b)" and ?y = "hd (pieces lo hi sel upd c)"
    note e = pieces_ends[OF ok(1) assms] pieces_ends[OF ok(2) assms]
    have t: "tiles (naddr b) (pieces lo hi sel upd b) (nend b)" "tiles (naddr c) (pieces lo hi sel upd c) (nend c)"
      using tiles_pieces[OF _ assms] ok by blast+
    have y: "naddr c < nend ?y"
      using t(2) e(4) by (cases "pieces lo hi sel upd c") (auto simp: mb_range_ok_def)
    have x: "nend ?x = nend b"
      using t(1) e(1) by (cases "pieces lo hi sel upd b" rule: rev_cases) (auto simp: tiles_append)
    have l: "rkey ?x = rkey b" if "nend ?y \<le> unat lo"
      using that y ok by (simp add: pieces_def overlaps_def)
    have r: "lkey ?y = lkey c" if "unat hi < nend ?x"
      using that x ok by (simp add: pieces_def overlaps_def)
    have "settled lo hi ?x ?y"
      using e(3,5) l r ok(4) CanMergeWith_keys[of ?x b ?y c] by (auto simp: settled_def)
    moreover have "hd (concat (map (pieces lo hi sel upd) bs)) = ?y"
      using Cons e(4) by simp
    moreover have "successively (settled lo hi) (concat (map (pieces lo hi sel upd) bs))"
      using Cons.IH[of "nend b"] Cons.prems Cons by (simp add: successively_Cons)
    ultimately show ?thesis
      using settled_within[OF ok(1) assms] e(1) by (simp add: successively_append_iff)
  qed
qed simp

end

context range_update
begin

lemma pieces_before:
  assumes "\<forall>b \<in> set bs. nend b \<le> unat lo"
  shows "concat (map (pieces lo hi sel upd) bs) = bs" "sum_list (map (cuts lo hi sel) bs) = 0"
proof -
  have p: "pieces lo hi sel upd b = [b] \<and> cuts lo hi sel b = 0" if "b \<in> set bs" for b
    using assms that unfolding pieces_def cuts_def overlaps_def by force
  then show "sum_list (map (cuts lo hi sel) bs) = 0" by simp
  have "map (pieces lo hi sel upd) bs = map (\<lambda>b. [b]) bs" using p by simp
  then show "concat (map (pieces lo hi sel upd) bs) = bs" by (simp only: concat_map_singleton list.map_ident)
qed

lemma length_pieces:
  "length (concat (map (pieces lo hi sel upd) bs)) = length bs + sum_list (map (cuts lo hi sel) bs)"
proof -
  have "length (pieces lo hi sel upd b) = 1 + cuts lo hi sel b" for b
    by (simp add: pieces_def cuts_def cut_l_def cut_r_def)
  then show ?thesis by (induction bs) simp_all
qed

text \<open>The loop of an operation, from the start of the range.\<close>

lemma loop_on_range:
  assumes "bm_wf m" "range_in m lo np" "ua_wf al"
    and hi: "hi = lo + np * PageSize"
    and "sum_list (map (cuts lo hi sel) (bm_tree m)) \<le> ua_live al"
  shows "\<exists>al'. loop al (bm_tree m) (FindIterator (bm_tree m) lo) lo np =
      Ok (al', concat (map (pieces lo hi sel upd) (bm_tree m))) \<and> ua_wf al' \<and>
      ua_slab al' = ua_slab al \<and>
      ua_live al' + sum_list (map (cuts lo hi sel) (bm_tree m)) = ua_live al"
proof -
  note e = range_in_end[OF assms(2), folded hi]
  have t: "tiles (unat (bm_start_address m)) (bm_tree m) (unat (bm_end_address m))"
    and in1: "unat (bm_start_address m) \<le> unat lo" "unat hi \<le> unat (bm_end_address m)"
    and dv: "4096 dvd unat lo" and np: "np \<noteq> 0"
    using assms(1,2) e by (auto simp: bm_wf_def range_in_def word_le_nat_alt)
  obtain pre b post where bs: "bm_tree m = pre @ b # post" and b: "naddr b \<le> unat lo" "unat lo < nend b"
    using tiles_cover[OF t in1(1)] in1(2) e(2) by auto
  have "tiles (unat (bm_start_address m)) pre (naddr b)"
    using t bs by (auto simp: tiles_append)
  then have p: "concat (map (pieces lo hi sel upd) pre) = pre" "sum_list (map (cuts lo hi sel) pre) = 0"
    using tiles_in[of _ pre "naddr b"] b(1) pieces_before[of pre lo hi] by (meson le_trans)+
  have "at_cursor lo hi lo np (b # post)"
    using e b np by (simp add: at_cursor_def)
  from loop_result[OF t[unfolded bs] dv e(3,2) in1(2) this assms(3)] assms(5)
  show ?thesis
    using FindIterator_at[OF t[unfolded bs] b] bs p by auto
qed

end

text \<open>Coalescing around the range, on a tree that is settled away from it.\<close>

lemma coalesce_start:
  assumes t: "tiles (unat st) bs nd" and lo: "unat st \<le> unat lo" "unat lo < nd"
    and first: "lo = st \<or> nend (hd bs) \<le> unat lo"
  obtains pre b rest where "bs = pre @ b # rest" "lo \<noteq> st \<longrightarrow> nend b \<le> unat lo" "lo = st \<longrightarrow> pre = []"
    "CoalesceForUpdate st al lo np bs =
       CoalesceForUpdate_loop (lo + np * PageSize) al (pre @ b # rest) (length pre)"
proof -
  obtain pre c post where bs: "bs = pre @ c # post" and c: "naddr c \<le> unat lo" "unat lo < nend c"
    using tiles_cover[OF t lo] by auto
  have pre: "tiles (unat st) pre (naddr c)" using t bs by (auto simp: tiles_append)
  note fi = FindIterator_at[OF t[unfolded bs] c]
  show ?thesis
  proof (cases "lo = st")
    case True
    then have "pre = []"
      using pre c(1) tiles_le[OF pre] by (cases pre) (auto simp: mb_range_ok_def dest: tiles_le)
    then show ?thesis
      using True bs fi by (intro that[of "[]" c post]) (simp_all add: CoalesceForUpdate_def)
  next
    case False
    then have "pre \<noteq> []" using first bs c by (cases pre) auto
    then obtain pre' b where pre': "pre = pre' @ [b]" by (cases pre rule: rev_cases) auto
    then have "nend b = naddr c" using pre by (auto simp: tiles_append)
    then show ?thesis
      using False bs fi c(1) pre'
      by (intro that[of pre' b "c # post"]) (simp_all add: CoalesceForUpdate_def)
  qed
qed

lemma settled_coalesce:
  assumes "tiles (unat st) (pre @ b # rest) nd" "lo \<noteq> st \<longrightarrow> nend b \<le> unat lo" "lo = st \<longrightarrow> pre = []"
    and s: "successively (settled lo hi) (pre @ b # rest)"
  shows "no_merge (pre @ coalesce (unat hi) b rest)"
proof -
  have tb: "tiles (naddr b) (b # rest) nd" "tiles (unat st) pre (naddr b)"
    using assms(1) by (auto simp: tiles_append)
  have x: "nend x \<le> unat lo" if "x \<in> set (pre @ [b])" "lo \<noteq> st" for x
    using that assms(2) tiles_in[OF tb(2), of x] tb(1) by (auto simp: mb_range_ok_def)
  have "successively (settled lo hi) (pre @ [b])"
    using s by (auto simp: successively_append_iff)
  then have "no_merge (pre @ [b])"
    using x assms(3) by (cases "lo = st") (auto simp: settled_def elim!: successively_mono)
  moreover have "successively (settled lo hi) (b # rest)"
    using s by (auto simp: successively_append_iff)
  then have "successively (\<lambda>x y. unat hi < nend x \<longrightarrow> \<not> KMemoryBlock_CanMergeWith x y) (b # rest)"
    by (rule successively_mono) (simp add: settled_def)
  ultimately show ?thesis using no_merge_coalesce[OF tb(1)] by blast
qed

lemma CoalesceForUpdate_ok:
  assumes t: "tiles (unat st) bs nd" and al: "ua_wf al"
    and lo: "unat st \<le> unat lo" "unat lo < nd"
    and first: "lo = st \<or> nend (hd bs) \<le> unat lo"
  shows "\<exists>al' bs'. CoalesceForUpdate st al lo np bs = Ok (al', bs') \<and>
    ua_wf al' \<and> tiles (unat st) bs' nd \<and> (\<forall>n. view bs' n = view bs n) \<and>
    blocks_held al' bs' = blocks_held al bs \<and>
    (successively (settled lo (lo + np * PageSize)) bs \<longrightarrow> no_merge bs')"
proof -
  obtain pre b rest where bs: "bs = pre @ b # rest"
    and b: "lo \<noteq> st \<longrightarrow> nend b \<le> unat lo" "lo = st \<longrightarrow> pre = []"
    and eq: "CoalesceForUpdate st al lo np bs =
        CoalesceForUpdate_loop (lo + np * PageSize) al (pre @ b # rest) (length pre)"
    by (rule coalesce_start[OF t lo first])
  let ?bs = "pre @ coalesce (unat (lo + np * PageSize)) b rest"
  have tb: "tiles (naddr b) (b # rest) nd" "tiles (unat st) pre (naddr b)"
    using t bs by (auto simp: tiles_append)
  from CoalesceForUpdate_loop_ok[OF t[unfolded bs] al, of "lo + np * PageSize"]
  obtain al' where "CoalesceForUpdate st al lo np bs = Ok (al', ?bs)" "ua_wf al'"
    "blocks_held al' ?bs = blocks_held al bs" using eq bs by auto
  moreover have "tiles (unat st) ?bs nd" using tiles_coalesce[OF tb(1)] tb(2) by (auto simp: tiles_append)
  moreover have "view ?bs n = view bs n" for n
    using view_coalesce[OF tb(1)] bs by (simp add: view_append split: option.split)
  moreover have "no_merge ?bs" if "successively (settled lo (lo + np * PageSize)) bs"
    using settled_coalesce[OF t[unfolded bs] b] that bs by blast
  ultimately show ?thesis by blast
qed

context props_update
begin

text \<open>
  The whole operation, with the loop's result coalesced: the tree stays a tiling, every address of
  the range gets the new properties and no other address changes, no block is lost or leaked, and
  a coalesced tree stays coalesced.
\<close>

lemma pieces_first:
  assumes "bm_wf m" "range_in m lo np" "coalesce_ok m lo sel"
    and hi: "hi = lo + np * PageSize"
  shows "lo = bm_start_address m \<or> nend (hd (concat (map (pieces lo hi sel upd) (bm_tree m)))) \<le> unat lo"
proof (cases "lo = bm_start_address m")
  case False
  note e = range_in_end[OF assms(2), folded hi]
  obtain b bs where bs: "bm_tree m = b # bs"
    using assms(1) by (cases "bm_tree m") (auto simp: bm_wf_def word_less_nat_alt)
  have b: "mb_range_ok b" "naddr b = unat (bm_start_address m)" "tiles (naddr b) (b # bs) (unat (bm_end_address m))"
    using assms(1) bs by (auto simp: bm_wf_def)
  have lo: "naddr b < unat lo" "4096 dvd unat lo"
    using assms(2) False b(2) by (auto simp: range_in_def word_le_nat_alt word_unat_eq_iff)
  show ?thesis
  proof (cases "unat lo < nend b")
    case True
    have "FindIterator ([] @ b # bs) lo = length []"
      using FindIterator_at[of "naddr b" "[]" b bs "unat (bm_end_address m)" lo] b(3) True lo(1) by simp
    then have "FindBlock (bm_tree m) lo = Some b" using bs by (simp add: FindBlock_def)
    moreover have "mb_address b = bm_start_address m" using b(2) by (simp add: naddr_def word_unat_eq_iff)
    ultimately have "sel b" using assms(3) False by (simp add: coalesce_ok_def)
    moreover have "overlaps lo hi b" using True lo e by (simp add: overlaps_def)
    ultimately show ?thesis
      using bs lo split_geometry[OF b(1) lo(1) True lo(2)] by (simp add: pieces_def cut_l_def)
  next
    case False
    then show ?thesis using bs by (simp add: pieces_def overlaps_def)
  qed
qed simp

lemma operation_correct:
  assumes "bm_wf m" "range_in m lo np" "ua_wf al" "coalesce_ok m lo sel"
    and hi: "hi = lo + np * PageSize"
    and cuts: "sum_list (map (cuts lo hi sel) (bm_tree m)) \<le> ua_live al"
  shows "\<exists>al' m'. finish_update lo np m (loop al (bm_tree m) (FindIterator (bm_tree m) lo) lo np) = Ok (al', m') \<and>
    bm_wf m' \<and> ua_wf al' \<and> bm_start_address m' = bm_start_address m \<and> bm_end_address m' = bm_end_address m \<and>
    (\<forall>n. view (bm_tree m') n = map_option (\<lambda>q. if in_range lo np n then pf q else q) (view (bm_tree m) n)) \<and>
    blocks_held al' (bm_tree m') = blocks_held al (bm_tree m) \<and>
    (no_merge (bm_tree m) \<longrightarrow> no_merge (bm_tree m'))"
proof -
  note e = range_in_end[OF assms(2), folded hi]
  let ?bs = "concat (map (pieces lo hi sel upd) (bm_tree m))"
  have t: "tiles (unat (bm_start_address m)) (bm_tree m) (unat (bm_end_address m))"
    and dv: "4096 dvd unat lo" and lo: "unat (bm_start_address m) \<le> unat lo" "unat lo < unat (bm_end_address m)"
    using assms(1,2) e by (auto simp: bm_wf_def range_in_def word_le_nat_alt)
  note al1 = loop_on_range[OF assms(1-3) hi cuts]
  obtain al1 where 1: "loop al (bm_tree m) (FindIterator (bm_tree m) lo) lo np = Ok (al1, ?bs)"
    "ua_wf al1" "blocks_held al1 ?bs = blocks_held al (bm_tree m)"
    using al1 length_pieces[of lo hi "bm_tree m"] by (force simp: blocks_held_def)
  have t1: "tiles (unat (bm_start_address m)) ?bs (unat (bm_end_address m))"
    using tiles_concat_pieces[OF dv e(3,2) t] .
  from CoalesceForUpdate_ok[OF t1 1(2) lo pieces_first[OF assms(1,2,4) hi], of np]
  obtain al' bs' where 2: "CoalesceForUpdate (bm_start_address m) al1 lo np ?bs = Ok (al', bs')" "ua_wf al'"
    "tiles (unat (bm_start_address m)) bs' (unat (bm_end_address m))" "\<forall>n. view bs' n = view ?bs n"
    "blocks_held al' bs' = blocks_held al1 ?bs"
    "successively (settled lo hi) ?bs \<longrightarrow> no_merge bs'"
    using hi by blast
  have v: "view bs' n = map_option (\<lambda>q. if in_range lo np n then pf q else q) (view (bm_tree m) n)" for n
    using 2(4) view_concat_pieces[OF dv e(3,2) t, of n] e(1) by (simp add: in_range_def)
  have "no_merge bs'" if "no_merge (bm_tree m)"
    using settled_pieces[OF dv e(3,2) t that] 2(6) by blast
  then show ?thesis
    using 1 2 v assms(1)
    by (intro exI[of _ al'] exI[of _ "m\<lparr>bm_tree := bs'\<rparr>"]) (auto simp: finish_update_def bm_wf_def)
qed

text \<open>Otherwise the first block stays as it is and holds the start of the range: there is no block to step back to.\<close>

lemma operation_undefined:
  assumes "bm_wf m" "range_in m lo np" "ua_wf al" "\<not> coalesce_ok m lo sel"
    and hi: "hi = lo + np * PageSize"
    and cuts: "sum_list (map (cuts lo hi sel) (bm_tree m)) \<le> ua_live al"
  shows "finish_update lo np m (loop al (bm_tree m) (FindIterator (bm_tree m) lo) lo np) = UB"
proof -
  note e = range_in_end[OF assms(2), folded hi]
  let ?bs = "concat (map (pieces lo hi sel upd) (bm_tree m))"
  obtain b where b: "FindBlock (bm_tree m) lo = Some b" "mb_address b = bm_start_address m" "\<not> sel b" "lo \<noteq> bm_start_address m"
    using assms(4) by (auto simp: coalesce_ok_def split: option.splits)
  have t: "tiles (unat (bm_start_address m)) (bm_tree m) (unat (bm_end_address m))"
    and dv: "4096 dvd unat lo" and lo: "unat (bm_start_address m) \<le> unat lo" "unat lo < unat (bm_end_address m)"
    using assms(1,2) e by (auto simp: bm_wf_def range_in_def word_le_nat_alt)
  obtain pre c post where bs: "bm_tree m = pre @ c # post" and c: "naddr c \<le> unat lo" "unat lo < nend c"
    using tiles_cover[OF t lo] by auto
  have "FindIterator (bm_tree m) lo = length pre" using FindIterator_at[OF t[unfolded bs] c] bs by simp
  then have "b = c" using b(1) bs by (simp add: FindBlock_def)
  then have "naddr c = unat (bm_start_address m)" using b(2) by (simp add: naddr_def)
  then have "pre = []" using t bs by (cases pre) (auto simp: mb_range_ok_def tiles_append dest: tiles_le)
  then obtain rest where first: "?bs = [] @ c # rest" using bs b(3) \<open>b = c\<close> by (simp add: pieces_def)
  obtain al1 where 1: "loop al (bm_tree m) (FindIterator (bm_tree m) lo) lo np = Ok (al1, ?bs)"
    using loop_on_range[OF assms(1-3) hi cuts] by force
  have "tiles (unat (bm_start_address m)) ([] @ c # rest) (unat (bm_end_address m))"
    using tiles_concat_pieces[OF dv e(3,2) t] first by simp
  from FindIterator_at[OF this c] have "FindIterator ?bs lo = 0" unfolding first by simp
  then show ?thesis using 1 b(4) by (simp add: finish_update_def CoalesceForUpdate_def)
qed

end

text \<open>Two blocks are always enough: only the blocks at the two ends of a range are cut.\<close>

lemma cuts_bounds:
  "cuts lo hi sel b \<le> 2" "unat lo \<le> naddr b \<Longrightarrow> cuts lo hi sel b \<le> 1"
  "nend b \<le> unat hi \<Longrightarrow> cuts lo hi sel b \<le> 1"
  "unat lo \<le> naddr b \<Longrightarrow> nend b \<le> unat hi \<Longrightarrow> cuts lo hi sel b = 0"
  "unat hi \<le> naddr b \<Longrightarrow> cuts lo hi sel b = 0" "nend b \<le> unat lo \<Longrightarrow> cuts lo hi sel b = 0"
  by (auto simp: cuts_def overlaps_def of_bool_def)

lemma cuts_from_start:
  assumes "tiles st bs nd" "unat lo \<le> st"
  shows "sum_list (map (cuts lo hi sel) bs) \<le> of_bool (st < unat hi)"
  using assms
proof (induction bs arbitrary: st)
  case (Cons b bs)
  define S where "S = sum_list (map (cuts lo hi sel) bs)"
  have IH: "S \<le> of_bool (nend b < unat hi)"
    using Cons by (auto simp: mb_range_ok_def S_def)
  have b: "naddr b = st" "st < nend b" using Cons.prems(1) by (auto simp: mb_range_ok_def)
  have "cuts lo hi sel b + S \<le> of_bool (st < unat hi)"
    using IH b Cons.prems(2) cuts_bounds(2)[of lo b hi sel] cuts_bounds(4)[of lo b hi sel]
      cuts_bounds(5)[of hi b lo sel]
    by (cases "unat hi \<le> st"; cases "nend b < unat hi"; cases "nend b = unat hi") auto
  then show ?case by (simp add: S_def)
qed simp

lemma cuts_le_MaxBlocks:
  assumes "tiles st bs nd" shows "sum_list (map (cuts lo hi sel) bs) \<le> MaxBlocks"
  using assms
proof (induction bs arbitrary: st)
  case (Cons b bs)
  have t: "tiles (nend b) bs nd" using Cons.prems by simp
  define S where "S = sum_list (map (cuts lo hi sel) bs)"
  have IH: "S \<le> 2" "unat lo \<le> nend b \<Longrightarrow> S \<le> of_bool (nend b < unat hi)"
    using Cons.IH[OF t] cuts_from_start[OF t, of lo hi sel] by (simp_all add: S_def MaxBlocks_def)
  have "cuts lo hi sel b + S \<le> 2"
    using IH cuts_bounds(1)[of lo hi sel b] cuts_bounds(3)[of b hi lo sel] cuts_bounds(6)[of b lo hi sel]
    by (cases "nend b \<le> unat lo"; cases "nend b < unat hi") auto
  then show ?case by (simp add: S_def MaxBlocks_def)
qed simp

section \<open>The four operations\<close>

definition counter_flags :: u8 where "counter_flags = Attr_IpcLocked OR Attr_DeviceShared"

definition has_props :: "u32 \<Rightarrow> u8 \<Rightarrow> u8 \<Rightarrow> page_props \<Rightarrow> bool" where
  "has_props s p a q \<longleftrightarrow> pp_state q = s \<and> pp_permission q = p \<and>
     pp_attribute q OR counter_flags = a OR counter_flags"

definition set_props :: "u32 \<Rightarrow> u8 \<Rightarrow> u8 \<Rightarrow> page_props \<Rightarrow> page_props" where
  "set_props s p a q = q\<lparr>pp_state := s, pp_permission := p,
     pp_attribute := a OR (pp_attribute q AND counter_flags)\<rparr>"

lemma HasProperties_props: "KMemoryBlock_HasProperties s p a b \<longleftrightarrow> has_props s p a (props b)"
  by (simp add: KMemoryBlock_HasProperties_def has_props_def props_def counter_flags_def)

lemma props_Update: "props (KMemoryBlock_Update s p a d sm cm b) = set_props s p a (props b)"
  by (simp add: KMemoryBlock_Update_def set_props_def props_def counter_flags_def Let_def)

lemma set_props_same:
  assumes "a AND counter_flags = 0" "has_props s p a q"
  shows "set_props s p a q = q"
proof -
  have "a OR (x AND m) = x" if "a AND m = 0" "x OR m = a OR m" for x m :: u8
  proof (rule bit_word_eqI)
    fix n
    have "bit x n \<or> bit m n \<longleftrightarrow> bit a n \<or> bit m n" using that(2) by (metis bit_or_iff)
    then show "bit (a OR (x AND m)) n \<longleftrightarrow> bit x n"
      using disjoint_flag[OF that(1), of n] by (auto simp: bit_or_iff bit_and_iff)
  qed
  then show ?thesis using assms by (simp add: set_props_def has_props_def)
qed

lemma Update_range [simp]:
  "mb_address (KMemoryBlock_Update s p a d sm cm b) = mb_address b"
  "mb_num_pages (KMemoryBlock_Update s p a d sm cm b) = mb_num_pages b"
  by (simp_all add: KMemoryBlock_Update_def Let_def)

interpretation upd: props_update "Update_loop s p a sd cd ad"
  "\<lambda>b. \<not> KMemoryBlock_HasProperties s p a b"
  "\<lambda>b. KMemoryBlock_Update s p a (mb_address b = ad) sd cd b"
  "\<lambda>q. if has_props s p a q then q else set_props s p a q"
  for s p a sd cd ad
proof (unfold_locales, goal_cases)
  case (1 al bs it cur rem)
  show ?case
    by (subst Update_loop.simps) (auto simp: Let_def split: res.splits prod.splits)
qed (auto simp: HasProperties_props props_Update)

interpretation upm: props_update "UpdateIfMatch_loop ts tp ta s p a sd cd"
  "\<lambda>b. KMemoryBlock_HasProperties ts tp ta b \<and> \<not> KMemoryBlock_HasProperties s p a b"
  "\<lambda>b. KMemoryBlock_Update s p a False sd cd b"
  "\<lambda>q. if has_props ts tp ta q \<and> \<not> has_props s p a q then set_props s p a q else q"
  for ts tp ta s p a sd cd
proof (unfold_locales, goal_cases)
  case (1 al bs it cur rem)
  show ?case
    by (subst UpdateIfMatch_loop.simps) (auto simp: Let_def split: res.splits prod.splits)
qed (auto simp: HasProperties_props props_Update)

interpretation upa: props_update "UpdateAttribute_loop msk at"
  "\<lambda>b. mb_attribute b AND msk \<noteq> at"
  "KMemoryBlock_UpdateAttribute msk at"
  "\<lambda>q. if pp_attribute q AND msk \<noteq> at then q\<lparr>pp_attribute := (pp_attribute q AND NOT msk) OR at\<rparr> else q"
  for msk at
proof (unfold_locales, goal_cases)
  case (1 al bs it cur rem)
  show ?case
    by (subst UpdateAttribute_loop.simps) (auto simp: Let_def split: res.splits prod.splits)
qed (auto simp: KMemoryBlock_UpdateAttribute_def props_def)

text \<open>The functions the page table passes to \<open>UpdateLock\<close>.\<close>

datatype lock_kind = LockIpc | UnlockIpc | ShareDevice | UnshareDevice | ShareMerge | ShareMergeRight
  | UnshareMerge | UnshareMergeRight

fun lock_function :: "lock_kind \<Rightarrow> u8 \<Rightarrow> bool \<Rightarrow> bool \<Rightarrow> memory_block \<Rightarrow> memory_block" where
  "lock_function LockIpc = KMemoryBlock_LockForIpc"
| "lock_function UnlockIpc = KMemoryBlock_UnlockForIpc"
| "lock_function ShareDevice = KMemoryBlock_ShareToDevice"
| "lock_function UnshareDevice = KMemoryBlock_UnshareToDevice"
| "lock_function ShareMerge = UpdateDeviceDisableMergeStateForShare"
| "lock_function ShareMergeRight = UpdateDeviceDisableMergeStateForShareRight"
| "lock_function UnshareMerge = UpdateDeviceDisableMergeStateForUnshare"
| "lock_function UnshareMergeRight = UpdateDeviceDisableMergeStateForUnshareRight"

fun lock_props :: "lock_kind \<Rightarrow> u8 \<Rightarrow> page_props \<Rightarrow> page_props" where
  "lock_props LockIpc p q =
     (let q1 = q\<lparr>pp_ipc_lock_count := pp_ipc_lock_count q + 1,
                 pp_attribute := pp_attribute q OR Attr_IpcLocked\<rparr>
      in if pp_ipc_lock_count q = 0
         then q1\<lparr>pp_original_permission := pp_permission q,
                 pp_permission := (p AND IpcLockChangeMask) OR (pp_permission q AND NOT IpcLockChangeMask)\<rparr>
         else q1)"
| "lock_props UnlockIpc p q =
     (if pp_ipc_lock_count q = 1
      then q\<lparr>pp_ipc_lock_count := 0, pp_permission := pp_original_permission q,
             pp_original_permission := 0, pp_attribute := pp_attribute q AND NOT Attr_IpcLocked\<rparr>
      else q\<lparr>pp_ipc_lock_count := pp_ipc_lock_count q - 1\<rparr>)"
| "lock_props ShareDevice p q =
     q\<lparr>pp_device_use_count := pp_device_use_count q + 1,
       pp_attribute := pp_attribute q OR Attr_DeviceShared\<rparr>"
| "lock_props UnshareDevice p q =
     (if pp_device_use_count q = 1
      then q\<lparr>pp_device_use_count := 0, pp_attribute := pp_attribute q AND NOT Attr_DeviceShared\<rparr>
      else q\<lparr>pp_device_use_count := pp_device_use_count q - 1\<rparr>)"
| "lock_props _ p q = q"

lemmas merge_state_defs =
  UpdateDeviceDisableMergeStateForShare_def UpdateDeviceDisableMergeStateForShareLeft_def
  UpdateDeviceDisableMergeStateForShareRight_def UpdateDeviceDisableMergeStateForUnshare_def
  UpdateDeviceDisableMergeStateForUnshareLeft_def UpdateDeviceDisableMergeStateForUnshareRight_def

lemma lock_function_range:
  "mb_address (lock_function k p l r b) = mb_address b"
  "mb_num_pages (lock_function k p l r b) = mb_num_pages b"
  by (cases k; simp add: lock_defs share_defs unshare_defs merge_state_defs Let_def)+

lemma merge_state_props:
  "props (UpdateDeviceDisableMergeStateForUnshareLeft p l r b) = props b"
  "props (UpdateDeviceDisableMergeStateForUnshareRight p l r b) = props b"
  "props (UpdateDeviceDisableMergeStateForShareLeft p l r b) = props b"
  "props (UpdateDeviceDisableMergeStateForShareRight p l r b) = props b"
  by (simp_all add: merge_state_defs props_def Let_def)

lemma lock_function_props: "props (lock_function k p l r b) = lock_props k p (props b)"
proof (cases k)
  case ShareDevice
  then show ?thesis
    by (simp add: KMemoryBlock_ShareToDevice_def UpdateDeviceDisableMergeStateForShare_def merge_state_props)
      (simp add: props_def)
next
  case UnshareDevice
  then show ?thesis
    by (simp add: KMemoryBlock_UnshareToDevice_def UpdateDeviceDisableMergeStateForUnshare_def merge_state_props)
      (simp add: props_def unshare_count_def Let_def)
qed (simp_all add: UpdateDeviceDisableMergeStateForShare_def UpdateDeviceDisableMergeStateForUnshare_def
    merge_state_props, simp_all add: lock_defs props_def Let_def)

interpretation upl: props_update "UpdateLock_loop (lock_function k) p ad ed" "\<lambda>b. True"
  "\<lambda>b. lock_function k p (mb_address b = ad) (KMemoryBlock_GetEndAddress b = ed) b" "lock_props k p"
  for k p ad ed
proof (unfold_locales, goal_cases)
  case (1 al bs it cur rem)
  show ?case
    by (subst UpdateLock_loop.simps)
      (auto simp: Let_def KMemoryBlock_GetMemoryInfo_def KMemoryInfo_GetEndAddress_def
        KMemoryBlock_GetEndAddress_def split: res.splits prod.splits)
qed (auto simp: lock_function_range lock_function_props)

section \<open>The operations against the abstract address space\<close>

datatype bm_op =
    OpSet u32 u8 u8 u8 u8
  | OpSetIfMatch u32 u8 u8 u32 u8 u8 u8 u8
  | OpSetAttribute u8 u8
  | OpLockRange lock_kind u8

fun bm_apply :: "bm_op \<Rightarrow> update_allocator \<Rightarrow> u64 \<Rightarrow> u64 \<Rightarrow> block_manager \<Rightarrow> (update_allocator \<times> block_manager) res" where
  "bm_apply (OpSet s p a sd cd) al address np m = KMemoryBlockManager_Update al address np s p a sd cd m"
| "bm_apply (OpSetIfMatch ts tp ta s p a sd cd) al address np m =
     KMemoryBlockManager_UpdateIfMatch al address np ts tp ta s p a sd cd m"
| "bm_apply (OpSetAttribute msk at) al address np m =
     KMemoryBlockManager_UpdateAttribute al address np msk at m"
| "bm_apply (OpLockRange k p) al address np m =
     KMemoryBlockManager_UpdateLock al address np (lock_function k) p m"

text \<open>What an operation does to the properties of one address.\<close>

fun op_props :: "bm_op \<Rightarrow> page_props \<Rightarrow> page_props" where
  "op_props (OpSet s p a sd cd) q = set_props s p a q"
| "op_props (OpSetIfMatch ts tp ta s p a sd cd) q =
     (if has_props ts tp ta q then set_props s p a q else q)"
| "op_props (OpSetAttribute msk at) q = q\<lparr>pp_attribute := (pp_attribute q AND NOT msk) OR at\<rparr>"
| "op_props (OpLockRange k p) q = lock_props k p q"

text \<open>The blocks an operation cuts, and what its caller has to respect.\<close>

fun op_sel :: "bm_op \<Rightarrow> memory_block \<Rightarrow> bool" where
  "op_sel (OpSet s p a sd cd) b \<longleftrightarrow> \<not> KMemoryBlock_HasProperties s p a b"
| "op_sel (OpSetIfMatch ts tp ta s p a sd cd) b \<longleftrightarrow>
     KMemoryBlock_HasProperties ts tp ta b \<and> \<not> KMemoryBlock_HasProperties s p a b"
| "op_sel (OpSetAttribute msk at) b \<longleftrightarrow> mb_attribute b AND msk \<noteq> at"
| "op_sel (OpLockRange k p) b \<longleftrightarrow> True"

fun op_allowed :: "bm_op \<Rightarrow> page_props \<Rightarrow> bool" where
  "op_allowed (OpSet s p a sd cd) q \<longleftrightarrow> a AND counter_flags = 0"
| "op_allowed (OpSetIfMatch ts tp ta s p a sd cd) q \<longleftrightarrow> a AND counter_flags = 0"
| "op_allowed (OpSetAttribute msk at) q \<longleftrightarrow> (msk OR at) AND counter_flags = 0"
| "op_allowed (OpLockRange LockIpc p) q \<longleftrightarrow> pp_ipc_lock_count q \<noteq> -1"
| "op_allowed (OpLockRange ShareDevice p) q \<longleftrightarrow> pp_device_use_count q \<noteq> -1"
| "op_allowed (OpLockRange k p) q \<longleftrightarrow> True"

lemma attribute_same: "(x AND m) = a \<Longrightarrow> (x AND NOT m) OR a = (x :: 'a::len word)"
  by (auto intro!: bit_word_eqI simp: bit_simps)

lemma op_sel_funs:
  "op_sel (OpSet s p a sd cd) = (\<lambda>b. \<not> KMemoryBlock_HasProperties s p a b)"
  "op_sel (OpSetIfMatch ts tp ta s p a sd cd) =
     (\<lambda>b. KMemoryBlock_HasProperties ts tp ta b \<and> \<not> KMemoryBlock_HasProperties s p a b)"
  "op_sel (OpSetAttribute msk at) = (\<lambda>b. mb_attribute b AND msk \<noteq> at)"
  "op_sel (OpLockRange k p) = (\<lambda>b. True)"
  by auto

lemma bm_apply_correct:
  assumes "bm_wf m" "range_in m address np" "ua_wf al" "ua_live al = MaxBlocks"
    "coalesce_ok m address (op_sel opn)"
    "\<forall>n q. in_range address np n \<and> view (bm_tree m) n = Some q \<longrightarrow> op_allowed opn q"
  shows "\<exists>al' m'. bm_apply opn al address np m = Ok (al', m') \<and> bm_wf m' \<and> ua_wf al' \<and>
    bm_start_address m' = bm_start_address m \<and> bm_end_address m' = bm_end_address m \<and>
    (\<forall>n. view (bm_tree m') n = map_option (\<lambda>q. if in_range address np n then op_props opn q else q) (view (bm_tree m) n)) \<and>
    blocks_held al' (bm_tree m') = blocks_held al (bm_tree m) \<and>
    (no_merge (bm_tree m) \<longrightarrow> no_merge (bm_tree m'))"
proof -
  have c: "sum_list (map (cuts lo hi sel) (bm_tree m)) \<le> ua_live al" for lo hi sel
    using assms(1,4) cuts_le_MaxBlocks by (metis bm_wf_def)
  have eq: "map_option (\<lambda>q. if in_range address np n then f q else q) (view (bm_tree m) n) =
      map_option (\<lambda>q. if in_range address np n then op_props opn q else q) (view (bm_tree m) n)"
    if "\<And>q. op_allowed opn q \<Longrightarrow> f q = op_props opn q" for f n
    using that assms(6) by (auto intro!: option.map_cong)
  show ?thesis
  proof (cases opn)
    case (OpSet s p a sd cd)
    have "(if has_props s p a q then q else set_props s p a q) = op_props opn q" if "op_allowed opn q" for q
      using that OpSet by (auto simp: set_props_same)
    from eq[OF this] upd.operation_correct[OF assms(1-3) _ refl c, of s p a sd cd address] show ?thesis
      using assms(5) OpSet by (simp add: op_sel_funs KMemoryBlockManager_Update_def)
  next
    case (OpSetIfMatch ts tp ta s p a sd cd)
    have "(if has_props ts tp ta q \<and> \<not> has_props s p a q then set_props s p a q else q) = op_props opn q"
      if "op_allowed opn q" for q
      using that OpSetIfMatch by (auto simp: set_props_same)
    from eq[OF this] upm.operation_correct[OF assms(1-3) _ refl c, of ts tp ta s p a sd cd] show ?thesis
      using assms(5) OpSetIfMatch by (simp add: op_sel_funs KMemoryBlockManager_UpdateIfMatch_def)
  next
    case (OpSetAttribute msk at)
    have "(if pp_attribute q AND msk \<noteq> at then q\<lparr>pp_attribute := (pp_attribute q AND NOT msk) OR at\<rparr> else q)
        = op_props opn q" for q
      using OpSetAttribute by (auto simp: attribute_same)
    from eq[OF this] upa.operation_correct[OF assms(1-3) _ refl c, of msk at] show ?thesis
      using assms(5) OpSetAttribute by (simp add: op_sel_funs KMemoryBlockManager_UpdateAttribute_def)
  next
    case (OpLockRange k p)
    then have "lock_props k p q = op_props opn q" for q by simp
    from eq[OF this] upl.operation_correct[OF assms(1-3) _ refl c, of k p address "address + np * PageSize"]
    show ?thesis
      using assms(5) OpLockRange by (simp add: op_sel_funs KMemoryBlockManager_UpdateLock_def)
  qed
qed

lemma bm_apply_defined:
  assumes "bm_wf m" "range_in m address np" "ua_wf al" "ua_live al = MaxBlocks"
  shows "if coalesce_ok m address (op_sel opn) then \<exists>al' m'. bm_apply opn al address np m = Ok (al', m')
    else bm_apply opn al address np m = UB"
proof -
  have c: "sum_list (map (cuts lo hi sel) (bm_tree m)) \<le> ua_live al" for lo hi sel
    using assms(1,4) cuts_le_MaxBlocks by (metis bm_wf_def)
  show ?thesis
  proof (cases opn)
    case (OpSet s p a sd cd)
    then show ?thesis using upd.operation_correct[OF assms(1-3) _ refl c, of s p a sd cd address]
        upd.operation_undefined[OF assms(1-3) _ refl c, of s p a sd cd address]
      by (auto simp: op_sel_funs KMemoryBlockManager_Update_def)
  next
    case (OpSetIfMatch ts tp ta s p a sd cd)
    then show ?thesis using upm.operation_correct[OF assms(1-3) _ refl c, of ts tp ta s p a sd cd]
        upm.operation_undefined[OF assms(1-3) _ refl c, of ts tp ta s p a sd cd]
      by (auto simp: op_sel_funs KMemoryBlockManager_UpdateIfMatch_def)
  next
    case (OpSetAttribute msk at)
    then show ?thesis using upa.operation_correct[OF assms(1-3) _ refl c, of msk at]
        upa.operation_undefined[OF assms(1-3) _ refl c, of msk at]
      by (auto simp: op_sel_funs KMemoryBlockManager_UpdateAttribute_def)
  next
    case (OpLockRange k p)
    then show ?thesis using upl.operation_correct[OF assms(1-3) _ refl c, of k p address "address + np * PageSize"]
        upl.operation_undefined[OF assms(1-3) _ refl c, of k p address "address + np * PageSize"]
      by (auto simp: op_sel_funs KMemoryBlockManager_UpdateLock_def)
  qed
qed

section \<open>The audit\<close>

definition counts_ok :: "page_props \<Rightarrow> bool" where
  "counts_ok q \<longleftrightarrow> \<not> (pp_attribute q AND Attr_IpcLocked \<noteq> 0 \<and> pp_ipc_lock_count q = 0) \<and>
     \<not> (pp_attribute q AND Attr_DeviceShared \<noteq> 0 \<and> pp_device_use_count q = 0)"

lemma check_counts_props: "check_counts b \<longleftrightarrow> counts_ok (props b)"
  by (simp add: check_counts_def counts_ok_def props_def)

lemma tiles_view_props:
  "tiles st bs nd \<Longrightarrow> (\<forall>b \<in> set bs. P (props b)) \<longleftrightarrow> (\<forall>n q. view bs n = Some q \<longrightarrow> P q)"
proof (induction bs arbitrary: st)
  case (Cons b bs)
  have t: "tiles (nend b) bs nd" and b: "mb_range_ok b" using Cons.prems by auto
  have 1: "view bs n = Some q \<Longrightarrow> \<not> covers n b" for n q
    using tiles_view[OF t, of n] by (auto simp: covers_def)
  have 2: "covers (naddr b) b" using b by (simp add: covers_def mb_range_ok_def)
  have "(\<forall>n q. view (b # bs) n = Some q \<longrightarrow> P q) \<longleftrightarrow> P (props b) \<and> (\<forall>n q. view bs n = Some q \<longrightarrow> P q)"
    using 1 2 by (auto simp: view_Cons)
  then show ?case using Cons.IH[OF t] by simp
qed simp

lemma CheckState_loop_iff:
  assumes "tiles st (b # bs) nd"
  shows "CheckState_loop b bs \<longleftrightarrow> no_merge (b # bs) \<and> (\<forall>c \<in> set (if bs = [] then [b] else bs). check_counts c)"
  using assms
proof (induction bs arbitrary: st b)
  case (Cons c bs)
  have "KMemoryBlock_GetEndAddress b = mb_address c"
    using Cons.prems unat_GetEndAddress[of b] by (auto simp: naddr_def word_unat_eq_iff)
  then show ?case using Cons.IH[of "nend b" c] Cons.prems by auto
qed simp

lemma CheckState_iff:
  assumes "bm_wf m"
  shows "CheckState (bm_tree m) = Ok True \<and> check_counts (hd (bm_tree m)) \<longleftrightarrow>
    no_merge (bm_tree m) \<and> (\<forall>n q. view (bm_tree m) n = Some q \<longrightarrow> counts_ok q)"
proof -
  obtain b bs where bs: "bm_tree m = b # bs"
    using assms by (cases "bm_tree m") (auto simp: bm_wf_def word_less_nat_alt)
  have t: "tiles (unat (bm_start_address m)) (b # bs) (unat (bm_end_address m))"
    using assms bs by (simp add: bm_wf_def)
  show ?thesis
    using CheckState_loop_iff[OF t] tiles_view_props[OF t, of counts_ok] bs
    by (auto simp: CheckState_def check_counts_props split: if_splits)
qed

lemma op_props_counts_ok:
  assumes "op_allowed opn q" "counts_ok q"
  shows "counts_ok (op_props opn q)"
proof -
  have c: "counts_ok q \<longleftrightarrow> (bit (pp_attribute q) 1 \<longrightarrow> pp_ipc_lock_count q \<noteq> 0) \<and>
      (bit (pp_attribute q) 2 \<longrightarrow> pp_device_use_count q \<noteq> 0)" for q
    unfolding counts_ok_def Attr_IpcLocked_def Attr_DeviceShared_def and_flag_eq_0_iff by auto
  have f: "x AND counter_flags = 0 \<Longrightarrow> \<not> bit x 1 \<and> \<not> bit x 2" for x :: u8
    using disjoint_flag[of x counter_flags] by (auto simp: counter_flags_def bit_or_iff flag_bits)
  show ?thesis
  proof (cases opn)
    case (OpLockRange k p)
    then show ?thesis using assms
      by (cases k) (auto simp: c bit_or_iff bit_and_iff bit_not_iff flag_bits plus_one_eq_0_iff Let_def)
  next
    case (OpSetAttribute msk at)
    then show ?thesis using assms f[of "msk OR at"] by (auto simp: c bit_or_iff bit_and_iff bit_not_iff)
  qed (use assms f in \<open>auto simp: c set_props_def bit_or_iff bit_and_iff bit_not_iff\<close>)
qed

section \<open>Construction and destruction\<close>

lemma UpdateAllocator_destroy_eq:
  "UpdateAllocator_destroy al = ua_slab al + length (filter (\<lambda>b. b \<noteq> None) (ua_blocks al))"
proof -
  have "fold (\<lambda>blk sl. if blk \<noteq> None then slab_Free sl else sl) bs n =
      n + length (filter (\<lambda>b. b \<noteq> None) bs)" for bs :: "memory_block option list" and n
    by (induction bs arbitrary: n) (auto simp: slab_Free_def)
  then show ?thesis by (simp add: UpdateAllocator_destroy_def)
qed

lemma ua_wf_destroy:
  assumes "ua_wf al" shows "UpdateAllocator_destroy al = ua_slab al + ua_live al"
proof -
  obtain x y where b: "ua_blocks al = [x, y]"
    using assms by (auto simp: ua_wf_def MaxBlocks_def length_Suc_conv numeral_2_eq_2)
  have "\<forall>i<2. ([x, y] ! i \<noteq> None) = (ua_index al \<le> i)" "ua_index al \<le> 2"
    using assms b by (auto simp: ua_wf_def MaxBlocks_def)
  then have "(x \<noteq> None) = (ua_index al \<le> 0)" "(y \<noteq> None) = (ua_index al \<le> 1)" "ua_index al \<le> 2"
    by (auto dest: spec[of _ 0] spec[of _ 1])
  then show ?thesis
    using b by (auto simp: UpdateAllocator_destroy_eq ua_live_def MaxBlocks_def)
qed

section \<open>Properties\<close>

definition demo_allocator :: update_allocator where
  "demo_allocator = \<lparr>ua_blocks = [Some KMemoryBlock_default, Some KMemoryBlock_default],
     ua_index = 0, ua_slab = 5\<rparr>"

definition demo_free_block :: "u64 \<Rightarrow> u64 \<Rightarrow> memory_block" where
  "demo_free_block a np = KMemoryBlock_new a np (KMemoryState_value KMemoryState_Free) 0 0"

definition demo_manager :: block_manager where
  "demo_manager = \<lparr>bm_tree = [demo_free_block 0x1000 1,
       KMemoryBlock_new 0x2000 4 (KMemoryState_value KMemoryState_Normal) UserReadWrite 0,
       demo_free_block 0x6000 2],
     bm_start_address = 0x1000, bm_end_address = 0x8000\<rparr>"

lemma demo_allocator_wf: "ua_wf demo_allocator" "ua_live demo_allocator = MaxBlocks"
  by (auto simp: demo_allocator_def ua_wf_def ua_live_def MaxBlocks_def less_2_cases_iff)

lemma demo_manager_wf: "bm_wf demo_manager"
  by (simp add: demo_manager_def demo_free_block_def bm_wf_def mb_range_ok_def naddr_def nend_def KMemoryBlock_new_def)

lemma demo_range_in: "range_in demo_manager 0x3000 2"
  by (simp add: demo_manager_def range_in_def)

lemma demo_find: "FindBlock (bm_tree demo_manager) 0x3000 = Some (bm_tree demo_manager ! 1)"
  by (simp add: demo_manager_def demo_free_block_def FindBlock_def FindIterator_def KMemoryBlock_Compare_def
      KMemoryBlock_GetLastAddress_def KMemoryBlock_GetEndAddress_def KMemoryBlock_GetSize_def
      KMemoryBlock_new_def PageSize_value)

lemma demo_coalesce_ok: "coalesce_ok demo_manager 0x3000 sel"
  by (simp add: coalesce_ok_def demo_find) (simp add: demo_manager_def KMemoryBlock_new_def)

text \<open>
  Claim C1. Each of the four range operations of the block manager (\<open>Update\<close>, \<open>UpdateIfMatch\<close>,
  \<open>UpdateAttribute\<close>, \<open>UpdateLock\<close>), on a well-formed manager and a range inside its address space,
  under two conditions on the caller that the code does not test: the range does not start strictly inside the first
  block of the address space while the operation leaves that block alone (\<open>coalesce_ok\<close>), and, on the
  range, attributes are set without the lock and share flags and a lock or share counter that is incremented is not at its maximum (\<open>op_allowed\<close>).
  Then the operation runs to completion with the two blocks of a full allocator, leaves a well-formed tiling of the
  same address space, changes the properties of exactly the addresses of the range in the way the
  operation says, and neither leaks nor loses a block.
\<close>
theorem block_manager_refines_address_space:
  assumes "bm_wf m" "range_in m address np" "ua_wf al" "ua_live al = MaxBlocks"
    "coalesce_ok m address (op_sel opn)"
    "\<forall>n q. in_range address np n \<and> view (bm_tree m) n = Some q \<longrightarrow> op_allowed opn q"
  shows "\<exists>al' m'. bm_apply opn al address np m = Ok (al', m') \<and> bm_wf m' \<and> ua_wf al' \<and>
    bm_start_address m' = bm_start_address m \<and> bm_end_address m' = bm_end_address m \<and>
    (\<forall>n. view (bm_tree m') n =
       map_option (\<lambda>q. if in_range address np n then op_props opn q else q) (view (bm_tree m) n)) \<and>
    blocks_held al' (bm_tree m') = blocks_held al (bm_tree m)"
  using bm_apply_correct[OF assms] by blast

theorem block_manager_refines_address_space_witness:
  "\<exists>al' m'. bm_apply (OpSet 7 1 8 1 0) demo_allocator 0x3000 2 demo_manager = Ok (al', m') \<and>
     view (bm_tree m') 0x4000 = map_option (set_props 7 1 8) (view (bm_tree demo_manager) 0x4000)"
proof -
  have "\<forall>n q. in_range 0x3000 2 n \<and> view (bm_tree demo_manager) n = Some q \<longrightarrow>
      op_allowed (OpSet 7 1 8 1 0) q"
    by (simp add: counter_flags_def Attr_IpcLocked_def Attr_DeviceShared_def)
  from block_manager_refines_address_space[OF demo_manager_wf demo_range_in demo_allocator_wf
      demo_coalesce_ok this]
  show ?thesis by (force simp: in_range_def)
qed

text \<open>
  Claim C2. The debug audit \<open>CheckState\<close> is an invariant of the range operations: when it accepts
  the tree (and the first block, which the audit skips, has consistent counters), it accepts the
  tree after the operation. So blocks stay sequential, no two neighbours that could be merged
  remain, and lock and share flags keep a nonzero counter.
\<close>
theorem block_manager_check_state_preserved:
  assumes "bm_wf m" "range_in m address np" "ua_wf al" "ua_live al = MaxBlocks"
    "coalesce_ok m address (op_sel opn)"
    "\<forall>n q. in_range address np n \<and> view (bm_tree m) n = Some q \<longrightarrow> op_allowed opn q"
    "CheckState (bm_tree m) = Ok True" "check_counts (hd (bm_tree m))"
  shows "\<exists>al' m'. bm_apply opn al address np m = Ok (al', m') \<and>
    CheckState (bm_tree m') = Ok True \<and> check_counts (hd (bm_tree m'))"
proof -
  from bm_apply_correct[OF assms(1-6)] obtain al' m' where
    1: "bm_apply opn al address np m = Ok (al', m')" "bm_wf m'"
      "\<forall>n. view (bm_tree m') n = map_option (\<lambda>q. if in_range address np n then op_props opn q else q) (view (bm_tree m) n)"
      "no_merge (bm_tree m) \<longrightarrow> no_merge (bm_tree m')" by blast
  have "no_merge (bm_tree m)" "\<forall>n q. view (bm_tree m) n = Some q \<longrightarrow> counts_ok q"
    using CheckState_iff[OF assms(1)] assms(7,8) by blast+
  moreover from this have "\<forall>n q. view (bm_tree m') n = Some q \<longrightarrow> counts_ok q"
    using 1(3) assms(6) op_props_counts_ok by (auto split: if_splits)
  ultimately show ?thesis using 1 CheckState_iff[OF 1(2)] by blast
qed

theorem block_manager_check_state_preserved_witness:
  "\<exists>al' m'. bm_apply (OpLockRange LockIpc UserRead) demo_allocator 0x3000 2 demo_manager = Ok (al', m') \<and>
     CheckState (bm_tree m') = Ok True"
proof -
  have v: "tiles 0x1000 (bm_tree demo_manager) 0x8000" using demo_manager_wf by (simp add: bm_wf_def demo_manager_def)
  have "\<forall>b \<in> set (bm_tree demo_manager). op_allowed (OpLockRange LockIpc UserRead) (props b)"
    by (simp add: demo_manager_def demo_free_block_def KMemoryBlock_new_def props_def)
  then have a: "\<forall>n q. in_range 0x3000 2 n \<and> view (bm_tree demo_manager) n = Some q \<longrightarrow>
      op_allowed (OpLockRange LockIpc UserRead) q"
    using tiles_view_props[OF v, of "op_allowed (OpLockRange LockIpc UserRead)"] by blast
  have c: "CheckState (bm_tree demo_manager) = Ok True" "check_counts (hd (bm_tree demo_manager))"
    by (simp_all add: CheckState_def demo_manager_def demo_free_block_def KMemoryBlock_new_def
        KMemoryBlock_CanMergeWith_def KMemoryBlock_HasSameProperties_def check_counts_def flag_defs
        KMemoryBlock_GetEndAddress_def KMemoryBlock_GetSize_def PageSize_value)
  from block_manager_check_state_preserved[OF demo_manager_wf demo_range_in demo_allocator_wf
      demo_coalesce_ok a c]
  show ?thesis by blast
qed

definition ipc_consistent :: "page_props \<Rightarrow> bool" where
  "ipc_consistent q \<longleftrightarrow> pp_ipc_lock_count q \<noteq> -1 \<and>
     (pp_attribute q AND Attr_IpcLocked \<noteq> 0 \<longleftrightarrow> pp_ipc_lock_count q \<noteq> 0) \<and>
     (pp_ipc_lock_count q = 0 \<longrightarrow> pp_original_permission q = 0)"

lemma lock_unlock_props: "ipc_consistent q \<Longrightarrow> lock_props UnlockIpc p' (lock_props LockIpc p q) = q"
proof -
  assume "ipc_consistent q"
  then have "pp_ipc_lock_count q \<noteq> -1" "bit (pp_attribute q) 1 \<longleftrightarrow> pp_ipc_lock_count q \<noteq> 0"
    "pp_ipc_lock_count q = 0 \<longrightarrow> pp_original_permission q = 0"
    unfolding ipc_consistent_def Attr_IpcLocked_def and_flag_eq_0_iff by auto
  then show ?thesis
    by (cases "pp_ipc_lock_count q = 0") (simp_all add: Let_def set_clear_flags)
qed

lemma coalesce_ok_always: "coalesce_ok m address (op_sel (OpLockRange k p))"
  by (simp add: coalesce_ok_def op_sel_funs split: option.splits)

text \<open>
  Claim C17. Locking a range for IPC and unlocking the same range restores the properties of every
  address of the address space, when no counter overflows and the lock flag agrees with the lock
  count before.
\<close>
theorem block_manager_ipc_lock_roundtrip:
  assumes "bm_wf m" "range_in m address np" "ua_wf al" "ua_live al = MaxBlocks"
    "ua_wf al2" "ua_live al2 = MaxBlocks"
    "\<forall>n q. in_range address np n \<and> view (bm_tree m) n = Some q \<longrightarrow> ipc_consistent q"
  shows "\<exists>al1 m1 al3 m2.
    KMemoryBlockManager_UpdateLock al address np KMemoryBlock_LockForIpc p m = Ok (al1, m1) \<and>
    KMemoryBlockManager_UpdateLock al2 address np KMemoryBlock_UnlockForIpc p' m1 = Ok (al3, m2) \<and>
    (\<forall>n. view (bm_tree m2) n = view (bm_tree m) n)"
proof -
  let ?l = "OpLockRange LockIpc p" and ?u = "OpLockRange UnlockIpc p'"
  from bm_apply_correct[OF assms(1-4) coalesce_ok_always, of LockIpc p] assms(7)
  obtain al1 m1 where 1: "bm_apply ?l al address np m = Ok (al1, m1)" "bm_wf m1"
    "bm_start_address m1 = bm_start_address m" "bm_end_address m1 = bm_end_address m"
    "\<forall>n. view (bm_tree m1) n = map_option (\<lambda>q. if in_range address np n then op_props ?l q else q) (view (bm_tree m) n)"
    by (auto simp: ipc_consistent_def)
  have "range_in m1 address np" using assms(2) 1(3,4) by (simp add: range_in_def)
  from bm_apply_correct[OF 1(2) this assms(5,6) coalesce_ok_always, of UnlockIpc p']
  obtain al3 m2 where 2: "bm_apply ?u al2 address np m1 = Ok (al3, m2)"
    "\<forall>n. view (bm_tree m2) n = map_option (\<lambda>q. if in_range address np n then op_props ?u q else q) (view (bm_tree m1) n)"
    by auto
  have "view (bm_tree m2) n = view (bm_tree m) n" for n
  proof (cases "view (bm_tree m) n")
    case (Some q)
    then have "in_range address np n \<Longrightarrow> op_props ?u (op_props ?l q) = q"
      using lock_unlock_props assms(7) unfolding op_props.simps by blast
    then show ?thesis using Some 1(5) 2(2) by auto
  qed (use 1(5) 2(2) in auto)
  then show ?thesis using 1(1) 2(1) by auto
qed

theorem block_manager_ipc_lock_roundtrip_witness:
  "\<exists>al1 m1 al3 m2.
    KMemoryBlockManager_UpdateLock demo_allocator 0x3000 2 KMemoryBlock_LockForIpc UserRead demo_manager = Ok (al1, m1) \<and>
    KMemoryBlockManager_UpdateLock demo_allocator 0x3000 2 KMemoryBlock_UnlockForIpc 0 m1 = Ok (al3, m2) \<and>
    (\<forall>n. view (bm_tree m2) n = view (bm_tree demo_manager) n)"
proof -
  have v: "tiles 0x1000 (bm_tree demo_manager) 0x8000" using demo_manager_wf by (simp add: bm_wf_def demo_manager_def)
  have "\<forall>b \<in> set (bm_tree demo_manager). ipc_consistent (props b)"
    by (simp add: demo_manager_def demo_free_block_def KMemoryBlock_new_def props_def ipc_consistent_def)
  then have a: "\<forall>n q. in_range 0x3000 2 n \<and> view (bm_tree demo_manager) n = Some q \<longrightarrow> ipc_consistent q"
    using tiles_view_props[OF v, of ipc_consistent] by blast
  show ?thesis
    by (rule block_manager_ipc_lock_roundtrip[OF demo_manager_wf demo_range_in demo_allocator_wf demo_allocator_wf a])
qed

text \<open>
  Asking the slab manager for up to two blocks succeeds exactly when it has them, leaves a
  well-formed allocator that holds them, and destroying the allocator, after success or failure,
  returns every block it still holds.
\<close>
theorem update_allocator_conserves_blocks:
  assumes "num_blocks \<le> MaxBlocks"
  shows "\<exists>e al. UpdateAllocator_new num_blocks slab = Ok (e, al) \<and>
    (e = None \<longleftrightarrow> num_blocks \<le> slab) \<and> (e = None \<longrightarrow> ua_wf al \<and> ua_live al = num_blocks) \<and>
    (e \<noteq> None \<longrightarrow> e = Some ResultOutOfResource) \<and> UpdateAllocator_destroy al = slab"
proof -
  consider "num_blocks = 0" | "num_blocks = 1" | "num_blocks = 2"
    using assms by (force simp: MaxBlocks_def)
  then show ?thesis
  proof cases
    case 1
    then show ?thesis
      by (auto simp: UpdateAllocator_new_def UpdateAllocator_destroy_def MaxBlocks_def numeral_2_eq_2
          ua_wf_def ua_live_def less_Suc_eq)
  next
    case 2
    then show ?thesis
      by (cases slab) (auto simp: UpdateAllocator_new_def UpdateAllocator_destroy_def MaxBlocks_def
          numeral_2_eq_2 slab_Allocate_def slab_Free_def ua_wf_def ua_live_def less_Suc_eq)
  next
    case 3
    then show ?thesis
      by (cases slab; cases "slab - 1")
        (auto simp: UpdateAllocator_new_def UpdateAllocator_destroy_def MaxBlocks_def
          numeral_2_eq_2 slab_Allocate_def slab_Free_def ua_wf_def ua_live_def less_Suc_eq)
  qed
qed

theorem update_allocator_conserves_blocks_witness:
  "\<exists>e al. UpdateAllocator_new 2 1 = Ok (e, al) \<and> e = Some ResultOutOfResource \<and> UpdateAllocator_destroy al = 1"
  using update_allocator_conserves_blocks[of 2 1] by (auto simp: MaxBlocks_def)

section \<open>Finding free memory\<close>

text \<open>What a successful search over the blocks guarantees, without wrap-around.\<close>

definition free_area ::
  "memory_block list \<Rightarrow> nat \<Rightarrow> nat \<Rightarrow> nat \<Rightarrow> nat \<Rightarrow> nat \<Rightarrow> nat \<Rightarrow> nat \<Rightarrow> bool" where
  "free_area bs region_start region_end num_pages alignment offset guard_pages area \<longleftrightarrow>
     region_start + guard_pages * 4096 \<le> area \<and>
     area + (num_pages + guard_pages) * 4096 \<le> region_end \<and>
     area mod alignment = offset mod alignment \<and>
     (\<exists>b \<in> set bs. mb_memory_state b = KMemoryState_value KMemoryState_Free \<and>
        naddr b + guard_pages * 4096 \<le> area \<and> area + (num_pages + guard_pages) * 4096 \<le> nend b)"

lemma free_area_mono:
  "set bs \<subseteq> set bs' \<Longrightarrow> free_area bs s e np al off gp a \<Longrightarrow> free_area bs' s e np al off gp a"
  by (auto simp: free_area_def)

lemma candidate_area_sound:
  assumes "0 < alignment" "offset < alignment"
    "max (unat ba) (unat rs) + unat gp * 4096 + unat alignment + unat offset < 2 ^ 64"
  shows "max (unat ba) (unat rs) + unat gp * 4096 \<le> unat (candidate_area ba rs alignment offset gp)"
    "unat (candidate_area ba rs alignment offset gp) mod unat alignment = unat offset"
proof -
  define a0 where "a0 = (if ba \<le> rs then rs else ba)"
  define a1 where "a1 = a0 + gp * PageSize"
  define d where "d = AlignDown a1 alignment"
  have a0: "unat a0 = max (unat ba) (unat rs)" by (auto simp: a0_def word_le_nat_alt)
  have "unat (gp * PageSize) = unat gp * 4096"
    using assms(3) by (subst unat_mult_no_wrap) (simp_all add: PageSize_value)
  then have a1: "unat a1 = max (unat ba) (unat rs) + unat gp * 4096"
    using assms(3) a0 unfolding a1_def by (subst unat_add_no_wrap) simp_all
  have al: "0 < unat alignment" "unat offset < unat alignment"
    using assms(1,2) by (simp_all add: word_less_nat_alt)
  have dm: "unat d = unat a1 - unat a1 mod unat alignment" "unat a1 mod unat alignment < unat alignment"
    using unat_AlignDown[OF assms(1), of a1] al(1) by (simp_all add: d_def)
  have d: "unat d \<le> unat a1" "unat a1 < unat d + unat alignment" "unat d mod unat alignment = 0"
    using dm by (simp_all add: minus_mod_eq_mult_div) (metis dm(1,2) add.commute le_add_diff_inverse2
        minus_mod_eq_mult_div mod_less_eq_dividend nat_add_left_cancel_less)
  have e: "unat (d + offset) = unat d + unat offset"
    using d(1) a1 assms(3) by (subst unat_add_no_wrap) simp_all
  have e2: "unat (d + offset + alignment) = unat d + unat offset + unat alignment"
    using d(1) a1 assms(3) e by (subst unat_add_no_wrap) simp_all
  have c: "candidate_area ba rs alignment offset gp = (if a1 \<le> d + offset then d + offset else d + offset + alignment)"
    by (simp add: candidate_area_def a0_def a1_def d_def Let_def)
  show "max (unat ba) (unat rs) + unat gp * 4096 \<le> unat (candidate_area ba rs alignment offset gp)"
    using c e e2 d(2) a1 by (auto simp: word_le_nat_alt)
  have "(unat d + unat offset) mod unat alignment = unat offset"
    using d(3) al(2) by (metis add_0 mod_add_left_eq mod_less)
  then show "unat (candidate_area ba rs alignment offset gp) mod unat alignment = unat offset"
    using c e e2 by auto
qed

lemma GetLastAddress_info: "KMemoryInfo_GetLastAddress (KMemoryBlock_GetMemoryInfo b) = KMemoryBlock_GetLastAddress b"
  by (simp add: KMemoryInfo_GetLastAddress_def KMemoryInfo_GetEndAddress_def KMemoryBlock_GetMemoryInfo_def
      KMemoryBlock_GetLastAddress_def KMemoryBlock_GetEndAddress_def)

lemma area_fits:
  assumes "(unat np + unat gp) * 4096 < 2 ^ 64" "0 < np" "area < area + np * PageSize + gp * PageSize - 1"
  shows "unat (area + np * PageSize + gp * PageSize - 1) + 1 = unat area + (unat np + unat gp) * 4096"
proof -
  define sz where "sz = np * PageSize + gp * PageSize"
  have "unat (np * PageSize) = unat np * 4096" "unat (gp * PageSize) = unat gp * 4096"
    using assms(1) by (subst unat_mult_no_wrap; simp add: PageSize_value)+
  then have sz: "unat sz = (unat np + unat gp) * 4096"
    using assms(1) unfolding sz_def by (subst unat_add_no_wrap) simp_all
  have "sz \<noteq> 0" using sz assms(2) by (auto simp: word_less_nat_alt)
  then have s1: "unat (sz - 1) = unat sz - 1" by (simp add: unat_minus_one)
  have lt: "area < area + (sz - 1)" using assms(3) by (simp add: sz_def algebra_simps)
  then have "unat area + unat (sz - 1) < 2 ^ 64"
    using unat_u64_less[of "sz - 1"] by (simp add: word_less_nat_alt unat_plus_if' split: if_splits)
  then have "unat (area + (sz - 1)) = unat area + unat (sz - 1)" by (simp add: unat_add_no_wrap)
  then show ?thesis
    using s1 sz assms(2) by (simp add: sz_def algebra_simps word_less_nat_alt)
qed

lemma FindFreeArea_loop_sound:
  assumes "\<forall>b \<in> set bs. mb_range_ok b" "FindFreeArea_loop bs rs rl np alignment offset gp = area" "area \<noteq> 0"
    "unat rs \<le> unat rl" "0 < alignment" "offset < alignment"
    "unat rl + unat gp * 4096 + unat alignment + unat offset < 2 ^ 64"
    "(unat np + unat gp) * 4096 < 2 ^ 64" "0 < np"
  shows "free_area bs (unat rs) (unat rl + 1) (unat np) (unat alignment) (unat offset) (unat gp) (unat area)"
  using assms(1,2)
proof (induction bs)
  case Nil
  then show ?case using assms(3) by simp
next
  case (Cons b bs)
  let ?area = "candidate_area (mb_address b) rs alignment offset gp"
  let ?last = "?area + np * PageSize + gp * PageSize - 1"
  have step: "FindFreeArea_loop (b # bs) rs rl np alignment offset gp =
     (if rl < mb_address b then 0
      else if mb_memory_state b = KMemoryState_value KMemoryState_Free \<and> mb_address b \<le> ?area \<and>
        ?area < ?last \<and> ?last \<le> rl \<and> ?last \<le> KMemoryBlock_GetLastAddress b then ?area
      else FindFreeArea_loop bs rs rl np alignment offset gp)"
    by (simp add: GetLastAddress_info Let_def) (auto simp: KMemoryBlock_GetMemoryInfo_def)
  show ?case
  proof (cases "area = ?area \<and> \<not> rl < mb_address b \<and> mb_memory_state b = KMemoryState_value KMemoryState_Free \<and>
      ?area < ?last \<and> ?last \<le> rl \<and> ?last \<le> KMemoryBlock_GetLastAddress b")
    case True
    then have lt: "?area < ?last" and le: "unat (mb_address b) \<le> unat rl" by (auto simp: word_less_nat_alt)
    have "max (unat (mb_address b)) (unat rs) + unat gp * 4096 + unat alignment + unat offset < 2 ^ 64"
      using le assms(4,7) by linarith
    note c = candidate_area_sound[OF assms(5,6) this]
    note f = area_fits[OF assms(8,9) lt]
    have "unat ?last \<le> unat rl" "unat ?last \<le> nend b - 1"
      using True unat_GetLastAddress[of b] Cons.prems(1) by (simp_all add: word_le_nat_alt)
    then show ?thesis
      using True c f assms(4,6,7) le Cons.prems(1)
      by (auto simp: free_area_def naddr_def mb_range_ok_def word_less_nat_alt)
  next
    case False
    then have "FindFreeArea_loop bs rs rl np alignment offset gp = area"
      using step Cons.prems(2) assms(3) by (auto split: if_splits)
    then show ?thesis using Cons by (auto simp: free_area_def)
  qed
qed

text \<open>
  Claim C18. When \<open>FindFreeArea\<close> returns an address other than zero, and no sum of its arguments wraps
  around 64 bits, the area of the requested pages with its guard pages on both sides lies in the
  region and inside one free block, and its address is the requested offset modulo the alignment.
\<close>
theorem find_free_area_sound:
  assumes "bm_wf m" "FindFreeArea (bm_tree m) region_start region_num_pages num_pages alignment offset guard_pages = area"
    "area \<noteq> 0" "0 < region_num_pages" "offset < alignment"
    "unat region_start + unat region_num_pages * 4096 + unat guard_pages * 4096 + unat alignment + unat offset < 2 ^ 64"
    "(unat num_pages + unat guard_pages) * 4096 < 2 ^ 64"
  shows "free_area (bm_tree m) (unat region_start) (unat region_start + unat region_num_pages * 4096)
    (unat num_pages) (unat alignment) (unat offset) (unat guard_pages) (unat area)"
proof -
  let ?e = "region_start + region_num_pages * PageSize"
  have "unat (region_num_pages * PageSize) = unat region_num_pages * 4096"
    using assms(6) by (subst unat_mult_no_wrap) (simp_all add: PageSize_value)
  then have e: "unat ?e = unat region_start + unat region_num_pages * 4096"
    using assms(6) by (subst unat_add_no_wrap) simp_all
  have r: "0 < unat region_num_pages" using assms(4) by (simp add: word_less_nat_alt)
  have l: "unat (?e - 1) + 1 = unat region_start + unat region_num_pages * 4096"
    using e r by (subst unat_diff_no_wrap) auto
  have np: "0 < num_pages" using assms(2,3) by (auto simp: FindFreeArea_def split: if_splits)
  have al: "0 < alignment" using assms(5) by (meson le_less_trans word_zero_le)
  let ?bs = "drop (FindIterator (bm_tree m) region_start) (bm_tree m)"
  have sub: "set ?bs \<subseteq> set (bm_tree m)" by (rule set_drop_subset)
  then have ok: "\<forall>b \<in> set ?bs. mb_range_ok b"
    using assms(1) tiles_in unfolding bm_wf_def by (meson subsetD)
  have "FindFreeArea_loop ?bs region_start (?e - 1) num_pages alignment offset guard_pages = area"
    using assms(2) np by (simp add: FindFreeArea_def)
  moreover have "unat region_start \<le> unat (?e - 1)" using l r by linarith
  moreover have "unat (?e - 1) + unat guard_pages * 4096 + unat alignment + unat offset < 2 ^ 64"
    using l assms(6) by linarith
  ultimately have "free_area ?bs (unat region_start) (unat (?e - 1) + 1) (unat num_pages) (unat alignment)
      (unat offset) (unat guard_pages) (unat area)"
    using FindFreeArea_loop_sound[OF ok _ assms(3) _ al assms(5) _ assms(7) np] by blast
  then show ?thesis unfolding l by (rule free_area_mono[OF sub])
qed

theorem find_free_area_sound_witness:
  "free_area (bm_tree demo_manager) 0x2000 0x8000 1 0x1000 0 0 0x6000"
proof -
  have "FindFreeArea (bm_tree demo_manager) 0x2000 6 1 0x1000 0 0 = 0x6000"
    by (simp add: FindFreeArea_def FindIterator_def demo_manager_def demo_free_block_def KMemoryBlock_Compare_def
        KMemoryBlock_GetLastAddress_def KMemoryBlock_GetEndAddress_def KMemoryBlock_GetSize_def
        KMemoryBlock_new_def PageSize_value KMemoryBlock_GetMemoryInfo_def candidate_area_def AlignDown_def
        KMemoryInfo_GetLastAddress_def KMemoryInfo_GetEndAddress_def flag_defs)
  from find_free_area_sound[OF demo_manager_wf this] show ?thesis
    by (simp add: free_area_def) 
qed

text \<open>
  Initialising a manager on a page-aligned address space that fits 64 bits takes one block
  from the slab and leaves a well-formed tree in which every address is free, and finalising it
  reports exactly that range and returns the block.
\<close>
theorem block_manager_initialize_finalize:
  assumes "st < nd" "4096 dvd unat st" "4096 dvd unat nd" "0 < slab" "bm_tree m = []"
  shows "\<exists>m'. KMemoryBlockManager_Initialize st nd slab m = Ok (m', slab - 1) \<and> bm_wf m' \<and>
    CheckState (bm_tree m') = Ok True \<and>
    (\<forall>n. unat st \<le> n \<and> n < unat nd \<longrightarrow>
       (\<exists>q. view (bm_tree m') n = Some q \<and> pp_state q = KMemoryState_value KMemoryState_Free)) \<and>
    KMemoryBlockManager_Finalize (bm_tree m') (slab - 1) = ([(st, nd - st)], [], slab)"
proof -
  let ?b = "KMemoryBlock_Initialize st ((nd - st) div PageSize) (KMemoryState_value KMemoryState_Free) 0 0 KMemoryBlock_default"
  have d: "unat (nd - st) = unat nd - unat st" using assms(1) by (simp add: unat_diff_no_wrap word_less_nat_alt)
  have n: "unat ((nd - st) div PageSize) * 4096 = unat nd - unat st"
    using assms(2,3) by (simp add: unat_div_distrib PageSize_value d)
  have g: "naddr ?b = unat st" "nend ?b = unat nd"
    using n assms(1) by (simp_all add: naddr_def nend_def KMemoryBlock_Initialize_def word_less_nat_alt)
  then have ok: "mb_range_ok ?b"
    using assms(1,2) unat_u64_less[of nd] by (simp add: mb_range_ok_def word_less_nat_alt)
  have sz: "KMemoryBlock_GetSize ?b = nd - st"
    using unat_GetSize[OF ok] n d by (simp add: word_unat_eq_iff KMemoryBlock_Initialize_def)
  have "mb_address ?b = st" "check_counts ?b" "mb_memory_state ?b = KMemoryState_value KMemoryState_Free"
    by (simp_all add: KMemoryBlock_Initialize_def check_counts_def)
  then show ?thesis
    using assms g ok sz
    by (auto simp: KMemoryBlockManager_Initialize_def slab_Allocate_def bm_wf_def CheckState_def view_Cons
        covers_def props_def slab_Free_def)
qed

theorem block_manager_initialize_finalize_witness:
  "\<exists>m'. KMemoryBlockManager_Initialize 0x8000000 0x9000000 3 \<lparr>bm_tree = [], bm_start_address = 0, bm_end_address = 0\<rparr>
     = Ok (m', 2) \<and> bm_wf m' \<and> KMemoryBlockManager_Finalize (bm_tree m') 2 = ([(0x8000000, 0x1000000)], [], 3)"
  using block_manager_initialize_finalize[of "0x8000000" "0x9000000" 3
      "\<lparr>bm_tree = [], bm_start_address = 0, bm_end_address = 0\<rparr>"] by auto

text \<open>
  Claim C22. When a range operation is defined. On a well-formed manager, a range inside its address space and a full
  allocator, each of the four operations completes, except when the range starts strictly inside the first block of the
  address space and the operation leaves that block alone: then, always, the coalescing step moves its iterator back from the
  first block of the tree, which is undefined. Setting an interior page of a fresh address space to the
  properties it has is the smallest case.
\<close>
theorem block_manager_defined_iff:
  assumes "bm_wf m" "range_in m address np" "ua_wf al" "ua_live al = MaxBlocks"
  shows "if coalesce_ok m address (op_sel opn) then \<exists>al' m'. bm_apply opn al address np m = Ok (al', m')
    else bm_apply opn al address np m = UB"
  by (rule bm_apply_defined[OF assms])

theorem block_manager_defined_iff_witness:
  "bm_apply (OpSet (KMemoryState_value KMemoryState_Free) 0 0 0 0) demo_allocator 0x3000 1
     \<lparr>bm_tree = [demo_free_block 0x1000 8], bm_start_address = 0x1000, bm_end_address = 0x9000\<rparr> = UB"
proof -
  let ?m = "\<lparr>bm_tree = [demo_free_block 0x1000 8], bm_start_address = 0x1000, bm_end_address = 0x9000\<rparr>"
  have w: "bm_wf ?m"
    by (simp add: demo_free_block_def bm_wf_def mb_range_ok_def naddr_def nend_def KMemoryBlock_new_def)
  have r: "range_in ?m 0x3000 1" by (simp add: range_in_def)
  have n: "\<not> coalesce_ok ?m 0x3000 (op_sel (OpSet (KMemoryState_value KMemoryState_Free) 0 0 0 0))"
    by (simp add: coalesce_ok_def demo_free_block_def FindBlock_def FindIterator_def KMemoryBlock_Compare_def
      KMemoryBlock_GetLastAddress_def KMemoryBlock_GetEndAddress_def KMemoryBlock_GetSize_def
      KMemoryBlock_new_def PageSize_value KMemoryBlock_HasProperties_def)
  show ?thesis
    using block_manager_defined_iff[OF w r demo_allocator_wf, of "OpSet (KMemoryState_value KMemoryState_Free) 0 0 0 0"] n by simp
qed

text \<open>
  The audit never looks at the counters of the first of several blocks: it accepts a tree
  whose first block is marked locked for IPC with a lock count of zero.
\<close>
theorem check_state_skips_first_block:
  "CheckState [(demo_free_block 0x1000 1)\<lparr>mb_attribute := Attr_IpcLocked\<rparr>, demo_free_block 0x2000 1] = Ok True \<and>
   \<not> check_counts ((demo_free_block 0x1000 1)\<lparr>mb_attribute := Attr_IpcLocked\<rparr>)"
  by (simp add: CheckState_def demo_free_block_def KMemoryBlock_new_def KMemoryBlock_CanMergeWith_def
      KMemoryBlock_HasSameProperties_def check_counts_def KMemoryBlock_GetEndAddress_def
      KMemoryBlock_GetSize_def PageSize_value Attr_IpcLocked_def Attr_DeviceShared_def)

end
