(* ===== verification/Resource_Limit.thy ===== *)
theory Resource_Limit
  imports Emu_Prelude
begin

text \<open>
  Resource limits, \<^verbatim>\<open>src/src/core/hle/kernel/k_resource_limit.cpp\<close>. A limit object keeps, for each of
  the five limitable resources, the limit, the current value, the hint and the peak. The 64-bit
  signed values are integers; an addition or subtraction that leaves the range of \<open>s64\<close> is \<open>UB\<close>,
  and \<open>WrappingAdd\<close> wraps. The number of waiting threads, an \<open>s32\<close>, is an integer that does not overflow. The lock makes every operation atomic except where \<open>Reserve\<close> waits on
  its condition variable: an attempt of its loop is a function whose outcome may be to wait, and the
  step relation interleaves attempts, waiting threads and the other operations.
\<close>

section \<open>Signed 64-bit arithmetic\<close>

type_synonym s64 = int

definition s64_range :: "int \<Rightarrow> bool" where
  "s64_range x \<longleftrightarrow> - (2 ^ 63) \<le> x \<and> x < 2 ^ 63"

definition s64_check :: "int \<Rightarrow> s64 res" where
  "s64_check x = (if s64_range x then Ok x else UB)"

definition WrappingAdd :: "s64 \<Rightarrow> s64 \<Rightarrow> s64" where
  "WrappingAdd lhs rhs = (lhs + rhs + 2 ^ 63) mod 2 ^ 64 - 2 ^ 63"

section \<open>Limits\<close>

datatype LimitableResource =
    PhysicalMemoryMax | ThreadCountMax | EventCountMax | TransferMemoryCountMax | SessionCountMax

fun resource_index :: "LimitableResource \<Rightarrow> nat" where
  "resource_index PhysicalMemoryMax = 0"
| "resource_index ThreadCountMax = 1"
| "resource_index EventCountMax = 2"
| "resource_index TransferMemoryCountMax = 3"
| "resource_index SessionCountMax = 4"

definition IsValidResourceType :: "nat \<Rightarrow> bool" where
  "IsValidResourceType t \<longleftrightarrow> t < 5"

record resource_limit =
  m_limit_values :: "s64 list"
  m_current_values :: "s64 list"
  m_current_hints :: "s64 list"
  m_peak_values :: "s64 list"
  m_waiter_count :: int

definition KResourceLimit_new :: resource_limit where
  "KResourceLimit_new =
     \<lparr>m_limit_values = replicate 5 0, m_current_values = replicate 5 0, m_current_hints = replicate 5 0,
      m_peak_values = replicate 5 0, m_waiter_count = 0\<rparr>"

definition GetLimitValue :: "LimitableResource \<Rightarrow> resource_limit \<Rightarrow> s64" where
  "GetLimitValue which rl = m_limit_values rl ! resource_index which"

definition GetCurrentValue :: "LimitableResource \<Rightarrow> resource_limit \<Rightarrow> s64" where
  "GetCurrentValue which rl = m_current_values rl ! resource_index which"

definition GetPeakValue :: "LimitableResource \<Rightarrow> resource_limit \<Rightarrow> s64" where
  "GetPeakValue which rl = m_peak_values rl ! resource_index which"

definition GetHintValue :: "LimitableResource \<Rightarrow> resource_limit \<Rightarrow> s64" where
  "GetHintValue which rl = m_current_hints rl ! resource_index which"

definition GetFreeValue :: "LimitableResource \<Rightarrow> resource_limit \<Rightarrow> s64 res" where
  "GetFreeValue which rl = s64_check (GetLimitValue which rl - GetCurrentValue which rl)"

definition SetLimitValue :: "LimitableResource \<Rightarrow> s64 \<Rightarrow> resource_limit \<Rightarrow> resource_limit res" where
  "SetLimitValue which v rl =
     (let index = resource_index which in
      if \<not> m_current_values rl ! index \<le> v then Err ResultInvalidState
      else Ok (rl\<lparr>m_limit_values := (m_limit_values rl)[index := v],
                  m_peak_values := (m_peak_values rl)[index := m_current_values rl ! index]\<rparr>))"

datatype reserve_outcome = Reserved | NotReserved | MustWait

text \<open>One turn of the loop of \<open>Reserve\<close> at time \<open>now\<close>.\<close>

definition Reserve_attempt ::
  "LimitableResource \<Rightarrow> s64 \<Rightarrow> s64 \<Rightarrow> s64 \<Rightarrow> resource_limit \<Rightarrow> (reserve_outcome \<times> resource_limit) res" where
  "Reserve_attempt which v timeout now rl =
     (let index = resource_index which;
          current = m_current_values rl ! index;
          hint = m_current_hints rl ! index;
          limit = m_limit_values rl ! index
      in if WrappingAdd current v \<le> current then Ok (NotReserved, rl)
         else bind_res (s64_check (current + v)) (\<lambda>sum.
           if sum \<le> limit then
             bind_res (s64_check (hint + v)) (\<lambda>hsum.
               Ok (Reserved, rl\<lparr>m_current_values := (m_current_values rl)[index := sum],
                     m_current_hints := (m_current_hints rl)[index := hsum],
                     m_peak_values := (m_peak_values rl)[index := max (m_peak_values rl ! index) sum]\<rparr>))
           else bind_res (s64_check (hint + v)) (\<lambda>hsum.
             if hsum \<le> limit \<and> (timeout < 0 \<or> now < timeout)
             then Ok (MustWait, rl\<lparr>m_waiter_count := m_waiter_count rl + 1\<rparr>)
             else Ok (NotReserved, rl))))"

text \<open>The call: the test of the hint, then the first turn of the loop.\<close>

definition Reserve_enter ::
  "LimitableResource \<Rightarrow> s64 \<Rightarrow> s64 \<Rightarrow> s64 \<Rightarrow> resource_limit \<Rightarrow> (reserve_outcome \<times> resource_limit) res" where
  "Reserve_enter which v timeout now rl =
     (if m_current_hints rl ! resource_index which \<ge> m_limit_values rl ! resource_index which
      then Ok (NotReserved, rl)
      else Reserve_attempt which v timeout now rl)"

text \<open>Waking from the condition variable and the next turn.\<close>

definition Reserve_wake ::
  "LimitableResource \<Rightarrow> s64 \<Rightarrow> s64 \<Rightarrow> s64 \<Rightarrow> resource_limit \<Rightarrow> (reserve_outcome \<times> resource_limit) res" where
  "Reserve_wake which v timeout now rl =
     Reserve_attempt which v timeout now (rl\<lparr>m_waiter_count := m_waiter_count rl - 1\<rparr>)"

definition DefaultTimeout :: s64 where "DefaultTimeout = 10000000000"

definition Reserve_default ::
  "LimitableResource \<Rightarrow> s64 \<Rightarrow> s64 \<Rightarrow> resource_limit \<Rightarrow> (reserve_outcome \<times> resource_limit) res" where
  "Reserve_default which v now rl =
     bind_res (s64_check (now + DefaultTimeout)) (\<lambda>timeout. Reserve_enter which v timeout now rl)"

text \<open>The flag tells whether the waiting threads are woken.\<close>

definition Release_hint :: "LimitableResource \<Rightarrow> s64 \<Rightarrow> s64 \<Rightarrow> resource_limit \<Rightarrow> (bool \<times> resource_limit) res" where
  "Release_hint which v hint rl =
     (let index = resource_index which in
      bind_res (s64_check (m_current_values rl ! index - v)) (\<lambda>current.
      bind_res (s64_check (m_current_hints rl ! index - hint)) (\<lambda>hints.
        Ok (m_waiter_count rl \<noteq> 0,
            rl\<lparr>m_current_values := (m_current_values rl)[index := current],
               m_current_hints := (m_current_hints rl)[index := hints]\<rparr>))))"

definition Release :: "LimitableResource \<Rightarrow> s64 \<Rightarrow> resource_limit \<Rightarrow> (bool \<times> resource_limit) res" where
  "Release which v rl = Release_hint which v v rl"

text \<open>An asserted call whose failure is only logged.\<close>

definition assert_set :: "LimitableResource \<Rightarrow> s64 \<Rightarrow> resource_limit \<Rightarrow> resource_limit" where
  "assert_set which v rl = (case SetLimitValue which v rl of Ok rl' \<Rightarrow> rl' | _ \<Rightarrow> rl)"

definition CreateResourceLimitForProcess :: "s64 \<Rightarrow> resource_limit" where
  "CreateResourceLimitForProcess physical_memory_size =
     assert_set SessionCountMax 1133
       (assert_set TransferMemoryCountMax 200
         (assert_set EventCountMax 900
           (assert_set ThreadCountMax 800
             (assert_set PhysicalMemoryMax physical_memory_size KResourceLimit_new))))"

section \<open>The invariant of the assertions\<close>

definition rl_ok :: "resource_limit \<Rightarrow> bool" where
  "rl_ok rl \<longleftrightarrow> length (m_limit_values rl) = 5 \<and> length (m_current_values rl) = 5 \<and>
     length (m_current_hints rl) = 5 \<and> length (m_peak_values rl) = 5 \<and>
     (\<forall>which. 0 \<le> GetHintValue which rl \<and> GetHintValue which rl \<le> GetCurrentValue which rl \<and>
        GetCurrentValue which rl \<le> GetPeakValue which rl \<and> GetPeakValue which rl \<le> GetLimitValue which rl \<and>
        s64_range (GetLimitValue which rl))"

lemmas rl_get_defs = GetLimitValue_def GetCurrentValue_def GetPeakValue_def GetHintValue_def

lemma resource_index_less [simp]: "resource_index w < 5"
  by (cases w) auto

lemma resource_index_inj [simp]: "resource_index a = resource_index b \<longleftrightarrow> a = b"
  by (cases a; cases b; simp)

lemma rl_okD:
  assumes "rl_ok rl"
  shows "0 \<le> m_current_hints rl ! resource_index w"
    "m_current_hints rl ! resource_index w \<le> m_current_values rl ! resource_index w"
    "m_current_values rl ! resource_index w \<le> m_peak_values rl ! resource_index w"
    "m_peak_values rl ! resource_index w \<le> m_limit_values rl ! resource_index w"
    "m_limit_values rl ! resource_index w < 2 ^ 63"
  using assms by (auto simp: rl_ok_def rl_get_defs s64_range_def)

lemma rl_ok_lengths:
  assumes "rl_ok rl"
  shows "length (m_limit_values rl) = 5" "length (m_current_values rl) = 5"
    "length (m_current_hints rl) = 5" "length (m_peak_values rl) = 5"
  using assms by (auto simp: rl_ok_def rl_get_defs s64_range_def)

lemma WrappingAdd_exact: "s64_range (a + b) \<Longrightarrow> WrappingAdd a b = a + b"
  by (simp add: WrappingAdd_def s64_range_def)

lemma WrappingAdd_wraps: "s64_range a \<Longrightarrow> 0 \<le> b \<Longrightarrow> b < 2 ^ 63 \<Longrightarrow> 2 ^ 63 \<le> a + b \<Longrightarrow> WrappingAdd a b = a + b - 2 ^ 64"
proof -
  assume a: "s64_range a" "0 \<le> b" "b < 2 ^ 63" "2 ^ 63 \<le> a + b"
  then have "(a + b + 2 ^ 63 - 2 ^ 64) mod 2 ^ 64 = a + b + 2 ^ 63 - 2 ^ 64"
    by (intro mod_pos_pos_trivial) (auto simp: s64_range_def)
  moreover have "(a + b + 2 ^ 63 - 2 ^ 64) mod 2 ^ 64 = (a + b + 2 ^ 63) mod (2 ^ 64 :: int)"
    by (metis minus_mod_self2)
  ultimately show ?thesis by (simp add: WrappingAdd_def)
qed

text \<open>The test of the loop rejects exactly zero and the sums that do not fit.\<close>

lemma WrappingAdd_test:
  assumes "0 \<le> a" "a < 2 ^ 63" "0 \<le> v" "v < 2 ^ 63"
  shows "WrappingAdd a v \<le> a \<longleftrightarrow> v = 0 \<or> 2 ^ 63 \<le> a + v"
proof (cases "2 ^ 63 \<le> a + v")
  case True
  then show ?thesis using assms WrappingAdd_wraps[of a v] by (auto simp: s64_range_def)
next
  case False
  then have "WrappingAdd a v = a + v" using assms by (intro WrappingAdd_exact) (auto simp: s64_range_def)
  then show ?thesis using False assms by auto
qed

lemma nth_update_resource [simp]:
  "length xs = 5 \<Longrightarrow> (xs[resource_index a := v]) ! resource_index b = (if a = b then v else xs ! resource_index b)"
  by (simp add: nth_list_update)

lemma rl_okI:
  assumes "length (m_limit_values rl) = 5" "length (m_current_values rl) = 5"
    "length (m_current_hints rl) = 5" "length (m_peak_values rl) = 5"
    "\<And>w. 0 \<le> m_current_hints rl ! resource_index w"
    "\<And>w. m_current_hints rl ! resource_index w \<le> m_current_values rl ! resource_index w"
    "\<And>w. m_current_values rl ! resource_index w \<le> m_peak_values rl ! resource_index w"
    "\<And>w. m_peak_values rl ! resource_index w \<le> m_limit_values rl ! resource_index w"
    "\<And>w. s64_range (m_limit_values rl ! resource_index w)"
  shows "rl_ok rl"
  using assms by (simp add: rl_ok_def rl_get_defs)

text \<open>What an attempt decides, when the values are consistent: it never overflows.\<close>

definition reserve_decision :: "LimitableResource \<Rightarrow> s64 \<Rightarrow> s64 \<Rightarrow> s64 \<Rightarrow> resource_limit \<Rightarrow> reserve_outcome" where
  "reserve_decision which v timeout now rl =
     (if v = 0 \<or> GetCurrentValue which rl + v \<ge> 2 ^ 63 then NotReserved
      else if GetCurrentValue which rl + v \<le> GetLimitValue which rl then Reserved
      else if GetHintValue which rl + v \<le> GetLimitValue which rl \<and> (timeout < 0 \<or> now < timeout) then MustWait
      else NotReserved)"

definition rl_add :: "LimitableResource \<Rightarrow> s64 \<Rightarrow> resource_limit \<Rightarrow> resource_limit" where
  "rl_add which v rl =
     (let index = resource_index which; current = m_current_values rl ! index + v
      in rl\<lparr>m_current_values := (m_current_values rl)[index := current],
            m_current_hints := (m_current_hints rl)[index := m_current_hints rl ! index + v],
            m_peak_values := (m_peak_values rl)[index := max (m_peak_values rl ! index) current]\<rparr>)"

lemma Reserve_attempt_eq:
  assumes "rl_ok rl" "0 \<le> v" "v < 2 ^ 63"
  shows "Reserve_attempt which v timeout now rl =
    Ok (case reserve_decision which v timeout now rl of
          Reserved \<Rightarrow> (Reserved, rl_add which v rl)
        | NotReserved \<Rightarrow> (NotReserved, rl)
        | MustWait \<Rightarrow> (MustWait, rl\<lparr>m_waiter_count := m_waiter_count rl + 1\<rparr>))"
proof -
  note b = rl_okD[OF assms(1), of which]
  have w: "WrappingAdd (m_current_values rl ! resource_index which) v \<le> m_current_values rl ! resource_index which \<longleftrightarrow>
      v = 0 \<or> 2 ^ 63 \<le> m_current_values rl ! resource_index which + v"
    using b assms by (intro WrappingAdd_test) auto
  show ?thesis
    using b assms by (auto simp: Reserve_attempt_def Let_def w reserve_decision_def rl_get_defs s64_check_def
        s64_range_def rl_add_def)
qed

lemma rl_ok_add:
  "rl_ok rl \<Longrightarrow> 0 \<le> v \<Longrightarrow> GetCurrentValue which rl + v \<le> GetLimitValue which rl \<Longrightarrow> rl_ok (rl_add which v rl)"
  by (fastforce simp: rl_ok_def rl_get_defs rl_add_def Let_def)

lemma rl_ok_waiters [simp]: "rl_ok (rl\<lparr>m_waiter_count := n\<rparr>) = rl_ok rl"
  by (simp add: rl_ok_def rl_get_defs)

text \<open>
  What \<open>Release\<close> asserts of its arguments, and a release that also leaves the hint at most the current value,
  which the next call asserts.
\<close>

definition release_asserted :: "LimitableResource \<Rightarrow> s64 \<Rightarrow> s64 \<Rightarrow> resource_limit \<Rightarrow> bool" where
  "release_asserted which v hint rl \<longleftrightarrow> 0 \<le> v \<and> 0 \<le> hint \<and> v \<le> GetCurrentValue which rl \<and>
     hint \<le> GetHintValue which rl"

definition release_ok :: "LimitableResource \<Rightarrow> s64 \<Rightarrow> s64 \<Rightarrow> resource_limit \<Rightarrow> bool" where
  "release_ok which v hint rl \<longleftrightarrow> release_asserted which v hint rl \<and>
     GetHintValue which rl - hint \<le> GetCurrentValue which rl - v"

definition rl_sub :: "LimitableResource \<Rightarrow> s64 \<Rightarrow> s64 \<Rightarrow> resource_limit \<Rightarrow> resource_limit" where
  "rl_sub which v hint rl =
     (let index = resource_index which
      in rl\<lparr>m_current_values := (m_current_values rl)[index := m_current_values rl ! index - v],
            m_current_hints := (m_current_hints rl)[index := m_current_hints rl ! index - hint]\<rparr>)"

lemma Release_hint_eq:
  assumes "rl_ok rl" "release_ok which v hint rl"
  shows "Release_hint which v hint rl = Ok (m_waiter_count rl \<noteq> 0, rl_sub which v hint rl)"
  using rl_okD[OF assms(1), of which] assms(2)
  by (auto simp: Release_hint_def Let_def s64_check_def s64_range_def release_ok_def release_asserted_def rl_get_defs rl_sub_def)

lemma rl_ok_sub:
  assumes "rl_ok rl" "release_ok which v hint rl"
  shows "rl_ok (rl_sub which v hint rl)"
proof -
  have "m_current_values rl ! resource_index which - v \<le> m_peak_values rl ! resource_index which"
    using rl_okD(3)[OF assms(1), of which] assms(2) by (simp add: release_ok_def release_asserted_def)
  moreover have "s64_range (m_limit_values rl ! resource_index w)" for w
    using assms(1) by (simp add: rl_ok_def rl_get_defs)
  ultimately show ?thesis
    using rl_okD[OF assms(1)] rl_ok_lengths[OF assms(1)] assms(2)
    by (intro rl_okI) (auto simp: rl_sub_def Let_def release_ok_def release_asserted_def rl_get_defs)
qed

lemma rl_ok_set:
  "rl_ok rl \<Longrightarrow> s64_range v \<Longrightarrow> SetLimitValue which v rl = Ok rl' \<Longrightarrow> rl_ok rl'"
  by (fastforce simp: rl_ok_def rl_get_defs SetLimitValue_def Let_def split: if_splits)

lemma rl_ok_new: "rl_ok KResourceLimit_new"
proof -
  have "replicate 5 (0::int) ! resource_index w = 0" for w by (simp add: nth_replicate)
  then show ?thesis by (simp add: rl_ok_def KResourceLimit_new_def rl_get_defs s64_range_def)
qed

section \<open>Threads\<close>

text \<open>
  The object with the threads waiting inside \<open>Reserve\<close>, each with its resource, amount and timeout.
  A step is a call that does not wait, a call that starts to wait, a waiting thread that is woken
  (by a broadcast, a timeout or spuriously) and goes on, or waits again, a release or a new limit. A step is labelled with
  the releases it makes; the only conditions on a release are the assertions that \<open>Release\<close> makes
  about its arguments.
\<close>

type_synonym waiter = "LimitableResource \<times> s64 \<times> s64"
type_synonym rl_state = "resource_limit \<times> waiter list"
type_synonym release_log = "(LimitableResource \<times> s64 \<times> s64) list"

inductive rl_step :: "rl_state \<Rightarrow> release_log \<Rightarrow> rl_state \<Rightarrow> bool" where
  rl_reserve: "Reserve_enter which v timeout now rl = Ok (out, rl') \<Longrightarrow> out \<noteq> MustWait \<Longrightarrow> 0 \<le> v \<Longrightarrow>
    v < 2 ^ 63 \<Longrightarrow> rl_step (rl, ws) [] (rl', ws)"
| rl_wait: "Reserve_enter which v timeout now rl = Ok (MustWait, rl') \<Longrightarrow> 0 \<le> v \<Longrightarrow> v < 2 ^ 63 \<Longrightarrow>
    rl_step (rl, ws) [] (rl', ws @ [(which, v, timeout)])"
| rl_wake: "i < length ws \<Longrightarrow> ws ! i = (which, v, timeout) \<Longrightarrow>
    Reserve_wake which v timeout now rl = Ok (out, rl') \<Longrightarrow>
    ws' = (if out = MustWait then ws else take i ws @ drop (Suc i) ws) \<Longrightarrow> rl_step (rl, ws) [] (rl', ws')"
| rl_release: "Release_hint which v hint rl = Ok (woken, rl') \<Longrightarrow> release_asserted which v hint rl \<Longrightarrow>
    rl_step (rl, ws) [(which, v, hint)] (rl', ws)"
| rl_set: "SetLimitValue which v rl = Ok rl' \<Longrightarrow> s64_range v \<Longrightarrow> rl_step (rl, ws) [] (rl', ws)"

inductive_cases rl_stepE: "rl_step s log s'"

inductive rl_reach :: "rl_state \<Rightarrow> release_log \<Rightarrow> bool" where
  rl_init: "rl_reach (KResourceLimit_new, []) []"
| rl_next: "rl_reach s log \<Longrightarrow> rl_step s log' s' \<Longrightarrow> rl_reach s' (log @ log')"

text \<open>The values and the hints of a resource that were released.\<close>

definition released_values :: "LimitableResource \<Rightarrow> release_log \<Rightarrow> int" where
  "released_values which log = (\<Sum>(w, v, hint) \<leftarrow> log. if w = which then v else 0)"

definition released_hints :: "LimitableResource \<Rightarrow> release_log \<Rightarrow> int" where
  "released_hints which log = (\<Sum>(w, v, hint) \<leftarrow> log. if w = which then hint else 0)"

lemma released_simps [simp]:
  "released_values which [] = 0" "released_hints which [] = 0"
  "released_values which (l1 @ l2) = released_values which l1 + released_values which l2"
  "released_hints which (l1 @ l2) = released_hints which l1 + released_hints which l2"
  "released_values which [(w, v, hint)] = (if w = which then v else 0)"
  "released_hints which [(w, v, hint)] = (if w = which then hint else 0)"
  by (simp_all add: released_values_def released_hints_def)

text \<open>What holds of the values of a resource in every run, whatever hints are released.\<close>

definition rl_bounds :: "resource_limit \<Rightarrow> bool" where
  "rl_bounds rl \<longleftrightarrow> length (m_limit_values rl) = 5 \<and> length (m_current_values rl) = 5 \<and>
     length (m_current_hints rl) = 5 \<and> length (m_peak_values rl) = 5 \<and>
     (\<forall>which. 0 \<le> GetHintValue which rl \<and> 0 \<le> GetCurrentValue which rl \<and>
        GetCurrentValue which rl \<le> GetPeakValue which rl \<and> GetPeakValue which rl \<le> GetLimitValue which rl \<and>
        s64_range (GetLimitValue which rl))"

definition hint_gap :: "LimitableResource \<Rightarrow> resource_limit \<Rightarrow> int" where
  "hint_gap which rl = GetCurrentValue which rl - GetHintValue which rl"

lemma attempt_cases:
  assumes b: "rl_bounds rl" and v: "0 \<le> v" "v < 2 ^ 63" and r: "Reserve_attempt which v timeout now rl = Ok (out, rl')"
  shows "(out = Reserved \<and> rl' = rl_add which v rl \<and> GetCurrentValue which rl + v \<le> GetLimitValue which rl) \<or>
    (out = NotReserved \<and> rl' = rl) \<or> (out = MustWait \<and> rl' = rl\<lparr>m_waiter_count := m_waiter_count rl + 1\<rparr> \<and> 0 < v)"
proof -
  let ?c = "m_current_values rl ! resource_index which"
  have "0 \<le> ?c" "?c < 2 ^ 63" using b by (auto simp: rl_bounds_def rl_get_defs s64_range_def intro: le_less_trans order_trans)
  note w = WrappingAdd_test[OF this v]
  show ?thesis using r v
    by (auto simp: Reserve_attempt_def Let_def w rl_get_defs s64_check_def rl_add_def split: if_splits)
qed

lemma bounds_add:
  "rl_bounds rl \<Longrightarrow> 0 \<le> v \<Longrightarrow> GetCurrentValue which rl + v \<le> GetLimitValue which rl \<Longrightarrow> rl_bounds (rl_add which v rl)"
  by (fastforce simp: rl_bounds_def rl_get_defs rl_add_def Let_def)

lemma bounds_waiters [simp]: "rl_bounds (rl\<lparr>m_waiter_count := n\<rparr>) = rl_bounds rl"
  by (simp add: rl_bounds_def rl_get_defs)

lemma hint_gap_waiters [simp]: "hint_gap w (rl\<lparr>m_waiter_count := n\<rparr>) = hint_gap w rl"
  by (simp add: hint_gap_def rl_get_defs)

lemma hint_gap_add: "rl_bounds rl \<Longrightarrow> hint_gap w (rl_add which v rl) = hint_gap w rl"
  by (simp add: rl_bounds_def hint_gap_def rl_get_defs rl_add_def Let_def)

lemma bounds_sub:
  assumes "rl_bounds rl" "release_asserted which v hint rl"
  shows "rl_bounds (rl_sub which v hint rl)"
    "hint_gap w (rl_sub which v hint rl) = hint_gap w rl + (if which = w then hint - v else 0)"
proof -
  have "m_current_values rl ! resource_index which - v \<le> m_peak_values rl ! resource_index which"
    using assms by (auto simp: rl_bounds_def release_asserted_def rl_get_defs dest!: spec[of _ which])
  then show "rl_bounds (rl_sub which v hint rl)"
    using assms by (auto simp: rl_bounds_def release_asserted_def rl_sub_def Let_def rl_get_defs)
  show "hint_gap w (rl_sub which v hint rl) = hint_gap w rl + (if which = w then hint - v else 0)"
    using assms(1) by (simp add: rl_bounds_def hint_gap_def rl_sub_def Let_def rl_get_defs)
qed

lemma bounds_set:
  assumes "rl_bounds rl" "s64_range v" "SetLimitValue which v rl = Ok rl'"
  shows "rl_bounds rl'" "hint_gap w rl' = hint_gap w rl" "m_waiter_count rl' = m_waiter_count rl"
  using assms by (auto simp: rl_bounds_def rl_get_defs hint_gap_def SetLimitValue_def Let_def split: if_splits)

lemma bounds_new: "rl_bounds KResourceLimit_new" "hint_gap w KResourceLimit_new = 0" "m_waiter_count KResourceLimit_new = 0"
proof -
  have "replicate 5 (0::int) ! resource_index w = 0" for w by (simp add: nth_replicate)
  then show "rl_bounds KResourceLimit_new" "hint_gap w KResourceLimit_new = 0" "m_waiter_count KResourceLimit_new = 0"
    by (simp_all add: rl_bounds_def hint_gap_def KResourceLimit_new_def rl_get_defs s64_range_def)
qed

lemma attempt_keeps:
  assumes "rl_bounds rl" "0 \<le> v" "v < 2 ^ 63" "Reserve_attempt which v timeout now rl = Ok (out, rl')"
  shows "rl_bounds rl'" "hint_gap w rl' = hint_gap w rl"
    "m_waiter_count rl' = m_waiter_count rl + (if out = MustWait then 1 else 0)" "out = MustWait \<Longrightarrow> 0 < v"
  using attempt_cases[OF assms] bounds_add[OF assms(1,2), of which] hint_gap_add[OF assms(1)] assms(1)
  by (auto simp: rl_add_def Let_def)

lemma enter_keeps:
  assumes "rl_bounds rl" "0 \<le> v" "v < 2 ^ 63" "Reserve_enter which v timeout now rl = Ok (out, rl')"
  shows "rl_bounds rl'" "hint_gap w rl' = hint_gap w rl"
    "m_waiter_count rl' = m_waiter_count rl + (if out = MustWait then 1 else 0)" "out = MustWait \<Longrightarrow> 0 < v"
  using attempt_keeps[OF assms(1-3), of which timeout now out rl'] assms(1,4)
  by (auto simp: Reserve_enter_def split: if_splits)

definition rl_inv :: "rl_state \<Rightarrow> release_log \<Rightarrow> bool" where
  "rl_inv s log \<longleftrightarrow> rl_bounds (fst s) \<and> m_waiter_count (fst s) = int (length (snd s)) \<and>
     (\<forall>(which, v, timeout) \<in> set (snd s). 0 < v \<and> v < 2 ^ 63) \<and>
     (\<forall>which. hint_gap which (fst s) = released_hints which log - released_values which log)"

lemma rl_step_inv:
  assumes "rl_step s log' s'" "rl_inv s log"
  shows "rl_inv s' (log @ log')"
  using assms
proof cases
  case (rl_reserve which v timeout now rl out rl' ws)
  then show ?thesis using assms(2) enter_keeps[of rl v which timeout now out rl'] by (simp add: rl_inv_def)
next
  case (rl_wait which v timeout now rl rl' ws)
  then show ?thesis using assms(2) enter_keeps[of rl v which timeout now MustWait rl'] by (auto simp: rl_inv_def)
next
  case (rl_wake i ws which v timeout now rl out rl' ws')
  have ok: "rl_bounds (rl\<lparr>m_waiter_count := m_waiter_count rl - 1\<rparr>)" using assms(2) rl_wake by (simp add: rl_inv_def)
  have "(which, v, timeout) \<in> set ws" using rl_wake by (metis nth_mem)
  then have v: "0 \<le> v" "v < 2 ^ 63" using assms(2) rl_wake by (auto simp: rl_inv_def)
  note k = attempt_keeps[OF ok v \<open>Reserve_wake which v timeout now rl = Ok (out, rl')\<close>[unfolded Reserve_wake_def]]
  have "set ws' \<subseteq> set ws" using rl_wake by (auto dest: in_set_takeD in_set_dropD)
  then show ?thesis using k assms(2) rl_wake by (auto simp: rl_inv_def)
next
  case (rl_release which v hint rl woken rl' ws)
  then have r: "rl' = rl_sub which v hint rl" by (auto simp: Release_hint_def rl_sub_def Let_def s64_check_def split: if_splits)
  have b: "rl_bounds rl" using assms(2) rl_release by (simp add: rl_inv_def)
  show ?thesis using assms(2) rl_release r bounds_sub[OF b \<open>release_asserted which v hint rl\<close>]
    by (auto simp: rl_inv_def) (simp_all add: rl_sub_def Let_def)
next
  case (rl_set which v rl rl' ws)
  then show ?thesis using assms(2) bounds_set[of rl v which rl'] by (simp add: rl_inv_def)
qed

lemma rl_reach_inv: "rl_reach s log \<Longrightarrow> rl_inv s log"
proof (induction rule: rl_reach.induct)
  case rl_init
  show ?case by (simp add: rl_inv_def bounds_new)
next
  case (rl_next s log log' s')
  then show ?case by (auto intro: rl_step_inv)
qed

text \<open>
  Claim C23. In every interleaving of calls to a resource limit, from its creation on, in which releases meet the assertions
  \<open>Release\<close> makes about its arguments (amounts that are not negative and not above the current value and the hint): for
  each resource the hint is not negative, the current value is between 0 and the peak and the peak at most the limit, the waiter count
  is the number of threads waiting in \<open>Reserve\<close>, each for a positive amount, and the current value exceeds
  the hint by exactly the hints released so far minus the values released so far. So the ordering of hint and current value
  that the other operations assert holds exactly as long as the releases of the resource have given back at least as much hint as value; the
  assertions of \<open>Release\<close> alone do not ensure it.
\<close>

theorem resource_limit_reachable_inv:
  assumes "rl_reach (rl, waiters) log"
  shows "0 \<le> GetHintValue which rl \<and> 0 \<le> GetCurrentValue which rl \<and>
    GetCurrentValue which rl \<le> GetPeakValue which rl \<and> GetPeakValue which rl \<le> GetLimitValue which rl \<and>
    m_waiter_count rl = int (length waiters) \<and> (\<forall>(w, v, timeout) \<in> set waiters. 0 < v) \<and>
    GetCurrentValue which rl - GetHintValue which rl = released_hints which log - released_values which log \<and>
    (GetHintValue which rl \<le> GetCurrentValue which rl \<longleftrightarrow> released_values which log \<le> released_hints which log)"
proof -
  have i: "rl_bounds rl" "m_waiter_count rl = int (length waiters)" "\<forall>(w, v, timeout) \<in> set waiters. 0 < v \<and> v < 2 ^ 63"
    "hint_gap which rl = released_hints which log - released_values which log"
    using rl_reach_inv[OF assms] by (auto simp: rl_inv_def)
  then show ?thesis by (auto simp: rl_bounds_def hint_gap_def)
qed

text \<open>
  Claim C24. A call of \<open>Reserve\<close> on a consistent object never overflows and decides as follows: it
  reserves exactly when the amount is positive, the hint is below the limit and the current value
  plus the amount is at most the limit, adding the amount to the current value and the hint; it
  starts to wait exactly when the current value would exceed the limit but the hint would not, and
  time is left; otherwise it refuses. Refusing changes nothing.
\<close>

theorem resource_limit_reserve_decision:
  assumes "rl_ok rl" "0 \<le> v" "v < 2 ^ 63"
  shows "\<exists>out rl'. Reserve_enter which v timeout now rl = Ok (out, rl') \<and> rl_ok rl' \<and>
    (out = Reserved \<longleftrightarrow> 0 < v \<and> GetHintValue which rl < GetLimitValue which rl \<and>
       GetCurrentValue which rl + v \<le> GetLimitValue which rl) \<and>
    (out = MustWait \<longleftrightarrow> 0 < v \<and> GetCurrentValue which rl + v < 2 ^ 63 \<and>
       GetCurrentValue which rl + v > GetLimitValue which rl \<and>
       GetHintValue which rl + v \<le> GetLimitValue which rl \<and> (timeout < 0 \<or> now < timeout)) \<and>
    (out = Reserved \<longrightarrow> GetCurrentValue which rl' = GetCurrentValue which rl + v \<and>
       GetHintValue which rl' = GetHintValue which rl + v \<and>
       (\<forall>other. other \<noteq> which \<longrightarrow> GetCurrentValue other rl' = GetCurrentValue other rl)) \<and>
    (out = NotReserved \<longrightarrow> rl' = rl)"
proof (cases "GetHintValue which rl \<ge> GetLimitValue which rl")
  case True
  then show ?thesis using assms by (auto simp: Reserve_enter_def rl_get_defs)
next
  case False
  note b = rl_okD[OF assms(1), of which] rl_ok_lengths[OF assms(1)]
  have E: "Reserve_enter which v timeout now rl =
    Ok (case reserve_decision which v timeout now rl of
          Reserved \<Rightarrow> (Reserved, rl_add which v rl)
        | NotReserved \<Rightarrow> (NotReserved, rl)
        | MustWait \<Rightarrow> (MustWait, rl\<lparr>m_waiter_count := m_waiter_count rl + 1\<rparr>))"
    using False Reserve_attempt_eq[OF assms] by (simp add: Reserve_enter_def rl_get_defs)
  have fit: "GetCurrentValue which rl + v \<le> GetLimitValue which rl \<Longrightarrow> GetCurrentValue which rl + v < 2 ^ 63"
    using b by (simp add: rl_get_defs)
  show ?thesis
  proof (cases "reserve_decision which v timeout now rl")
    case Reserved
    then have "GetCurrentValue which rl + v \<le> GetLimitValue which rl"
      by (auto simp: reserve_decision_def split: if_splits)
    from rl_ok_add[OF assms(1,2) this] show ?thesis
      using Reserved E False fit b assms(2)
      by (auto simp: reserve_decision_def rl_add_def Let_def rl_get_defs split: if_splits)
  next
    case NotReserved
    then show ?thesis using E False fit assms by (auto simp: reserve_decision_def split: if_splits)
  next
    case MustWait
    then show ?thesis using E False fit assms by (auto simp: reserve_decision_def split: if_splits)
  qed
qed

section \<open>Accounts\<close>

text \<open>
  What a client of one resource relies on, when it releases what it reserved with the same hint: an
  account with a balance that a successful reservation raises and a release lowers. A list of
  requests is granted in turn.
\<close>

fun grant_all :: "(int \<Rightarrow> 's \<Rightarrow> bool \<times> 's) \<Rightarrow> int list \<Rightarrow> 's \<Rightarrow> int \<times> 's" where
  "grant_all reserve [] s = (0, s)"
| "grant_all reserve (v # vs) s =
     (let (b, s1) = reserve v s; (g, s2) = grant_all reserve vs s1 in ((if b then v else 0) + g, s2))"

locale resource_account =
  fixes inv :: "'s \<Rightarrow> bool" and used :: "'s \<Rightarrow> int" and limit :: "'s \<Rightarrow> int"
    and reserve :: "int \<Rightarrow> 's \<Rightarrow> bool \<times> 's" and release :: "int \<Rightarrow> 's \<Rightarrow> 's"
  assumes used_bounds: "inv s \<Longrightarrow> 0 \<le> used s \<and> used s \<le> limit s"
    and reserve_law: "inv s \<Longrightarrow> 0 \<le> v \<Longrightarrow> v < 2 ^ 63 \<Longrightarrow> reserve v s = (b, s') \<Longrightarrow>
      inv s' \<and> limit s' = limit s \<and> (b \<longleftrightarrow> 0 < v \<and> used s + v \<le> limit s) \<and>
      used s' = used s + (if b then v else 0)"
    and release_law: "inv s \<Longrightarrow> 0 \<le> v \<Longrightarrow> v \<le> used s \<Longrightarrow>
      inv (release v s) \<and> limit (release v s) = limit s \<and> used (release v s) = used s - v"
begin

lemma reserve_release: "inv s \<Longrightarrow> 0 < v \<Longrightarrow> v < 2 ^ 63 \<Longrightarrow> used s + v \<le> limit s \<Longrightarrow>
    fst (reserve v s) \<and> used (release v (snd (reserve v s))) = used s \<and> inv (release v (snd (reserve v s)))"
  using reserve_law[of s v "fst (reserve v s)" "snd (reserve v s)"] release_law[of "snd (reserve v s)" v]
    used_bounds[of s] by simp

lemma grant_all_sum:
  "inv s \<Longrightarrow> \<forall>v \<in> set vs. 0 \<le> v \<and> v < 2 ^ 63 \<Longrightarrow> grant_all reserve vs s = (g, s') \<Longrightarrow>
    inv s' \<and> limit s' = limit s \<and> used s' = used s + g \<and> 0 \<le> g"
proof (induction vs arbitrary: s g s')
  case (Cons v vs)
  obtain b s1 where r: "reserve v s = (b, s1)" by (cases "reserve v s")
  obtain g2 s2 where g: "grant_all reserve vs s1 = (g2, s2)" by (cases "grant_all reserve vs s1")
  note l = reserve_law[OF Cons.prems(1) _ _ r]
  have "inv s2 \<and> limit s2 = limit s1 \<and> used s2 = used s1 + g2 \<and> 0 \<le> g2"
    using Cons.IH[OF _ _ g] l Cons.prems by simp
  then show ?case using l Cons.prems r g by auto
qed simp

lemma grant_all_released:
  assumes "inv s" "\<forall>v \<in> set vs. 0 \<le> v \<and> v < 2 ^ 63" "grant_all reserve vs s = (g, s')"
  shows "used s' \<le> limit s \<and> used (release g s') = used s"
  using grant_all_sum[OF assms] used_bounds[of s'] used_bounds[OF assms(1)] release_law[of s' g] by simp

end

definition account_inv :: "LimitableResource \<Rightarrow> resource_limit \<Rightarrow> bool" where
  "account_inv which rl \<longleftrightarrow> rl_ok rl \<and> GetHintValue which rl = GetCurrentValue which rl"

definition try_reserve :: "LimitableResource \<Rightarrow> s64 \<Rightarrow> resource_limit \<Rightarrow> bool \<times> resource_limit" where
  "try_reserve which v rl = (case Reserve_enter which v 0 0 rl of Ok (out, rl') \<Rightarrow> (out = Reserved, rl') | _ \<Rightarrow> (False, rl))"

definition do_release :: "LimitableResource \<Rightarrow> s64 \<Rightarrow> resource_limit \<Rightarrow> resource_limit" where
  "do_release which v rl = (case Release which v rl of Ok (woken, rl') \<Rightarrow> rl' | _ \<Rightarrow> rl)"

lemma try_reserve_law:
  assumes "account_inv which rl" "0 \<le> v" "v < 2 ^ 63" "try_reserve which v rl = (b, rl')"
  shows "account_inv which rl' \<and> GetLimitValue which rl' = GetLimitValue which rl \<and>
    (b \<longleftrightarrow> 0 < v \<and> GetCurrentValue which rl + v \<le> GetLimitValue which rl) \<and>
    GetCurrentValue which rl' = GetCurrentValue which rl + (if b then v else 0)"
proof -
  have ok: "rl_ok rl" and h: "GetHintValue which rl = GetCurrentValue which rl"
    using assms(1) by (auto simp: account_inv_def)
  note len = rl_ok_lengths[OF ok] and bnd = rl_okD[OF ok, of which]
  show ?thesis
  proof (cases "GetHintValue which rl \<ge> GetLimitValue which rl")
    case True
    then show ?thesis using assms h by (auto simp: try_reserve_def Reserve_enter_def rl_get_defs)
  next
    case False
    then have E: "Reserve_enter which v 0 0 rl = Reserve_attempt which v 0 0 rl"
      by (simp add: Reserve_enter_def rl_get_defs)
    show ?thesis
    proof (cases "0 < v \<and> GetCurrentValue which rl + v \<le> GetLimitValue which rl")
      case True
      then have "reserve_decision which v 0 0 rl = Reserved"
        using bnd by (simp add: reserve_decision_def rl_get_defs)
      then have "b" "rl' = rl_add which v rl"
        using assms(4) E Reserve_attempt_eq[OF ok assms(2,3), of which 0 0] by (auto simp: try_reserve_def)
      then show ?thesis using True h len rl_ok_add[OF ok assms(2) conjunct2[OF True]]
        by (simp add: account_inv_def rl_add_def Let_def rl_get_defs)
    next
      case no: False
      then have "reserve_decision which v 0 0 rl = NotReserved"
        using h assms(2) by (auto simp: reserve_decision_def)
      then have "\<not> b" "rl' = rl"
        using assms(4) E Reserve_attempt_eq[OF ok assms(2,3), of which 0 0] by (auto simp: try_reserve_def)
      then show ?thesis using no assms(1) by auto
    qed
  qed
qed

interpretation account: resource_account "account_inv which" "GetCurrentValue which" "GetLimitValue which"
  "try_reserve which" "do_release which" for which
proof (unfold_locales, goal_cases)
  case (1 s)
  then show ?case using rl_okD[of s which] by (simp add: account_inv_def rl_get_defs)
next
  case (2 s v b s')
  then show ?case by (intro try_reserve_law) auto
next
  case (3 s v)
  then have r: "rl_ok s" "release_ok which v v s" by (auto simp: account_inv_def release_ok_def release_asserted_def)
  then have "do_release which v s = rl_sub which v v s" by (simp add: do_release_def Release_def Release_hint_eq)
  then show ?case using 3 rl_ok_sub[OF r] rl_ok_lengths[OF r(1)] r
    by (simp add: account_inv_def rl_sub_def Let_def rl_get_defs)
qed

text \<open>
  Claim C25. A resource is never lost or created: from a consistent object, any sequence of requests
  leaves the current value at its start plus exactly the sum of the amounts granted, never above the
  limit, and releasing that sum restores it.
\<close>

theorem resource_limit_conservation:
  assumes "account_inv which rl" "\<forall>v \<in> set vs. 0 \<le> v \<and> v < 2 ^ 63"
    "grant_all (try_reserve which) vs rl = (granted, rl')"
  shows "GetCurrentValue which rl' = GetCurrentValue which rl + granted \<and>
    GetCurrentValue which rl' \<le> GetLimitValue which rl \<and>
    GetCurrentValue which (do_release which granted rl') = GetCurrentValue which rl"
  using account.grant_all_sum[OF assms] account.grant_all_released[OF assms] by simp

lemma rl_ok_assert_set: "rl_ok rl \<Longrightarrow> s64_range v \<Longrightarrow> rl_ok (assert_set which v rl)"
  by (auto simp: assert_set_def split: res.split intro: rl_ok_set)

lemma rl_ok_create: "s64_range n \<Longrightarrow> rl_ok (CreateResourceLimitForProcess n)"
  by (simp add: CreateResourceLimitForProcess_def rl_ok_assert_set rl_ok_new s64_range_def)

section \<open>Witnesses\<close>

abbreviation demo_limit :: resource_limit where
  "demo_limit \<equiv> CreateResourceLimitForProcess 0x1000"

text \<open>Releasing 5 of 10 with no hint passes the assertions of \<open>Release\<close> and leaves the hint above the current value.\<close>

theorem resource_limit_reachable_inv_witness:
  "\<exists>rl. rl_reach (rl, []) [(ThreadCountMax, 5, 0)] \<and> GetCurrentValue ThreadCountMax rl = 5 \<and>
     GetCurrentValue ThreadCountMax rl - GetHintValue ThreadCountMax rl = - 5"
proof -
  let ?rl = "assert_set ThreadCountMax 800 KResourceLimit_new"
  let ?rl2 = "rl_add ThreadCountMax 10 ?rl" and ?rl3 = "rl_sub ThreadCountMax 5 0 (rl_add ThreadCountMax 10 ?rl)"
  have a: "rl_reach (?rl, []) ([] @ [])"
    by (rule rl_next[OF rl_init rl_set[of ThreadCountMax 800]])
      (simp_all add: assert_set_def SetLimitValue_def KResourceLimit_new_def s64_range_def)
  have b: "Reserve_enter ThreadCountMax 10 0 0 ?rl = Ok (Reserved, ?rl2)" by code_simp
  have r: "rl_reach (?rl2, []) (([] @ []) @ [])" by (rule rl_next[OF a rl_reserve[OF b]]) simp_all
  have c: "Release_hint ThreadCountMax 5 0 ?rl2 = Ok (False, ?rl3)" by code_simp
  have "release_asserted ThreadCountMax 5 0 ?rl2" by code_simp
  from rl_next[OF r rl_release[OF c this]] have r3: "rl_reach (?rl3, []) [(ThreadCountMax, 5, 0)]" by simp
  have "GetCurrentValue ThreadCountMax ?rl3 = 5" by code_simp
  moreover have "GetCurrentValue ThreadCountMax ?rl3 - GetHintValue ThreadCountMax ?rl3 = - 5"
    using resource_limit_reachable_inv[OF r3, of ThreadCountMax] by simp
  ultimately show ?thesis using r3 by (intro exI[of _ ?rl3] conjI)
qed

theorem resource_limit_reserve_decision_witness:
  "\<exists>rl'. Reserve_enter EventCountMax 900 0 0 demo_limit = Ok (Reserved, rl') \<and> GetCurrentValue EventCountMax rl' = 900"
proof -
  have v: "GetCurrentValue EventCountMax demo_limit = 0" "GetHintValue EventCountMax demo_limit = 0"
    "GetLimitValue EventCountMax demo_limit = 900" by code_simp+
  have "rl_ok demo_limit" by (rule rl_ok_create) (simp add: s64_range_def)
  from resource_limit_reserve_decision[OF this, of 900 EventCountMax 0 0] show ?thesis using v by auto
qed

theorem resource_limit_conservation_witness:
  "\<exists>rl'. grant_all (try_reserve ThreadCountMax) [3, 798, 0, 5] demo_limit = (8, rl') \<and>
     GetCurrentValue ThreadCountMax rl' = 8 \<and>
     GetCurrentValue ThreadCountMax (do_release ThreadCountMax 8 rl') = 0"
proof -
  have g: "fst (grant_all (try_reserve ThreadCountMax) [3, 798, 0, 5] demo_limit) = 8"
    "GetCurrentValue ThreadCountMax demo_limit = 0" "GetHintValue ThreadCountMax demo_limit = 0" by code_simp+
  have "rl_ok demo_limit" by (rule rl_ok_create) (simp add: s64_range_def)
  then have i: "account_inv ThreadCountMax demo_limit" using g by (simp add: account_inv_def)
  obtain rl' where r: "grant_all (try_reserve ThreadCountMax) [3, 798, 0, 5] demo_limit = (8, rl')"
    using g(1) by (cases "grant_all (try_reserve ThreadCountMax) [3, 798, 0, 5] demo_limit") auto
  have "\<forall>v \<in> set [3, 798, 0, 5::int]. 0 \<le> v \<and> v < 2 ^ 63" by simp
  from resource_limit_conservation[OF i this r] show ?thesis using r g by auto
qed

end
