(* ===== verification/Tiny_MT.thy ===== *)
theory Tiny_MT
  imports Emu_Prelude
begin

text \<open>
  The random number generator of the kernel's page allocator: the TinyMT twister of
  \<^verbatim>\<open>src/src/common/tiny_mt.h\<close> (both seeded initialisations and the 24-, 32- and 64-bit outputs) and the
  buffered bit source \<open>KPageBitmap::RandomBitGenerator\<close> of \<^verbatim>\<open>k_page_bitmap.h\<close> on top of it. A shift of
  the 32-bit entropy by 32 is \<open>UB\<close>.
\<close>

section \<open>The twister\<close>

definition ParamMat1 :: u32 where "ParamMat1 = 0x8F7011EE"
definition ParamMat2 :: u32 where "ParamMat2 = 0xFC78FF1F"
definition ParamTmat :: u32 where "ParamTmat = 0x3793FDFF"
definition ParamMult :: u32 where "ParamMult = 0x6C078965"
definition ParamPlus :: u32 where "ParamPlus = 0x0019660D"
definition ParamXor :: u32 where "ParamXor = 0x5D588B65"
definition TopBitmask :: u32 where "TopBitmask = 0x7FFFFFFF"
definition MinimumInitIterations :: nat where "MinimumInitIterations = 8"
definition NumDiscardedInitOutputs :: nat where "NumDiscardedInitOutputs = 8"

definition XorByShifted27 :: "u32 \<Rightarrow> u32" where
  "XorByShifted27 v = v XOR drop_bit 27 v"

definition XorByShifted30 :: "u32 \<Rightarrow> u32" where
  "XorByShifted30 v = v XOR drop_bit 30 v"

record tiny_mt =
  mt0 :: u32
  mt1 :: u32
  mt2 :: u32
  mt3 :: u32

definition GenerateRandomU32 :: "tiny_mt \<Rightarrow> u32 \<times> tiny_mt" where
  "GenerateRandomU32 st =
     (let x0 = (mt0 st AND TopBitmask) XOR mt1 st XOR mt2 st;
          y0 = mt3 st;
          x1 = x0 XOR push_bit 1 x0;
          y1 = y0 XOR drop_bit 1 y0 XOR x1;
          state0 = mt1 st;
          odd_y = (y1 AND 1 \<noteq> 0);
          state1 = (if odd_y then mt2 st XOR ParamMat1 else mt2 st);
          state2 = (if odd_y then (x1 XOR push_bit 10 y1) XOR ParamMat2 else x1 XOR push_bit 10 y1);
          state3 = y1;
          t1 = state0 + drop_bit 8 state2;
          t0 = state3 XOR t1;
          out = (if t1 AND 1 \<noteq> 0 then t0 XOR ParamTmat else t0)
      in (out, \<lparr>mt0 = state0, mt1 = state1, mt2 = state2, mt3 = state3\<rparr>))"

definition mt_get :: "nat \<Rightarrow> tiny_mt \<Rightarrow> u32" where
  "mt_get i st = (if i = 0 then mt0 st else if i = 1 then mt1 st else if i = 2 then mt2 st else mt3 st)"

definition mt_set :: "nat \<Rightarrow> u32 \<Rightarrow> tiny_mt \<Rightarrow> tiny_mt" where
  "mt_set i v st = (if i = 0 then st\<lparr>mt0 := v\<rparr> else if i = 1 then st\<lparr>mt1 := v\<rparr>
     else if i = 2 then st\<lparr>mt2 := v\<rparr> else st\<lparr>mt3 := v\<rparr>)"

definition FinalizeInitialization :: "tiny_mt \<Rightarrow> tiny_mt" where
  "FinalizeInitialization st =
     (let st1 = (if mt0 st AND TopBitmask = 0 \<and> mt1 st = 0 \<and> mt2 st = 0 \<and> mt3 st = 0
                 then \<lparr>mt0 = 0x54, mt1 = 0x49, mt2 = 0x4E, mt3 = 0x59\<rparr> else st)
      in ((\<lambda>s. snd (GenerateRandomU32 s)) ^^ NumDiscardedInitOutputs) st1)"

definition TinyMT_Initialize :: "u32 \<Rightarrow> tiny_mt" where
  "TinyMT_Initialize seed =
     FinalizeInitialization
       (fold (\<lambda>i st. let mixed = XorByShifted30 (mt_get ((i - 1) mod 4) st)
                in mt_set (i mod 4) (mt_get (i mod 4) st XOR (mixed * ParamMult + of_nat i)) st)
         [1..<MinimumInitIterations] \<lparr>mt0 = seed, mt1 = ParamMat1, mt2 = ParamMat2, mt3 = ParamTmat\<rparr>)"

definition GenerateRandomU24 :: "tiny_mt \<Rightarrow> u32 \<times> tiny_mt" where
  "GenerateRandomU24 st = (let (r, st') = GenerateRandomU32 st in (drop_bit 8 r, st'))"

text \<open>The initialisation from a list of seeds.\<close>

definition GenerateInitialValuePlus :: "nat \<Rightarrow> u32 \<Rightarrow> tiny_mt \<Rightarrow> tiny_mt" where
  "GenerateInitialValuePlus index v st =
     (let i0 = index mod 4; i1 = (index + 1) mod 4; i2 = (index + 2) mod 4; i3 = (index + 3) mod 4;
          x = XorByShifted27 (mt_get i0 st XOR mt_get i1 st XOR mt_get i3 st) * ParamPlus;
          y = x + of_nat index + v
      in mt_set i2 (mt_get i2 st + y) (mt_set i1 (mt_get i1 st + x) (mt_set i0 y st)))"

definition GenerateInitialValueXor :: "nat \<Rightarrow> tiny_mt \<Rightarrow> tiny_mt" where
  "GenerateInitialValueXor index st =
     (let i0 = index mod 4; i1 = (index + 1) mod 4; i2 = (index + 2) mod 4; i3 = (index + 3) mod 4;
          x = XorByShifted27 (mt_get i0 st + mt_get i1 st + mt_get i3 st) * ParamXor;
          y = x - of_nat index
      in mt_set i2 (mt_get i2 st XOR y) (mt_set i1 (mt_get i1 st XOR x) (mt_set i0 y st)))"

definition TinyMT_Initialize_array :: "u32 list \<Rightarrow> tiny_mt" where
  "TinyMT_Initialize_array seed =
     (let seed_count = length seed;
          num_init_iterations = max (seed_count + 1) MinimumInitIterations - 1;
          st0 = GenerateInitialValuePlus 0 (of_nat seed_count) \<lparr>mt0 = 0, mt1 = ParamMat1, mt2 = ParamMat2, mt3 = ParamTmat\<rparr>;
          st1 = fold (\<lambda>i. GenerateInitialValuePlus ((i + 1) mod 4) (if i < seed_count then seed ! i else 0))
                  [0..<num_init_iterations] st0;
          st2 = fold (\<lambda>i. GenerateInitialValueXor ((i + 1 + num_init_iterations) mod 4)) [0..<4] st1
      in FinalizeInitialization st2)"

definition GenerateRandomU64 :: "tiny_mt \<Rightarrow> u64 \<times> tiny_mt" where
  "GenerateRandomU64 st =
     (let (lo, st1) = GenerateRandomU32 st; (hi, st2) = GenerateRandomU32 st1
      in (push_bit 32 (ucast hi) OR ucast lo, st2))"

section \<open>Random bits\<close>

record random_bits =
  m_rng :: tiny_mt
  m_entropy :: u32
  m_bits_available :: nat

definition RandomBitGenerator_new :: "u64 \<Rightarrow> random_bits" where
  "RandomBitGenerator_new seed =
     \<lparr>m_rng = TinyMT_Initialize (ucast seed), m_entropy = 0, m_bits_available = 0\<rparr>"

definition RefreshEntropy :: "random_bits \<Rightarrow> random_bits" where
  "RefreshEntropy g =
     (let (e, st) = GenerateRandomU32 (m_rng g) in \<lparr>m_rng = st, m_entropy = e, m_bits_available = 32\<rparr>)"

definition GenerateRandomBit :: "random_bits \<Rightarrow> bool \<times> random_bits" where
  "GenerateRandomBit g =
     (let g1 = (if m_bits_available g = 0 then RefreshEntropy g else g)
      in (m_entropy g1 AND 1 \<noteq> 0,
          g1\<lparr>m_entropy := drop_bit 1 (m_entropy g1), m_bits_available := m_bits_available g1 - 1\<rparr>))"

function GenerateRandomBits_loop :: "nat \<Rightarrow> u64 \<Rightarrow> random_bits \<Rightarrow> (u64 \<times> random_bits) res" where
  "GenerateRandomBits_loop num_bits result g =
     (if num_bits = 0 then Ok (result, g)
      else
        let g1 = (if m_bits_available g = 0 then RefreshEntropy g else g);
            cur_bits = min num_bits (m_bits_available g1);
            result' = push_bit cur_bits result OR (ucast (m_entropy g1) AND (push_bit cur_bits 1 - 1))
        in if cur_bits \<ge> 32 then UB
           else GenerateRandomBits_loop (num_bits - cur_bits) result'
                  (g1\<lparr>m_entropy := drop_bit cur_bits (m_entropy g1),
                      m_bits_available := m_bits_available g1 - cur_bits\<rparr>))"
  by pat_completeness auto
termination
  by (relation "measure (\<lambda>(n, r, g). n)") (auto simp: RefreshEntropy_def Let_def split: prod.splits)

declare GenerateRandomBits_loop.simps [simp del]

definition GenerateRandomBits :: "nat \<Rightarrow> random_bits \<Rightarrow> (u64 \<times> random_bits) res" where
  "GenerateRandomBits num_bits g = GenerateRandomBits_loop num_bits 0 g"

text \<open>The number of significant bits, \<open>BitSize - countl_zero\<close>.\<close>

definition bit_width :: "u64 \<Rightarrow> nat" where
  "bit_width x = length (takeWhile (\<lambda>i. 2 ^ i \<le> unat x) [0..<64])"

definition GenerateRandom :: "u64 \<Rightarrow> random_bits \<Rightarrow> (u64 \<times> random_bits) res" where
  "GenerateRandom max' g =
     bind_res (GenerateRandomBits (1 + bit_width max') g) (\<lambda>(rnd, g').
       if max' = 0 then UB else Ok (rnd - (rnd div max') * max', g'))"

function SelectRandomBit_loop :: "nat \<Rightarrow> u64 \<Rightarrow> nat \<Rightarrow> random_bits \<Rightarrow> nat \<times> random_bits" where
  "SelectRandomBit_loop cur_num_bits bitmap selected g =
     (if cur_num_bits = 0 then (selected, g)
      else
        let high = drop_bit cur_num_bits bitmap;
            low = bitmap AND NOT (push_bit cur_num_bits (- 1));
            (choose_high, g') =
              (if high \<noteq> 0 then if low = 0 then (True, g) else GenerateRandomBit g else (False, g))
        in if choose_high
           then SelectRandomBit_loop (cur_num_bits div 2) high (selected + cur_num_bits) g'
           else SelectRandomBit_loop (cur_num_bits div 2) low selected g')"
  by pat_completeness auto
termination by (relation "measure (\<lambda>(n, b, s, g). n)") auto

declare SelectRandomBit_loop.simps [simp del]

definition SelectRandomBit :: "u64 \<Rightarrow> random_bits \<Rightarrow> nat \<times> random_bits" where
  "SelectRandomBit bitmap g = SelectRandomBit_loop 32 bitmap 0 g"

section \<open>The selected bit is set\<close>

lemma low_take_bit: "b AND NOT (push_bit n (- 1)) = take_bit n (b :: u64)"
  by (rule bit_word_eqI) (auto simp: bit_simps)

lemma nonzero_halves: "b \<noteq> 0 \<Longrightarrow> drop_bit n b = 0 \<Longrightarrow> take_bit n (b :: u64) \<noteq> 0"
  by (metis bits_ident add_cancel_left_left push_bit_of_0)

lemma SelectRandomBit_step:
  assumes "n \<noteq> 0" and c: "(if drop_bit n b \<noteq> 0 then if take_bit n b = 0 then (True, g) else GenerateRandomBit g
      else (False, g)) = (c, g')"
  shows "SelectRandomBit_loop n b s g = (if c then SelectRandomBit_loop (n div 2) (drop_bit n b) (s + n) g'
      else SelectRandomBit_loop (n div 2) (take_bit n b) s g')"
  by (subst SelectRandomBit_loop.simps) (simp only: assms(1) if_False Let_def low_take_bit c prod.case)

lemma SelectRandomBit_loop_set:
  "b \<noteq> 0 \<Longrightarrow> unat b < 2 ^ (2 ^ k) \<Longrightarrow>
    \<exists>i. fst (SelectRandomBit_loop (2 ^ k div 2) b s g) = s + i \<and> bit b i"
proof (induction k arbitrary: b s g)
  case 0
  then have "b = 1" by (simp add: word_unat_eq_iff)
  then show ?case by (subst SelectRandomBit_loop.simps) (auto intro!: exI[of _ 0])
next
  case (Suc k)
  let ?n = "2 ^ k :: nat"
  let ?high = "drop_bit ?n b" and ?low = "take_bit ?n b"
  obtain c g' where c: "(if ?high \<noteq> 0 then if ?low = 0 then (True, g) else GenerateRandomBit g else (False, g)) = (c, g')"
    by fastforce
  have step: "SelectRandomBit_loop (2 ^ Suc k div 2) b s g =
      (if c then SelectRandomBit_loop (2 ^ k div 2) ?high (s + ?n) g' else SelectRandomBit_loop (2 ^ k div 2) ?low s g')"
    using SelectRandomBit_step[OF _ c, of s] by simp
  show ?case
  proof (cases c)
    case True
    then have h: "?high \<noteq> 0" using c by (auto split: if_splits)
    have "unat ?high < 2 ^ (2 ^ k)"
    proof -
      have "unat ?high = unat b div 2 ^ ?n"
        using unsigned_less[of b, where 'a = nat]
        by (simp only: unsigned_drop_bit_eq) (simp add: drop_bit_eq_div take_bit_nat_eq_self)
      also have "\<dots> < 2 ^ ?n" using Suc.prems(2) by (simp add: less_mult_imp_div_less flip: power_add mult_2)
      finally show ?thesis .
    qed
    from Suc.IH[OF h this, of "s + ?n" g'] obtain i where
      "fst (SelectRandomBit_loop (2 ^ k div 2) ?high (s + ?n) g') = s + ?n + i" "bit ?high i" by blast
    then show ?thesis using step True by (intro exI[of _ "?n + i"]) (simp add: bit_drop_bit_eq)
  next
    case False
    then have l: "?low \<noteq> 0" using c Suc.prems(1) nonzero_halves[of b ?n] by (auto split: if_splits)
    have "unat ?low < 2 ^ ?n" by (simp add: unsigned_take_bit_eq take_bit_nat_less_exp)
    from Suc.IH[OF l this, of s g'] obtain i where
      "fst (SelectRandomBit_loop (2 ^ k div 2) ?low s g') = s + i" "bit ?low i" by blast
    then show ?thesis using step False by (intro exI[of _ i]) (simp add: bit_take_bit_iff)
  qed
qed

lemma SelectRandomBit_set: "v \<noteq> 0 \<Longrightarrow> bit v (fst (SelectRandomBit v g))"
proof -
  assume "v \<noteq> 0"
  moreover have "unat v < 2 ^ (2 ^ 6)" using unsigned_less[of v, where 'a = nat] by simp
  ultimately show ?thesis
    using SelectRandomBit_loop_set[of v 6 0 g] by (auto simp: SelectRandomBit_def)
qed

section \<open>The state never degenerates\<close>

definition live :: "tiny_mt \<Rightarrow> bool" where
  "live st \<longleftrightarrow> \<not> (mt0 st AND TopBitmask = 0 \<and> mt1 st = 0 \<and> mt2 st = 0 \<and> mt3 st = 0)"

lemma xor_zero_eq: "a XOR b = 0 \<Longrightarrow> a = (b :: u32)"
proof (rule bit_word_eqI)
  fix n assume "a XOR b = 0"
  from arg_cong[OF this, of "\<lambda>w. bit w n"] show "bit a n = bit b n" by (simp add: bit_xor_iff)
qed

lemma xor_shift_left_zero: "x XOR push_bit 1 x = 0 \<Longrightarrow> x = (0 :: u32)"
proof (rule bit_word_eqI)
  fix n assume x: "x XOR push_bit 1 x = 0"
  have e: "bit x m = bit (push_bit 1 x) m" for m using arg_cong[OF x, of "\<lambda>w. bit w m"] by (simp only: bit_xor_iff) auto
  have "\<not> bit x m" for m
  proof (induction m)
    case 0
    then show ?case unfolding e[of 0] bit_push_bit_iff by simp
  next
    case (Suc m)
    then show ?case unfolding e[of "Suc m"] bit_push_bit_iff by simp
  qed
  then show "bit x n = bit 0 n" by simp
qed

lemma xor_shift_right_zero: "x XOR drop_bit 1 x = 0 \<Longrightarrow> x = (0 :: u32)"
proof -
  assume x: "x XOR drop_bit 1 x = 0"
  have "bit x m = bit (drop_bit 1 x) m" for m using arg_cong[OF x, of "\<lambda>w. bit w m"] by (simp add: bit_xor_iff)
  then have step: "bit x m \<longleftrightarrow> bit x (Suc m)" for m by (simp add: bit_drop_bit_eq)
  have "bit x m \<longleftrightarrow> bit x (m + k)" for m k by (induction k) (use step in auto)
  from this[of _ 32] have "\<not> bit x m" for m using bit_imp_le_length[of x "m + 32"] by auto
  then show ?thesis by (intro bit_word_eqI) simp
qed

lemma GenerateRandomU32_live:
  assumes "live st"
  shows "live (snd (GenerateRandomU32 st))"
proof (rule ccontr)
  assume dead: "\<not> ?thesis"
  define x0 where "x0 = (mt0 st AND TopBitmask) XOR mt1 st XOR mt2 st"
  define x1 where "x1 = x0 XOR push_bit 1 x0"
  define y1 where "y1 = mt3 st XOR drop_bit 1 (mt3 st) XOR x1"
  have st: "snd (GenerateRandomU32 st) = \<lparr>mt0 = mt1 st, mt1 = (if y1 AND 1 \<noteq> 0 then mt2 st XOR ParamMat1 else mt2 st),
      mt2 = (if y1 AND 1 \<noteq> 0 then (x1 XOR push_bit 10 y1) XOR ParamMat2 else x1 XOR push_bit 10 y1), mt3 = y1\<rparr>"
    unfolding GenerateRandomU32_def Let_def y1_def x1_def x0_def by (simp only: snd_conv)
  have "y1 = 0" using dead unfolding st live_def by simp
  then have z: "mt1 st AND TopBitmask = 0" "mt2 st = 0" "x1 = 0" using dead unfolding st live_def by simp_all
  have "x0 = 0" using xor_shift_left_zero[of x0] z(3) by (simp only: x1_def)
  then have x: "mt0 st AND TopBitmask = mt1 st" using z(2) xor_zero_eq[of "mt0 st AND TopBitmask" "mt1 st"] by (simp add: x0_def)
  have "mt3 st = 0" using xor_shift_right_zero[of "mt3 st"] \<open>y1 = 0\<close> z(3) by (simp only: y1_def xor.right_neutral)
  moreover have "mt1 st AND TopBitmask = mt1 st" unfolding x[symmetric] by (simp add: and.assoc)
  ultimately show False using assms x z(1,2) by (simp add: live_def)
qed

lemma iterate_live: "live st \<Longrightarrow> live (((\<lambda>s. snd (GenerateRandomU32 s)) ^^ n) st)"
  by (induction n) (simp_all add: GenerateRandomU32_live)

lemma FinalizeInitialization_live: "live (FinalizeInitialization st)"
  unfolding FinalizeInitialization_def Let_def
  by (rule iterate_live) (auto simp: live_def TopBitmask_def)

text \<open>
  Claim C40. The random number generator never falls into the all-zero state, in which a twister would
  return the same value for ever: after either initialisation, whatever the seed, some bit of the 127
  state bits is set, and generating a number keeps it so (the top bit of the first word is not part
  of the state).
\<close>
theorem tiny_mt_never_degenerates:
  "live (TinyMT_Initialize seed) \<and> live (TinyMT_Initialize_array seeds) \<and>
   (live st \<longrightarrow> live (snd (GenerateRandomU32 st)) \<and> live (snd (GenerateRandomU64 st)))"
  by (auto simp: TinyMT_Initialize_def TinyMT_Initialize_array_def Let_def FinalizeInitialization_live
      GenerateRandomU32_live GenerateRandomU64_def split: prod.split)
    (metis GenerateRandomU32_live snd_conv)

theorem tiny_mt_never_degenerates_witness:
  "live (snd (GenerateRandomU32 \<lparr>mt0 = 1, mt1 = 0, mt2 = 0, mt3 = 0\<rparr>))"
proof -
  have "live \<lparr>mt0 = 1, mt1 = 0, mt2 = 0, mt3 = 0\<rparr>" by (simp add: live_def TopBitmask_def)
  then show ?thesis using tiny_mt_never_degenerates by blast
qed

end
