(* ===== verification/Page_Bitmap.thy ===== *)
theory Page_Bitmap
  imports Tiny_MT
begin

text \<open>
  The page bitmap of the kernel's page allocator, \<^verbatim>\<open>src/src/core/hle/kernel/k_page_bitmap.h\<close>: a tree of
  64-bit words in which a bit of one level says whether the word below it is nonzero, so that a free
  block is found in one step per level. The storages of the levels are lists of words, the level of
  depth 0 first; an access outside the words of its level (which lie in one block of memory in the code, so that such
  an access reaches the words of another level or leaves the block) and a shift by 64 are \<open>UB\<close>. The abstract value is the
  set of free blocks, the bits of the lowest level.
\<close>

section \<open>The bitmap\<close>

record page_bitmap =
  m_bit_storages :: "u64 list list"
  bitmap_rng :: random_bits
  m_num_bits :: u64
  m_used_depths :: nat

definition BitSize :: nat where "BitSize = 64"

definition MaxDepth :: nat where "MaxDepth = 4"

function GetRequiredDepth :: "nat \<Rightarrow> nat" where
  "GetRequiredDepth region_size =
     (let r = region_size div BitSize in if r = 0 then 1 else 1 + GetRequiredDepth r)"
  by pat_completeness auto
termination by (relation "measure id") (auto simp: BitSize_def)

declare GetRequiredDepth.simps [simp del]

definition words_for :: "nat \<Rightarrow> nat" where
  "words_for sz = (sz + 63) div BitSize"

fun overhead_loop :: "nat \<Rightarrow> nat \<Rightarrow> nat" where
  "overhead_loop 0 region_size = 0"
| "overhead_loop (Suc depth) region_size = words_for region_size + overhead_loop depth (words_for region_size)"

definition CalculateManagementOverheadSize :: "nat \<Rightarrow> nat" where
  "CalculateManagementOverheadSize region_size = overhead_loop (GetRequiredDepth region_size) region_size * 8"

fun Initialize_loop :: "nat \<Rightarrow> u64 list \<Rightarrow> nat \<Rightarrow> u64 list list \<Rightarrow> u64 list list \<times> u64 list" where
  "Initialize_loop 0 storage sz levels = (levels, storage)"
| "Initialize_loop (Suc depth) storage sz levels =
     (let n = words_for sz in Initialize_loop depth (drop n storage) n (take n storage # levels))"

definition KPageBitmap_Initialize :: "u64 list \<Rightarrow> nat \<Rightarrow> random_bits \<Rightarrow> (page_bitmap \<times> u64 list) res" where
  "KPageBitmap_Initialize storage sz g =
     (let depths = GetRequiredDepth sz; (levels, rest) = Initialize_loop depths storage sz []
      in if depths > MaxDepth then UB
         else Ok (\<lparr>m_bit_storages = levels, bitmap_rng = g, m_num_bits = 0, m_used_depths = depths\<rparr>, rest))"

definition GetNumBits :: "page_bitmap \<Rightarrow> u64" where
  "GetNumBits bm = m_num_bits bm"

definition countr_zero :: "u64 \<Rightarrow> nat" where
  "countr_zero v = length (takeWhile (\<lambda>i. \<not> bit v i) [0..<64])"

text \<open>The descent, with the choice of a set bit of each word as an argument.\<close>

fun FindFreeBlock_loop ::
  "(u64 \<Rightarrow> random_bits \<Rightarrow> nat \<times> random_bits) \<Rightarrow> nat \<Rightarrow> nat \<Rightarrow> nat \<Rightarrow> u64 list list \<Rightarrow> random_bits \<Rightarrow>
    (int \<times> random_bits) res" where
  "FindFreeBlock_loop select 0 depth offset levels g = Ok (int offset, g)"
| "FindFreeBlock_loop select (Suc n) depth offset levels g =
     (if depth \<ge> length levels \<or> offset \<ge> length (levels ! depth) then UB
      else
        let v = levels ! depth ! offset in
        if v = 0 then Ok (- 1, g)
        else let (b, g') = select v g
             in FindFreeBlock_loop select n (Suc depth) (offset * BitSize + b) levels g')"

definition FindFreeBlock :: "bool \<Rightarrow> page_bitmap \<Rightarrow> (int \<times> page_bitmap) res" where
  "FindFreeBlock random bm =
     (let n = max 1 (m_used_depths bm);
          select = (if random then SelectRandomBit else (\<lambda>v g. (countr_zero v, g)))
      in bind_res (FindFreeBlock_loop select n 0 0 (m_bit_storages bm) (bitmap_rng bm))
           (\<lambda>(r, g). Ok (r, bm\<lparr>bitmap_rng := g\<rparr>)))"

fun range_options ::
  "nat \<Rightarrow> nat \<Rightarrow> nat \<Rightarrow> nat \<Rightarrow> u64 \<Rightarrow> nat \<times> int \<times> random_bits \<Rightarrow> (nat \<times> int \<times> random_bits) res" where
  "range_options count storage_index 0 option storage acc = Ok acc"
| "range_options count storage_index (Suc n) option storage acc =
     (let free_mask = push_bit count 1 - 1;
          (num_valid_options, chosen_offset, g) = acc;
          here = int (storage_index * BitSize + option * count);
          acc' = (if storage AND free_mask = free_mask then
                    if num_valid_options = 0 then Ok (1, here, g)
                    else bind_res (GenerateRandom (of_nat (num_valid_options + 1)) g) (\<lambda>(r, g').
                           Ok (num_valid_options + 1, if r = 0 then here else chosen_offset, g'))
                  else Ok acc)
      in bind_res acc' (range_options count storage_index n (option + 1) (drop_bit count storage)))"

fun range_storages ::
  "nat \<Rightarrow> nat \<Rightarrow> nat \<Rightarrow> u64 list \<Rightarrow> nat \<times> int \<times> random_bits \<Rightarrow> (nat \<times> int \<times> random_bits) res" where
  "range_storages count options storage_index [] acc = Ok acc"
| "range_storages count options storage_index (w # ws) acc =
     bind_res (range_options count storage_index options 0 w acc)
       (range_storages count options (storage_index + 1) ws)"

definition FindFreeRange :: "nat \<Rightarrow> page_bitmap \<Rightarrow> (int \<times> page_bitmap) res" where
  "FindFreeRange count bm =
     (if m_used_depths bm = 0 \<or> m_used_depths bm > length (m_bit_storages bm) then UB
      else
        let storages = m_bit_storages bm ! (m_used_depths bm - 1) in
        if \<not> (storages \<noteq> [] \<and> count \<le> BitSize) then Ok (- 1, bm)
        else if count = 0 \<or> count \<ge> BitSize then UB
        else bind_res (range_storages count (max (BitSize div count) 1) 0 storages (0, - 1, bitmap_rng bm))
               (\<lambda>(n, chosen_offset, g). Ok (chosen_offset, bm\<lparr>bitmap_rng := g\<rparr>)))"

text \<open>The loops that carry a change of a word to the levels above; the argument counts the levels
  left, so that depth is one less.\<close>

fun SetBit_loop :: "nat \<Rightarrow> nat \<Rightarrow> u64 list list \<Rightarrow> u64 list list res" where
  "SetBit_loop 0 offset levels = Ok levels"
| "SetBit_loop (Suc depth) offset levels =
     (let ind = offset div BitSize; which = offset mod BitSize in
      if depth \<ge> length levels \<or> ind \<ge> length (levels ! depth) then UB
      else
        let v = levels ! depth ! ind;
            levels' = levels[depth := (levels ! depth)[ind := v OR push_bit which 1]]
        in if v \<noteq> 0 then Ok levels' else SetBit_loop depth ind levels')"

fun ClearBit_loop :: "nat \<Rightarrow> nat \<Rightarrow> u64 list list \<Rightarrow> u64 list list res" where
  "ClearBit_loop 0 offset levels = Ok levels"
| "ClearBit_loop (Suc depth) offset levels =
     (let ind = offset div BitSize; which = offset mod BitSize in
      if depth \<ge> length levels \<or> ind \<ge> length (levels ! depth) then UB
      else
        let v = levels ! depth ! ind AND NOT (push_bit which 1);
            levels' = levels[depth := (levels ! depth)[ind := v]]
        in if v \<noteq> 0 then Ok levels' else ClearBit_loop depth ind levels')"

definition SetBit :: "nat \<Rightarrow> page_bitmap \<Rightarrow> page_bitmap res" where
  "SetBit offset bm =
     bind_res (SetBit_loop (m_used_depths bm) offset (m_bit_storages bm))
       (\<lambda>levels. Ok (bm\<lparr>m_bit_storages := levels, m_num_bits := m_num_bits bm + 1\<rparr>))"

definition ClearBit :: "nat \<Rightarrow> page_bitmap \<Rightarrow> page_bitmap res" where
  "ClearBit offset bm =
     bind_res (ClearBit_loop (m_used_depths bm) offset (m_bit_storages bm))
       (\<lambda>levels. Ok (bm\<lparr>m_bit_storages := levels, m_num_bits := m_num_bits bm - 1\<rparr>))"

text \<open>The two loops of \<open>ClearRange\<close> over whole words. When the count is not a multiple of 64 the
  remaining count wraps below zero and never becomes zero, so that the first loop ends only at a word
  that is not full, or runs out of the storage: one round more than the storage has words shows which.\<close>

fun all_ones :: "nat \<Rightarrow> nat \<Rightarrow> u64 list \<Rightarrow> bool res" where
  "all_ones 0 i bits = Ok True"
| "all_ones (Suc n) i bits =
     (if i \<ge> length bits then UB
      else if bits ! i \<noteq> - 1 then Ok False else all_ones n (i + 1) bits)"

fun clear_words :: "nat \<Rightarrow> nat \<Rightarrow> nat \<Rightarrow> u64 list list \<Rightarrow> u64 list list res" where
  "clear_words depth 0 i levels = Ok levels"
| "clear_words depth (Suc n) i levels =
     bind_res (ClearBit_loop depth i (levels[depth := (levels ! depth)[i := 0]])) (clear_words depth n (i + 1))"

definition ClearRange :: "nat \<Rightarrow> nat \<Rightarrow> page_bitmap \<Rightarrow> (bool \<times> page_bitmap) res" where
  "ClearRange offset count bm =
     (if m_used_depths bm = 0 \<or> m_used_depths bm > length (m_bit_storages bm) then UB
      else
        let depth = m_used_depths bm - 1;
            bits = m_bit_storages bm ! depth;
            bit_ind = offset div BitSize
        in if count < BitSize then
             if bit_ind \<ge> length bits then UB
             else
               let shift = offset mod BitSize;
                   m = push_bit shift (push_bit count 1 - 1);
                   v = bits ! bit_ind
               in if v AND m \<noteq> m then Ok (False, bm)
                  else
                    let v' = v AND NOT m;
                        levels = (m_bit_storages bm)[depth := bits[bit_ind := v']]
                    in bind_res (if v' = 0 then ClearBit_loop depth bit_ind levels else Ok levels)
                         (\<lambda>levels'. Ok (True, bm\<lparr>m_bit_storages := levels',
                                               m_num_bits := m_num_bits bm - of_nat count\<rparr>))
           else
             bind_res (all_ones (if count mod BitSize = 0 then count div BitSize else Suc (length bits)) bit_ind bits) (\<lambda>ok.
               if \<not> ok then Ok (False, bm)
               else bind_res (clear_words depth (count div BitSize) bit_ind (m_bit_storages bm))
                      (\<lambda>levels'. Ok (True, bm\<lparr>m_bit_storages := levels',
                                            m_num_bits := m_num_bits bm - of_nat count\<rparr>))))"

section \<open>The invariant of the levels\<close>

definition lbit :: "u64 list list \<Rightarrow> nat \<Rightarrow> nat \<Rightarrow> bool" where
  "lbit L d i = bit (L ! d ! (i div 64)) (i mod 64)"

text \<open>A bit says whether the word below is nonzero, except at the given places.\<close>

definition linked :: "u64 list list \<Rightarrow> (nat \<times> nat) set \<Rightarrow> bool" where
  "linked L X \<longleftrightarrow> (\<forall>d i. Suc d < length L \<longrightarrow> i < 64 * length (L ! d) \<longrightarrow> (d, i) \<notin> X \<longrightarrow>
     (lbit L d i \<longleftrightarrow> i < length (L ! Suc d) \<and> L ! Suc d ! i \<noteq> 0))"

definition shape :: "u64 list list \<Rightarrow> bool" where
  "shape L \<longleftrightarrow> L \<noteq> [] \<and> length (L ! 0) = 1 \<and>
     (\<forall>d. Suc d < length L \<longrightarrow> length (L ! Suc d) \<le> 64 * length (L ! d))"

definition same_lengths :: "u64 list list \<Rightarrow> u64 list list \<Rightarrow> bool" where
  "same_lengths L L' \<longleftrightarrow> map length L' = map length L"

lemma same_lengths_nth: "same_lengths L L' \<Longrightarrow> length L' = length L \<and> (\<forall>d < length L. length (L' ! d) = length (L ! d))"
  unfolding same_lengths_def by (metis length_map nth_map)

lemma same_lengths_refl [simp]: "same_lengths L L"
  by (simp add: same_lengths_def)

lemma same_lengths_trans: "same_lengths A B \<Longrightarrow> same_lengths B C \<Longrightarrow> same_lengths A C"
  by (simp add: same_lengths_def)

lemma same_lengths_update [simp]: "same_lengths L (L[k := (L ! k)[i := w]])"
  by (cases "k < length L") (auto simp: same_lengths_def map_update list_update_same_conv list_update_beyond)

lemma shape_same: "same_lengths L L' \<Longrightarrow> shape L \<Longrightarrow> shape L'"
  using same_lengths_nth[of L L'] by (auto simp: shape_def)

lemma BitSize64 [simp]: "BitSize = 64"
  by (simp add: BitSize_def)

lemma off_split: "off < 64 * n \<Longrightarrow> off div 64 < n" "i div 64 = off div 64 \<Longrightarrow> i mod 64 = off mod 64 \<Longrightarrow> i = (off::nat)"
  by (auto simp: less_mult_imp_div_less mult.commute) (metis div_mult_mod_eq)

text \<open>One word of one level is replaced by a word that differs in one bit.\<close>

lemma level_update:
  fixes L :: "u64 list list" and k off :: nat
  assumes L: "shape L" "k < length L" "off < 64 * length (L ! k)"
    and w: "\<And>j. j < 64 \<Longrightarrow> bit w j = (if j = off mod 64 then b else bit (L ! k ! (off div 64)) j)"
    and link: "linked L (insert (k, off) X)"
  defines "L1 \<equiv> L[k := (L ! k)[off div 64 := w]]"
  shows "\<And>d i. d < length L \<Longrightarrow> i < 64 * length (L ! d) \<Longrightarrow> lbit L1 d i = (if d = k \<and> i = off then b else lbit L d i)"
    and "linked L1 (insert (k, off) (insert (k - 1, off div 64) X))"
    and "k = 0 \<or> (w = 0 \<longleftrightarrow> L ! k ! (off div 64) = 0) \<Longrightarrow> linked L1 (insert (k, off) X)"
proof -
  let ?ind = "off div 64"
  have ind: "?ind < length (L ! k)" using L(3) by (rule off_split)
  have len: "length L1 = length L" "\<And>d. length (L1 ! d) = length (L ! d)"
  proof -
    show "length L1 = length L" by (simp add: L1_def)
    show "length (L1 ! d) = length (L ! d)" for d using L(2) by (cases "d = k") (simp_all add: L1_def)
  qed
  show B: "lbit L1 d i = (if d = k \<and> i = off then b else lbit L d i)"
    if "d < length L" "i < 64 * length (L ! d)" for d i
  proof (cases "d = k \<and> i div 64 = ?ind")
    case True
    then have "L1 ! d ! (i div 64) = w" using L(2) ind by (simp add: L1_def)
    then show ?thesis using True w[of "i mod 64"] off_split(2)[of i off] by (auto simp: lbit_def)
  next
    case False
    then show ?thesis using L(2) by (auto simp: lbit_def L1_def nth_list_update)
  qed
  have W: "L1 ! d ! i = (if d = k \<and> i = ?ind then w else L ! d ! i)" if "d < length L" "i < length (L ! d)" for d i
    using that L(2) by (auto simp: L1_def nth_list_update)
  have keep: "lbit L1 d i \<longleftrightarrow> i < length (L1 ! Suc d) \<and> L1 ! Suc d ! i \<noteq> 0"
    if d: "Suc d < length L" "i < 64 * length (L ! d)" "(d, i) \<notin> insert (k, off) X"
      and ok: "Suc d = k \<and> i = ?ind \<longrightarrow> (w = 0 \<longleftrightarrow> L ! k ! ?ind = 0)" for d i
  proof -
    have "lbit L d i \<longleftrightarrow> i < length (L ! Suc d) \<and> L ! Suc d ! i \<noteq> 0"
      using link d by (auto simp: linked_def)
    then show ?thesis using B[of d i] W[of "Suc d" i] d ok len by (cases "Suc d = k \<and> i = ?ind") auto
  qed
  show "linked L1 (insert (k, off) (insert (k - 1, ?ind) X))"
    unfolding linked_def
  proof (intro allI impI)
    fix d i assume d: "Suc d < length L1" "i < 64 * length (L1 ! d)" "(d, i) \<notin> insert (k, off) (insert (k - 1, ?ind) X)"
    show "lbit L1 d i \<longleftrightarrow> i < length (L1 ! Suc d) \<and> L1 ! Suc d ! i \<noteq> 0"
      by (rule keep) (use d len in auto)
  qed
  show "linked L1 (insert (k, off) X)" if "k = 0 \<or> (w = 0 \<longleftrightarrow> L ! k ! ?ind = 0)"
    unfolding linked_def
  proof (intro allI impI)
    fix d i assume d: "Suc d < length L1" "i < 64 * length (L1 ! d)" "(d, i) \<notin> insert (k, off) X"
    show "lbit L1 d i \<longleftrightarrow> i < length (L1 ! Suc d) \<and> L1 ! Suc d ! i \<noteq> 0"
      by (rule keep) (use d len that in auto)
  qed
qed

lemma bit_or_single: "j < 64 \<Longrightarrow> bit (v OR push_bit n 1 :: u64) j = (if j = n then True else bit v j)"
  by (auto simp: bit_simps)

lemma bit_and_not_single: "j < 64 \<Longrightarrow> bit (v AND NOT (push_bit n 1) :: u64) j = (if j = n then False else bit v j)"
  by (auto simp: bit_simps)

text \<open>What both loops do to the levels, with \<open>b\<close> the new value of the bit.\<close>

definition bit_changed :: "bool \<Rightarrow> nat \<Rightarrow> nat \<Rightarrow> (nat \<times> nat) set \<Rightarrow> u64 list list \<Rightarrow> u64 list list \<Rightarrow> bool" where
  "bit_changed b k off X L L' \<longleftrightarrow> same_lengths L L' \<and> linked L' (insert (k, off) X) \<and>
     (\<forall>d i. k \<le> d \<longrightarrow> d < length L \<longrightarrow> i < 64 * length (L ! d) \<longrightarrow>
        lbit L' d i = (if d = k \<and> i = off then b else lbit L d i)) \<and> (\<forall>d > k. L' ! d = L ! d)"

lemma bit_changed_step:
  assumes "bit_changed b k ind (insert (Suc k, off) X) L1 L'" "same_lengths L L1" "Suc k < length L"
    "off < 64 * length (L ! Suc k)" "ind = off div 64" "L1 ! Suc k ! ind \<noteq> 0 \<longleftrightarrow> b"
    "\<forall>(d, i) \<in> X. Suc k < d"
    "\<And>i. i < 64 * length (L ! Suc k) \<Longrightarrow> lbit L1 (Suc k) i = (if i = off then b else lbit L (Suc k) i)"
    "\<And>d. Suc k < d \<Longrightarrow> L1 ! d = L ! d" "ind < 64 * length (L ! k)"
  shows "bit_changed b (Suc k) off X L L'"
proof -
  note c = assms(1)[unfolded bit_changed_def]
  note l1 = same_lengths_nth[OF assms(2)] and l2 = same_lengths_nth[OF conjunct1[OF c]]
  have up: "L' ! d = L1 ! d" if "k < d" for d using c that by blast
  have ind: "ind < length (L ! Suc k)" using assms(4,5) off_split(1) by simp
  have "linked L' (insert (Suc k, off) X)"
    unfolding linked_def
  proof (intro allI impI)
    fix d i assume d: "Suc d < length L'" "i < 64 * length (L' ! d)" "(d, i) \<notin> insert (Suc k, off) X"
    show "lbit L' d i \<longleftrightarrow> i < length (L' ! Suc d) \<and> L' ! Suc d ! i \<noteq> 0"
    proof (cases "d = k \<and> i = ind")
      case True
      have "lbit L' k ind = b" using c l1 assms(3,10) by auto
      then show ?thesis using True up[of "Suc k"] assms(6) ind l1 assms(3) by auto
    next
      case False
      then show ?thesis using c d unfolding linked_def by blast
    qed
  qed
  moreover have "lbit L' d i = (if d = Suc k \<and> i = off then b else lbit L d i)"
    if "Suc k \<le> d" "d < length L" "i < 64 * length (L ! d)" for d i
  proof (cases "d = Suc k")
    case True
    then show ?thesis using up[of "Suc k"] assms(8)[of i] that by (simp add: lbit_def)
  next
    case False
    then show ?thesis using up[of d] assms(9)[of d] that by (simp add: lbit_def)
  qed
  ultimately show ?thesis
    using same_lengths_trans[OF assms(2) conjunct1[OF c]] up assms(9) by (auto simp: bit_changed_def)
qed

lemma SetBit_loop_ok:
  "shape L \<Longrightarrow> k < length L \<Longrightarrow> off < 64 * length (L ! k) \<Longrightarrow> linked L (insert (k, off) X) \<Longrightarrow>
    \<forall>(d, i) \<in> X. k < d \<Longrightarrow> \<exists>L'. SetBit_loop (Suc k) off L = Ok L' \<and> bit_changed True k off X L L'"
proof (induction k arbitrary: L off X)
  case (0 L off X)
  let ?w = "L ! 0 ! (off div 64) OR push_bit (off mod 64) 1" and ?ind = "off div 64"
  have w: "bit ?w j = (if j = off mod 64 then True else bit (L ! 0 ! ?ind) j)" if "j < 64" for j
    using that by (rule bit_or_single)
  note u = level_update[OF 0(1,2,3) w 0(4)]
  have "SetBit_loop (Suc 0) off L = Ok (L[0 := (L ! 0)[?ind := ?w]])"
    using 0 off_split(1)[OF 0(3)] by (simp add: Let_def)
  moreover have "bit_changed True 0 off X L (L[0 := (L ! 0)[?ind := ?w]])"
    using u(1) u(3) by (auto simp: bit_changed_def)
  ultimately show ?case by blast
next
  case (Suc k L off X)
  let ?w = "L ! Suc k ! (off div 64) OR push_bit (off mod 64) 1" and ?ind = "off div 64"
  let ?L1 = "L[Suc k := (L ! Suc k)[?ind := ?w]]"
  have w: "bit ?w j = (if j = off mod 64 then True else bit (L ! Suc k ! ?ind) j)" if "j < 64" for j
    using that by (rule bit_or_single)
  note u = level_update[OF Suc.prems(1,2,3) w Suc.prems(4)]
  have ind: "?ind < length (L ! Suc k)" using Suc.prems(3) by (rule off_split)
  have w0: "?w \<noteq> 0" using w[of "off mod 64"] by (metis bit_0_eq bot_apply bot_bool_def mod_less_divisor zero_less_numeral)
  show ?case
  proof (cases "L ! Suc k ! ?ind = 0")
    case False
    then have "SetBit_loop (Suc (Suc k)) off L = Ok ?L1" using Suc.prems ind by (simp add: Let_def)
    moreover have "bit_changed True (Suc k) off X L ?L1"
      using u(1) u(3) w0 False by (auto simp: bit_changed_def)
    ultimately show ?thesis by blast
  next
    case True
    have k: "k < length ?L1" "shape ?L1" using Suc.prems shape_same[OF same_lengths_update] by auto
    have pk: "?ind < 64 * length (L ! k)" using ind Suc.prems(1,2) by (fastforce simp: shape_def)
    have "linked ?L1 (insert (k, ?ind) (insert (Suc k, off) X))"
      using u(2) by (simp add: insert_commute)
    moreover have "\<forall>(d, i) \<in> insert (Suc k, off) X. k < d" using Suc.prems(5) by auto
    ultimately obtain L' where L': "SetBit_loop (Suc k) ?ind ?L1 = Ok L'"
        "bit_changed True k ?ind (insert (Suc k, off) X) ?L1 L'"
      using Suc.IH[OF k(2,1), of ?ind "insert (Suc k, off) X"] pk by auto
    have "SetBit_loop (Suc (Suc k)) off L = SetBit_loop (Suc k) ?ind ?L1"
      using Suc.prems ind True by (simp add: Let_def)
    moreover have "bit_changed True (Suc k) off X L L'"
      by (rule bit_changed_step[OF L'(2)]) (use Suc.prems ind w0 pk u(1) in auto)
    ultimately show ?thesis using L'(1) by auto
  qed
qed

lemma ClearBit_loop_ok:
  "shape L \<Longrightarrow> k < length L \<Longrightarrow> off < 64 * length (L ! k) \<Longrightarrow> linked L (insert (k, off) X) \<Longrightarrow>
    \<forall>(d, i) \<in> X. k < d \<Longrightarrow> lbit L k off \<Longrightarrow>
    \<exists>L'. ClearBit_loop (Suc k) off L = Ok L' \<and> bit_changed False k off X L L'"
proof (induction k arbitrary: L off X)
  case (0 L off X)
  let ?w = "L ! 0 ! (off div 64) AND NOT (push_bit (off mod 64) 1)" and ?ind = "off div 64"
  have w: "bit ?w j = (if j = off mod 64 then False else bit (L ! 0 ! ?ind) j)" if "j < 64" for j
    using that by (rule bit_and_not_single)
  note u = level_update[OF 0(1,2,3) w 0(4)]
  have "ClearBit_loop (Suc 0) off L = Ok (L[0 := (L ! 0)[?ind := ?w]])"
    using 0 off_split(1)[OF 0(3)] by (simp add: Let_def)
  moreover have "bit_changed False 0 off X L (L[0 := (L ! 0)[?ind := ?w]])"
    using u(1) u(3) by (auto simp: bit_changed_def)
  ultimately show ?case by blast
next
  case (Suc k L off X)
  let ?w = "L ! Suc k ! (off div 64) AND NOT (push_bit (off mod 64) 1)" and ?ind = "off div 64"
  let ?L1 = "L[Suc k := (L ! Suc k)[?ind := ?w]]"
  have w: "bit ?w j = (if j = off mod 64 then False else bit (L ! Suc k ! ?ind) j)" if "j < 64" for j
    using that by (rule bit_and_not_single)
  note u = level_update[OF Suc.prems(1,2,3) w Suc.prems(4)]
  have ind: "?ind < length (L ! Suc k)" using Suc.prems(3) by (rule off_split)
  have old: "L ! Suc k ! ?ind \<noteq> 0" using Suc.prems(6) by (auto simp: lbit_def)
  show ?case
  proof (cases "?w = 0")
    case False
    then have "ClearBit_loop (Suc (Suc k)) off L = Ok ?L1" using Suc.prems ind by (simp add: Let_def)
    moreover have "bit_changed False (Suc k) off X L ?L1"
      using u(1) u(3) old False by (auto simp: bit_changed_def)
    ultimately show ?thesis by blast
  next
    case True
    have k: "k < length ?L1" "shape ?L1" using Suc.prems shape_same[OF same_lengths_update] by auto
    have pk: "?ind < 64 * length (L ! k)" using ind Suc.prems(1,2) by (fastforce simp: shape_def)
    have "(k, ?ind) \<notin> insert (Suc k, off) X" using Suc.prems(5) by auto
    then have "lbit L k ?ind" using Suc.prems(2,4) pk ind old by (auto simp: linked_def)
    then have lb: "lbit ?L1 k ?ind" by (simp add: lbit_def)
    have "linked ?L1 (insert (k, ?ind) (insert (Suc k, off) X))"
      using u(2) by (simp add: insert_commute)
    moreover have "\<forall>(d, i) \<in> insert (Suc k, off) X. k < d" using Suc.prems(5) by auto
    ultimately obtain L' where L': "ClearBit_loop (Suc k) ?ind ?L1 = Ok L'"
        "bit_changed False k ?ind (insert (Suc k, off) X) ?L1 L'"
      using Suc.IH[OF k(2,1), of ?ind "insert (Suc k, off) X"] pk lb by auto
    have "ClearBit_loop (Suc (Suc k)) off L = ClearBit_loop (Suc k) ?ind ?L1"
      using Suc.prems ind True by (simp add: Let_def)
    moreover have "bit_changed False (Suc k) off X L L'"
      by (rule bit_changed_step[OF L'(2)]) (use Suc.prems ind True pk u(1) in auto)
    ultimately show ?thesis using L'(1) by auto
  qed
qed

section \<open>The set of free blocks\<close>

definition bits_of :: "page_bitmap \<Rightarrow> nat set" where
  "bits_of bm = {i. i < 64 * length (last (m_bit_storages bm)) \<and>
     lbit (m_bit_storages bm) (length (m_bit_storages bm) - 1) i}"

definition bitmap_inv :: "page_bitmap \<Rightarrow> bool" where
  "bitmap_inv bm \<longleftrightarrow> shape (m_bit_storages bm) \<and> linked (m_bit_storages bm) {} \<and>
     m_used_depths bm = length (m_bit_storages bm) \<and> m_num_bits bm = of_nat (card (bits_of bm))"

definition bitmap_capacity :: "page_bitmap \<Rightarrow> nat" where
  "bitmap_capacity bm = 64 * length (last (m_bit_storages bm))"

lemma bits_of_finite [simp]: "finite (bits_of bm)"
  by (simp add: bits_of_def)

lemma linked_last: "L \<noteq> [] \<Longrightarrow> linked L (insert (length L - 1, i) X) = linked L X"
proof -
  assume "L \<noteq> []"
  then have "(d, j) \<in> insert (length L - 1, i) X \<longleftrightarrow> (d, j) \<in> X" if "Suc d < length L" for d j
    using that by auto
  then show ?thesis unfolding linked_def by blast
qed

lemma bit_changed_bits:
  assumes "bit_changed b (length L - 1) off {} L L'" "L \<noteq> []" "off < 64 * length (last L)"
  shows "bits_of (bm\<lparr>m_bit_storages := L', m_num_bits := n\<rparr>) =
    (if b then insert off (bits_of (bm\<lparr>m_bit_storages := L\<rparr>)) else bits_of (bm\<lparr>m_bit_storages := L\<rparr>) - {off})"
proof -
  note c = assms(1)[unfolded bit_changed_def]
  note l = same_lengths_nth[OF conjunct1[OF c]]
  have len: "length L' = length L" "length (last L') = length (last L)"
    using l assms(2) last_conv_nth[of L] last_conv_nth[of L'] by (auto simp flip: length_greater_0_conv)
  have "lbit L' (length L - 1) i = (if i = off then b else lbit L (length L - 1) i)" if "i < 64 * length (last L)" for i
    using c that assms(2) by (auto simp: last_conv_nth)
  then show ?thesis using len assms(3) by (cases b) (auto simp: bits_of_def split: if_splits)
qed

lemma SetBit_ok:
  assumes "bitmap_inv bm" "i < bitmap_capacity bm" "i \<notin> bits_of bm"
  shows "\<exists>bm'. SetBit i bm = Ok bm' \<and> bitmap_inv bm' \<and> bits_of bm' = insert i (bits_of bm) \<and>
    map length (m_bit_storages bm') = map length (m_bit_storages bm)"
proof -
  let ?L = "m_bit_storages bm"
  have L: "shape ?L" "linked ?L {}" "?L \<noteq> []" "m_used_depths bm = Suc (length ?L - 1)" "length ?L - 1 < length ?L"
    using assms(1) by (auto simp: bitmap_inv_def shape_def)
  have i: "i < 64 * length (last ?L)" "i < 64 * length (?L ! (length ?L - 1))"
    using assms(2) L(3) by (simp_all add: bitmap_capacity_def last_conv_nth)
  have "linked ?L (insert (length ?L - 1, i) {})" using linked_last[OF L(3)] L(2) by blast
  from SetBit_loop_ok[OF L(1,5) i(2) this] obtain L' where L': "SetBit_loop (m_used_depths bm) i ?L = Ok L'"
      "bit_changed True (length ?L - 1) i {} ?L L'" using L(4) by auto
  note c = L'(2)[unfolded bit_changed_def]
  have l: "same_lengths ?L L'" using c by blast
  let ?bm = "bm\<lparr>m_bit_storages := L', m_num_bits := m_num_bits bm + 1\<rparr>"
  have b: "bits_of ?bm = insert i (bits_of bm)"
    using bit_changed_bits[OF L'(2) L(3) i(1), where bm = bm and n = "m_num_bits bm + 1"] by simp
  have "L' \<noteq> []" using same_lengths_nth[OF l] L(3) by auto
  then have "linked L' {}" using c same_lengths_nth[OF l] linked_last[of L' i "{}"] by simp
  then have "bitmap_inv ?bm"
    using b assms(1,3) shape_same[OF l L(1)] same_lengths_nth[OF l] by (simp add: bitmap_inv_def)
  then show ?thesis using L'(1) b l by (auto simp: SetBit_def same_lengths_def)
qed

lemma ClearBit_ok:
  assumes "bitmap_inv bm" "i \<in> bits_of bm"
  shows "\<exists>bm'. ClearBit i bm = Ok bm' \<and> bitmap_inv bm' \<and> bits_of bm' = bits_of bm - {i} \<and>
    map length (m_bit_storages bm') = map length (m_bit_storages bm)"
proof -
  let ?L = "m_bit_storages bm"
  have L: "shape ?L" "linked ?L {}" "?L \<noteq> []" "m_used_depths bm = Suc (length ?L - 1)" "length ?L - 1 < length ?L"
    using assms(1) by (auto simp: bitmap_inv_def shape_def)
  have i: "i < 64 * length (last ?L)" "i < 64 * length (?L ! (length ?L - 1))" "lbit ?L (length ?L - 1) i"
    using assms(2) L(3) by (simp_all add: bits_of_def last_conv_nth)
  have "linked ?L (insert (length ?L - 1, i) {})" using linked_last[OF L(3)] L(2) by blast
  from ClearBit_loop_ok[OF L(1,5) i(2) this _ i(3)] obtain L' where L': "ClearBit_loop (m_used_depths bm) i ?L = Ok L'"
      "bit_changed False (length ?L - 1) i {} ?L L'" using L(4) by auto
  note c = L'(2)[unfolded bit_changed_def]
  have l: "same_lengths ?L L'" using c by blast
  let ?bm = "bm\<lparr>m_bit_storages := L', m_num_bits := m_num_bits bm - 1\<rparr>"
  have b: "bits_of ?bm = bits_of bm - {i}"
    using bit_changed_bits[OF L'(2) L(3) i(1), where bm = bm and n = "m_num_bits bm - 1"] by simp
  have "L' \<noteq> []" using same_lengths_nth[OF l] L(3) by auto
  then have "linked L' {}" using c same_lengths_nth[OF l] linked_last[of L' i "{}"] by simp
  moreover have "card (bits_of bm) = Suc (card (bits_of bm - {i}))"
    using assms(2) by (metis bits_of_finite card_Suc_Diff1)
  ultimately have "bitmap_inv ?bm"
    using b assms(1) shape_same[OF l L(1)] same_lengths_nth[OF l] by (simp add: bitmap_inv_def)
  then show ?thesis using L'(1) b l by (auto simp: ClearBit_def same_lengths_def)
qed

section \<open>Finding a free block\<close>

lemma countr_zero_props:
  assumes "v \<noteq> 0"
  shows "bit v (countr_zero v)" "\<And>k. bit v k \<Longrightarrow> countr_zero v \<le> k"
proof -
  obtain k where k: "bit v k" using assms by (metis bit_eqI bit_0_eq bot_apply bot_bool_def)
  then have k64: "k < 64" using bit_imp_le_length by fastforce
  let ?xs = "takeWhile (\<lambda>i. \<not> bit v i) [0..<64]"
  have le: "length ?xs \<le> j" if "bit v j" "j < 64" for j
  proof (rule ccontr)
    assume "\<not> length ?xs \<le> j"
    then have j: "j < length ?xs" by simp
    have "?xs ! j = [0..<64] ! j" using j by (rule takeWhile_nth)
    then have "?xs ! j = j" using that(2) by simp
    then show False using nth_mem[OF j] that(1) set_takeWhileD by metis
  qed
  have "length ?xs < length [0..<64]" using le[OF k k64] k64 by simp
  from nth_length_takeWhile[OF this] show "bit v (countr_zero v)"
    using le[OF k k64] k64 by (simp add: countr_zero_def)
  show "countr_zero v \<le> j" if "bit v j" for j
    using le[OF that] that bit_imp_le_length[OF that] by (simp add: countr_zero_def)
qed

lemma bit_less_64: "bit (v :: u64) b \<Longrightarrow> b < 64"
  using bit_imp_le_length by fastforce

lemma lbit_word: "b < 64 \<Longrightarrow> lbit L d (w * 64 + b) = bit (L ! d ! w) b"
  by (simp add: lbit_def)

lemma word_order:
  fixes j :: nat
  assumes "off \<le> j div 64" "j div 64 = off \<Longrightarrow> b \<le> j mod 64" "b < 64"
  shows "off * 64 + b \<le> j"
proof (cases "j div 64 = off")
  case True
  then show ?thesis using assms(2) div_mult_mod_eq[of j 64] by simp
next
  case False
  then have "Suc off * 64 \<le> j div 64 * 64" using assms(1) by (intro mult_le_mono1) simp
  then have "off * 64 + 64 \<le> j" using div_times_less_eq_dividend[of j 64] by (simp only: mult_Suc)
  then show ?thesis using assms(3) by simp
qed

lemma shape_level: "shape L \<Longrightarrow> Suc d < length L \<Longrightarrow> j < length (L ! Suc d) \<Longrightarrow> j < 64 * length (L ! d)"
  unfolding shape_def by (meson order_less_le_trans)

lemma top_zero_empty:
  assumes "shape L" "linked L {}" "d < length L" "i < 64 * length (L ! d)" "lbit L d i"
  shows "L ! 0 ! 0 \<noteq> 0"
  using assms(3-5)
proof (induction d arbitrary: i)
  case 0
  then have "i div 64 = 0" using assms(1) by (auto simp: shape_def)
  then show ?case using "0.prems"(3) by (auto simp: lbit_def)
next
  case (Suc d)
  have w: "i div 64 < length (L ! Suc d)" using Suc.prems(2) by (rule off_split)
  have nz: "L ! Suc d ! (i div 64) \<noteq> 0" using Suc.prems(3) by (auto simp: lbit_def)
  have "i div 64 < 64 * length (L ! d)" using shape_level[OF assms(1)] w Suc.prems(1) by blast
  then show ?case using Suc.IH[of "i div 64"] w nz assms(2) Suc.prems(1) by (auto simp: linked_def)
qed

text \<open>The descent reaches a set bit, and with the lowest bit of each word the lowest of all.\<close>

lemma FindFreeBlock_loop_ok:
  assumes sel: "\<And>v g. v \<noteq> 0 \<Longrightarrow> bit v (fst (select v g))" and L: "shape L" "linked L {}"
  shows "d + Suc n = length L \<Longrightarrow> offset < length (L ! d) \<Longrightarrow> L ! d ! offset \<noteq> 0 \<Longrightarrow>
    \<exists>r g'. FindFreeBlock_loop select (Suc n) d offset L g = Ok (int r, g') \<and>
      r < 64 * length (last L) \<and> lbit L (length L - 1) r \<and>
      ((\<forall>v g. select v g = (countr_zero v, g)) \<longrightarrow> (\<forall>j < length (L ! d). L ! d ! j \<noteq> 0 \<longrightarrow> offset \<le> j) \<longrightarrow>
         (\<forall>j < 64 * length (last L). lbit L (length L - 1) j \<longrightarrow> r \<le> j))"
proof (induction n arbitrary: d offset g)
  case (0 d offset g)
  obtain b g' where s: "select (L ! d ! offset) g = (b, g')" by (cases "select (L ! d ! offset) g")
  have b: "bit (L ! d ! offset) b" "b < 64" using sel[OF 0(3), of g] s bit_less_64 by auto
  have ld: "length L - 1 = d" "L \<noteq> []" using 0(1) by auto
  have d: "d = length L - 1" "last L = L ! d" using ld last_conv_nth[of L] by simp_all
  have "FindFreeBlock_loop select (Suc 0) d offset L g = Ok (int (offset * 64 + b), g')"
    using 0 s by simp
  moreover have "offset * 64 + b \<le> j"
    if "\<forall>v g. select v g = (countr_zero v, g)" "\<forall>j < length (L ! d). L ! d ! j \<noteq> 0 \<longrightarrow> offset \<le> j"
      "j < 64 * length (last L)" "lbit L d j" for j
  proof -
    have w: "j div 64 < length (L ! d)" "bit (L ! d ! (j div 64)) (j mod 64)"
      using that(3,4) d(2) off_split(1) by (auto simp: lbit_def)
    then have "offset \<le> j div 64" using that(2) by auto
    moreover have "b \<le> j mod 64" if "j div 64 = offset"
      using w(2) that countr_zero_props(2)[OF 0(3)] s \<open>\<forall>v g. select v g = (countr_zero v, g)\<close> by auto
    ultimately show ?thesis using b(2) by (rule word_order)
  qed
  ultimately have res: "FindFreeBlock_loop select (Suc 0) d offset L g = Ok (int (offset * 64 + b), g')"
    "(\<forall>v g. select v g = (countr_zero v, g)) \<longrightarrow> (\<forall>j < length (L ! d). L ! d ! j \<noteq> 0 \<longrightarrow> offset \<le> j) \<longrightarrow>
       (\<forall>j < 64 * length (last L). lbit L (length L - 1) j \<longrightarrow> offset * 64 + b \<le> j)" using ld(1) by auto
  have "offset * 64 + b < 64 * length (last L)" using b(2) 0(2) unfolding d(2) by linarith
  moreover have "lbit L (length L - 1) (offset * 64 + b)" using b lbit_word[OF b(2), of L d offset] ld(1) by simp
  ultimately show ?case using res by blast
next
  case (Suc n d offset g)
  obtain b g' where s: "select (L ! d ! offset) g = (b, g')" by (cases "select (L ! d ! offset) g")
  have b: "bit (L ! d ! offset) b" "b < 64" using sel[OF Suc.prems(3), of g] s bit_less_64 by auto
  let ?o = "offset * 64 + b"
  have o64: "?o < 64 * length (L ! d)" using Suc.prems(2) b(2) by linarith
  have "lbit L d ?o" using b lbit_word by simp
  then have o: "?o < length (L ! Suc d)" "L ! Suc d ! ?o \<noteq> 0"
    using L(2) o64 Suc.prems(1) by (auto simp: linked_def)
  have step: "FindFreeBlock_loop select (Suc (Suc n)) d offset L g = FindFreeBlock_loop select (Suc n) (Suc d) ?o L g'"
    using Suc.prems s by (simp del: FindFreeBlock_loop.simps(2) add: FindFreeBlock_loop.simps(2)[of select "Suc n"])
  have min: "\<forall>j < length (L ! Suc d). L ! Suc d ! j \<noteq> 0 \<longrightarrow> ?o \<le> j"
    if c: "\<forall>v g. select v g = (countr_zero v, g)" "\<forall>j < length (L ! d). L ! d ! j \<noteq> 0 \<longrightarrow> offset \<le> j"
  proof (intro allI impI)
    fix j assume j: "j < length (L ! Suc d)" "L ! Suc d ! j \<noteq> 0"
    then have j64: "j < 64 * length (L ! d)" using shape_level[OF L(1)] Suc.prems(1) by simp
    then have "lbit L d j" using L(2) Suc.prems(1) j by (auto simp: linked_def)
    then have w: "j div 64 < length (L ! d)" "bit (L ! d ! (j div 64)) (j mod 64)"
      using j64 off_split(1) by (auto simp: lbit_def)
    then have "offset \<le> j div 64" using c(2) by auto
    moreover have "b \<le> j mod 64" if "j div 64 = offset"
      using w(2) that countr_zero_props(2)[OF Suc.prems(3)] s c(1) by auto
    ultimately show "?o \<le> j" using b(2) by (rule word_order)
  qed
  have "Suc d + Suc n = length L" using Suc.prems(1) by simp
  from Suc.IH[OF this o, of g'] show ?case unfolding step using min by blast
qed

section \<open>Clearing whole words\<close>

lemma last_update:
  fixes w :: u64
  assumes "shape L" "linked L {}" "k = length L - 1" "ind < length (L ! k)" "L ! k ! ind \<noteq> 0"
  defines "L1 \<equiv> L[k := (L ! k)[ind := w]]"
  shows "linked L1 (if w = 0 \<and> k \<noteq> 0 then {(k - 1, ind)} else {})"
  unfolding linked_def
proof (intro allI impI)
  fix d i assume d: "Suc d < length L1" "i < 64 * length (L1 ! d)" "(d, i) \<notin> (if w = 0 \<and> k \<noteq> 0 then {(k - 1, ind)} else {})"
  have dk: "d < k" "k < length L" "Suc d < length L" using d(1) assms(3) by (auto simp: L1_def)
  then have same: "L1 ! d = L ! d" "lbit L1 d i = lbit L d i" by (simp_all add: L1_def lbit_def)
  have old: "lbit L d i \<longleftrightarrow> i < length (L ! Suc d) \<and> L ! Suc d ! i \<noteq> 0"
    using assms(2) dk d(2) same by (simp add: linked_def)
  show "lbit L1 d i \<longleftrightarrow> i < length (L1 ! Suc d) \<and> L1 ! Suc d ! i \<noteq> 0"
  proof (cases "Suc d = k \<and> i = ind")
    case True
    then have "w \<noteq> 0" using d(3) by (auto split: if_splits)
    then show ?thesis using True old same dk assms(4,5) by (simp add: L1_def)
  next
    case False
    then have "length (L1 ! Suc d) = length (L ! Suc d)" "L1 ! Suc d ! i = L ! Suc d ! i"
      using dk by (cases "Suc d = k"; simp add: L1_def)+
    then show ?thesis using old same by simp
  qed
qed

lemma linked_drop:
  "linked L (insert (d, i) X) \<Longrightarrow> (lbit L d i \<longleftrightarrow> i < length (L ! Suc d) \<and> L ! Suc d ! i \<noteq> 0) \<Longrightarrow> linked L X"
  unfolding linked_def by blast

lemma word_cleared:
  assumes "shape L" "linked L {}" "k = length L - 1" "ind < length (L ! k)" "L ! k ! ind \<noteq> 0"
  shows "\<exists>L'. (if w = 0 then ClearBit_loop k ind (L[k := (L ! k)[ind := w]]) else Ok (L[k := (L ! k)[ind := w]])) = Ok L' \<and>
    same_lengths L L' \<and> linked L' {} \<and> L' ! k = (L ! k)[ind := w]"
proof -
  let ?L1 = "L[k := (L ! k)[ind := w]]"
  have k: "k < length L" using assms(1,3) by (auto simp: shape_def)
  have l: "linked ?L1 (if w = 0 \<and> k \<noteq> 0 then {(k - 1, ind)} else {})" using assms by (rule last_update)
  show ?thesis
  proof (cases "w = 0 \<and> k \<noteq> 0")
    case False
    then show ?thesis using l k by (cases k) auto
  next
    case True
    then obtain j where j: "k = Suc j" by (cases k) auto
    have sh: "shape ?L1" using shape_same[OF same_lengths_update assms(1)] .
    have i64: "ind < 64 * length (L ! j)" using assms(1,4) k j by (auto simp: shape_def intro: order_less_le_trans)
    then have "lbit L j ind" using assms(2,4,5) k j by (auto simp: linked_def)
    then have b: "lbit ?L1 j ind" using j by (simp add: lbit_def)
    have link: "linked ?L1 (insert (j, ind) {})" using l True j by simp
    have "j < length ?L1" "ind < 64 * length (?L1 ! j)" using k j i64 by simp_all
    from ClearBit_loop_ok[OF sh this link _ b] obtain L' where L': "ClearBit_loop k ind ?L1 = Ok L'"
      "bit_changed False j ind {} ?L1 L'" using j by auto
    note c = L'(2)[unfolded bit_changed_def]
    have s: "same_lengths ?L1 L'" using c by blast
    have up: "L' ! k = (L ! k)[ind := w]" using c j k by auto
    have "\<not> lbit L' j ind" using c k j i64 by auto
    moreover have "L' ! Suc j ! ind = 0" using up j True assms(4) by simp
    ultimately have "linked L' {}" using c linked_drop[of L' j ind "{}"] by simp
    then show ?thesis using True L'(1) up same_lengths_trans[OF same_lengths_update s] by auto
  qed
qed

lemma clear_words_ok:
  "shape L \<Longrightarrow> linked L {} \<Longrightarrow> k = length L - 1 \<Longrightarrow> i + n \<le> length (L ! k) \<Longrightarrow>
    (\<And>j. i \<le> j \<Longrightarrow> j < i + n \<Longrightarrow> L ! k ! j \<noteq> 0) \<Longrightarrow>
    \<exists>L'. clear_words k n i L = Ok L' \<and> same_lengths L L' \<and> linked L' {} \<and>
      (\<forall>j < length (L ! k). L' ! k ! j = (if i \<le> j \<and> j < i + n then 0 else L ! k ! j))"
proof (induction n arbitrary: i L)
  case 0
  then show ?case by auto
next
  case (Suc n)
  have k: "k < length L" using Suc.prems(1,3) by (auto simp: shape_def)
  have "i < length (L ! k)" "L ! k ! i \<noteq> 0" using Suc.prems(4) Suc.prems(5)[of i] by auto
  from word_cleared[OF Suc.prems(1,2,3) this, of 0] obtain L1 where L1:
    "ClearBit_loop k i (L[k := (L ! k)[i := 0]]) = Ok L1" "same_lengths L L1" "linked L1 {}" "L1 ! k = (L ! k)[i := 0]"
    by auto
  have "shape L1" "k = length L1 - 1" "Suc i + n \<le> length (L1 ! k)"
    using shape_same[OF L1(2) Suc.prems(1)] same_lengths_nth[OF L1(2)] Suc.prems(3,4) L1(4) by auto
  moreover have "L1 ! k ! j \<noteq> 0" if "Suc i \<le> j" "j < Suc i + n" for j
    using that Suc.prems(5)[of j] L1(4) by auto
  ultimately obtain L' where L': "clear_words k n (Suc i) L1 = Ok L'" "same_lengths L1 L'" "linked L' {}"
    "\<forall>j < length (L1 ! k). L' ! k ! j = (if Suc i \<le> j \<and> j < Suc i + n then 0 else L1 ! k ! j)"
    using Suc.IH[of L1 "Suc i"] L1(3) by blast
  have "L' ! k ! j = (if i \<le> j \<and> j < i + Suc n then 0 else L ! k ! j)" if "j < length (L ! k)" for j
    using L'(4) that L1(4) by (cases "j = i") (auto simp: nth_list_update)
  then show ?case using L1(1) L' same_lengths_trans[OF L1(2) L'(2)] by auto
qed

lemma all_ones_ok: "i + n \<le> length bits \<Longrightarrow> all_ones n i bits = Ok (\<forall>j. i \<le> j \<and> j < i + n \<longrightarrow> bits ! j = - 1)"
proof (induction n arbitrary: i)
  case (Suc n)
  have "(\<forall>j. i \<le> j \<and> j < i + Suc n \<longrightarrow> bits ! j = - 1) \<longleftrightarrow>
    bits ! i = - 1 \<and> (\<forall>j. Suc i \<le> j \<and> j < Suc i + n \<longrightarrow> bits ! j = - 1)"
    by (metis Suc_leI Suc_le_lessD add_Suc add_Suc_right le_add1 le_eq_less_or_eq less_Suc_eq_le)
  then show ?case using Suc.IH[of "Suc i"] Suc.prems by auto
qed auto

section \<open>The operations on the set of free blocks\<close>

lemma inv_levels:
  assumes "bitmap_inv bm"
  shows "m_bit_storages bm \<noteq> []" "shape (m_bit_storages bm)" "linked (m_bit_storages bm) {}"
    "m_used_depths bm = length (m_bit_storages bm)"
    "last (m_bit_storages bm) = m_bit_storages bm ! (m_used_depths bm - 1)" "m_used_depths bm \<noteq> 0"
  using assms by (auto simp: bitmap_inv_def shape_def last_conv_nth)

lemma bits_of_iff:
  "m_bit_storages bm \<noteq> [] \<Longrightarrow> i \<in> bits_of bm \<longleftrightarrow> i div 64 < length (last (m_bit_storages bm)) \<and>
     bit (last (m_bit_storages bm) ! (i div 64)) (i mod 64)"
  by (auto simp: bits_of_def lbit_def last_conv_nth less_mult_imp_div_less mult.commute div_less_iff_less_mult)

lemma FindFreeBlock_ok:
  assumes "bitmap_inv bm"
  shows "\<exists>r g. FindFreeBlock random bm = Ok (r, bm\<lparr>bitmap_rng := g\<rparr>) \<and>
    (if bits_of bm = {} then r = - 1
     else \<exists>i \<in> bits_of bm. r = int i \<and> (\<not> random \<longrightarrow> i = Min (bits_of bm)))"
proof -
  let ?L = "m_bit_storages bm"
  let ?sel = "if random then SelectRandomBit else (\<lambda>v g. (countr_zero v, g))"
  note L = inv_levels[OF assms]
  have sel: "bit v (fst (?sel v g))" if "v \<noteq> 0" for v g
    using that SelectRandomBit_set countr_zero_props(1) by simp
  obtain n where n: "length ?L = Suc n" using L(1) by (cases ?L) auto
  have 0: "length (?L ! 0) = 1" using L(2) by (simp add: shape_def)
  show ?thesis
  proof (cases "?L ! 0 ! 0 = 0")
    case True
    have "bits_of bm = {}"
      using top_zero_empty[OF L(2,3), of "length ?L - 1"] True L(1) by (auto simp: bits_of_def last_conv_nth)
    then show ?thesis using True n 0 L(4) by (auto simp: FindFreeBlock_def Let_def intro!: exI[of _ "bitmap_rng bm"])
  next
    case False
    have first: "\<forall>j < length (?L ! 0). ?L ! 0 ! j \<noteq> 0 \<longrightarrow> 0 \<le> j" by simp
    have "0 + Suc n = length ?L" "0 < length (?L ! 0)" using n 0 by simp_all
    from FindFreeBlock_loop_ok[of ?sel, OF sel L(2,3) this False, of "bitmap_rng bm"] first obtain r g where
      r: "FindFreeBlock_loop ?sel (Suc n) 0 0 ?L (bitmap_rng bm) = Ok (int r, g)"
      "r < 64 * length (last ?L)" "lbit ?L (length ?L - 1) r"
      "(\<forall>v g. ?sel v g = (countr_zero v, g)) \<longrightarrow> (\<forall>j < 64 * length (last ?L). lbit ?L (length ?L - 1) j \<longrightarrow> r \<le> j)"
      by blast
    have "r \<in> bits_of bm" using r by (simp add: bits_of_def)
    moreover have "r = Min (bits_of bm)" if "\<not> random"
      using r(4) that calculation by (intro Min_eqI[symmetric]) (auto simp: bits_of_def)
    moreover have "FindFreeBlock random bm = Ok (int r, bm\<lparr>bitmap_rng := g\<rparr>)"
      using r(1) n L(4) by (simp add: FindFreeBlock_def Let_def)
    ultimately show ?thesis by auto
  qed
qed

definition legal_range :: "nat \<Rightarrow> nat \<Rightarrow> nat \<Rightarrow> bool" where
  "legal_range offset count cap \<longleftrightarrow> 0 < count \<and> offset + count \<le> cap \<and>
     (if count < 64 then offset mod 64 + count \<le> 64 else 64 dvd offset \<and> 64 dvd count)"

text \<open>The levels after the words of the lowest one have been changed, and the count with them.\<close>

lemma last_level_bits:
  assumes "bitmap_inv bm" "same_lengths (m_bit_storages bm) L'" "linked L' {}" "S \<subseteq> bits_of bm"
    and bits: "\<And>i. i div 64 < length (last (m_bit_storages bm)) \<Longrightarrow>
      bit (L' ! (length L' - 1) ! (i div 64)) (i mod 64) \<longleftrightarrow> i \<in> bits_of bm \<and> i \<notin> S"
  defines "bm' \<equiv> bm\<lparr>m_bit_storages := L', m_num_bits := m_num_bits bm - of_nat (card S)\<rparr>"
  shows "bitmap_inv bm' \<and> bits_of bm' = bits_of bm - S"
proof -
  note L = inv_levels[OF assms(1)] and s = same_lengths_nth[OF assms(2)]
  have ne: "L' \<noteq> []" using L(1) s by auto
  have last: "last L' = L' ! (length L' - 1)" using ne by (simp add: last_conv_nth)
  have len: "length (last L') = length (last (m_bit_storages bm))"
    using L(1) ne s by (auto simp: last_conv_nth)
  have b: "bits_of bm' = bits_of bm - S"
    using bits_of_iff[of bm'] bits_of_iff[of bm] ne L(1) bits len last by (auto simp: bm'_def)
  have "card (bits_of bm - S) = card (bits_of bm) - card S" "card S \<le> card (bits_of bm)"
    using assms(4) by (simp_all add: card_Diff_subset finite_subset[OF assms(4)] card_mono)
  then have "m_num_bits bm' = of_nat (card (bits_of bm'))"
    using assms(1) b by (simp add: bm'_def bitmap_inv_def of_nat_diff)
  then show ?thesis using b shape_same[OF assms(2) L(2)] assms(3) L(4) s by (simp add: bitmap_inv_def bm'_def)
qed

lemma bit_range_mask: "j < 64 \<Longrightarrow> s + c \<le> 64 \<Longrightarrow> bit (push_bit s (push_bit c 1 - 1) :: u64) j \<longleftrightarrow> s \<le> j \<and> j < s + c"
proof -
  assume j: "j < 64" "s + c \<le> 64"
  have "push_bit c 1 - 1 = (mask c :: u64)" by (simp add: mask_eq_exp_minus_1)
  then show ?thesis using j by (auto simp: bit_push_bit_iff bit_mask_iff)
qed

lemma and_mask_full: "(v AND m = m) \<longleftrightarrow> (\<forall>j < 64. bit m j \<longrightarrow> bit (v :: u64) j)"
proof
  assume e: "v AND m = m"
  show "\<forall>j < 64. bit m j \<longrightarrow> bit v j" using arg_cong[OF e, of bit] by (metis bit_and_iff)
next
  assume "\<forall>j < 64. bit m j \<longrightarrow> bit v j"
  then show "v AND m = m" by (intro bit_word_eqI) (auto simp: bit_and_iff)
qed

lemma range_div_mod:
  fixes i :: nat
  assumes "o' mod 64 + c \<le> 64" "0 < c"
  shows "o' \<le> i \<and> i < o' + c \<longleftrightarrow> i div 64 = o' div 64 \<and> o' mod 64 \<le> i mod 64 \<and> i mod 64 < o' mod 64 + c"
proof
  have e: "o' = o' div 64 * 64 + o' mod 64" "i = i div 64 * 64 + i mod 64" by simp_all
  {
    assume i: "o' \<le> i \<and> i < o' + c"
    have "o' div 64 \<le> i div 64" using i by (simp add: div_le_mono)
    moreover have "i < o' div 64 * 64 + 64" using i assms(1) e(1) by linarith
    then have "i div 64 < Suc (o' div 64)" by (simp add: div_less_iff_less_mult)
    ultimately have "i div 64 = o' div 64" by simp
    then show "i div 64 = o' div 64 \<and> o' mod 64 \<le> i mod 64 \<and> i mod 64 < o' mod 64 + c" using i e by linarith
  }
  show "o' \<le> i \<and> i < o' + c" if "i div 64 = o' div 64 \<and> o' mod 64 \<le> i mod 64 \<and> i mod 64 < o' mod 64 + c"
    using that e by linarith
qed

text \<open>Places of a last level \<open>ws\<close> that are all set: under a mask of one word, or in whole words.\<close>

lemma mask_full_iff:
  fixes m :: u64
  assumes S: "\<And>i. i \<in> S \<longleftrightarrow> i div 64 = ind \<and> bit m (i mod 64)" and ind: "ind < length ws"
    and mem: "\<And>i. i \<in> B \<longleftrightarrow> i div 64 < length ws \<and> bit (ws ! (i div 64)) (i mod 64)"
  shows "ws ! ind AND m = m \<longleftrightarrow> S \<subseteq> B"
proof -
  have "(\<forall>j < 64. bit m j \<longrightarrow> bit (ws ! ind) j) \<longleftrightarrow> (\<forall>i \<in> S. i \<in> B)"
  proof
    assume "\<forall>j < 64. bit m j \<longrightarrow> bit (ws ! ind) j"
    then show "\<forall>i \<in> S. i \<in> B" using S mem ind by auto
  next
    assume A: "\<forall>i \<in> S. i \<in> B"
    show "\<forall>j < 64. bit m j \<longrightarrow> bit (ws ! ind) j"
    proof (intro allI impI)
      fix j :: nat assume j: "j < 64" "bit m j"
      have "ind * 64 + j \<in> S" unfolding S using j by simp
      then show "bit (ws ! ind) j" using A mem[of "ind * 64 + j"] j(1) by auto
    qed
  qed
  then show ?thesis unfolding and_mask_full subset_eq .
qed

lemma ClearRange_small:
  assumes inv: "bitmap_inv bm" and r: "legal_range offset count (bitmap_capacity bm)" "count < 64"
  shows "\<exists>bm'. ClearRange offset count bm = Ok ({offset..<offset + count} \<subseteq> bits_of bm, bm') \<and>
    (if {offset..<offset + count} \<subseteq> bits_of bm then bitmap_inv bm' \<and> bits_of bm' = bits_of bm - {offset..<offset + count} \<and>
       map length (m_bit_storages bm') = map length (m_bit_storages bm) \<and> m_num_bits bm' = m_num_bits bm - of_nat count
     else bm' = bm)"
proof -
  note L = inv_levels[OF inv]
  let ?L = "m_bit_storages bm" and ?k = "m_used_depths bm - 1" and ?ind = "offset div 64" and ?S = "{offset..<offset + count}"
  let ?m = "push_bit (offset mod 64) (push_bit count 1 - 1) :: u64" and ?v = "?L ! ?k ! (offset div 64)"
  have fit: "offset mod 64 + count \<le> 64" "0 < count" using r by (simp_all add: legal_range_def bitmap_capacity_def)
  have ind: "?ind < length (?L ! ?k)" using r(1) L(5) fit(2) by (intro off_split(1)) (auto simp: legal_range_def bitmap_capacity_def)
  have m: "bit ?m j \<longleftrightarrow> offset mod 64 \<le> j \<and> j < offset mod 64 + count" if "j < 64" for j
    using bit_range_mask[OF that fit(1)] .
  have S: "i \<in> ?S \<longleftrightarrow> i div 64 = ?ind \<and> bit ?m (i mod 64)" for i
    using range_div_mod[OF fit, of i] m[of "i mod 64"] by simp
  have mem: "i \<in> bits_of bm \<longleftrightarrow> i div 64 < length (?L ! ?k) \<and> bit (?L ! ?k ! (i div 64)) (i mod 64)" for i
    using bits_of_iff[OF L(1)] L(5) by simp
  have full: "(?v AND ?m = ?m) \<longleftrightarrow> ?S \<subseteq> bits_of bm" by (rule mask_full_iff[OF S ind mem])
  have unfold: "ClearRange offset count bm = (if ?v AND ?m \<noteq> ?m then Ok (False, bm) else
      bind_res (if ?v AND NOT ?m = 0 then ClearBit_loop ?k ?ind (?L[?k := (?L ! ?k)[?ind := ?v AND NOT ?m]])
          else Ok (?L[?k := (?L ! ?k)[?ind := ?v AND NOT ?m]]))
        (\<lambda>levels'. Ok (True, bm\<lparr>m_bit_storages := levels', m_num_bits := m_num_bits bm - of_nat count\<rparr>)))"
    using L(4,6) r(2) ind by (simp add: ClearRange_def Let_def)
  show ?thesis
  proof (cases "?S \<subseteq> bits_of bm")
    case False
    then show ?thesis using unfold full by simp
  next
    case True
    have "bit ?m (offset mod 64)" using m[of "offset mod 64"] fit(2) by simp
    then have "bit ?v (offset mod 64)" using True full and_mask_full[of ?v ?m] by simp
    then have nz: "?v \<noteq> 0" by auto
    from word_cleared[OF L(2,3) _ ind nz, of "?v AND NOT ?m"] L(4) obtain L' where L':
      "(if ?v AND NOT ?m = 0 then ClearBit_loop ?k ?ind (?L[?k := (?L ! ?k)[?ind := ?v AND NOT ?m]])
          else Ok (?L[?k := (?L ! ?k)[?ind := ?v AND NOT ?m]])) = Ok L'"
      "same_lengths ?L L'" "linked L' {}" "L' ! ?k = (?L ! ?k)[?ind := ?v AND NOT ?m]" by auto
    have k: "length L' - 1 = ?k" using same_lengths_nth[OF L'(2)] L(4) by simp
    have "bit (L' ! (length L' - 1) ! (i div 64)) (i mod 64) \<longleftrightarrow> i \<in> bits_of bm \<and> i \<notin> ?S"
      if "i div 64 < length (last ?L)" for i
      using that mem[of i] S[of i] L(5) ind unfolding k L'(4)
      by (cases "i div 64 = ?ind") (auto simp: bit_and_iff bit_not_iff)
    from last_level_bits[OF inv L'(2,3) True this] have
      "bitmap_inv (bm\<lparr>m_bit_storages := L', m_num_bits := m_num_bits bm - of_nat count\<rparr>)"
      "bits_of (bm\<lparr>m_bit_storages := L', m_num_bits := m_num_bits bm - of_nat count\<rparr>) = bits_of bm - ?S" by simp_all
    then show ?thesis using unfold full True L'(1,2) by (simp add: same_lengths_def)
  qed
qed

lemma word_full_iff: "w = - 1 \<longleftrightarrow> (\<forall>j < 64. bit (w :: u64) j)"
  by (auto intro: bit_word_eqI)

lemma words_range: "i \<in> {64 * q..<64 * q + 64 * n} \<longleftrightarrow> q \<le> i div 64 \<and> i div 64 < q + (n::nat)"
proof -
  have "64 * q \<le> i \<longleftrightarrow> q \<le> i div 64" by (simp add: less_eq_div_iff_mult_less_eq mult.commute)
  moreover have "i < 64 * (q + n) \<longleftrightarrow> i div 64 < q + n" by (simp add: div_less_iff_less_mult mult.commute)
  ultimately show ?thesis by (simp add: distrib_left)
qed

lemma words_full_iff:
  fixes ws :: "u64 list"
  assumes S: "\<And>i. i \<in> S \<longleftrightarrow> q \<le> i div 64 \<and> i div 64 < q + n" and len: "q + n \<le> length ws"
    and mem: "\<And>i. i \<in> B \<longleftrightarrow> i div 64 < length ws \<and> bit (ws ! (i div 64)) (i mod 64)"
  shows "(\<forall>j. q \<le> j \<and> j < q + n \<longrightarrow> ws ! j = - 1) \<longleftrightarrow> S \<subseteq> B"
proof
  assume "\<forall>j. q \<le> j \<and> j < q + n \<longrightarrow> ws ! j = - 1"
  then show "S \<subseteq> B" using S mem len word_full_iff by (auto simp: subset_iff)
next
  assume A: "S \<subseteq> B"
  show "\<forall>j. q \<le> j \<and> j < q + n \<longrightarrow> ws ! j = - 1"
  proof (intro allI impI)
    fix j assume j: "q \<le> j \<and> j < q + n"
    have "bit (ws ! j) b" if "b < 64" for b
    proof -
      have "j * 64 + b \<in> S" unfolding S using j that by simp
      then show ?thesis using A mem[of "j * 64 + b"] that by auto
    qed
    then show "ws ! j = - 1" using word_full_iff by blast
  qed
qed

lemma ClearRange_large:
  assumes inv: "bitmap_inv bm" and r: "legal_range offset count (bitmap_capacity bm)" "\<not> count < 64"
  shows "\<exists>bm'. ClearRange offset count bm = Ok ({offset..<offset + count} \<subseteq> bits_of bm, bm') \<and>
    (if {offset..<offset + count} \<subseteq> bits_of bm then bitmap_inv bm' \<and> bits_of bm' = bits_of bm - {offset..<offset + count} \<and>
       map length (m_bit_storages bm') = map length (m_bit_storages bm) \<and> m_num_bits bm' = m_num_bits bm - of_nat count
     else bm' = bm)"
proof -
  note L = inv_levels[OF inv]
  let ?L = "m_bit_storages bm" and ?k = "m_used_depths bm - 1" and ?S = "{offset..<offset + count}"
  obtain q n where q: "offset = 64 * q" "count = 64 * n"
  proof -
    have "64 dvd offset" "64 dvd count" using r by (simp_all add: legal_range_def bitmap_capacity_def)
    then show thesis using that[of "offset div 64" "count div 64"] by simp
  qed
  have len: "q + n \<le> length (?L ! ?k)"
  proof -
    have "64 * q + 64 * n \<le> 64 * length (?L ! ?k)" using r(1) unfolding legal_range_def bitmap_capacity_def L(5) q by blast
    then show ?thesis by simp
  qed
  have S: "i \<in> ?S \<longleftrightarrow> q \<le> i div 64 \<and> i div 64 < q + n" for i
    unfolding q by (rule words_range)
  have mem: "i \<in> bits_of bm \<longleftrightarrow> i div 64 < length (?L ! ?k) \<and> bit (?L ! ?k ! (i div 64)) (i mod 64)" for i
    using bits_of_iff[OF L(1)] L(5) by simp
  have full: "(\<forall>j. q \<le> j \<and> j < q + n \<longrightarrow> ?L ! ?k ! j = - 1) \<longleftrightarrow> ?S \<subseteq> bits_of bm" by (rule words_full_iff[OF S len mem])
  have unfold: "ClearRange offset count bm = (if \<not> (?S \<subseteq> bits_of bm) then Ok (False, bm) else
      bind_res (clear_words ?k n q ?L)
        (\<lambda>levels'. Ok (True, bm\<lparr>m_bit_storages := levels', m_num_bits := m_num_bits bm - of_nat count\<rparr>)))"
  proof -
    have d: "offset div 64 = q" "count div 64 = n" "count mod 64 = 0" using q by simp_all
    show ?thesis
      unfolding full[symmetric] ClearRange_def Let_def BitSize64 d using L(4,6) r(2) all_ones_ok[OF len] by simp
  qed
  show ?thesis
  proof (cases "?S \<subseteq> bits_of bm")
    case False
    then show ?thesis using unfold by simp
  next
    case True
    then have nz: "?L ! ?k ! j \<noteq> 0" if "q \<le> j" "j < q + n" for j using full that by force
    from clear_words_ok[OF L(2,3) _ len nz] L(4) obtain L' where L':
      "clear_words ?k n q ?L = Ok L'" "same_lengths ?L L'" "linked L' {}"
      "\<forall>j < length (?L ! ?k). L' ! ?k ! j = (if q \<le> j \<and> j < q + n then 0 else ?L ! ?k ! j)" by auto
    have k: "length L' - 1 = ?k" using same_lengths_nth[OF L'(2)] L(4) by simp
    have "bit (L' ! (length L' - 1) ! (i div 64)) (i mod 64) \<longleftrightarrow> i \<in> bits_of bm \<and> i \<notin> ?S"
      if "i div 64 < length (last ?L)" for i
      using that mem[of i] S[of i] L(5) L'(4) unfolding k by auto
    from last_level_bits[OF inv L'(2,3) True this] have
      "bitmap_inv (bm\<lparr>m_bit_storages := L', m_num_bits := m_num_bits bm - of_nat count\<rparr>)"
      "bits_of (bm\<lparr>m_bit_storages := L', m_num_bits := m_num_bits bm - of_nat count\<rparr>) = bits_of bm - ?S" by simp_all
    then show ?thesis using unfold True L'(1,2) by (simp add: same_lengths_def)
  qed
qed

lemmas ClearRange_cases = ClearRange_small ClearRange_large

section \<open>Initialization\<close>

lemma words_for_mono: "a \<le> b \<Longrightarrow> words_for a \<le> words_for b"
  by (auto simp: words_for_def intro: div_le_mono)

lemma words_for_bound: "n \<le> 64 * words_for n"
proof -
  have "(n + 63) mod 64 < 64" by simp
  then show ?thesis unfolding words_for_def BitSize64 using div_mult_mod_eq[of "n + 63" 64] by linarith
qed

lemma words_for_power: "n \<le> 64 ^ Suc k \<Longrightarrow> words_for n \<le> 64 ^ k"
  using words_for_mono[of n "64 ^ Suc k"] by (simp add: words_for_def)

lemma GetRequiredDepth_pos: "GetRequiredDepth n \<ge> 1"
  by (subst GetRequiredDepth.simps) (simp add: Let_def)

lemma GetRequiredDepth_bound: "n < 64 ^ GetRequiredDepth n"
proof (induction n rule: GetRequiredDepth.induct)
  case (1 n)
  show ?case
  proof (cases "n div 64 = 0")
    case True
    then show ?thesis by (subst GetRequiredDepth.simps) (simp add: Let_def)
  next
    case False
    then have "n div 64 < 64 ^ GetRequiredDepth (n div 64)" using 1 by simp
    then have "n < 64 * 64 ^ GetRequiredDepth (n div 64)" by (simp add: div_less_iff_less_mult mult.commute)
    then show ?thesis using False by (subst GetRequiredDepth.simps) (simp add: Let_def)
  qed
qed

lemma GetRequiredDepth_le: "n < 64 ^ Suc k \<Longrightarrow> GetRequiredDepth n \<le> Suc k"
proof (induction k arbitrary: n)
  case 0
  then show ?case by (subst GetRequiredDepth.simps) (simp add: Let_def)
next
  case (Suc k)
  then have "n div 64 < 64 ^ Suc k" by (simp add: div_less_iff_less_mult mult.commute)
  then have "GetRequiredDepth (n div 64) \<le> Suc k" by (rule Suc.IH)
  then show ?case by (subst GetRequiredDepth.simps) (simp add: Let_def)
qed

text \<open>The numbers of words of the levels, the lowest level first.\<close>

fun level_sizes :: "nat \<Rightarrow> nat \<Rightarrow> nat list" where
  "level_sizes 0 n = []"
| "level_sizes (Suc k) n = words_for n # level_sizes k (words_for n)"

lemma level_sizes_length [simp]: "length (level_sizes k n) = k"
  by (induction k arbitrary: n) auto

lemma level_sizes_step: "Suc j < k \<Longrightarrow> level_sizes k n ! j \<le> 64 * level_sizes k n ! Suc j"
proof (induction k arbitrary: n j)
  case (Suc k)
  obtain k' where k: "k = Suc k'" using Suc.prems by (cases k) auto
  show ?case using Suc.IH[of "j - 1" "words_for n"] Suc.prems words_for_bound[of "words_for n"] k
    by (cases j) auto
qed simp

lemma level_sizes_top: "0 < n \<Longrightarrow> n \<le> 64 ^ Suc k \<Longrightarrow> level_sizes (Suc k) n ! k = 1"
proof (induction k arbitrary: n)
  case 0
  then show ?case using words_for_power[of n 0] by (auto simp: words_for_def)
next
  case (Suc k)
  have "0 < words_for n" using Suc.prems(1) words_for_bound[of n] by (cases "words_for n") auto
  then show ?case using Suc.IH[of "words_for n"] words_for_power[OF Suc.prems(2)] by simp
qed

lemma Initialize_loop_ok:
  "overhead_loop k n \<le> length storage \<Longrightarrow> set storage \<subseteq> {0} \<Longrightarrow>
    \<exists>new. Initialize_loop k storage n levels = (new @ levels, drop (overhead_loop k n) storage) \<and>
      map length new = rev (level_sizes k n) \<and> (\<forall>l \<in> set new. set l \<subseteq> {0})"
proof (induction k arbitrary: storage n levels)
  case (Suc k)
  let ?n = "words_for n"
  have "overhead_loop k ?n \<le> length (drop ?n storage)" "set (drop ?n storage) \<subseteq> {0}"
    using Suc.prems set_drop_subset[of ?n storage] by auto
  from Suc.IH[OF this, of "take ?n storage # levels"] obtain new where new:
    "Initialize_loop k (drop ?n storage) ?n (take ?n storage # levels) =
       (new @ take ?n storage # levels, drop (overhead_loop k ?n) (drop ?n storage))"
    "map length new = rev (level_sizes k ?n)" "\<forall>l \<in> set new. set l \<subseteq> {0}" by blast
  show ?case
    using new Suc.prems set_take_subset[of ?n storage]
    by (intro exI[of _ "new @ [take ?n storage]"]) (auto simp: Let_def add.commute)
qed simp

lemma zero_levels:
  assumes "map length L = rev (level_sizes (Suc k) n)" "\<forall>l \<in> set L. set l \<subseteq> {0}" "0 < n" "n \<le> 64 ^ Suc k"
  shows "shape L" "linked L {}" "\<And>d i. d < length L \<Longrightarrow> i < 64 * length (L ! d) \<Longrightarrow> \<not> lbit L d i"
    "length (last L) = words_for n" "length L = Suc k"
proof -
  show len: "length L = Suc k" using arg_cong[OF assms(1), of length] by simp
  have l: "length (L ! d) = level_sizes (Suc k) n ! (k - d)" if "d < Suc k" for d
  proof -
    have "length (L ! d) = map length L ! d" using that len by simp
    then show ?thesis unfolding assms(1) using that by (simp add: rev_nth del: level_sizes.simps)
  qed
  show "length (last L) = words_for n" using l[of k] len by (cases "L = []") (simp_all add: last_conv_nth)
  have z: "L ! d ! i = 0" if "d < length L" "i < length (L ! d)" for d i
    using assms(2) that by (meson nth_mem singletonD subsetD)
  show "shape L"
    unfolding shape_def
  proof (intro conjI allI impI)
    show "L \<noteq> []" using len by auto
    show "length (L ! 0) = 1" using l[of 0] level_sizes_top[OF assms(3,4)] by simp
    fix d assume d: "Suc d < length L"
    show "length (L ! Suc d) \<le> 64 * length (L ! d)"
      using l[of d] l[of "Suc d"] d len level_sizes_step[of "k - Suc d" "Suc k" n] Suc_diff_Suc[of d k] by simp
  qed
  show nb: "\<not> lbit L d i" if "d < length L" "i < 64 * length (L ! d)" for d i
    using z[of d "i div 64"] that off_split(1) by (simp add: lbit_def)
  show "linked L {}" using nb z by (auto simp: linked_def)
qed

lemma KPageBitmap_Initialize_ok:
  assumes "0 < sz" "sz < 64 ^ 4" "set storage \<subseteq> {0}" "CalculateManagementOverheadSize sz \<le> 8 * length storage"
  shows "\<exists>bm. KPageBitmap_Initialize storage sz g = Ok (bm, drop (CalculateManagementOverheadSize sz div 8) storage) \<and>
    bitmap_inv bm \<and> bits_of bm = {} \<and> bitmap_capacity bm = 64 * words_for sz"
proof -
  obtain k where k: "GetRequiredDepth sz = Suc k" using GetRequiredDepth_pos[of sz] by (cases "GetRequiredDepth sz") auto
  have depth: "Suc k \<le> MaxDepth" using GetRequiredDepth_le[of sz 3] assms(2) k by (simp add: MaxDepth_def)
  have "overhead_loop (Suc k) sz \<le> length storage" using assms(4) k by (simp add: CalculateManagementOverheadSize_def)
  from Initialize_loop_ok[OF this assms(3), of "[]"] obtain L where L:
    "Initialize_loop (Suc k) storage sz [] = (L, drop (overhead_loop (Suc k) sz) storage)"
    "map length L = rev (level_sizes (Suc k) sz)" "\<forall>l \<in> set L. set l \<subseteq> {0}" by auto
  have "sz \<le> 64 ^ Suc k" using GetRequiredDepth_bound[of sz] k by simp
  note z = zero_levels[OF L(2,3) assms(1) this]
  let ?bm = "\<lparr>m_bit_storages = L, bitmap_rng = g, m_num_bits = 0, m_used_depths = Suc k\<rparr>"
  have "bits_of ?bm = {}" using z(3)[of k] z(5) by (cases "L = []") (auto simp: bits_of_def last_conv_nth)
  then have "bitmap_inv ?bm" using z by (simp add: bitmap_inv_def)
  moreover have "KPageBitmap_Initialize storage sz g = Ok (?bm, drop (overhead_loop (Suc k) sz) storage)"
    using L(1) k depth by (simp add: KPageBitmap_Initialize_def Let_def del: Initialize_loop.simps overhead_loop.simps)
  ultimately show ?thesis using \<open>bits_of ?bm = {}\<close> z(4) k by (simp add: CalculateManagementOverheadSize_def bitmap_capacity_def)
qed

section \<open>Finding a free range\<close>

lemma GenerateRandomBits_loop_ok: "n < 32 \<Longrightarrow> \<exists>r g'. GenerateRandomBits_loop n result g = Ok (r, g')"
proof (induction n arbitrary: result g rule: less_induct)
  case (less n)
  show ?case
  proof (cases "n = 0")
    case True
    then show ?thesis by (subst GenerateRandomBits_loop.simps) simp
  next
    case False
    let ?g = "if m_bits_available g = 0 then RefreshEntropy g else g"
    let ?c = "min n (m_bits_available ?g)"
    have "m_bits_available ?g \<noteq> 0" by (simp add: RefreshEntropy_def split: prod.split)
    then have c: "n - ?c < n" "n - ?c < 32" "\<not> 32 \<le> ?c" using False less.prems by auto
    show ?thesis
      using less.IH[OF c(1,2)] c(3) False by (subst GenerateRandomBits_loop.simps) (simp add: Let_def)
  qed
qed

lemma bit_width_le: "unat x < 2 ^ n \<Longrightarrow> bit_width x \<le> n"
proof (rule ccontr)
  let ?xs = "takeWhile (\<lambda>i. 2 ^ i \<le> unat x) [0..<64]"
  assume x: "unat x < 2 ^ n" "\<not> bit_width x \<le> n"
  then have n: "n < length ?xs" by (simp add: bit_width_def)
  then have n64: "n < 64" using length_takeWhile_le[of "\<lambda>i. 2 ^ i \<le> unat x" "[0..<64]"] by simp
  have "?xs ! n = n" using takeWhile_nth[OF n] n64 by simp
  then show False using nth_mem[OF n] x(1) set_takeWhileD[of n] by fastforce
qed

lemma GenerateRandom_ok: "0 < n \<Longrightarrow> n < 2 ^ 30 \<Longrightarrow> \<exists>r g'. GenerateRandom (of_nat n) g = Ok (r, g')"
proof -
  assume n: "0 < n" "n < 2 ^ 30"
  have u: "unat (of_nat n :: u64) = n" using n(2) by (simp add: unat_of_nat)
  then have "bit_width (of_nat n) \<le> 30" "(of_nat n :: u64) \<noteq> 0"
    using bit_width_le[of "of_nat n" 30] n by (auto simp del: of_nat_eq_0_iff)
  then show ?thesis
    using GenerateRandomBits_loop_ok[of "1 + bit_width (of_nat n)" 0 g]
    by (auto simp: GenerateRandom_def GenerateRandomBits_def)
qed

definition chosen_from :: "nat set \<Rightarrow> nat \<Rightarrow> int \<Rightarrow> bool" where
  "chosen_from C n c \<longleftrightarrow> (n = 0 \<longleftrightarrow> C = {}) \<and> (if C = {} then c = - 1 else \<exists>i \<in> C. c = int i)"

definition word_options :: "nat \<Rightarrow> nat \<Rightarrow> nat \<Rightarrow> nat \<Rightarrow> u64 \<Rightarrow> nat set" where
  "word_options count base a b w = {base + k * count | k. a \<le> k \<and> k < b \<and> (\<forall>j < count. bit w (k * count + j))}"

lemma word_options_step:
  "a < b \<Longrightarrow> word_options count base a b w =
    (if \<forall>j < count. bit w (a * count + j) then insert (base + a * count) (word_options count base (Suc a) b w)
     else word_options count base (Suc a) b w)"
proof -
  assume "a < b"
  then have "a \<le> k \<and> k < b \<and> P k \<longleftrightarrow> (k = a \<and> P a) \<or> (Suc a \<le> k \<and> k < b \<and> P k)" for k P
    using le_eq_less_or_eq[of a k] by auto
  note s = this[of _ "\<lambda>k. \<forall>j < count. bit w (k * count + j)"]
  show ?thesis unfolding word_options_def s by auto
qed

lemma free_mask_iff:
  assumes "count < 64"
  shows "(drop_bit n w AND (push_bit count 1 - 1) = push_bit count 1 - 1) \<longleftrightarrow> (\<forall>j < count. bit (w :: u64) (n + j))"
proof -
  have "bit (push_bit count 1 - 1 :: u64) j \<longleftrightarrow> j < count" if "j < 64" for j
    using bit_range_mask[OF that, of 0 count] assms by simp
  then show ?thesis using assms unfolding and_mask_full by (auto simp: bit_drop_bit_eq)
qed

lemma range_options_ok:
  assumes "0 < count" "count < 64"
  shows "chosen_from C nv ch \<Longrightarrow> nv + n < 2 ^ 30 \<Longrightarrow>
    \<exists>nv' ch' g'. range_options count si n a (drop_bit (a * count) w) (nv, ch, g) = Ok (nv', ch', g') \<and> nv' \<le> nv + n \<and>
      chosen_from (C \<union> word_options count (si * 64) a (a + n) w) nv' ch'"
proof (induction n arbitrary: a nv ch g C)
  case 0
  have "word_options count (si * 64) a (a + 0) w = {}" by (auto simp: word_options_def)
  then show ?case using 0 by simp
next
  case (Suc n)
  let ?here = "si * 64 + a * count"
  define ok where "ok \<longleftrightarrow> (\<forall>j < count. bit w (a * count + j))"
  have drop: "drop_bit count (drop_bit (a * count) w) = drop_bit (Suc a * count) w" by (simp add: drop_bit_drop_bit add.commute)
  have fm: "(drop_bit (a * count) w AND (push_bit count 1 - 1) = push_bit count 1 - 1) \<longleftrightarrow> ok"
    unfolding ok_def by (rule free_mask_iff[OF assms(2)])
  obtain nv1 ch1 g1 where 1: "range_options count si (Suc n) a (drop_bit (a * count) w) (nv, ch, g) =
      range_options count si n (Suc a) (drop_bit (Suc a * count) w) (nv1, ch1, g1)"
    "nv1 \<le> nv + 1" "chosen_from (if ok then insert ?here C else C) nv1 ch1"
  proof (cases ok)
    case False
    then show thesis
      using that[of nv ch g] Suc.prems(1) unfolding range_options.simps Let_def fm drop prod.case by simp
  next
    case True
    show thesis
    proof (cases "nv = 0")
      case True
      then show thesis
        using that[of 1 "int ?here" g] \<open>ok\<close> Suc.prems(1) unfolding range_options.simps Let_def fm drop prod.case
        by (simp add: chosen_from_def)
    next
      case False
      obtain r g' where r: "GenerateRandom (of_nat (nv + 1)) g = Ok (r, g')"
        using GenerateRandom_ok[of "nv + 1" g] Suc.prems(2) by auto
      have "chosen_from (insert ?here C) (nv + 1) (if r = 0 then int ?here else ch)"
        using Suc.prems(1) False by (auto simp: chosen_from_def)
      then show thesis
        using that[of "nv + 1" "if r = 0 then int ?here else ch" g'] \<open>ok\<close> False r
        unfolding range_options.simps Let_def fm drop prod.case by simp
    qed
  qed
  have "nv1 + n < 2 ^ 30" using 1(2) Suc.prems(2) by simp
  from Suc.IH[OF 1(3) this, of "Suc a" g1] obtain nv' ch' g' where
    2: "range_options count si n (Suc a) (drop_bit (Suc a * count) w) (nv1, ch1, g1) = Ok (nv', ch', g')"
    "nv' \<le> nv1 + n" "chosen_from ((if ok then insert ?here C else C) \<union> word_options count (si * 64) (Suc a) (Suc a + n) w) nv' ch'"
    by blast
  have "(if ok then insert ?here C else C) \<union> word_options count (si * 64) (Suc a) (Suc a + n) w =
      C \<union> word_options count (si * 64) a (a + Suc n) w"
    using word_options_step[of a "a + Suc n" count "si * 64" w, folded ok_def] by simp
  then show ?case using 1 2 by auto
qed

lemma range_storages_ok:
  assumes "0 < count" "count < 64"
  shows "chosen_from C nv ch \<Longrightarrow> nv + opts * length ws < 2 ^ 30 \<Longrightarrow>
    \<exists>nv' ch' g'. range_storages count opts si ws (nv, ch, g) = Ok (nv', ch', g') \<and>
      chosen_from (C \<union> (\<Union>s < length ws. word_options count ((si + s) * 64) 0 opts (ws ! s))) nv' ch'"
proof (induction ws arbitrary: C nv ch g si)
  case Nil
  then show ?case by simp
next
  case (Cons w ws)
  have "nv + opts < 2 ^ 30" using Cons.prems(2) by simp
  from range_options_ok[OF assms Cons.prems(1) this, of si 0 w g] obtain nv1 ch1 g1 where
    1: "range_options count si opts 0 w (nv, ch, g) = Ok (nv1, ch1, g1)" "nv1 \<le> nv + opts"
      "chosen_from (C \<union> word_options count (si * 64) 0 opts w) nv1 ch1" by auto
  have "nv1 + opts * length ws < 2 ^ 30" using 1(2) Cons.prems(2) by simp
  from Cons.IH[OF 1(3) this, of "si + 1" g1] obtain nv' ch' g' where
    2: "range_storages count opts (si + 1) ws (nv1, ch1, g1) = Ok (nv', ch', g')"
      "chosen_from (C \<union> word_options count (si * 64) 0 opts w \<union>
         (\<Union>s < length ws. word_options count ((si + 1 + s) * 64) 0 opts (ws ! s))) nv' ch'" by blast
  have "(\<Union>s < length (w # ws). word_options count ((si + s) * 64) 0 opts ((w # ws) ! s)) =
      word_options count (si * 64) 0 opts w \<union> (\<Union>s < length ws. word_options count ((si + 1 + s) * 64) 0 opts (ws ! s))"
    by (simp add: lessThan_Suc_eq_insert_0 add.left_commute)
  then show ?case using 1(1) 2 by (auto simp: Un_assoc)
qed

text \<open>The places \<open>FindFreeRange\<close> considers: runs of free blocks at a multiple of the count within a word.\<close>

definition free_options :: "nat \<Rightarrow> page_bitmap \<Rightarrow> nat set" where
  "free_options count bm = {s * 64 + k * count | s k. s * 64 < bitmap_capacity bm \<and> k < 64 div count \<and>
     {s * 64 + k * count..<s * 64 + k * count + count} \<subseteq> bits_of bm}"

lemma option_fits: "k < 64 div count \<Longrightarrow> k * count + count \<le> (64::nat)"
proof -
  assume "k < 64 div count"
  then have "Suc k * count \<le> 64 div count * count" by (intro mult_le_mono1) simp
  then have "count + k * count \<le> 64" using div_times_less_eq_dividend[of 64 count] by (metis mult_Suc order_trans)
  then show ?thesis by simp
qed

lemma option_free_iff:
  assumes "m_bit_storages bm \<noteq> []" "s < length (last (m_bit_storages bm))" "k < 64 div count"
  shows "(\<forall>j < count. bit (last (m_bit_storages bm) ! s) (k * count + j)) \<longleftrightarrow>
    {s * 64 + k * count..<s * 64 + k * count + count} \<subseteq> bits_of bm"
proof -
  have iff: "s * 64 + k * count + j \<in> bits_of bm \<longleftrightarrow> bit (last (m_bit_storages bm) ! s) (k * count + j)" if "j < count" for j
  proof -
    have "k * count + j < 64" using option_fits[OF assms(3)] that by simp
    then have "(s * 64 + (k * count + j)) div 64 = s" "(s * 64 + (k * count + j)) mod 64 = k * count + j" by simp_all
    then show ?thesis using bits_of_iff[OF assms(1), of "s * 64 + (k * count + j)"] assms(2) by (simp add: add.assoc)
  qed
  show ?thesis
  proof
    assume A: "\<forall>j < count. bit (last (m_bit_storages bm) ! s) (k * count + j)"
    show "{s * 64 + k * count..<s * 64 + k * count + count} \<subseteq> bits_of bm"
    proof
      fix i assume "i \<in> {s * 64 + k * count..<s * 64 + k * count + count}"
      then have "i - (s * 64 + k * count) < count" "i = s * 64 + k * count + (i - (s * 64 + k * count))" by auto
      then show "i \<in> bits_of bm" using A iff by metis
    qed
  next
    assume "{s * 64 + k * count..<s * 64 + k * count + count} \<subseteq> bits_of bm"
    then show "\<forall>j < count. bit (last (m_bit_storages bm) ! s) (k * count + j)" using iff by (auto simp: subset_iff)
  qed
qed

lemma FindFreeRange_ok:
  assumes inv: "bitmap_inv bm" and c: "0 < count" "count < 64" and cap: "bitmap_capacity bm < 2 ^ 30"
  shows "\<exists>r g. FindFreeRange count bm = Ok (r, bm\<lparr>bitmap_rng := g\<rparr>) \<and>
    (if free_options count bm = {} then r = - 1 else \<exists>i \<in> free_options count bm. r = int i)"
proof -
  note L = inv_levels[OF inv]
  let ?ws = "last (m_bit_storages bm)"
  let ?O = "\<Union>s < length ?ws. word_options count ((0 + s) * 64) 0 (64 div count) (?ws ! s)"
  have "1 \<le> 64 div count" using div_le_mono2[of count 64 64] c by simp
  then have opts: "max (64 div count) 1 = 64 div count" by simp
  have eq: "?O = free_options count bm"
  proof -
    have "i \<in> ?O \<longleftrightarrow> (\<exists>s k. i = s * 64 + k * count \<and> s < length ?ws \<and> k < 64 div count \<and>
        (\<forall>j < count. bit (?ws ! s) (k * count + j)))" for i by (auto simp: word_options_def)
    also have "\<dots> i \<longleftrightarrow> i \<in> free_options count bm" for i
      using option_free_iff[OF L(1)] unfolding free_options_def bitmap_capacity_def mem_Collect_eq
      by (metis (no_types, lifting) mult.commute mult_less_cancel2 zero_less_numeral)
    finally show ?thesis by blast
  qed
  show ?thesis
  proof (cases "?ws = []")
    case True
    then show ?thesis using L(4-6) eq by (auto simp: FindFreeRange_def Let_def intro!: exI[of _ "bitmap_rng bm"])
  next
    case False
    have "0 + 64 div count * length ?ws < 2 ^ 30"
    proof -
      have "64 div count * length ?ws \<le> bitmap_capacity bm" by (simp add: bitmap_capacity_def mult_le_mono1)
      then show ?thesis using cap by simp
    qed
    moreover have "chosen_from {} 0 (- 1)" by (simp add: chosen_from_def)
    ultimately obtain nv ch g where
      r: "range_storages count (64 div count) 0 ?ws (0, - 1, bitmap_rng bm) = Ok (nv, ch, g)"
        "chosen_from ({} \<union> ?O) nv ch" using range_storages_ok[OF c] by blast
    have "FindFreeRange count bm = Ok (ch, bm\<lparr>bitmap_rng := g\<rparr>)"
      using L(4-6) False c opts r(1) by (simp add: FindFreeRange_def Let_def)
    then show ?thesis using r(2) unfolding eq Un_empty_left chosen_from_def by metis
  qed
qed

section \<open>The interface of the bitmap\<close>

text \<open>
  What the page heap relies on: a set of free blocks below a capacity, with a search that returns a
  member when there is one, single insertions and removals, and the removal of a whole range that
  happens only when every block of the range is free.
\<close>

locale free_block_set =
  fixes inv :: "'s \<Rightarrow> bool" and free :: "'s \<Rightarrow> nat set" and cap :: "'s \<Rightarrow> nat"
    and find :: "bool \<Rightarrow> 's \<Rightarrow> (int \<times> 's) res"
    and set_bit' :: "nat \<Rightarrow> 's \<Rightarrow> 's res" and clear_bit :: "nat \<Rightarrow> 's \<Rightarrow> 's res"
    and clear_range :: "nat \<Rightarrow> nat \<Rightarrow> 's \<Rightarrow> (bool \<times> 's) res"
    and legal :: "nat \<Rightarrow> nat \<Rightarrow> nat \<Rightarrow> bool"
  assumes find_law: "inv s \<Longrightarrow> \<exists>r s'. find random s = Ok (r, s') \<and> inv s' \<and> free s' = free s \<and> cap s' = cap s \<and>
      (if free s = {} then r = - 1 else \<exists>i \<in> free s. r = int i \<and> (\<not> random \<longrightarrow> i = Min (free s)))"
    and set_law: "inv s \<Longrightarrow> i < cap s \<Longrightarrow> i \<notin> free s \<Longrightarrow>
      \<exists>s'. set_bit' i s = Ok s' \<and> inv s' \<and> free s' = insert i (free s) \<and> cap s' = cap s"
    and clear_law: "inv s \<Longrightarrow> i \<in> free s \<Longrightarrow>
      \<exists>s'. clear_bit i s = Ok s' \<and> inv s' \<and> free s' = free s - {i} \<and> cap s' = cap s"
    and range_law: "inv s \<Longrightarrow> legal off n (cap s) \<Longrightarrow>
      \<exists>s'. clear_range off n s = Ok ({off..<off + n} \<subseteq> free s, s') \<and> inv s' \<and> cap s' = cap s \<and>
        free s' = (if {off..<off + n} \<subseteq> free s then free s - {off..<off + n} else free s)"
    and free_below: "inv s \<Longrightarrow> free s \<subseteq> {..<cap s}"
begin

text \<open>Taking a block: the search followed by the removal of what it found.\<close>

lemma take_block:
  assumes "inv s"
  shows "(free s = {} \<and> (\<exists>s'. find random s = Ok (- 1, s') \<and> inv s' \<and> free s' = {} \<and> cap s' = cap s)) \<or>
    (\<exists>i s1 s2. i \<in> free s \<and> find random s = Ok (int i, s1) \<and> clear_bit i s1 = Ok s2 \<and> inv s2 \<and>
       free s2 = free s - {i} \<and> cap s2 = cap s \<and> (\<not> random \<longrightarrow> i = Min (free s)))"
proof -
  obtain r s1 where f: "find random s = Ok (r, s1)" "inv s1" "free s1 = free s" "cap s1 = cap s"
    "if free s = {} then r = - 1 else \<exists>i \<in> free s. r = int i \<and> (\<not> random \<longrightarrow> i = Min (free s))"
    using find_law[OF assms] by blast
  show ?thesis
  proof (cases "free s = {}")
    case True
    then show ?thesis using f by auto
  next
    case False
    then obtain i where i: "i \<in> free s" "r = int i" "\<not> random \<longrightarrow> i = Min (free s)" using f(5) by auto
    then obtain s2 where "clear_bit i s1 = Ok s2" "inv s2" "free s2 = free s1 - {i}" "cap s2 = cap s1"
      using clear_law[OF f(2), of i] f(3) by auto
    then show ?thesis using f i by auto
  qed
qed

text \<open>Returning a block, and taking out the range it completes.\<close>

lemma give_block:
  assumes "inv s" "i < cap s" "i \<notin> free s" "legal off n (cap s)"
  shows "\<exists>s1 s2. set_bit' i s = Ok s1 \<and> inv s1 \<and> free s1 = insert i (free s) \<and> cap s1 = cap s \<and>
    clear_range off n s1 = Ok ({off..<off + n} \<subseteq> insert i (free s), s2) \<and> inv s2 \<and> cap s2 = cap s \<and>
    free s2 = (if {off..<off + n} \<subseteq> insert i (free s) then insert i (free s) - {off..<off + n} else insert i (free s))"
proof -
  obtain s1 where s1: "set_bit' i s = Ok s1" "inv s1" "free s1 = insert i (free s)" "cap s1 = cap s"
    using set_law[OF assms(1-3)] by blast
  have "legal off n (cap s1)" using s1(4) assms(4) by (simp only:)
  note r = range_law[OF s1(2) this, unfolded s1(3,4)]
  then obtain s2 where "clear_range off n s1 = Ok ({off..<off + n} \<subseteq> insert i (free s), s2) \<and> inv s2 \<and> cap s2 = cap s \<and>
    free s2 = (if {off..<off + n} \<subseteq> insert i (free s) then insert i (free s) - {off..<off + n} else insert i (free s))" ..
  with s1 show ?thesis by (intro exI[of _ s1] exI[of _ s2] conjI) (simp_all only: conj_assoc)
qed

lemma take_give_restores:
  assumes "inv s" "free s \<noteq> {}"
  shows "\<exists>i s1 s2 s3. find random s = Ok (int i, s1) \<and> clear_bit i s1 = Ok s2 \<and> set_bit' i s2 = Ok s3 \<and>
    inv s3 \<and> free s3 = free s \<and> cap s3 = cap s"
proof -
  obtain i s1 s2 where i: "i \<in> free s" "find random s = Ok (int i, s1)" "clear_bit i s1 = Ok s2" "inv s2"
    "free s2 = free s - {i}" "cap s2 = cap s" using take_block[OF assms(1), of random] assms(2) by blast
  then show ?thesis using set_law[OF i(4), of i] free_below[OF assms(1)] by (auto simp: insert_absorb)
qed

end

lemma bitmap_rng_frame [simp]:
  "bits_of (bm\<lparr>bitmap_rng := g\<rparr>) = bits_of bm" "bitmap_inv (bm\<lparr>bitmap_rng := g\<rparr>) = bitmap_inv bm"
  "bitmap_capacity (bm\<lparr>bitmap_rng := g\<rparr>) = bitmap_capacity bm"
  by (simp_all add: bits_of_def bitmap_inv_def bitmap_capacity_def)

lemma bitmap_capacity_same:
  "map length (m_bit_storages bm') = map length (m_bit_storages bm) \<Longrightarrow> bitmap_capacity bm' = bitmap_capacity bm"
  unfolding bitmap_capacity_def by (metis last_map list.map_disc_iff)

lemma ClearRange_ok:
  assumes "bitmap_inv bm" "legal_range off n (bitmap_capacity bm)"
  shows "\<exists>bm'. ClearRange off n bm = Ok ({off..<off + n} \<subseteq> bits_of bm, bm') \<and> bitmap_inv bm' \<and>
    bitmap_capacity bm' = bitmap_capacity bm \<and>
    bits_of bm' = (if {off..<off + n} \<subseteq> bits_of bm then bits_of bm - {off..<off + n} else bits_of bm)"
proof -
  let ?S = "{off..<off + n}"
  obtain bm' where c: "ClearRange off n bm = Ok (?S \<subseteq> bits_of bm, bm')"
    "if ?S \<subseteq> bits_of bm then bitmap_inv bm' \<and> bits_of bm' = bits_of bm - ?S \<and>
       map length (m_bit_storages bm') = map length (m_bit_storages bm) \<and> m_num_bits bm' = m_num_bits bm - of_nat n
     else bm' = bm"
    by (cases "n < 64") (use ClearRange_small[OF assms] ClearRange_large[OF assms] that in blast)+
  have "bitmap_inv bm' \<and> bitmap_capacity bm' = bitmap_capacity bm \<and>
      bits_of bm' = (if ?S \<subseteq> bits_of bm then bits_of bm - ?S else bits_of bm)"
  proof (cases "?S \<subseteq> bits_of bm")
    case True
    then show ?thesis using c(2)[unfolded if_P[OF True]] bitmap_capacity_same[of bm' bm] unfolding if_P[OF True] by blast
  next
    case False
    then show ?thesis using c(2)[unfolded if_not_P[OF False]] assms(1) unfolding if_not_P[OF False] by blast
  qed
  then show ?thesis using c(1) by blast
qed

interpretation bitmap: free_block_set bitmap_inv bits_of bitmap_capacity FindFreeBlock SetBit ClearBit ClearRange legal_range
proof
  fix s random assume "bitmap_inv s"
  then obtain r g where "FindFreeBlock random s = Ok (r, s\<lparr>bitmap_rng := g\<rparr>)"
    "if bits_of s = {} then r = - 1 else \<exists>i \<in> bits_of s. r = int i \<and> (\<not> random \<longrightarrow> i = Min (bits_of s))"
    using FindFreeBlock_ok by blast
  then show "\<exists>r s'. FindFreeBlock random s = Ok (r, s') \<and> bitmap_inv s' \<and> bits_of s' = bits_of s \<and>
      bitmap_capacity s' = bitmap_capacity s \<and>
      (if bits_of s = {} then r = - 1 else \<exists>i \<in> bits_of s. r = int i \<and> (\<not> random \<longrightarrow> i = Min (bits_of s)))"
    using \<open>bitmap_inv s\<close> by (intro exI[of _ r] exI[of _ "s\<lparr>bitmap_rng := g\<rparr>"]) simp
next
  fix s i assume "bitmap_inv s" "i < bitmap_capacity s" "i \<notin> bits_of s"
  then show "\<exists>s'. SetBit i s = Ok s' \<and> bitmap_inv s' \<and> bits_of s' = insert i (bits_of s) \<and> bitmap_capacity s' = bitmap_capacity s"
    using SetBit_ok bitmap_capacity_same by blast
next
  fix s i assume "bitmap_inv s" "i \<in> bits_of s"
  then show "\<exists>s'. ClearBit i s = Ok s' \<and> bitmap_inv s' \<and> bits_of s' = bits_of s - {i} \<and> bitmap_capacity s' = bitmap_capacity s"
    using ClearBit_ok bitmap_capacity_same by blast
next
  fix s off n assume "bitmap_inv s" "legal_range off n (bitmap_capacity s)"
  then show "\<exists>s'. ClearRange off n s = Ok ({off..<off + n} \<subseteq> bits_of s, s') \<and> bitmap_inv s' \<and> bitmap_capacity s' = bitmap_capacity s \<and>
      bits_of s' = (if {off..<off + n} \<subseteq> bits_of s then bits_of s - {off..<off + n} else bits_of s)"
    using ClearRange_ok by blast
next
  fix s assume "bitmap_inv s"
  show "bits_of s \<subseteq> {..<bitmap_capacity s}" by (auto simp: bits_of_def bitmap_capacity_def)
qed

section \<open>The properties of the bitmap\<close>

text \<open>A bitmap of 128 blocks in which the blocks 5, 6 and 7 are free.\<close>

definition demo_bitmap :: page_bitmap where
  "demo_bitmap = \<lparr>m_bit_storages = [[1], [0xE0, 0]],
     bitmap_rng = \<lparr>m_rng = \<lparr>mt0 = 1, mt1 = 2, mt2 = 3, mt3 = 4\<rparr>, m_entropy = 0, m_bits_available = 0\<rparr>,
     m_num_bits = 3, m_used_depths = 2\<rparr>"

lemma demo_word: "j < 64 \<Longrightarrow> bit (0xE0 :: u64) j \<longleftrightarrow> j \<in> {5, 6, 7}"
proof -
  have "\<forall>j \<in> set [0..<64]. bit (0xE0 :: u64) j \<longleftrightarrow> j \<in> {5, 6, 7}" by code_simp
  then show "j < 64 \<Longrightarrow> ?thesis" by simp
qed

lemma demo_bitmap_bits: "bits_of demo_bitmap = {5, 6, 7}" "bitmap_capacity demo_bitmap = 128"
proof -
  have "i \<in> bits_of demo_bitmap \<longleftrightarrow> i \<in> {5, 6, 7}" for i
  proof (cases "i < 64")
    case True
    then show ?thesis using demo_word[of i] by (simp add: bits_of_def demo_bitmap_def lbit_def)
  next
    case False
    then have "i div 64 = 1" if "i < 128" using that by simp
    then show ?thesis using False by (auto simp: bits_of_def demo_bitmap_def lbit_def)
  qed
  then show "bits_of demo_bitmap = {5, 6, 7}" by blast
  show "bitmap_capacity demo_bitmap = 128" by (simp add: bitmap_capacity_def demo_bitmap_def)
qed

lemma demo_bitmap_inv: "bitmap_inv demo_bitmap"
proof -
  have "lbit [[1], [0xE0, 0]] 0 i \<longleftrightarrow> i < 2 \<and> [0xE0, 0 :: u64] ! i \<noteq> 0" if "i < 64" for i
    using that by (cases "i = 0"; cases "i = 1") (auto simp: lbit_def bit_1_iff)
  then show ?thesis
    using demo_bitmap_bits(1)
    by (auto simp: bitmap_inv_def demo_bitmap_def shape_def linked_def less_Suc_eq numeral_2_eq_2)
qed

text \<open>
  Claim C37. The page bitmap implements a set of free blocks: setting a clear bit inserts the block,
  clearing a set bit removes it, and clearing a range succeeds exactly when every block of the range
  is free and then removes the range and nothing else. The invariant, in which every bit of an upper
  level says whether the word below is nonzero, is kept by all three, and the counter is the number
  of free blocks.
\<close>
theorem page_bitmap_refines_free_set:
  assumes "bitmap_inv bm"
  shows "GetNumBits bm = of_nat (card (bits_of bm)) \<and>
    (i < bitmap_capacity bm \<and> i \<notin> bits_of bm \<longrightarrow>
       (\<exists>bm'. SetBit i bm = Ok bm' \<and> bitmap_inv bm' \<and> bitmap_capacity bm' = bitmap_capacity bm \<and>
          bits_of bm' = insert i (bits_of bm))) \<and>
    (i \<in> bits_of bm \<longrightarrow>
       (\<exists>bm'. ClearBit i bm = Ok bm' \<and> bitmap_inv bm' \<and> bitmap_capacity bm' = bitmap_capacity bm \<and>
          bits_of bm' = bits_of bm - {i})) \<and>
    (legal_range off n (bitmap_capacity bm) \<longrightarrow>
       (\<exists>bm'. ClearRange off n bm = Ok ({off..<off + n} \<subseteq> bits_of bm, bm') \<and> bitmap_inv bm' \<and>
          bitmap_capacity bm' = bitmap_capacity bm \<and>
          bits_of bm' = (if {off..<off + n} \<subseteq> bits_of bm then bits_of bm - {off..<off + n} else bits_of bm)))"
proof (intro conjI impI)
  show "GetNumBits bm = of_nat (card (bits_of bm))" using assms by (simp add: GetNumBits_def bitmap_inv_def)
qed (use bitmap.set_law[OF assms, of i] bitmap.clear_law[OF assms, of i] bitmap.range_law[OF assms, of off n] in blast)+

theorem page_bitmap_refines_free_set_witness:
  "(\<exists>bm'. SetBit 70 demo_bitmap = Ok bm' \<and> bits_of bm' = {5, 6, 7, 70}) \<and>
   (\<exists>bm'. ClearRange 6 2 demo_bitmap = Ok (True, bm') \<and> bits_of bm' = {5})"
proof -
  have range: "{6..<6 + 2} = {6, 7::nat}" by auto
  have legal: "legal_range 6 2 (bitmap_capacity demo_bitmap)" by (simp add: legal_range_def demo_bitmap_bits)
  note p = page_bitmap_refines_free_set[OF demo_bitmap_inv, of 70 6 2, unfolded demo_bitmap_bits(1) range]
  have "\<exists>bm'. SetBit 70 demo_bitmap = Ok bm' \<and> bits_of bm' = insert 70 {5, 6, 7}"
    using p demo_bitmap_bits(2) by auto
  moreover have "{6, 7} \<subseteq> {5, 6, 7::nat}" "{5, 6, 7} - {6, 7} = {5::nat}" by auto
  then have "\<exists>bm'. ClearRange 6 2 demo_bitmap = Ok (True, bm') \<and> bits_of bm' = {5}"
    using p legal by auto
  ultimately show ?thesis by (simp add: insert_commute)
qed

text \<open>
  Claim C38. \<open>FindFreeBlock\<close> returns -1 exactly when no block is free, and otherwise the number of a
  free block: the lowest one without randomisation, some free block with it, whatever the random
  numbers are. It changes nothing but the random state.
\<close>
theorem page_bitmap_find_free_block:
  assumes "bitmap_inv bm"
  shows "\<exists>r g. FindFreeBlock random bm = Ok (r, bm\<lparr>bitmap_rng := g\<rparr>) \<and>
    (r = - 1 \<longleftrightarrow> bits_of bm = {}) \<and>
    (bits_of bm \<noteq> {} \<longrightarrow> (\<exists>i \<in> bits_of bm. r = int i \<and> (\<not> random \<longrightarrow> i = Min (bits_of bm))))"
proof -
  obtain r g where r: "FindFreeBlock random bm = Ok (r, bm\<lparr>bitmap_rng := g\<rparr>)"
    "if bits_of bm = {} then r = - 1 else \<exists>i \<in> bits_of bm. r = int i \<and> (\<not> random \<longrightarrow> i = Min (bits_of bm))"
    using FindFreeBlock_ok[OF assms] by blast
  then show ?thesis by (intro exI[of _ r] exI[of _ g]) (auto split: if_splits)
qed

theorem page_bitmap_find_free_block_witness:
  "\<exists>g. FindFreeBlock False demo_bitmap = Ok (5, demo_bitmap\<lparr>bitmap_rng := g\<rparr>)"
proof -
  have "Min {5, 6, 7 :: nat} = 5" by simp
  then show ?thesis using page_bitmap_find_free_block[OF demo_bitmap_inv, of False] by (auto simp: demo_bitmap_bits)
qed

text \<open>
  Claim C39. \<open>FindFreeRange\<close> finds a run of free blocks among the aligned places inside the words of
  the lowest level whenever there is one, and returns -1 when there is none; the run it returns is
  one that \<open>ClearRange\<close> then takes out completely. The bound on the capacity keeps the number of
  random bits per choice below 32; the bitmaps that \<open>Initialize\<close> accepts are well below it.
\<close>
theorem page_bitmap_find_free_range:
  assumes "bitmap_inv bm" "0 < count" "count < 64" "bitmap_capacity bm < 2 ^ 30"
  shows "\<exists>r g. FindFreeRange count bm = Ok (r, bm\<lparr>bitmap_rng := g\<rparr>) \<and>
    (r = - 1 \<longleftrightarrow> free_options count bm = {}) \<and>
    (r \<noteq> - 1 \<longrightarrow> (\<exists>bm'. nat r \<in> free_options count bm \<and> {nat r..<nat r + count} \<subseteq> bits_of bm \<and>
       ClearRange (nat r) count (bm\<lparr>bitmap_rng := g\<rparr>) = Ok (True, bm') \<and> bitmap_inv bm' \<and>
       bits_of bm' = bits_of bm - {nat r..<nat r + count}))"
proof -
  obtain r g where r: "FindFreeRange count bm = Ok (r, bm\<lparr>bitmap_rng := g\<rparr>)"
    "if free_options count bm = {} then r = - 1 else \<exists>i \<in> free_options count bm. r = int i"
    using FindFreeRange_ok[OF assms] by blast
  have "\<exists>bm'. {i..<i + count} \<subseteq> bits_of bm \<and> ClearRange i count (bm\<lparr>bitmap_rng := g\<rparr>) = Ok (True, bm') \<and>
      bitmap_inv bm' \<and> bits_of bm' = bits_of bm - {i..<i + count}" if mem: "i \<in> free_options count bm" for i
  proof -
    obtain s k where i: "i = s * 64 + k * count" "k < 64 div count" and sub: "{i..<i + count} \<subseteq> bits_of bm"
      using mem unfolding free_options_def by blast
    have kc: "k * count + count \<le> 64" using option_fits[OF i(2)] .
    then have "k * count < 64" using assms(2) by linarith
    then have "i mod 64 = k * count" using i(1) by simp
    moreover have "i + count - 1 \<in> bits_of bm" using sub assms(2) by (auto simp: subset_iff)
    then have "i + count \<le> bitmap_capacity bm" using bitmap.free_below[OF assms(1)] by force
    ultimately have "legal_range i count (bitmap_capacity (bm\<lparr>bitmap_rng := g\<rparr>))"
      using assms(2,3) kc by (simp add: legal_range_def)
    from ClearRange_ok[OF _ this] assms(1) sub show ?thesis by (auto simp: if_P)
  qed
  note take = this
  show ?thesis
  proof (cases "free_options count bm = {}")
    case True
    then show ?thesis using r by auto
  next
    case False
    then obtain i where "i \<in> free_options count bm" "r = int i" using r(2) by auto
    then show ?thesis using r(1) take[of i] False by (intro exI[of _ r] exI[of _ g]) simp
  qed
qed

theorem page_bitmap_find_free_range_witness:
  "\<exists>r g bm'. FindFreeRange 2 demo_bitmap = Ok (r, demo_bitmap\<lparr>bitmap_rng := g\<rparr>) \<and> r \<noteq> - 1 \<and>
     ClearRange (nat r) 2 (demo_bitmap\<lparr>bitmap_rng := g\<rparr>) = Ok (True, bm') \<and> bits_of bm' \<subseteq> {5, 6, 7}"
proof -
  have "{0 * 64 + 3 * 2..<0 * 64 + 3 * 2 + 2} \<subseteq> {5, 6, 7::nat}" by auto
  then have "0 * 64 + 3 * 2 \<in> free_options 2 demo_bitmap"
    unfolding free_options_def demo_bitmap_bits by (intro CollectI exI[of _ 0] exI[of _ 3]) auto
  then have "free_options 2 demo_bitmap \<noteq> {}" by blast
  then show ?thesis
    using page_bitmap_find_free_range[OF demo_bitmap_inv, of 2] unfolding demo_bitmap_bits by fastforce
qed

end
