(* ===== verification/Page_Heap.thy ===== *)
theory Page_Heap
  imports Memory_Block Page_Bitmap
begin

text \<open>
  The allocator of physical pages, \<^verbatim>\<open>src/src/core/hle/kernel/k_page_heap.h\<close> and \<^verbatim>\<open>k_page_heap.cpp\<close>: seven
  sizes of blocks, from a page to a gigabyte, each with a bitmap of the free blocks of that size. A
  block that is freed is merged with its neighbours into a block of the next size when they fill one;
  an allocation takes a block of the wanted size or cuts a larger one and frees the rest. The heap's
  array of block descriptors is a list; the vector of management words is handed to the bitmaps as a
  list of words, zero when the heap is new. Addresses and sizes are 64-bit words. A loop whose address
  wraps around the end of the address space, after which it would run through addresses outside the
  heap, is \<open>UB\<close>.
\<close>

section \<open>Block descriptors\<close>

definition NumMemoryBlockPageShifts :: nat where "NumMemoryBlockPageShifts = 7"

definition MemoryBlockPageShifts :: "nat list" where
  "MemoryBlockPageShifts = [0xC, 0x10, 0x15, 0x16, 0x19, 0x1D, 0x1E]"

record heap_block =
  hb_bitmap :: page_bitmap
  hb_heap_address :: u64
  hb_end_offset :: u64
  hb_block_shift :: nat
  hb_next_block_shift :: nat

definition Block_new :: "random_bits \<Rightarrow> heap_block" where
  "Block_new g = \<lparr>hb_bitmap = \<lparr>m_bit_storages = [], bitmap_rng = g, m_num_bits = 0, m_used_depths = 0\<rparr>,
     hb_heap_address = 0, hb_end_offset = 0, hb_block_shift = 0, hb_next_block_shift = 0\<rparr>"

definition Block_GetSize :: "heap_block \<Rightarrow> u64" where
  "Block_GetSize b = push_bit (hb_block_shift b) 1"

definition Block_GetNumPages :: "heap_block \<Rightarrow> u64" where
  "Block_GetNumPages b = Block_GetSize b div PageSize"

definition Block_GetNumFreeBlocks :: "heap_block \<Rightarrow> u64" where
  "Block_GetNumFreeBlocks b = GetNumBits (hb_bitmap b)"

definition Block_GetNumFreePages :: "heap_block \<Rightarrow> u64" where
  "Block_GetNumFreePages b = Block_GetNumFreeBlocks b * Block_GetNumPages b"

definition Block_Initialize ::
  "u64 \<Rightarrow> u64 \<Rightarrow> nat \<Rightarrow> nat \<Rightarrow> u64 list \<Rightarrow> heap_block \<Rightarrow> (heap_block \<times> u64 list) res" where
  "Block_Initialize addr size' bs nbs bit_storage b =
     (if bs \<ge> 64 \<or> nbs \<ge> 64 then UB
      else
        let align = (if nbs \<noteq> 0 then push_bit nbs 1 else push_bit bs 1);
            addr' = AlignDown addr align;
            end' = AlignUp (addr + size') align;
            end_offset = (end' - addr') div push_bit bs 1
        in bind_res (KPageBitmap_Initialize bit_storage (unat end_offset) (bitmap_rng (hb_bitmap b)))
             (\<lambda>(bitmap, rest).
                Ok (\<lparr>hb_bitmap = bitmap, hb_heap_address = addr', hb_end_offset = end_offset,
                     hb_block_shift = bs, hb_next_block_shift = nbs\<rparr>, rest)))"

text \<open>The returned address is 0 when no larger block has been formed.\<close>

definition PushBlock :: "u64 \<Rightarrow> heap_block \<Rightarrow> (u64 \<times> heap_block) res" where
  "PushBlock address b =
     (let offset = drop_bit (hb_block_shift b) (address - hb_heap_address b) in
      bind_res (SetBit (unat offset) (hb_bitmap b)) (\<lambda>bitmap1.
        if hb_next_block_shift b \<noteq> 0 then
          let diff = push_bit (hb_next_block_shift b - hb_block_shift b) 1;
              offset' = AlignDown offset diff
          in bind_res (ClearRange (unat offset') (unat diff) bitmap1) (\<lambda>(cleared, bitmap2).
               Ok (if cleared then hb_heap_address b + push_bit (hb_block_shift b) offset' else 0,
                   b\<lparr>hb_bitmap := bitmap2\<rparr>))
        else Ok (0, b\<lparr>hb_bitmap := bitmap1\<rparr>)))"

definition PopBlock :: "bool \<Rightarrow> heap_block \<Rightarrow> (u64 \<times> heap_block) res" where
  "PopBlock random b =
     bind_res (FindFreeBlock random (hb_bitmap b)) (\<lambda>(soffset, bitmap1).
       if soffset < 0 then Ok (0, b\<lparr>hb_bitmap := bitmap1\<rparr>)
       else
         let offset = nat soffset in
         bind_res (ClearBit offset bitmap1) (\<lambda>bitmap2.
           Ok (hb_heap_address b + push_bit (hb_block_shift b) (of_nat offset), b\<lparr>hb_bitmap := bitmap2\<rparr>)))"

definition Block_CalculateManagementOverheadSize :: "u64 \<Rightarrow> nat \<Rightarrow> nat \<Rightarrow> nat" where
  "Block_CalculateManagementOverheadSize region_size cur_block_shift next_block_shift =
     (let cur_block_size = push_bit cur_block_shift 1;
          next_block_size = push_bit next_block_shift 1;
          align = (if next_block_shift \<noteq> 0 then next_block_size else cur_block_size)
      in CalculateManagementOverheadSize (unat ((align * 2 + AlignUp region_size align) div cur_block_size)))"

section \<open>The heap\<close>

record page_heap =
  m_heap_address :: u64
  m_heap_size :: u64
  m_initial_used_size :: u64
  m_num_blocks :: nat
  m_blocks :: "heap_block list"
  heap_rng :: random_bits

definition KPageHeap_new :: "random_bits list \<Rightarrow> random_bits \<Rightarrow> page_heap" where
  "KPageHeap_new gs g = \<lparr>m_heap_address = 0, m_heap_size = 0, m_initial_used_size = 0, m_num_blocks = 0,
     m_blocks = map Block_new (take NumMemoryBlockPageShifts gs), heap_rng = g\<rparr>"

definition KPageHeap_GetEndAddress :: "page_heap \<Rightarrow> u64" where
  "KPageHeap_GetEndAddress h = m_heap_address h + m_heap_size h"

definition GetPageOffset :: "u64 \<Rightarrow> page_heap \<Rightarrow> u64" where
  "GetPageOffset block h = (block - m_heap_address h) div PageSize"

definition GetPageOffsetToEnd :: "u64 \<Rightarrow> page_heap \<Rightarrow> u64" where
  "GetPageOffsetToEnd block h = (KPageHeap_GetEndAddress h - block) div PageSize"

definition GetAlignedBlockIndex :: "nat \<Rightarrow> nat \<Rightarrow> int" where
  "GetAlignedBlockIndex num_pages align_pages =
     (let target_pages = max num_pages align_pages in
      case filter (\<lambda>i. target_pages \<le> 2 ^ (MemoryBlockPageShifts ! i) div unat PageSize) [0..<NumMemoryBlockPageShifts] of
        [] \<Rightarrow> - 1
      | i # _ \<Rightarrow> int i)"

fun GetBlockIndex_loop :: "nat \<Rightarrow> nat \<Rightarrow> int" where
  "GetBlockIndex_loop num_pages 0 = - 1"
| "GetBlockIndex_loop num_pages (Suc i) =
     (if num_pages \<ge> 2 ^ (MemoryBlockPageShifts ! i) div unat PageSize then int i
      else GetBlockIndex_loop num_pages i)"

definition GetBlockIndex :: "nat \<Rightarrow> int" where
  "GetBlockIndex num_pages = GetBlockIndex_loop num_pages NumMemoryBlockPageShifts"

definition GetBlockSize :: "nat \<Rightarrow> nat res" where
  "GetBlockSize index = (if index < NumMemoryBlockPageShifts then Ok (2 ^ (MemoryBlockPageShifts ! index)) else UB)"

definition GetBlockNumPages :: "nat \<Rightarrow> nat res" where
  "GetBlockNumPages index = bind_res (GetBlockSize index) (\<lambda>sz. Ok (sz div unat PageSize))"

fun Initialize_blocks :: "u64 \<Rightarrow> u64 \<Rightarrow> nat list \<Rightarrow> u64 list \<Rightarrow> heap_block list \<Rightarrow> heap_block list res" where
  "Initialize_blocks addr sz [] storage bs = Ok bs"
| "Initialize_blocks addr sz (s # ss) storage [] = UB"
| "Initialize_blocks addr sz (s # ss) storage (b # bs) =
     bind_res (Block_Initialize addr sz s (case ss of [] \<Rightarrow> 0 | n # _ \<Rightarrow> n) storage b) (\<lambda>(b', storage').
       bind_res (Initialize_blocks addr sz ss storage' bs) (\<lambda>bs'. Ok (b' # bs')))"

definition KPageHeap_Initialize_shifts :: "u64 \<Rightarrow> u64 \<Rightarrow> u64 \<Rightarrow> nat list \<Rightarrow> page_heap \<Rightarrow> page_heap res" where
  "KPageHeap_Initialize_shifts address sz management_size block_shifts h =
     bind_res (Initialize_blocks address sz block_shifts (replicate (unat (management_size div 8)) 0) (m_blocks h))
       (\<lambda>bs. Ok (h\<lparr>m_heap_address := address, m_heap_size := sz, m_num_blocks := length block_shifts, m_blocks := bs\<rparr>))"

definition KPageHeap_Initialize :: "u64 \<Rightarrow> u64 \<Rightarrow> u64 \<Rightarrow> page_heap \<Rightarrow> page_heap res" where
  "KPageHeap_Initialize address sz management_size h =
     KPageHeap_Initialize_shifts address sz management_size MemoryBlockPageShifts h"

definition GetNumFreePages :: "page_heap \<Rightarrow> u64" where
  "GetNumFreePages h = sum_list (map Block_GetNumFreePages (take (m_num_blocks h) (m_blocks h)))"

definition GetFreeSize :: "page_heap \<Rightarrow> u64" where
  "GetFreeSize h = GetNumFreePages h * PageSize"

definition SetInitialUsedSize :: "u64 \<Rightarrow> page_heap \<Rightarrow> page_heap" where
  "SetInitialUsedSize reserved_size h =
     h\<lparr>m_initial_used_size := m_heap_size h - GetNumFreePages h * PageSize - reserved_size\<rparr>"

section \<open>Freeing\<close>

function FreeBlock :: "u64 \<Rightarrow> nat \<Rightarrow> heap_block list \<Rightarrow> heap_block list res" where
  "FreeBlock block index bs =
     (if index \<ge> length bs then UB
      else bind_res (PushBlock block (bs ! index)) (\<lambda>(block', b').
        let bs' = bs[index := b'] in
        if block' = 0 then Ok bs' else FreeBlock block' (index + 1) bs'))"
  by pat_completeness auto
termination by (relation "measure (\<lambda>(a, index, bs). length bs - index)") auto

declare FreeBlock.simps [simp del]

fun find_big :: "u64 \<Rightarrow> u64 \<Rightarrow> heap_block list \<Rightarrow> nat \<Rightarrow> (nat \<times> u64 \<times> u64) option" where
  "find_big start end' bs 0 = None"
| "find_big start end' bs (Suc i) =
     (let block_size = Block_GetSize (bs ! i);
          big_start = AlignUp start block_size;
          big_end = AlignDown end' block_size
      in if big_start < big_end then Some (i, big_start, big_end) else find_big start end' bs i)"

function free_big :: "u64 \<Rightarrow> u64 \<Rightarrow> nat \<Rightarrow> u64 \<Rightarrow> heap_block list \<Rightarrow> heap_block list res" where
  "free_big block_size big_end i block bs =
     (if block < big_end then
        if block + block_size \<le> block then UB
        else bind_res (FreeBlock block i bs) (free_big block_size big_end i (block + block_size))
      else Ok bs)"
  by pat_completeness auto
termination
  by (relation "measure (\<lambda>(sz, e, i, block, bs). unat e - unat block)")
    (auto simp: word_less_nat_alt word_le_nat_alt)

declare free_big.simps [simp del]

function free_before :: "u64 \<Rightarrow> u64 \<Rightarrow> nat \<Rightarrow> u64 \<Rightarrow> heap_block list \<Rightarrow> (u64 \<times> heap_block list) res" where
  "free_before before_start block_size i before_end bs =
     (if before_start + block_size \<le> before_end then
        if block_size = 0 \<or> before_start + block_size < block_size then UB
        else bind_res (FreeBlock (before_end - block_size) i bs)
               (free_before before_start block_size i (before_end - block_size))
      else Ok (before_end, bs))"
  by pat_completeness auto
termination
proof (relation "measure (\<lambda>(s, sz, i, e, bs). unat e)", goal_cases)
  case 1
  then show ?case by simp
next
  case (2 s sz i e bs x)
  then have "0 < unat sz" "unat sz \<le> unat e"
    by (auto simp: word_less_nat_alt word_le_nat_alt unat_gt_0)
  then show ?case by (simp add: unat_diff_no_wrap)
qed

declare free_before.simps [simp del]

fun free_before_levels :: "u64 \<Rightarrow> nat \<Rightarrow> u64 \<Rightarrow> heap_block list \<Rightarrow> heap_block list res" where
  "free_before_levels before_start 0 before_end bs = Ok bs"
| "free_before_levels before_start (Suc i) before_end bs =
     bind_res (free_before before_start (Block_GetSize (bs ! i)) i before_end bs)
       (\<lambda>(before_end', bs'). free_before_levels before_start i before_end' bs')"

function free_after :: "u64 \<Rightarrow> u64 \<Rightarrow> nat \<Rightarrow> u64 \<Rightarrow> heap_block list \<Rightarrow> (u64 \<times> heap_block list) res" where
  "free_after after_end block_size i after_start bs =
     (if after_start + block_size \<le> after_end then
        if after_start + block_size \<le> after_start then UB
        else bind_res (FreeBlock after_start i bs) (free_after after_end block_size i (after_start + block_size))
      else Ok (after_start, bs))"
  by pat_completeness auto
termination
  by (relation "measure (\<lambda>(e, sz, i, s, bs). unat e - unat s)")
    (auto simp: word_less_nat_alt word_le_nat_alt)

declare free_after.simps [simp del]

fun free_after_levels :: "u64 \<Rightarrow> nat \<Rightarrow> u64 \<Rightarrow> heap_block list \<Rightarrow> heap_block list res" where
  "free_after_levels after_end 0 after_start bs = Ok bs"
| "free_after_levels after_end (Suc i) after_start bs =
     bind_res (free_after after_end (Block_GetSize (bs ! i)) i after_start bs)
       (\<lambda>(after_start', bs'). free_after_levels after_end i after_start' bs')"

definition Free_blocks :: "nat \<Rightarrow> u64 \<Rightarrow> u64 \<Rightarrow> heap_block list \<Rightarrow> heap_block list res" where
  "Free_blocks num_blocks addr num_pages bs =
     (if num_pages = 0 then Ok bs
      else if num_blocks > length bs then UB
      else
        let start = addr; end' = addr + num_pages * PageSize in
        case find_big start end' bs num_blocks of
          None \<Rightarrow> Ok bs
        | Some (big_index, big_start, big_end) \<Rightarrow>
            bind_res (free_big (Block_GetSize (bs ! big_index)) big_end big_index big_start bs) (\<lambda>bs1.
            bind_res (free_before_levels start big_index big_start bs1)
              (free_after_levels end' big_index big_end)))"

definition KPageHeap_Free :: "u64 \<Rightarrow> u64 \<Rightarrow> page_heap \<Rightarrow> page_heap res" where
  "KPageHeap_Free addr num_pages h =
     bind_res (Free_blocks (m_num_blocks h) addr num_pages (m_blocks h)) (\<lambda>bs. Ok (h\<lparr>m_blocks := bs\<rparr>))"

section \<open>Allocating\<close>

fun linear_search :: "nat \<Rightarrow> u64 \<Rightarrow> nat list \<Rightarrow> heap_block list \<Rightarrow> (u64 \<times> heap_block list) res" where
  "linear_search num_blocks needed_size [] bs = Ok (0, bs)"
| "linear_search num_blocks needed_size (i # is) bs =
     (if i \<ge> length bs then UB
      else bind_res (PopBlock False (bs ! i)) (\<lambda>(addr, b').
        let bs' = bs[i := b']; allocated_size = Block_GetSize b' in
        if addr \<noteq> 0 then
          if allocated_size > needed_size then
            bind_res (Free_blocks num_blocks (addr + needed_size) ((allocated_size - needed_size) div PageSize) bs')
              (\<lambda>bs''. Ok (addr, bs''))
          else Ok (addr, bs')
        else linear_search num_blocks needed_size is bs'))"

definition AllocateByLinearSearch :: "nat \<Rightarrow> page_heap \<Rightarrow> (u64 \<times> page_heap) res" where
  "AllocateByLinearSearch index h =
     (if index \<ge> length (m_blocks h) then UB
      else bind_res (linear_search (m_num_blocks h) (Block_GetSize (m_blocks h ! index)) [index..<m_num_blocks h] (m_blocks h))
        (\<lambda>(addr, bs). Ok (addr, h\<lparr>m_blocks := bs\<rparr>)))"

definition block_alignments :: "u64 \<Rightarrow> nat \<Rightarrow> heap_block \<Rightarrow> u64" where
  "block_alignments needed_size align_shift b =
     (1 + drop_bit align_shift (Block_GetSize b - needed_size)) * Block_GetNumFreeBlocks b"

fun count_alignments :: "heap_block list \<Rightarrow> u64 \<Rightarrow> nat \<Rightarrow> nat \<Rightarrow> nat list \<Rightarrow> u64 \<Rightarrow> u64 \<times> nat" where
  "count_alignments bs needed_size align_shift max_blocks [] possible = (possible, max_blocks)"
| "count_alignments bs needed_size align_shift max_blocks (i # is) possible =
     (let possible' = possible + block_alignments needed_size align_shift (bs ! i) in
      if possible' \<ge> 4 then (possible', i + 1)
      else count_alignments bs needed_size align_shift max_blocks is possible')"

fun choose_block :: "heap_block list \<Rightarrow> u64 \<Rightarrow> nat \<Rightarrow> u64 \<Rightarrow> nat \<Rightarrow> nat list \<Rightarrow> u64 \<Rightarrow> nat" where
  "choose_block bs needed_size align_shift rnd index [] possible = index"
| "choose_block bs needed_size align_shift rnd index (i # is) possible =
     (let possible' = possible + block_alignments needed_size align_shift (bs ! i) in
      if rnd < possible' then i
      else choose_block bs needed_size align_shift rnd index is possible')"

text \<open>The cut of a popped block: a random aligned place in it, and the two rests freed.\<close>

definition cut_block ::
  "nat \<Rightarrow> u64 \<Rightarrow> nat \<Rightarrow> u64 \<Rightarrow> u64 \<Rightarrow> heap_block list \<Rightarrow> random_bits \<Rightarrow> (u64 \<times> heap_block list \<times> random_bits) res" where
  "cut_block num_blocks needed_size align_shift leftover_size addr bs g =
     bind_res (GenerateRandom (1 + drop_bit align_shift leftover_size) g) (\<lambda>(rnd, g').
       let random_offset = push_bit align_shift rnd in
       bind_res (if random_offset \<noteq> 0 then Free_blocks num_blocks addr (random_offset div PageSize) bs else Ok bs) (\<lambda>bs1.
         let addr' = addr + random_offset in
         bind_res (if random_offset \<noteq> leftover_size
                   then Free_blocks num_blocks (addr' + needed_size) ((leftover_size - random_offset) div PageSize) bs1
                   else Ok bs1) (\<lambda>bs2. Ok (addr', bs2, g'))))"

definition AllocateByRandom :: "nat \<Rightarrow> u64 \<Rightarrow> u64 \<Rightarrow> page_heap \<Rightarrow> (u64 \<times> page_heap) res" where
  "AllocateByRandom index num_pages align_pages h =
     (let needed_size = num_pages * PageSize;
          align_size = align_pages * PageSize;
          align_shift = countr_zero align_size;
          bs = m_blocks h
      in if m_num_blocks h > length bs \<or> align_shift \<ge> 64 then UB
         else
           let (possible, max_blocks) =
                 count_alignments bs needed_size align_shift (m_num_blocks h) [index..<m_num_blocks h] 0
           in bind_res (if possible > 0 \<and> index + 1 < max_blocks
                then bind_res (GenerateRandom possible (heap_rng h)) (\<lambda>(rnd, g).
                       Ok (choose_block bs needed_size align_shift rnd index [index..<max_blocks] 0, g))
                else Ok (index, heap_rng h)) (\<lambda>(chosen, g).
             if chosen \<ge> length bs then UB
             else bind_res (PopBlock True (bs ! chosen)) (\<lambda>(addr, b').
               let bs' = bs[chosen := b']; leftover_size = Block_GetSize b' - needed_size in
               if addr \<noteq> 0 then
                 if leftover_size > 0 then
                   bind_res (cut_block (m_num_blocks h) needed_size align_shift leftover_size addr bs' g)
                     (\<lambda>(addr', bs'', g'). Ok (addr', h\<lparr>m_blocks := bs'', heap_rng := g'\<rparr>))
                 else Ok (addr, h\<lparr>m_blocks := bs', heap_rng := g\<rparr>)
               else Ok (0, h\<lparr>m_blocks := bs', heap_rng := g\<rparr>))))"

definition AllocateBlock :: "int \<Rightarrow> bool \<Rightarrow> page_heap \<Rightarrow> (u64 \<times> page_heap) res" where
  "AllocateBlock index random h =
     (if index < 0 \<or> index \<ge> int (length (m_blocks h)) then UB
      else if random then
        let block_pages = Block_GetNumPages (m_blocks h ! nat index)
        in AllocateByRandom (nat index) block_pages block_pages h
      else AllocateByLinearSearch (nat index) h)"

definition AllocateAligned :: "int \<Rightarrow> u64 \<Rightarrow> u64 \<Rightarrow> page_heap \<Rightarrow> (u64 \<times> page_heap) res" where
  "AllocateAligned index num_pages align_pages h =
     (if index < 0 then UB else AllocateByRandom (nat index) num_pages align_pages h)"

fun overhead_blocks :: "u64 \<Rightarrow> nat list \<Rightarrow> nat" where
  "overhead_blocks region_size [] = 0"
| "overhead_blocks region_size (s # ss) =
     Block_CalculateManagementOverheadSize region_size s (case ss of [] \<Rightarrow> 0 | n # _ \<Rightarrow> n) + overhead_blocks region_size ss"

definition KPageHeap_CalculateManagementOverheadSize :: "u64 \<Rightarrow> u64" where
  "KPageHeap_CalculateManagementOverheadSize region_size =
     AlignUp (of_nat (overhead_blocks region_size MemoryBlockPageShifts)) PageSize"

section \<open>The addresses of a set of blocks\<close>

definition span :: "nat \<Rightarrow> nat \<Rightarrow> nat set \<Rightarrow> nat set" where
  "span base S I = {x. base \<le> x \<and> (x - base) div S \<in> I}"

lemma span_Un: "span base S (I \<union> J) = span base S I \<union> span base S J"
  and span_Diff: "span base S (I - J) = span base S I - span base S J"
  and span_empty [simp]: "span base S {} = {}"
  and span_mono: "I \<subseteq> J \<Longrightarrow> span base S I \<subseteq> span base S J"
  by (auto simp: span_def)

lemma span_range: "0 < S \<Longrightarrow> span base S {i..<i + n} = {base + i * S..<base + (i + n) * S}"
proof -
  assume S: "0 < S"
  have "(x - base) div S \<in> {i..<i + n} \<longleftrightarrow> i * S \<le> x - base \<and> x - base < (i + n) * S" for x
    using S by (simp add: less_eq_div_iff_mult_less_eq div_less_iff_less_mult)
  note d = this
  show ?thesis
  proof (intro set_eqI iffI)
    fix x assume "x \<in> span base S {i..<i + n}"
    then have "base \<le> x" "i * S \<le> x - base" "x - base < (i + n) * S" using d[of x] unfolding span_def by blast+
    then show "x \<in> {base + i * S..<base + (i + n) * S}" unfolding atLeastLessThan_iff by linarith
  next
    fix x assume "x \<in> {base + i * S..<base + (i + n) * S}"
    then have "base \<le> x" "i * S \<le> x - base" "x - base < (i + n) * S" unfolding atLeastLessThan_iff by linarith+
    then show "x \<in> span base S {i..<i + n}" using d[of x] unfolding span_def by blast
  qed
qed

lemma span_single: "0 < S \<Longrightarrow> span base S {i} = {base + i * S..<base + i * S + S}"
  using span_range[of S base i 1] by (simp add: ac_simps)

lemma span_insert: "0 < S \<Longrightarrow> span base S (insert i I) = span base S I \<union> {base + i * S..<base + i * S + S}"
  using span_Un[of base S I "{i}"] by (simp add: span_single)

lemma span_mem_block: "0 < S \<Longrightarrow> base + i * S \<in> span base S I \<longleftrightarrow> i \<in> I"
  by (simp add: span_def)

lemma span_subset_iff: "0 < S \<Longrightarrow> span base S I \<subseteq> span base S J \<longleftrightarrow> I \<subseteq> J"
proof
  assume S: "0 < S" and sub: "span base S I \<subseteq> span base S J"
  show "I \<subseteq> J" using span_mem_block[OF S] sub by blast
qed (rule span_mono)

section \<open>Well-formed blocks\<close>

abbreviation bsize :: "heap_block \<Rightarrow> nat" where "bsize b \<equiv> 2 ^ hb_block_shift b"

definition block_free :: "heap_block \<Rightarrow> nat set" where
  "block_free b = span (unat (hb_heap_address b)) (bsize b) (bits_of (hb_bitmap b))"

definition geometry :: "heap_block \<Rightarrow> u64 \<times> u64 \<times> nat \<times> nat" where
  "geometry b = (hb_heap_address b, hb_end_offset b, hb_block_shift b, hb_next_block_shift b)"

text \<open>The part that no operation changes: the blocks of this size cover the heap from \<open>lo\<close> to \<open>hi\<close>, the
  first one at an address aligned for the next size.\<close>

definition geometry_ok :: "nat \<Rightarrow> nat \<Rightarrow> heap_block \<Rightarrow> bool" where
  "geometry_ok lo hi b \<longleftrightarrow> 12 \<le> hb_block_shift b \<and> hb_block_shift b < 64 \<and>
     (hb_next_block_shift b = 0 \<or> hb_block_shift b < hb_next_block_shift b \<and> hb_next_block_shift b < 64 \<and>
        2 ^ hb_next_block_shift b dvd unat (hb_heap_address b) \<and>
        2 ^ (hb_next_block_shift b - hb_block_shift b) dvd unat (hb_end_offset b)) \<and>
     bsize b dvd unat (hb_heap_address b) \<and> unat (hb_heap_address b) \<le> lo \<and>
     hi \<le> unat (hb_heap_address b) + unat (hb_end_offset b) * bsize b \<and>
     unat (hb_heap_address b) + unat (hb_end_offset b) * bsize b < 2 ^ 64 \<and> hi + bsize b < 2 ^ 64"

definition block_ok :: "nat \<Rightarrow> nat \<Rightarrow> heap_block \<Rightarrow> bool" where
  "block_ok lo hi b \<longleftrightarrow> geometry_ok lo hi b \<and> bitmap_inv (hb_bitmap b) \<and>
     unat (hb_end_offset b) \<le> bitmap_capacity (hb_bitmap b) \<and> block_free b \<subseteq> {lo..<hi}"

lemma geometry_ok_bitmap [simp]: "geometry_ok lo hi (b\<lparr>hb_bitmap := m\<rparr>) = geometry_ok lo hi b"
  by (simp add: geometry_ok_def)

lemma geometry_bitmap [simp]: "geometry (b\<lparr>hb_bitmap := m\<rparr>) = geometry b"
  by (simp add: geometry_def)

lemma block_free_bitmap: "block_free (b\<lparr>hb_bitmap := m\<rparr>) = span (unat (hb_heap_address b)) (bsize b) (bits_of m)"
  by (simp add: block_free_def)

lemma geometry_okD:
  assumes "geometry_ok lo hi b"
  shows "12 \<le> hb_block_shift b" "hb_block_shift b < 64" "bsize b dvd unat (hb_heap_address b)"
    "unat (hb_heap_address b) \<le> lo" "hi \<le> unat (hb_heap_address b) + unat (hb_end_offset b) * bsize b"
    "unat (hb_heap_address b) + unat (hb_end_offset b) * bsize b < 2 ^ 64" "hi + bsize b < 2 ^ 64" "0 < bsize b"
  using assms unfolding geometry_ok_def by (blast, blast, blast, blast, blast, blast, blast, simp)

lemma aligned_index:
  assumes g: "geometry_ok lo hi b" and a: "bsize b dvd a" "lo \<le> a" "a + bsize b \<le> hi"
  defines "i \<equiv> (a - unat (hb_heap_address b)) div bsize b"
  shows "a = unat (hb_heap_address b) + i * bsize b" "i < unat (hb_end_offset b)"
proof -
  let ?B = "unat (hb_heap_address b)" and ?E = "unat (hb_end_offset b)"
  note d = geometry_okD[OF g]
  have B: "?B \<le> a" "bsize b dvd a - ?B" using d(3,4) a(1,2) by (auto intro: dvd_diff_nat)
  then have "i * bsize b = a - ?B" unfolding i_def by simp
  then show e: "a = ?B + i * bsize b" using B(1) by simp
  have "i * bsize b < ?E * bsize b" using d(5,8) a(3) e by linarith
  then show "i < ?E" by simp
qed

lemma unat_block_address:
  assumes "geometry_ok lo hi b" "i \<le> unat (hb_end_offset b)" "unat w = i"
  shows "unat (hb_heap_address b + push_bit (hb_block_shift b) w) = unat (hb_heap_address b) + i * bsize b"
proof -
  have "i * bsize b \<le> unat (hb_end_offset b) * bsize b" using assms(2) by (rule mult_le_mono1)
  then have "unat (hb_heap_address b) + i * bsize b < 2 ^ 64" using geometry_okD(6)[OF assms(1)] by linarith
  then show ?thesis using unat_shift_left[of w "hb_block_shift b"] assms(3) by (simp add: unat_add_no_wrap)
qed

lemma unat_block_offset:
  assumes "geometry_ok lo hi b" "unat (hb_heap_address b) \<le> unat a"
  shows "unat (drop_bit (hb_block_shift b) (a - hb_heap_address b)) = (unat a - unat (hb_heap_address b)) div bsize b"
  using assms(2) by (simp add: unat_shift_right unat_diff_no_wrap)

lemma dvd_step: "D dvd m \<Longrightarrow> D dvd n \<Longrightarrow> m < n \<Longrightarrow> m + D \<le> (n::nat)"
  by (metis add_diff_inverse_nat dvd_diff_nat dvd_imp_le less_imp_le nat_add_left_cancel_le not_less zero_less_diff)

lemma legal_pow2_range:
  assumes "2 ^ e dvd off" "off + 2 ^ e \<le> cap"
  shows "legal_range off (2 ^ e) cap"
proof (cases "e < 6")
  case True
  then have "(2::nat) ^ e < 2 ^ 6" by (intro power_strict_increasing) auto
  moreover have "(2::nat) ^ e dvd 2 ^ 6" using True by (intro le_imp_power_dvd) simp
  moreover have "off mod 64 + 2 ^ e \<le> 64"
    using calculation(2) assms(1) by (intro dvd_step) (auto intro: dvd_mod)
  ultimately show ?thesis using assms(2) by (simp add: legal_range_def)
next
  case False
  then have "(2::nat) ^ 6 dvd 2 ^ e" by (intro le_imp_power_dvd) simp
  then have d: "64 dvd (2::nat) ^ e" by simp
  moreover have "64 dvd off" using d assms(1) by (rule dvd_trans)
  moreover have "\<not> (2::nat) ^ e < 64" using dvd_imp_le[OF d] by simp
  ultimately show ?thesis using assms(2) by (simp add: legal_range_def)
qed

text \<open>What returning a block to its bitmap does to the free addresses: they grow by the block, and when
  that fills a block of the next size, this larger block is taken out and reported.\<close>

definition pushed :: "nat \<Rightarrow> nat \<Rightarrow> u64 \<Rightarrow> heap_block \<Rightarrow> u64 \<Rightarrow> heap_block \<Rightarrow> bool" where
  "pushed lo hi a b r b' \<longleftrightarrow> block_ok lo hi b' \<and> geometry b' = geometry b \<and>
     (let R = {unat a..<unat a + bsize b}; R' = {unat r..<unat r + 2 ^ hb_next_block_shift b}
      in if r = 0 then block_free b' = block_free b \<union> R
         else hb_next_block_shift b \<noteq> 0 \<and> 2 ^ hb_next_block_shift b dvd unat r \<and>
           R' \<subseteq> block_free b \<union> R \<and> block_free b' = block_free b \<union> R - R')"

lemma block_ok_update:
  assumes "block_ok lo hi b" "bitmap_inv m" "bitmap_capacity m = bitmap_capacity (hb_bitmap b)"
    "span (unat (hb_heap_address b)) (bsize b) (bits_of m) \<subseteq> {lo..<hi}"
  shows "block_ok lo hi (b\<lparr>hb_bitmap := m\<rparr>)"
  using assms unfolding block_ok_def block_free_bitmap geometry_ok_bitmap by simp

text \<open>The place of a pushed block in the bitmap, and what the block adds to the free memory.\<close>

lemma push_index:
  assumes ok: "block_ok lo hi b" and a: "bsize b dvd unat a" "lo \<le> unat a" "unat a + bsize b \<le> hi"
    and new: "{unat a..<unat a + bsize b} \<inter> block_free b = {}"
  defines "i \<equiv> unat (drop_bit (hb_block_shift b) (a - hb_heap_address b))"
  shows "i < unat (hb_end_offset b)" "i < bitmap_capacity (hb_bitmap b)" "i \<notin> bits_of (hb_bitmap b)"
    "span (unat (hb_heap_address b)) (bsize b) (insert i (bits_of (hb_bitmap b))) = block_free b \<union> {unat a..<unat a + bsize b}"
    "block_free b \<union> {unat a..<unat a + bsize b} \<subseteq> {lo..<hi}"
proof -
  have g: "geometry_ok lo hi b" and cap: "unat (hb_end_offset b) \<le> bitmap_capacity (hb_bitmap b)" and sub: "block_free b \<subseteq> {lo..<hi}"
    using ok by (simp_all add: block_ok_def)
  note d = geometry_okD[OF g]
  have "unat (hb_heap_address b) \<le> unat a" using d(4) a(2) by linarith
  then have i_eq: "i = (unat a - unat (hb_heap_address b)) div bsize b" unfolding i_def by (rule unat_block_offset[OF g])
  have i: "unat a = unat (hb_heap_address b) + i * bsize b" "i < unat (hb_end_offset b)" using aligned_index[OF g a] unfolding i_eq by simp_all
  have "unat a \<in> {unat a..<unat a + bsize b}" using d(8) by simp
  then have "unat a \<notin> block_free b" using new by blast
  then show "i \<notin> bits_of (hb_bitmap b)" unfolding i(1) block_free_def using span_mem_block[OF d(8)] by blast
  show "i < unat (hb_end_offset b)" "i < bitmap_capacity (hb_bitmap b)" using i(2) cap by simp_all
  show "span (unat (hb_heap_address b)) (bsize b) (insert i (bits_of (hb_bitmap b))) = block_free b \<union> {unat a..<unat a + bsize b}"
    using span_insert[OF d(8), of "unat (hb_heap_address b)" i] i(1) by (simp add: block_free_def)
  show "block_free b \<union> {unat a..<unat a + bsize b} \<subseteq> {lo..<hi}" using sub a(2,3) by auto
qed

text \<open>The group of blocks that makes up a block of the next size.\<close>

lemma merge_group:
  assumes g: "geometry_ok lo hi b" and n0: "hb_next_block_shift b \<noteq> 0" and i: "unat off < unat (hb_end_offset b)"
  defines "D \<equiv> (2::nat) ^ (hb_next_block_shift b - hb_block_shift b)"
    and "o' \<equiv> AlignDown off (push_bit (hb_next_block_shift b - hb_block_shift b) 1)"
  defines "r \<equiv> hb_heap_address b + push_bit (hb_block_shift b) o'"
  shows "unat (push_bit (hb_next_block_shift b - hb_block_shift b) 1 :: u64) = D" "D dvd unat o'"
    "unat o' + D \<le> unat (hb_end_offset b)" "2 ^ hb_next_block_shift b dvd unat r"
    "span (unat (hb_heap_address b)) (bsize b) {unat o'..<unat o' + D} = {unat r..<unat r + 2 ^ hb_next_block_shift b}"
proof -
  let ?B = "unat (hb_heap_address b)" and ?S = "bsize b" and ?E = "unat (hb_end_offset b)" and ?n = "hb_next_block_shift b"
  note d = geometry_okD[OF g]
  have n: "hb_block_shift b < ?n" "?n < 64" "2 ^ ?n dvd ?B" "D dvd ?E" using g n0 by (simp_all add: geometry_ok_def D_def)
  show diff: "unat (push_bit (?n - hb_block_shift b) 1 :: u64) = D" unfolding D_def using n by (intro unat_pow2) simp
  have D0: "0 < D" by (simp add: D_def)
  have DS: "D * ?S = 2 ^ ?n" unfolding D_def using n(1) by (simp flip: power_add)
  have o: "D dvd unat o'" "unat o' \<le> unat off"
    using AlignDown_props[of "push_bit (?n - hb_block_shift b) 1" off] D0 unfolding o'_def diff by simp_all
  then show "D dvd unat o'" and oE: "unat o' + D \<le> ?E" using i by (auto intro!: dvd_step[OF _ n(4)])
  have r: "unat r = ?B + unat o' * ?S" unfolding r_def by (rule unat_block_address[OF g]) (use oE in simp_all)
  show "span ?B ?S {unat o'..<unat o' + D} = {unat r..<unat r + 2 ^ ?n}"
    unfolding span_range[OF d(8)] r DS[symmetric] by (simp add: distrib_right add.assoc)
  show "2 ^ ?n dvd unat r" unfolding r using n(3) o(1) by (intro dvd_add) (simp_all add: DS[symmetric] mult_dvd_mono)
qed

lemma PushBlock_merge:
  assumes ok: "block_ok lo hi b" "0 < lo" and n0: "hb_next_block_shift b \<noteq> 0"
    and a: "bsize b dvd unat a" "lo \<le> unat a" "unat a + bsize b \<le> hi"
    and new: "{unat a..<unat a + bsize b} \<inter> block_free b = {}"
  shows "\<exists>r b'. PushBlock a b = Ok (r, b') \<and> pushed lo hi a b r b'"
proof -
  let ?B = "unat (hb_heap_address b)" and ?S = "bsize b" and ?m = "hb_bitmap b" and ?n = "hb_next_block_shift b"
  let ?R = "{unat a..<unat a + ?S}"
  define off where "off = drop_bit (hb_block_shift b) (a - hb_heap_address b)"
  have g: "geometry_ok lo hi b" and inv: "bitmap_inv ?m" and cap: "unat (hb_end_offset b) \<le> bitmap_capacity ?m"
    using ok(1) by (simp_all add: block_ok_def)
  note i = push_index[OF ok(1) a new, folded off_def]
  define D where "D = (2::nat) ^ (?n - hb_block_shift b)"
  define diff :: u64 where "diff = push_bit (?n - hb_block_shift b) 1"
  define o' where "o' = AlignDown off diff"
  define r where "r = hb_heap_address b + push_bit (hb_block_shift b) o'"
  note G = merge_group[OF g n0 i(1), folded diff_def, folded D_def o'_def, folded r_def]
  let ?G = "{unat o'..<unat o' + D}" and ?free = "insert (unat off) (bits_of ?m)"
  have legal: "legal_range (unat o') D (bitmap_capacity ?m)"
    unfolding D_def by (rule legal_pow2_range) (use G(2,3) cap in \<open>simp_all add: D_def\<close>)
  obtain m1 m2 where m: "SetBit (unat off) ?m = Ok m1" "ClearRange (unat o') D m1 = Ok (?G \<subseteq> ?free, m2)" "bitmap_inv m2"
    "bitmap_capacity m2 = bitmap_capacity ?m" "bits_of m2 = (if ?G \<subseteq> ?free then ?free - ?G else ?free)"
    using bitmap.give_block[OF inv i(2,3) legal] by blast
  have push: "PushBlock a b = Ok (if ?G \<subseteq> ?free then r else 0, b\<lparr>hb_bitmap := m2\<rparr>)"
    unfolding PushBlock_def Let_def off_def[symmetric] diff_def[symmetric] o'_def[symmetric] G(1) r_def
    using n0 by (simp add: m(1,2))
  have "bits_of m2 \<subseteq> ?free" unfolding m(5) by auto
  then have "span ?B ?S (bits_of m2) \<subseteq> {lo..<hi}" using span_mono[of _ _ ?B ?S] i(4,5) by blast
  note ok2 = block_ok_update[OF ok(1) m(3,4) this]
  show ?thesis
  proof (cases "?G \<subseteq> ?free")
    case False
    have "bits_of m2 = ?free" using m(5) False by (simp only: if_False)
    then have "pushed lo hi a b 0 (b\<lparr>hb_bitmap := m2\<rparr>)" unfolding pushed_def Let_def block_free_bitmap using ok2 i(4) by simp
    then show ?thesis using push False by (simp only: if_False) blast
  next
    case True
    have m2: "bits_of m2 = ?free - ?G" using m(5) True by (simp only: if_True)
    have sub2: "{unat r..<unat r + 2 ^ ?n} \<subseteq> block_free b \<union> ?R" using span_mono[OF True, of ?B ?S] unfolding G(5) i(4) .
    moreover have "unat r \<in> {unat r..<unat r + 2 ^ ?n}" by simp
    ultimately have "r \<noteq> 0" using ok(2) i(5) by fastforce
    then have "pushed lo hi a b r (b\<lparr>hb_bitmap := m2\<rparr>)"
      unfolding pushed_def Let_def block_free_bitmap m2 span_Diff i(4) G(5) using ok2 n0 sub2 G(4) by simp
    then show ?thesis using push True by (simp only: if_True) blast
  qed
qed

lemma PushBlock_ok:
  assumes ok: "block_ok lo hi b" "0 < lo"
    and a: "bsize b dvd unat a" "lo \<le> unat a" "unat a + bsize b \<le> hi"
    and new: "{unat a..<unat a + bsize b} \<inter> block_free b = {}"
  shows "\<exists>r b'. PushBlock a b = Ok (r, b') \<and> pushed lo hi a b r b'"
proof -
  let ?m = "hb_bitmap b" and ?n = "hb_next_block_shift b"
  define off where "off = drop_bit (hb_block_shift b) (a - hb_heap_address b)"
  have inv: "bitmap_inv ?m" using ok(1) by (simp add: block_ok_def)
  note i = push_index[OF ok(1) a new, folded off_def]
  show ?thesis
  proof (cases "?n = 0")
    case True
    obtain m1 where m1: "SetBit (unat off) ?m = Ok m1" "bitmap_inv m1" "bits_of m1 = insert (unat off) (bits_of ?m)"
      "bitmap_capacity m1 = bitmap_capacity ?m" using bitmap.set_law[OF inv i(2,3)] by blast
    have "PushBlock a b = Ok (0, b\<lparr>hb_bitmap := m1\<rparr>)" using True m1(1) by (simp add: PushBlock_def Let_def flip: off_def)
    moreover have "block_ok lo hi (b\<lparr>hb_bitmap := m1\<rparr>)" using block_ok_update[OF ok(1) m1(2,4)] m1(3) i(4,5) by simp
    ultimately show ?thesis using i(4) m1(3) by (auto simp: pushed_def block_free_bitmap Let_def)
  next
    case False
    then show ?thesis by (rule PushBlock_merge[OF ok _ a new])
  qed
qed

text \<open>Taking a block: the lowest free one of its size, or none when there is none.\<close>

definition popped :: "nat \<Rightarrow> nat \<Rightarrow> heap_block \<Rightarrow> u64 \<Rightarrow> heap_block \<Rightarrow> bool" where
  "popped lo hi b a b' \<longleftrightarrow> block_ok lo hi b' \<and> geometry b' = geometry b \<and>
     (if a = 0 then block_free b = {} \<and> block_free b' = {}
      else bsize b dvd unat a \<and> {unat a..<unat a + bsize b} \<subseteq> block_free b \<and>
        block_free b' = block_free b - {unat a..<unat a + bsize b})"

lemma PopBlock_ok:
  assumes ok: "block_ok lo hi b" "0 < lo"
  shows "\<exists>a b'. PopBlock random b = Ok (a, b') \<and> popped lo hi b a b'"
proof -
  let ?B = "unat (hb_heap_address b)" and ?S = "bsize b" and ?m = "hb_bitmap b"
  have g: "geometry_ok lo hi b" and inv: "bitmap_inv ?m" and sub: "block_free b \<subseteq> {lo..<hi}"
    using ok(1) by (simp_all add: block_ok_def)
  note d = geometry_okD[OF g]
  from bitmap.take_block[OF inv, of random] show ?thesis
  proof (elim disjE conjE exE)
    fix m1 assume e: "bits_of ?m = {}" "FindFreeBlock random ?m = Ok (- 1, m1)" "bitmap_inv m1" "bits_of m1 = {}"
      "bitmap_capacity m1 = bitmap_capacity ?m"
    have "popped lo hi b 0 (b\<lparr>hb_bitmap := m1\<rparr>)"
      using block_ok_update[OF ok(1) e(3,5)] e(1,4) by (simp add: popped_def block_free_bitmap) (simp add: block_free_def)
    moreover have "PopBlock random b = Ok (0, b\<lparr>hb_bitmap := m1\<rparr>)" using e(2) by (simp add: PopBlock_def)
    ultimately show ?thesis by blast
  next
    fix i m1 m2 assume e: "i \<in> bits_of ?m" "FindFreeBlock random ?m = Ok (int i, m1)" "ClearBit i m1 = Ok m2" "bitmap_inv m2"
      "bits_of m2 = bits_of ?m - {i}" "bitmap_capacity m2 = bitmap_capacity ?m"
    let ?a = "hb_heap_address b + push_bit (hb_block_shift b) (of_nat i)"
    have R: "span ?B ?S {i} \<subseteq> block_free b" unfolding block_free_def using e(1) by (intro span_mono) simp
    then have "?B + i * ?S + ?S \<le> hi"
    proof -
      have "?B + i * ?S + ?S - 1 \<in> span ?B ?S {i}" unfolding span_single[OF d(8)] atLeastLessThan_iff using d(8) by linarith
      then have "?B + i * ?S + ?S - 1 < hi" using R sub by auto
      then show ?thesis using d(8) by linarith
    qed
    then have "i * ?S < unat (hb_end_offset b) * ?S" using d(5,8) by linarith
    then have iE: "i < unat (hb_end_offset b)" by simp
    moreover have "unat (hb_end_offset b) < 2 ^ 64" using unsigned_less[of "hb_end_offset b", where 'a = nat] by simp
    ultimately have "unat (of_nat i :: u64) = i" by (simp add: unat_of_nat)
    then have a: "unat ?a = ?B + i * ?S" by (intro unat_block_address[OF g]) (use iE in simp_all)
    have span: "span ?B ?S {i} = {unat ?a..<unat ?a + ?S}" unfolding span_single[OF d(8)] a ..
    have "unat ?a \<in> {unat ?a..<unat ?a + ?S}" using d(8) by simp
    then have "?a \<noteq> 0" using R sub ok(2) unfolding span by fastforce
    moreover have "bsize b dvd unat ?a" unfolding a using d(3) by simp
    moreover have free: "span ?B ?S (bits_of m2) = block_free b - {unat ?a..<unat ?a + ?S}"
      unfolding e(5) span_Diff span block_free_def ..
    moreover have "block_ok lo hi (b\<lparr>hb_bitmap := m2\<rparr>)"
      using block_ok_update[OF ok(1) e(4,6)] sub unfolding free by blast
    ultimately have "popped lo hi b ?a (b\<lparr>hb_bitmap := m2\<rparr>)"
      using R unfolding popped_def block_free_bitmap span by simp
    moreover have "PopBlock random b = Ok (?a, b\<lparr>hb_bitmap := m2\<rparr>)" using e(2,3) by (simp add: PopBlock_def Let_def)
    ultimately show ?thesis by blast
  qed
qed

section \<open>Well-formed heaps\<close>

definition total_free :: "heap_block list \<Rightarrow> nat set" where
  "total_free bs = (\<Union>k < length bs. block_free (bs ! k))"

definition others :: "heap_block list \<Rightarrow> nat \<Rightarrow> nat set" where
  "others bs k = (\<Union>j \<in> {..<length bs} - {k}. block_free (bs ! j))"

definition heap_ok :: "nat \<Rightarrow> nat \<Rightarrow> heap_block list \<Rightarrow> bool" where
  "heap_ok lo hi bs \<longleftrightarrow> bs \<noteq> [] \<and> hb_block_shift (bs ! 0) = 12 \<and>
     (\<forall>k < length bs. block_ok lo hi (bs ! k) \<and> block_free (bs ! k) \<inter> others bs k = {} \<and>
        hb_next_block_shift (bs ! k) = (if Suc k < length bs then hb_block_shift (bs ! Suc k) else 0))"

lemma total_free_split: "k < length bs \<Longrightarrow> total_free bs = block_free (bs ! k) \<union> others bs k"
  by (auto simp: total_free_def others_def)

lemma geometry_eqD:
  "geometry b' = geometry b \<Longrightarrow> hb_block_shift b' = hb_block_shift b \<and> hb_next_block_shift b' = hb_next_block_shift b"
  by (simp add: geometry_def)

lemma others_update: "others (bs[k := b']) k = others bs k"
  by (auto simp: others_def)

lemma heap_update:
  assumes h: "heap_ok lo hi bs" "k < length bs"
    and b: "block_ok lo hi b'" "geometry b' = geometry (bs ! k)" "block_free b' \<inter> others bs k = {}"
  shows "heap_ok lo hi (bs[k := b'])" "total_free (bs[k := b']) = block_free b' \<union> others bs k"
    "map geometry (bs[k := b']) = map geometry bs"
proof -
  let ?bs = "bs[k := b']"
  note sh = geometry_eqD[OF b(2)]
  show geo: "map geometry ?bs = map geometry bs" using b(2) h(2) by (simp add: map_update list_update_same_conv)
  then have geoj: "geometry (?bs ! j) = geometry (bs ! j)" if "j < length bs" for j
    using that by (metis length_list_update nth_map)
  show "total_free ?bs = block_free b' \<union> others bs k"
    using total_free_split[of k ?bs] others_update[of bs k b'] h(2) by simp
  have disj: "block_free (?bs ! j) \<inter> others ?bs j = {}" if j: "j < length bs" for j
  proof (cases "j = k")
    case True
    then show ?thesis using b(3) others_update[of bs k b'] h(2) by simp
  next
    case False
    have "block_free (bs ! j) \<inter> others bs j = {}" using h(1) j by (simp add: heap_ok_def)
    moreover have "others ?bs j \<subseteq> others bs j \<union> block_free b'"
    proof
      fix x assume "x \<in> others ?bs j"
      then obtain l where l: "l < length bs" "l \<noteq> j" "x \<in> block_free (?bs ! l)" by (auto simp: others_def)
      then show "x \<in> others bs j \<union> block_free b'" by (cases "l = k") (auto simp: others_def)
    qed
    moreover have "block_free (bs ! j) \<subseteq> others bs k" using False j by (auto simp: others_def)
    ultimately show ?thesis using False b(3) by auto
  qed
  show "heap_ok lo hi ?bs"
    unfolding heap_ok_def
  proof (intro conjI allI impI)
    show "?bs \<noteq> []" "hb_block_shift (?bs ! 0) = 12"
      using h(1) geometry_eqD[OF geoj[of 0]] by (auto simp: heap_ok_def)
    fix j assume j: "j < length ?bs"
    show "block_ok lo hi (?bs ! j)" using h(1) j b(1) by (cases "j = k") (auto simp: heap_ok_def)
    show "block_free (?bs ! j) \<inter> others ?bs j = {}" using disj j by simp
    show "hb_next_block_shift (?bs ! j) = (if Suc j < length ?bs then hb_block_shift (?bs ! Suc j) else 0)"
      using h(1) j geometry_eqD[OF geoj[of j]] geometry_eqD[OF geoj[of "Suc j"]] by (auto simp: heap_ok_def)
  qed
qed

section \<open>Freeing adds exactly the freed addresses\<close>

text \<open>A change of the heap that adds the addresses \<open>R\<close> to the free ones.\<close>

definition adds :: "nat \<Rightarrow> nat \<Rightarrow> nat set \<Rightarrow> heap_block list \<Rightarrow> heap_block list \<Rightarrow> bool" where
  "adds lo hi R bs bs' \<longleftrightarrow> heap_ok lo hi bs' \<and> map geometry bs' = map geometry bs \<and> total_free bs' = total_free bs \<union> R"

lemma adds_trans: "adds lo hi R bs bs1 \<Longrightarrow> adds lo hi R' bs1 bs2 \<Longrightarrow> adds lo hi (R \<union> R') bs bs2"
  by (auto simp: adds_def)

lemma adds_refl: "heap_ok lo hi bs \<Longrightarrow> adds lo hi {} bs bs"
  by (simp add: adds_def)

lemma adds_geometry:
  "adds lo hi R bs bs' \<Longrightarrow> length bs' = length bs \<and> (k < length bs \<longrightarrow> hb_block_shift (bs' ! k) = hb_block_shift (bs ! k))"
proof (intro conjI impI)
  assume a: "adds lo hi R bs bs'"
  then have m: "map geometry bs' = map geometry bs" by (simp add: adds_def)
  show l: "length bs' = length bs" using m by (rule map_eq_imp_length_eq)
  assume "k < length bs"
  then have "geometry (bs' ! k) = geometry (bs ! k)" using arg_cong[OF m, of "\<lambda>xs. xs ! k"] l by simp
  then show "hb_block_shift (bs' ! k) = hb_block_shift (bs ! k)" using geometry_eqD by blast
qed

definition can_free :: "nat \<Rightarrow> nat \<Rightarrow> nat set \<Rightarrow> heap_block list \<Rightarrow> bool" where
  "can_free lo hi R bs \<longleftrightarrow> heap_ok lo hi bs \<and> 0 < lo \<and> R \<subseteq> {lo..<hi} \<and> R \<inter> total_free bs = {}"

lemma can_free_rest:
  "can_free lo hi (R \<union> R') bs \<Longrightarrow> R \<inter> R' = {} \<Longrightarrow> adds lo hi R bs bs' \<Longrightarrow> can_free lo hi R' bs'"
  by (auto simp: can_free_def adds_def)

lemma can_free_mono: "can_free lo hi R bs \<Longrightarrow> R' \<subseteq> R \<Longrightarrow> can_free lo hi R' bs"
  by (auto simp: can_free_def)

lemma interval_bounds: "{a..<a + S} \<subseteq> {lo..<hi} \<Longrightarrow> 0 < S \<Longrightarrow> lo \<le> a \<and> a + S \<le> (hi::nat)"
  by (metis atLeastLessThan_subset_iff less_add_same_cancel1 not_less)

lemma FreeBlock_ok:
  "can_free lo hi {unat a..<unat a + bsize (bs ! k)} bs \<Longrightarrow> k < length bs \<Longrightarrow> bsize (bs ! k) dvd unat a \<Longrightarrow>
    \<exists>bs'. FreeBlock a k bs = Ok bs' \<and> adds lo hi {unat a..<unat a + bsize (bs ! k)} bs bs'"
proof (induction "length bs - k" arbitrary: a k bs rule: less_induct)
  case less
  let ?b = "bs ! k" and ?R = "{unat a..<unat a + bsize (bs ! k)}"
  have h: "heap_ok lo hi bs" "0 < lo" "?R \<subseteq> {lo..<hi}" "?R \<inter> total_free bs = {}"
    using less.prems(1) by (simp_all add: can_free_def)
  have ok: "block_ok lo hi ?b" and dis: "block_free ?b \<inter> others bs k = {}"
    and nxt: "hb_next_block_shift ?b = (if Suc k < length bs then hb_block_shift (bs ! Suc k) else 0)"
    using h(1) less.prems(2) by (auto simp: heap_ok_def)
  have "?R \<inter> block_free ?b = {}" "?R \<inter> others bs k = {}" using h(4) total_free_split[OF less.prems(2)] by auto
  moreover have "lo \<le> unat a" "unat a + bsize ?b \<le> hi" using interval_bounds[OF h(3)] by auto
  ultimately obtain r b' where p: "PushBlock a ?b = Ok (r, b')" "pushed lo hi a ?b r b'"
    using PushBlock_ok[OF ok h(2) less.prems(3)] by blast
  have b': "block_ok lo hi b'" "geometry b' = geometry ?b" "block_free b' \<subseteq> block_free ?b \<union> ?R"
    using p(2) by (auto simp: pushed_def Let_def split: if_splits)
  then have disj: "block_free b' \<inter> others bs k = {}" using dis \<open>?R \<inter> others bs k = {}\<close> by auto
  note up = heap_update[OF h(1) less.prems(2) b'(1,2) disj]
  let ?bs = "bs[k := b']"
  have step: "FreeBlock a k bs = (if r = 0 then Ok ?bs else FreeBlock r (k + 1) ?bs)"
    using less.prems(2) p(1) by (subst FreeBlock.simps) (simp add: Let_def)
  show ?case
  proof (cases "r = 0")
    case True
    then have "block_free b' = block_free ?b \<union> ?R" using p(2) by (simp add: pushed_def Let_def)
    then have "adds lo hi ?R bs ?bs"
      using up total_free_split[OF less.prems(2)] by (auto simp: adds_def)
    then show ?thesis using step True by simp
  next
    case False
    let ?R' = "{unat r..<unat r + 2 ^ hb_next_block_shift ?b}"
    have r: "hb_next_block_shift ?b \<noteq> 0" "2 ^ hb_next_block_shift ?b dvd unat r" "?R' \<subseteq> block_free ?b \<union> ?R"
      "block_free b' = block_free ?b \<union> ?R - ?R'" using p(2) False by (auto simp: pushed_def Let_def)
    have k1: "Suc k < length bs" "hb_next_block_shift ?b = hb_block_shift (bs ! Suc k)"
      using nxt r(1) by (auto split: if_splits)
    then have sz: "2 ^ hb_next_block_shift ?b = bsize (?bs ! Suc k)" by simp
    have "block_free ?b \<subseteq> {lo..<hi}" using ok by (simp add: block_ok_def)
    then have "?R' \<subseteq> {lo..<hi}" using r(3) h(3) by blast
    moreover have "?R' \<inter> total_free ?bs = {}"
      unfolding up(2) using r(3,4) dis \<open>?R \<inter> others bs k = {}\<close> by blast
    ultimately have "can_free lo hi {unat r..<unat r + bsize (?bs ! Suc k)} ?bs"
      using up(1) h(2) by (simp add: can_free_def sz)
    moreover have "length ?bs - Suc k < length bs - k" using less.prems(2) by simp
    ultimately obtain bs2 where 2: "FreeBlock r (Suc k) ?bs = Ok bs2" "adds lo hi ?R' ?bs bs2"
      using less.hyps[of ?bs "Suc k" r] k1(1) r(2) sz by auto
    have "total_free ?bs \<union> ?R' = total_free bs \<union> ?R"
      unfolding up(2) total_free_split[OF less.prems(2)] r(4) using r(3) by blast
    then have "adds lo hi ?R bs bs2" using 2(2) up(3) by (simp add: adds_def)
    then show ?thesis using step False 2(1) by simp
  qed
qed

text \<open>The loop over blocks of the largest size.\<close>

lemma free_big_ok:
  "can_free lo hi {unat a..<unat e} bs \<Longrightarrow> k < length bs \<Longrightarrow> bsize (bs ! k) dvd unat a \<Longrightarrow>
    unat e = unat a + n * bsize (bs ! k) \<Longrightarrow> unat sz = bsize (bs ! k) \<Longrightarrow>
    \<exists>bs'. free_big sz e k a bs = Ok bs' \<and> adds lo hi {unat a..<unat e} bs bs'"
proof (induction n arbitrary: a bs)
  case 0
  then have "\<not> a < e" "heap_ok lo hi bs" by (simp_all add: word_less_nat_alt can_free_def)
  then show ?case using adds_refl[of lo hi bs] 0(4) by (subst free_big.simps) simp
next
  case (Suc n)
  let ?S = "bsize (bs ! k)"
  let ?R = "{unat a..<unat a + ?S}" and ?R' = "{unat a + ?S..<unat e}"
  have S: "0 < ?S" by simp
  have ae: "unat a + ?S \<le> unat e" using Suc.prems(4) by simp
  have split: "{unat a..<unat e} = ?R \<union> ?R'" using ae by auto
  have a': "unat (a + sz) = unat a + ?S"
    using Suc.prems(5) ae unsigned_less[of e, where 'a = nat] by (subst unat_add_no_wrap) simp_all
  have "can_free lo hi ?R bs" using Suc.prems(1) split can_free_mono by blast
  from FreeBlock_ok[OF this Suc.prems(2,3)] obtain bs1 where 1: "FreeBlock a k bs = Ok bs1" "adds lo hi ?R bs bs1" by blast
  note geo = adds_geometry[OF 1(2), of k]
  have "can_free lo hi {unat (a + sz)..<unat e} bs1"
    using can_free_rest[OF _ _ 1(2), of ?R'] Suc.prems(1) split a' by auto
  moreover have "bsize (bs1 ! k) = ?S" using geo Suc.prems(2) by simp
  ultimately obtain bs2 where 2: "free_big sz e k (a + sz) bs1 = Ok bs2" "adds lo hi ?R' bs1 bs2"
    using Suc.IH[of "a + sz" bs1] Suc.prems(2,3,4,5) geo a' by auto
  have "a < e" "\<not> a + sz \<le> a" unfolding word_less_nat_alt word_le_nat_alt a' using ae S by linarith+
  then have "free_big sz e k a bs = Ok bs2" using 1(1) 2(1) by (subst free_big.simps) simp
  then show ?case using adds_trans[OF 1(2) 2(2)] split by auto
qed

text \<open>The loops over the smaller blocks before and after: each takes as many blocks as fit.\<close>

lemma free_before_ok:
  "can_free lo hi {unat s..<unat e} bs \<Longrightarrow> k < length bs \<Longrightarrow> unat s \<le> unat e \<Longrightarrow> bsize (bs ! k) dvd unat e \<Longrightarrow>
    unat sz = bsize (bs ! k) \<Longrightarrow> unat s + unat sz < 2 ^ 64 \<Longrightarrow>
    \<exists>e' bs'. free_before s sz k e bs = Ok (e', bs') \<and> adds lo hi {unat e'..<unat e} bs bs' \<and>
      unat s \<le> unat e' \<and> unat e' < unat s + bsize (bs ! k) \<and> unat e' \<le> unat e \<and> bsize (bs ! k) dvd unat e'"
proof (induction "unat e" arbitrary: e bs rule: less_induct)
  case less
  let ?S = "bsize (bs ! k)"
  have S: "0 < ?S" by simp
  have ssz: "unat (s + sz) = unat s + ?S" using less.prems(5,6) by (simp add: unat_add_no_wrap)
  show ?case
  proof (cases "unat s + ?S \<le> unat e")
    case False
    then have "\<not> s + sz \<le> e" by (simp add: word_le_nat_alt ssz)
    then have "free_before s sz k e bs = Ok (e, bs)" by (subst free_before.simps) simp
    moreover have "adds lo hi {unat e..<unat e} bs bs" using adds_refl less.prems(1) by (simp add: can_free_def)
    ultimately show ?thesis using less.prems(3,4) False by auto
  next
    case True
    have e': "unat (e - sz) = unat e - ?S" using True less.prems(5) by (simp add: unat_diff_no_wrap)
    let ?R = "{unat e - ?S..<unat e}" and ?R' = "{unat s..<unat e - ?S}"
    have split: "{unat s..<unat e} = ?R \<union> ?R'" using True by auto
    have "{unat (e - sz)..<unat (e - sz) + ?S} = ?R" using True e' by simp
    moreover have "can_free lo hi ?R bs" using less.prems(1) split can_free_mono by blast
    moreover have "?S dvd unat (e - sz)" unfolding e' using less.prems(4) by (intro dvd_diff_nat) simp_all
    ultimately obtain bs1 where 1: "FreeBlock (e - sz) k bs = Ok bs1" "adds lo hi ?R bs bs1"
      using FreeBlock_ok[of lo hi "e - sz" bs k] less.prems(2) by metis
    note geo = adds_geometry[OF 1(2), of k]
    have lt: "unat (e - sz) < unat e" unfolding e' using True S by linarith
    have "can_free lo hi {unat s..<unat (e - sz)} bs1"
      unfolding e' using can_free_rest[OF _ _ 1(2), of ?R'] less.prems(1) split by auto
    moreover have "k < length bs1" "unat s \<le> unat (e - sz)" "bsize (bs1 ! k) dvd unat (e - sz)" "unat sz = bsize (bs1 ! k)"
      using geo less.prems(2,5) True \<open>?S dvd unat (e - sz)\<close> by (simp_all add: e')
    ultimately obtain e2 bs2 where 2: "free_before s sz k (e - sz) bs1 = Ok (e2, bs2)" "adds lo hi {unat e2..<unat (e - sz)} bs1 bs2"
      "unat s \<le> unat e2" "unat e2 < unat s + ?S" "unat e2 \<le> unat (e - sz)" "?S dvd unat e2"
      using less.hyps[OF lt, of bs1] less.prems(6) geo less.prems(2) by auto
    have "s + sz \<le> e" "sz \<noteq> 0" "\<not> s + sz < sz"
      using True less.prems(5) S by (auto simp: word_le_nat_alt word_less_nat_alt ssz)
    then have "free_before s sz k e bs = Ok (e2, bs2)" using 1(1) 2(1) by (subst free_before.simps) simp
    moreover have "?R \<union> {unat e2..<unat (e - sz)} = {unat e2..<unat e}" using 2(5) True unfolding e' by auto
    then have "adds lo hi {unat e2..<unat e} bs bs2" using adds_trans[OF 1(2) 2(2)] by simp
    ultimately show ?thesis using 2 lt by auto
  qed
qed

lemma free_after_ok:
  "can_free lo hi {unat s..<unat e} bs \<Longrightarrow> k < length bs \<Longrightarrow> unat s \<le> unat e \<Longrightarrow> bsize (bs ! k) dvd unat s \<Longrightarrow>
    unat sz = bsize (bs ! k) \<Longrightarrow> unat e + unat sz < 2 ^ 64 \<Longrightarrow>
    \<exists>s' bs'. free_after e sz k s bs = Ok (s', bs') \<and> adds lo hi {unat s..<unat s'} bs bs' \<and>
      unat s' \<le> unat e \<and> unat e < unat s' + bsize (bs ! k) \<and> unat s \<le> unat s' \<and> bsize (bs ! k) dvd unat s'"
proof (induction "unat e - unat s" arbitrary: s bs rule: less_induct)
  case less
  let ?S = "bsize (bs ! k)"
  have S: "0 < ?S" by simp
  have ssz: "unat (s + sz) = unat s + ?S" using less.prems(3,5,6) by (simp add: unat_add_no_wrap)
  show ?case
  proof (cases "unat s + ?S \<le> unat e")
    case False
    then have "\<not> s + sz \<le> e" by (simp add: word_le_nat_alt ssz)
    then have "free_after e sz k s bs = Ok (s, bs)" by (subst free_after.simps) simp
    moreover have "adds lo hi {unat s..<unat s} bs bs" using adds_refl less.prems(1) by (simp add: can_free_def)
    ultimately show ?thesis using less.prems(3,4) False by auto
  next
    case True
    let ?R = "{unat s..<unat s + ?S}" and ?R' = "{unat s + ?S..<unat e}"
    have split: "{unat s..<unat e} = ?R \<union> ?R'" using True by auto
    have "can_free lo hi ?R bs" using less.prems(1) split can_free_mono by blast
    from FreeBlock_ok[OF this less.prems(2,4)] obtain bs1 where 1: "FreeBlock s k bs = Ok bs1" "adds lo hi ?R bs bs1" by blast
    note geo = adds_geometry[OF 1(2), of k]
    have lt: "unat e - unat (s + sz) < unat e - unat s" unfolding ssz using True S by linarith
    have "can_free lo hi {unat (s + sz)..<unat e} bs1"
      unfolding ssz using can_free_rest[OF _ _ 1(2), of ?R'] less.prems(1) split by auto
    moreover have "k < length bs1" "unat (s + sz) \<le> unat e" "bsize (bs1 ! k) dvd unat (s + sz)" "unat sz = bsize (bs1 ! k)"
      using geo less.prems(2,4,5) True by (simp_all add: ssz)
    ultimately obtain s2 bs2 where 2: "free_after e sz k (s + sz) bs1 = Ok (s2, bs2)" "adds lo hi {unat (s + sz)..<unat s2} bs1 bs2"
      "unat s2 \<le> unat e" "unat e < unat s2 + ?S" "unat (s + sz) \<le> unat s2" "?S dvd unat s2"
      using less.hyps[OF lt, of bs1] less.prems(6) geo less.prems(2) by auto
    have "s + sz \<le> e" "\<not> s + sz \<le> s" unfolding word_le_nat_alt ssz using True S by linarith+
    then have "free_after e sz k s bs = Ok (s2, bs2)" using 1(1) 2(1) by (subst free_after.simps) simp
    moreover have "?R \<union> {unat (s + sz)..<unat s2} = {unat s..<unat s2}" using 2(5) unfolding ssz by auto
    then have "adds lo hi {unat s..<unat s2} bs bs2" using adds_trans[OF 1(2) 2(2)] by simp
    ultimately show ?thesis using 2 unfolding ssz by auto
  qed
qed

lemma heap_geometry: "heap_ok lo hi bs \<Longrightarrow> k < length bs \<Longrightarrow> geometry_ok lo hi (bs ! k)"
  by (simp add: heap_ok_def block_ok_def)

lemma unat_Block_GetSize: "heap_ok lo hi bs \<Longrightarrow> k < length bs \<Longrightarrow> unat (Block_GetSize (bs ! k)) = bsize (bs ! k)"
  unfolding Block_GetSize_def using geometry_okD(2)[OF heap_geometry] by (intro unat_pow2)

lemma shifts_step: "heap_ok lo hi bs \<Longrightarrow> Suc k < length bs \<Longrightarrow> hb_block_shift (bs ! k) < hb_block_shift (bs ! Suc k)"
proof -
  assume h: "heap_ok lo hi bs" "Suc k < length bs"
  then have g: "geometry_ok lo hi (bs ! k)" "geometry_ok lo hi (bs ! Suc k)" and n: "hb_next_block_shift (bs ! k) = hb_block_shift (bs ! Suc k)"
    using heap_geometry by (auto simp: heap_ok_def)
  then show ?thesis using geometry_okD(1)[OF g(2)] by (auto simp: geometry_ok_def)
qed

lemma shifts_mono: "heap_ok lo hi bs \<Longrightarrow> k < length bs \<Longrightarrow> j \<le> k \<Longrightarrow> hb_block_shift (bs ! j) \<le> hb_block_shift (bs ! k)"
proof (induction k)
  case (Suc k)
  then show ?case using shifts_step[of lo hi bs k] by (cases "j = Suc k") auto
qed simp

lemma bsize_dvd: "heap_ok lo hi bs \<Longrightarrow> k < length bs \<Longrightarrow> j \<le> k \<Longrightarrow> bsize (bs ! j) dvd bsize (bs ! k)"
  using shifts_mono by (intro le_imp_power_dvd)

lemma bsize_0: "heap_ok lo hi bs \<Longrightarrow> bsize (bs ! 0) = 4096"
  by (simp add: heap_ok_def)

lemma aligned_close: "(n::nat) dvd a \<Longrightarrow> n dvd b \<Longrightarrow> a \<le> b \<Longrightarrow> b < a + n \<Longrightarrow> a = b"
  using dvd_step[of n a b] by (cases "a = b") auto

lemma free_before_levels_ok:
  "can_free lo hi {unat s..<unat e} bs \<Longrightarrow> n \<le> length bs \<Longrightarrow> unat s \<le> unat e \<Longrightarrow> unat e \<le> hi \<Longrightarrow> 4096 dvd unat s \<Longrightarrow>
    (\<And>j. j < n \<Longrightarrow> bsize (bs ! j) dvd unat e) \<Longrightarrow> (n = 0 \<Longrightarrow> unat s = unat e) \<Longrightarrow>
    \<exists>bs'. free_before_levels s n e bs = Ok bs' \<and> adds lo hi {unat s..<unat e} bs bs'"
proof (induction n arbitrary: e bs)
  case 0
  then show ?case using adds_refl by (auto simp: can_free_def)
next
  case (Suc n)
  have h: "heap_ok lo hi bs" and n: "n < length bs" using Suc.prems(1,2) by (auto simp: can_free_def)
  let ?sz = "Block_GetSize (bs ! n)"
  have sz: "unat ?sz = bsize (bs ! n)" using unat_Block_GetSize[OF h n] .
  have "unat s + unat ?sz < 2 ^ 64" using geometry_okD(7)[OF heap_geometry[OF h n]] Suc.prems(3,4) unfolding sz by linarith
  from free_before_ok[OF Suc.prems(1) n Suc.prems(3) Suc.prems(6) sz this] obtain e' bs1 where
    1: "free_before s ?sz n e bs = Ok (e', bs1)" "adds lo hi {unat e'..<unat e} bs bs1"
      "unat s \<le> unat e'" "unat e' < unat s + bsize (bs ! n)" "unat e' \<le> unat e" "bsize (bs ! n) dvd unat e'" by auto
  note geo = adds_geometry[OF 1(2)]
  have split: "{unat s..<unat e} = {unat e'..<unat e} \<union> {unat s..<unat e'}" using 1(3,5) by auto
  have rest: "can_free lo hi {unat s..<unat e'} bs1"
    using can_free_rest[OF _ _ 1(2), of "{unat s..<unat e'}"] Suc.prems(1) split by auto
  have "bsize (bs1 ! j) dvd unat e'" if "j < n" for j
  proof -
    have "bsize (bs1 ! j) dvd bsize (bs ! n)" using geo[of j] bsize_dvd[OF h n, of j] that n by simp
    then show ?thesis using 1(6) by (rule dvd_trans)
  qed
  moreover have "unat s = unat e'" if "n = 0"
    using aligned_close[of 4096 "unat s" "unat e'"] Suc.prems(5) 1(3,4,6) bsize_0[OF h] that by auto
  ultimately obtain bs2 where 2: "free_before_levels s n e' bs1 = Ok bs2" "adds lo hi {unat s..<unat e'} bs1 bs2"
    using Suc.IH[OF rest] geo[of 0] Suc.prems(2,4,5) 1(3,5) by auto
  then show ?case using 1(1) adds_trans[OF 1(2) 2(2)] split by auto
qed

lemma free_after_levels_ok:
  "can_free lo hi {unat s..<unat e} bs \<Longrightarrow> n \<le> length bs \<Longrightarrow> unat s \<le> unat e \<Longrightarrow> unat e \<le> hi \<Longrightarrow> 4096 dvd unat e \<Longrightarrow>
    (\<And>j. j < n \<Longrightarrow> bsize (bs ! j) dvd unat s) \<Longrightarrow> (n = 0 \<Longrightarrow> unat s = unat e) \<Longrightarrow>
    \<exists>bs'. free_after_levels e n s bs = Ok bs' \<and> adds lo hi {unat s..<unat e} bs bs'"
proof (induction n arbitrary: s bs)
  case 0
  then show ?case using adds_refl by (auto simp: can_free_def)
next
  case (Suc n)
  have h: "heap_ok lo hi bs" and n: "n < length bs" using Suc.prems(1,2) by (auto simp: can_free_def)
  let ?sz = "Block_GetSize (bs ! n)"
  have sz: "unat ?sz = bsize (bs ! n)" using unat_Block_GetSize[OF h n] .
  have "unat e + unat ?sz < 2 ^ 64" using geometry_okD(7)[OF heap_geometry[OF h n]] Suc.prems(4) unfolding sz by linarith
  from free_after_ok[OF Suc.prems(1) n Suc.prems(3) Suc.prems(6) sz this] obtain s' bs1 where
    1: "free_after e ?sz n s bs = Ok (s', bs1)" "adds lo hi {unat s..<unat s'} bs bs1"
      "unat s' \<le> unat e" "unat e < unat s' + bsize (bs ! n)" "unat s \<le> unat s'" "bsize (bs ! n) dvd unat s'" by auto
  note geo = adds_geometry[OF 1(2)]
  have split: "{unat s..<unat e} = {unat s..<unat s'} \<union> {unat s'..<unat e}" using 1(3,5) by auto
  have rest: "can_free lo hi {unat s'..<unat e} bs1"
    using can_free_rest[OF _ _ 1(2), of "{unat s'..<unat e}"] Suc.prems(1) split by auto
  have "bsize (bs1 ! j) dvd unat s'" if "j < n" for j
  proof -
    have "bsize (bs1 ! j) dvd bsize (bs ! n)" using geo[of j] bsize_dvd[OF h n, of j] that n by simp
    then show ?thesis using 1(6) by (rule dvd_trans)
  qed
  moreover have "unat s' = unat e" if "n = 0"
    using aligned_close[of 4096 "unat s'" "unat e"] Suc.prems(5) 1(3,4,6) bsize_0[OF h] that by auto
  ultimately obtain bs2 where 2: "free_after_levels e n s' bs1 = Ok bs2" "adds lo hi {unat s'..<unat e} bs1 bs2"
    using Suc.IH[OF rest] geo[of 0] Suc.prems(2,4,5) 1(3,5) by auto
  then show ?case using 1(1) adds_trans[OF 1(2) 2(2)] split by auto
qed

text \<open>The largest size of which a whole block fits: there is one, since a page does.\<close>

lemma find_big_ok:
  assumes h: "heap_ok lo hi bs" and r: "unat s < unat e" "unat e \<le> hi" "4096 dvd unat s" "4096 dvd unat e"
  shows "0 < n \<Longrightarrow> n \<le> length bs \<Longrightarrow> \<exists>k b0 b1. find_big s e bs n = Some (k, b0, b1) \<and> k < n \<and>
    unat s \<le> unat b0 \<and> unat b0 < unat b1 \<and> unat b1 \<le> unat e \<and> bsize (bs ! k) dvd unat b0 \<and> bsize (bs ! k) dvd unat b1 \<and>
    (k = 0 \<longrightarrow> unat b0 = unat s \<and> unat b1 = unat e)"
proof (induction n)
  case (Suc n)
  let ?sz = "Block_GetSize (bs ! n)"
  have n: "n < length bs" using Suc.prems(2) by simp
  have sz: "unat ?sz = bsize (bs ! n)" "0 < unat ?sz" using unat_Block_GetSize[OF h n] by simp_all
  have "unat s + unat ?sz < 2 ^ 64" using geometry_okD(7)[OF heap_geometry[OF h n]] r unfolding sz by linarith
  note up = AlignUp_props[OF sz(2) this] and dn = AlignDown_props[OF sz(2), of e]
  have zero: "unat (AlignUp s ?sz) = unat s" "unat (AlignDown e ?sz) = unat e" if "n = 0"
  proof -
    have z: "unat ?sz = 4096" using sz(1) bsize_0[OF h] that by simp
    show "unat (AlignUp s ?sz) = unat s" using aligned_close[of 4096 "unat s"] up r(3) z by metis
    show "unat (AlignDown e ?sz) = unat e" using aligned_close[of 4096 _ "unat e"] dn r(4) z by metis
  qed
  show ?case
  proof (cases "AlignUp s ?sz < AlignDown e ?sz")
    case True
    then show ?thesis using up dn zero sz(1) by (auto simp: Let_def word_less_nat_alt)
  next
    case False
    have "n \<noteq> 0"
    proof
      assume "n = 0"
      then show False using zero[OF \<open>n = 0\<close>] r(1) False unfolding word_less_nat_alt by linarith
    qed
    then show ?thesis using Suc False by (auto simp: Let_def)
  qed
qed simp

lemma Free_blocks_ok:
  assumes f: "can_free lo hi {unat a..<unat a + unat np * 4096} bs" and a: "4096 dvd unat a" "unat a + unat np * 4096 \<le> hi"
  shows "\<exists>bs'. Free_blocks (length bs) a np bs = Ok bs' \<and> adds lo hi {unat a..<unat a + unat np * 4096} bs bs'"
proof (cases "np = 0")
  case True
  then show ?thesis using adds_refl[of lo hi bs] f by (simp add: Free_blocks_def can_free_def)
next
  case False
  have h: "heap_ok lo hi bs" "0 < length bs" using f by (auto simp: can_free_def heap_ok_def)
  have np: "0 < unat np" using False by (simp add: unat_gt_0)
  have hi: "hi < 2 ^ 64" using geometry_okD(7)[OF heap_geometry[OF h]] by linarith
  define e where "e = a + np * PageSize"
  have pp: "unat (np * PageSize) = unat np * 4096" using a(2) hi by (simp add: unat_mult_no_wrap PageSize_value)
  have e: "unat e = unat a + unat np * 4096" unfolding e_def using a(2) hi by (simp add: unat_add_no_wrap pp)
  have f': "can_free lo hi {unat a..<unat e} bs" using f e by simp
  have "unat a < unat e" "unat e \<le> hi" "4096 dvd unat e" using np a e by simp_all
  from find_big_ok[OF h(1) this(1,2) a(1) this(3) h(2) order_refl] obtain k b0 b1 where
    b: "find_big a e bs (length bs) = Some (k, b0, b1)" "k < length bs" "unat a \<le> unat b0" "unat b0 < unat b1"
      "unat b1 \<le> unat e" "bsize (bs ! k) dvd unat b0" "bsize (bs ! k) dvd unat b1"
      "k = 0 \<longrightarrow> unat b0 = unat a \<and> unat b1 = unat e" by blast
  let ?A = "{unat b0..<unat b1}" and ?B = "{unat a..<unat b0}" and ?C = "{unat b1..<unat e}"
  have split: "{unat a..<unat e} = ?A \<union> (?B \<union> ?C)" using b by auto
  define n where "n = (unat b1 - unat b0) div bsize (bs ! k)"
  have "bsize (bs ! k) dvd unat b1 - unat b0" using b(6,7) by (intro dvd_diff_nat)
  then have n: "unat b1 = unat b0 + n * bsize (bs ! k)" using b(4) by (simp add: n_def)
  have "can_free lo hi ?A bs" using f' split can_free_mono by blast
  from free_big_ok[OF this b(2,6) n unat_Block_GetSize[OF h(1) b(2)]] obtain bs1 where
    1: "free_big (Block_GetSize (bs ! k)) b1 k b0 bs = Ok bs1" "adds lo hi ?A bs bs1" by blast
  note g1 = adds_geometry[OF 1(2)]
  have "?A \<inter> (?B \<union> ?C) = {}" by auto
  then have f1: "can_free lo hi (?B \<union> ?C) bs1" using can_free_rest[OF _ _ 1(2), of "?B \<union> ?C"] f' split by simp
  have dvd: "bsize (bs ! j) dvd x" if "j < k" "bsize (bs ! k) dvd x" for j x
    using bsize_dvd[OF h(1) b(2), of j] that by (auto intro: dvd_trans)
  have B: "can_free lo hi ?B bs1" using f1 can_free_mono by blast
  have "k \<le> length bs1" "unat b0 \<le> hi" using g1 b(2,4,5) a(2) e by simp_all
  moreover have "bsize (bs1 ! j) dvd unat b0" if "j < k" for j using dvd[OF that b(6)] g1[of j] that b(2) by simp
  moreover have "unat a = unat b0" if "k = 0" using b(8) that by simp
  ultimately obtain bs2 where 2: "free_before_levels a k b0 bs1 = Ok bs2" "adds lo hi ?B bs1 bs2"
    using free_before_levels_ok[OF B _ b(3) _ a(1)] by blast
  note g2 = adds_geometry[OF 2(2)]
  have "?B \<inter> ?C = {}" using b(4) by auto
  then have C: "can_free lo hi ?C bs2" using can_free_rest[OF f1 _ 2(2)] by simp
  have "k \<le> length bs2" "unat e \<le> hi" using g1 g2 b(2) a(2) e by simp_all
  moreover have "bsize (bs2 ! j) dvd unat b1" if "j < k" for j using dvd[OF that b(7)] g1[of j] g2[of j] that b(2) by simp
  moreover have "unat b1 = unat e" if "k = 0" using b(8) that by simp
  ultimately obtain bs3 where 3: "free_after_levels e k b1 bs2 = Ok bs3" "adds lo hi ?C bs2 bs3"
    using free_after_levels_ok[OF C _ b(5) _ \<open>4096 dvd unat e\<close>] by blast
  have "Free_blocks (length bs) a np bs = Ok bs3"
    using False b(1) 1(1) 2(1) 3(1) by (simp add: Free_blocks_def Let_def flip: e_def)
  moreover have "adds lo hi {unat a..<unat e} bs bs3"
    using adds_trans[OF 1(2) adds_trans[OF 2(2) 3(2)]] split by simp
  ultimately show ?thesis using e by simp
qed

section \<open>Allocating takes exactly the allocated addresses\<close>

definition takes :: "nat \<Rightarrow> nat \<Rightarrow> nat set \<Rightarrow> heap_block list \<Rightarrow> heap_block list \<Rightarrow> bool" where
  "takes lo hi R bs bs' \<longleftrightarrow> heap_ok lo hi bs' \<and> map geometry bs' = map geometry bs \<and> R \<subseteq> total_free bs \<and>
     total_free bs' = total_free bs - R"

lemma total_free_range: "heap_ok lo hi bs \<Longrightarrow> total_free bs \<subseteq> {lo..<hi}"
  by (auto simp: total_free_def heap_ok_def block_ok_def)

lemma pop_heap:
  assumes h: "heap_ok lo hi bs" "0 < lo" "k < length bs"
  shows "\<exists>a b'. PopBlock random (bs ! k) = Ok (a, b') \<and> geometry b' = geometry (bs ! k) \<and>
    (if a = 0 then block_free (bs ! k) = {} \<and> block_free b' = {} \<and> takes lo hi {} bs (bs[k := b'])
     else bsize (bs ! k) dvd unat a \<and> {unat a..<unat a + bsize (bs ! k)} \<subseteq> block_free (bs ! k) \<and>
       takes lo hi {unat a..<unat a + bsize (bs ! k)} bs (bs[k := b']))"
proof -
  let ?b = "bs ! k"
  have ok: "block_ok lo hi ?b" and dis: "block_free ?b \<inter> others bs k = {}" using h by (auto simp: heap_ok_def)
  obtain a b' where p: "PopBlock random ?b = Ok (a, b')" "popped lo hi ?b a b'" using PopBlock_ok[OF ok h(2)] by blast
  have b': "block_ok lo hi b'" "geometry b' = geometry ?b" "block_free b' \<subseteq> block_free ?b"
    using p(2) by (auto simp: popped_def split: if_splits)
  then have "block_free b' \<inter> others bs k = {}" using dis by auto
  note up = heap_update[OF h(1,3) b'(1,2) this]
  let ?R = "{unat a..<unat a + bsize ?b}"
  show ?thesis
  proof (cases "a = 0")
    case True
    then have e: "block_free ?b = {}" "block_free b' = {}" using p(2) by (simp_all add: popped_def)
    then have "takes lo hi {} bs (bs[k := b'])" using up total_free_split[OF h(3)] by (simp add: takes_def)
    then show ?thesis using p(1) b'(2) True e by auto
  next
    case False
    then have r: "bsize ?b dvd unat a" "?R \<subseteq> block_free ?b" "block_free b' = block_free ?b - ?R"
      using p(2) by (simp_all add: popped_def)
    then have "takes lo hi ?R bs (bs[k := b'])"
      using up total_free_split[OF h(3)] dis unfolding takes_def by blast
    then show ?thesis using p(1) b'(2) False r by auto
  qed
qed

lemma free_part:
  assumes h: "heap_ok lo hi bs" "0 < lo" and t: "takes lo hi R bs bs1"
    and p: "{unat p..<unat p + unat np * 4096} \<subseteq> R" "4096 dvd unat p"
  shows "\<exists>bs2. Free_blocks (length bs) p np bs1 = Ok bs2 \<and> takes lo hi (R - {unat p..<unat p + unat np * 4096}) bs bs2"
proof (cases "np = 0")
  case True
  then show ?thesis using t by (auto simp: Free_blocks_def)
next
  case False
  let ?P = "{unat p..<unat p + unat np * 4096}"
  have np: "0 < unat np" using False by (simp add: unat_gt_0)
  have t': "heap_ok lo hi bs1" "map geometry bs1 = map geometry bs" "R \<subseteq> total_free bs" "total_free bs1 = total_free bs - R"
    using t by (simp_all add: takes_def)
  have len: "length bs1 = length bs" using t'(2) by (rule map_eq_imp_length_eq)
  have P: "?P \<subseteq> {lo..<hi}" using p(1) t'(3) total_free_range[OF h(1)] by blast
  then have "unat p + unat np * 4096 \<le> hi" using interval_bounds[OF P] np by simp
  moreover have "?P \<inter> total_free bs1 = {}" unfolding t'(4) using p(1) by blast
  then have "can_free lo hi ?P bs1" unfolding can_free_def using t'(1) h(2) P by blast
  ultimately obtain bs2 where 2: "Free_blocks (length bs1) p np bs1 = Ok bs2" "adds lo hi ?P bs1 bs2"
    using Free_blocks_ok p(2) by blast
  have "total_free bs - R \<union> ?P = total_free bs - (R - ?P)" using p(1) t'(3) by blast
  then have "takes lo hi (R - ?P) bs bs2" using 2(2) t' by (auto simp: takes_def adds_def)
  then show ?thesis using 2(1) len by auto
qed

lemma pages_of_rest: "4096 dvd unat w \<Longrightarrow> unat (w div PageSize) * 4096 = unat w"
  by (simp add: unat_div_distrib PageSize_value)

lemma takes_range:
  assumes "heap_ok lo hi bs" "takes lo hi {x..<x + n} bs bs1" "0 < n"
  shows "lo \<le> x \<and> x + n \<le> hi"
proof -
  have "{x..<x + n} \<subseteq> total_free bs" using assms(2) unfolding takes_def by (elim conjE)
  then have "{x..<x + n} \<subseteq> {lo..<hi}" using total_free_range[OF assms(1)] by (rule order_trans)
  then show ?thesis using assms(3) by (rule interval_bounds)
qed

text \<open>Of a taken range, the part before or after the wanted one is freed again.\<close>

lemma free_front:
  assumes "heap_ok lo hi bs" "0 < lo" "takes lo hi {unat p..<y} bs bs1" "unat p + unat off \<le> y" "4096 dvd unat p" "4096 dvd unat off"
  shows "\<exists>bs2. Free_blocks (length bs) p (off div PageSize) bs1 = Ok bs2 \<and> takes lo hi {unat p + unat off..<y} bs bs2"
proof -
  have "{unat p..<unat p + unat (off div PageSize) * 4096} \<subseteq> {unat p..<y}"
    unfolding pages_of_rest[OF assms(6)] using assms(4) by auto
  from free_part[OF assms(1-3) this assms(5)] show ?thesis
    unfolding pages_of_rest[OF assms(6)] by simp
qed

lemma free_tail:
  assumes "heap_ok lo hi bs" "0 < lo" "takes lo hi {x..<y} bs bs1" "unat p = x + n" "unat rest = y - (x + n)" "x + n \<le> y"
    "4096 dvd unat p" "4096 dvd unat rest"
  shows "\<exists>bs2. Free_blocks (length bs) p (rest div PageSize) bs1 = Ok bs2 \<and> takes lo hi {x..<x + n} bs bs2"
proof -
  have e: "{unat p..<unat p + unat (rest div PageSize) * 4096} = {x + n..<y}"
    unfolding pages_of_rest[OF assms(8)] assms(4,5) using assms(6) by simp
  have "{x..<y} - {x + n..<y} = {x..<x + n}" using assms(6) by auto
  moreover have "{x + n..<y} \<subseteq> {x..<y}" by auto
  ultimately show ?thesis using free_part[OF assms(1-3), of p "rest div PageSize"] assms(7) unfolding e by simp
qed

lemma linear_search_ok:
  assumes "0 < lo" "idx < length bs0" "unat needed = bsize (bs0 ! idx)"
  shows "heap_ok lo hi bs \<Longrightarrow> map geometry bs = map geometry bs0 \<Longrightarrow> \<forall>i \<in> set is. idx \<le> i \<and> i < length bs \<Longrightarrow>
    \<exists>a bs'. linear_search (length bs) needed is bs = Ok (a, bs') \<and>
      (if a = 0 then (\<forall>i \<in> set is. block_free (bs ! i) = {}) \<and> takes lo hi {} bs bs'
       else unat needed dvd unat a \<and> takes lo hi {unat a..<unat a + unat needed} bs bs')"
proof (induction "is" arbitrary: bs)
  case Nil
  then show ?case by (simp add: takes_def)
next
  case (Cons i "is")
  let ?b = "bs ! i" and ?N = "unat needed"
  have i: "i < length bs" "idx \<le> i" "idx < length bs" using Cons.prems(3) by auto
  have "geometry (bs ! idx) = geometry (bs0 ! idx)" using Cons.prems(2) i(3) assms(2) by (metis nth_map)
  then have needed: "?N = bsize (bs ! idx)" using assms(3) geometry_eqD by metis
  from pop_heap[OF Cons.prems(1) assms(1) i(1), of False] obtain a b' where
    p: "PopBlock False ?b = Ok (a, b')" "geometry b' = geometry ?b"
      "if a = 0 then block_free ?b = {} \<and> block_free b' = {} \<and> takes lo hi {} bs (bs[i := b'])
       else bsize ?b dvd unat a \<and> {unat a..<unat a + bsize ?b} \<subseteq> block_free ?b \<and>
         takes lo hi {unat a..<unat a + bsize ?b} bs (bs[i := b'])" by blast
  let ?bs = "bs[i := b']"
  have sz: "unat (Block_GetSize b') = bsize ?b"
    using unat_Block_GetSize[OF Cons.prems(1) i(1)] geometry_eqD[OF p(2)] by (simp add: Block_GetSize_def)
  show ?case
  proof (cases "a = 0")
    case True
    then have e: "block_free ?b = {}" "takes lo hi {} bs ?bs" using p(3) by simp_all
    then have tot: "total_free ?bs = total_free bs" "map geometry ?bs = map geometry bs" "heap_ok lo hi ?bs"
      by (simp_all add: takes_def)
    have "\<forall>j \<in> set is. idx \<le> j \<and> j < length ?bs" using Cons.prems(3) by simp
    from Cons.IH[OF tot(3) _ this] obtain a2 bs2 where 2: "linear_search (length ?bs) needed is ?bs = Ok (a2, bs2)"
      "if a2 = 0 then (\<forall>j \<in> set is. block_free (?bs ! j) = {}) \<and> takes lo hi {} ?bs bs2
       else ?N dvd unat a2 \<and> takes lo hi {unat a2..<unat a2 + ?N} ?bs bs2" using tot(2) Cons.prems(2) by auto
    have "linear_search (length bs) needed (i # is) bs = Ok (a2, bs2)" using i(1) p(1) True 2(1) by (simp add: Let_def)
    moreover have "block_free (bs ! j) = {}" if "block_free (?bs ! j) = {}" for j
      using that e(1) by (cases "j = i") auto
    ultimately show ?thesis using 2(2) e(1) tot by (cases "a2 = 0") (auto simp: takes_def)
  next
    case False
    let ?S = "bsize ?b"
    have t: "?S dvd unat a" "takes lo hi {unat a..<unat a + ?S} bs ?bs" using p(3) False by simp_all
    have dvd: "?N dvd ?S" unfolding needed using bsize_dvd[OF Cons.prems(1) i(1,2)] .
    have N: "4096 dvd ?N" "?N \<le> ?S"
      using bsize_dvd[OF Cons.prems(1) i(3), of 0] bsize_0[OF Cons.prems(1)] needed dvd_imp_le[OF dvd] by auto
    have Na: "?N dvd unat a" using dvd t(1) by (rule dvd_trans)
    let ?rest = "Block_GetSize b' - needed"
    have rest: "unat ?rest = unat a + ?S - (unat a + ?N)" using N(2) sz by (simp add: unat_diff_no_wrap)
    have "unat a + ?S \<le> hi" using takes_range[OF Cons.prems(1) t(2)] by simp
    then have "unat a + ?N < 2 ^ 64" using N(2) geometry_okD(7)[OF heap_geometry[OF Cons.prems(1) i(1)]] by linarith
    then have ad: "unat (a + needed) = unat a + ?N" by (simp add: unat_add_no_wrap)
    have "4096 dvd unat (a + needed)" "4096 dvd unat ?rest"
      unfolding ad rest using N(1) Na dvd_trans[OF N(1) dvd] by (auto intro: dvd_trans)
    then obtain bs2 where "Free_blocks (length bs) (a + needed) (?rest div PageSize) ?bs = Ok bs2" "takes lo hi {unat a..<unat a + ?N} bs bs2"
      using free_tail[OF Cons.prems(1) assms(1) t(2) ad rest] N(2) by auto
    moreover have "?S = ?N" if "\<not> needed < Block_GetSize b'" using that N(2) sz by (simp add: word_less_nat_alt)
    ultimately show ?thesis using i(1) p(1) False t(2) Na by (cases "needed < Block_GetSize b'") (auto simp: Let_def)
  qed
qed

section \<open>Counting\<close>

lemma card_span:
  assumes "0 < S"
  shows "finite I \<Longrightarrow> finite (span base S I) \<and> card (span base S I) = card I * S"
proof (induction I rule: finite_induct)
  case empty
  then show ?case by simp
next
  case (insert i I)
  have "span base S I \<inter> span base S {i} = {}" using insert(2) by (auto simp: span_def)
  then have "span base S I \<inter> {base + i * S..<base + i * S + S} = {}" by (simp add: span_single[OF assms])
  then show ?case using insert by (simp add: span_insert[OF assms] card_Un_disjoint)
qed

lemma card_block_free: "finite (block_free b) \<and> card (block_free b) = card (bits_of (hb_bitmap b)) * bsize b"
  unfolding block_free_def by (rule card_span) simp_all

lemma block_free_empty: "block_free b = {} \<longleftrightarrow> card (bits_of (hb_bitmap b)) = 0"
proof -
  have f: "finite (block_free b)" and c: "card (block_free b) = card (bits_of (hb_bitmap b)) * bsize b"
    using card_block_free[of b] by blast+
  show ?thesis using card_0_eq[OF f] unfolding c by auto
qed

lemma card_total_free:
  assumes "heap_ok lo hi bs"
  shows "card (total_free bs) = (\<Sum>k < length bs. card (bits_of (hb_bitmap (bs ! k))) * bsize (bs ! k))"
proof -
  have "block_free (bs ! j) \<inter> block_free (bs ! k) = {}" if "j < length bs" "k < length bs" "j \<noteq> k" for j k
  proof -
    have "block_free (bs ! k) \<inter> others bs k = {}" "block_free (bs ! j) \<subseteq> others bs k"
      using assms that by (auto simp: heap_ok_def others_def)
    then show ?thesis by blast
  qed
  then have "card (total_free bs) = (\<Sum>k < length bs. card (block_free (bs ! k)))"
    unfolding total_free_def using card_block_free by (intro card_UN_disjoint) auto
  then show ?thesis using card_block_free by simp
qed

lemma total_free_card_le: "heap_ok lo hi bs \<Longrightarrow> finite (total_free bs) \<and> card (total_free bs) \<le> hi - lo"
  using total_free_range[of lo hi bs] card_mono[of "{lo..<hi}" "total_free bs"] finite_subset by fastforce

lemma num_bits_bound:
  assumes "heap_ok lo hi bs" "k < length bs"
  shows "unat (Block_GetNumFreeBlocks (bs ! k)) = card (bits_of (hb_bitmap (bs ! k)))"
    "card (bits_of (hb_bitmap (bs ! k))) * bsize (bs ! k) \<le> hi" "hi < 2 ^ 64"
proof -
  let ?c = "card (bits_of (hb_bitmap (bs ! k)))"
  have "?c * bsize (bs ! k) \<le> card (total_free bs)"
    unfolding card_total_free[OF assms(1)] using assms(2) by (intro member_le_sum) simp_all
  then show c: "?c * bsize (bs ! k) \<le> hi" using total_free_card_le[OF assms(1)] by linarith
  show hi: "hi < 2 ^ 64" using geometry_okD(7)[OF heap_geometry[OF assms]] by linarith
  have "?c * 1 \<le> ?c * bsize (bs ! k)" by (intro mult_le_mono2) simp
  then have "?c < 2 ^ 64" using c hi by linarith
  then show "unat (Block_GetNumFreeBlocks (bs ! k)) = ?c"
    using assms by (simp add: Block_GetNumFreeBlocks_def GetNumBits_def heap_ok_def block_ok_def bitmap_inv_def unat_of_nat)
qed

text \<open>The pages the heap reports free are the free addresses.\<close>

lemma unat_sum_list:
  assumes "\<And>x. x \<in> set xs \<Longrightarrow> unat (f x :: u64) = g x" "sum_list (map g xs) < 2 ^ 64"
  shows "unat (sum_list (map f xs)) = sum_list (map g xs)"
  using assms
proof (induction xs)
  case (Cons x xs)
  then show ?case by (simp add: unat_add_no_wrap)
qed simp

lemma num_free_pages:
  assumes "heap_ok lo hi bs" "k < length bs"
  shows "unat (Block_GetNumFreePages (bs ! k)) * 4096 = card (bits_of (hb_bitmap (bs ! k))) * bsize (bs ! k)"
proof -
  let ?c = "card (bits_of (hb_bitmap (bs ! k)))"
  note n = num_bits_bound[OF assms]
  have d: "4096 dvd bsize (bs ! k)" using bsize_dvd[OF assms, of 0] bsize_0[OF assms(1)] by simp
  have p: "unat (Block_GetNumPages (bs ! k)) = bsize (bs ! k) div 4096"
    using unat_Block_GetSize[OF assms] by (simp add: Block_GetNumPages_def unat_div_distrib PageSize_value)
  have e: "?c * (bsize (bs ! k) div 4096) * 4096 = ?c * bsize (bs ! k)" using d by simp
  then have "?c * (bsize (bs ! k) div 4096) < 2 ^ 64" using n(2,3) by linarith
  then have "unat (Block_GetNumFreePages (bs ! k)) = ?c * (bsize (bs ! k) div 4096)"
    using n(1) p by (simp add: Block_GetNumFreePages_def unat_mult_no_wrap)
  then show ?thesis using e by simp
qed

lemma GetNumFreePages_total:
  assumes "heap_ok lo hi bs" "m_blocks h = bs" "m_num_blocks h = length bs"
  shows "unat (GetNumFreePages h) * 4096 = card (total_free bs)"
proof -
  let ?g = "\<lambda>b. unat (Block_GetNumFreePages b)"
  have eq: "sum_list (map ?g bs) * 4096 = card (total_free bs)"
  proof -
    have "sum_list (map ?g bs) = (\<Sum>k < length bs. ?g (bs ! k))"
      by (simp add: sum_list_sum_nth atLeast0LessThan)
    then have "sum_list (map ?g bs) * 4096 = (\<Sum>k < length bs. ?g (bs ! k) * 4096)" by (simp add: sum_distrib_right)
    also have "\<dots> = (\<Sum>k < length bs. card (bits_of (hb_bitmap (bs ! k))) * bsize (bs ! k))"
      using num_free_pages[OF assms(1)] by (intro sum.cong) simp_all
    finally show ?thesis using card_total_free[OF assms(1)] by simp
  qed
  have "0 < length bs" using assms(1) by (simp add: heap_ok_def)
  then have "sum_list (map ?g bs) < 2 ^ 64"
    using eq total_free_card_le[OF assms(1)] num_bits_bound(3)[OF assms(1)] by fastforce
  then have "unat (sum_list (map Block_GetNumFreePages bs)) = sum_list (map ?g bs)"
    by (intro unat_sum_list) simp_all
  then show ?thesis using eq assms(2,3) by (simp add: GetNumFreePages_def)
qed

section \<open>Randomised allocation\<close>

lemma GenerateRandom_less: "GenerateRandom m g = Ok (r, g') \<Longrightarrow> r < m"
proof -
  assume "GenerateRandom m g = Ok (r, g')"
  then obtain rnd where "m \<noteq> 0" "r = rnd - rnd div m * m"
    by (auto simp: GenerateRandom_def bind_res_Ok_iff split: if_splits)
  then have "r = rnd mod m" "0 < m" by (simp_all add: minus_div_mult_eq_mod word_greater_zero_iff)
  then show ?thesis by (simp add: word_mod_less_divisor)
qed

lemma GenerateRandom_total:
  assumes "0 < unat m" "unat m < 2 ^ 30"
  shows "\<exists>r g'. GenerateRandom m g = Ok (r, g') \<and> unat r < unat m"
proof -
  from GenerateRandom_ok[OF assms, of g] obtain r g' where "GenerateRandom m g = Ok (r, g')" by auto
  then show ?thesis using GenerateRandom_less by (metis word_less_nat_alt)
qed

text \<open>The random offset of the part that is handed out.\<close>

lemma random_offset_ok:
  assumes al: "12 \<le> al" and L: "unat left < 2 ^ 41"
  shows "\<exists>rnd g'. GenerateRandom (1 + drop_bit al left) g = Ok (rnd, g') \<and> 2 ^ al dvd unat (push_bit al rnd) \<and>
    unat (push_bit al rnd) \<le> unat left"
proof -
  define q where "q = unat left div 2 ^ al"
  have q: "unat (drop_bit al left) = q" by (simp add: unat_shift_right q_def)
  have "(2::nat) ^ 12 \<le> 2 ^ al" using al by (rule power_increasing) simp
  then have "q \<le> unat left div 4096" unfolding q_def by (intro div_le_mono2) simp_all
  moreover have "unat left < 2 ^ 29 * 4096" using L by simp
  then have "unat left div 4096 < 2 ^ 29" by (simp only: div_less_iff_less_mult)
  ultimately have qb: "q < 2 ^ 29" by (rule le_less_trans)
  then have m: "unat (1 + drop_bit al left) = Suc q" by (subst unat_add_no_wrap) (simp_all add: q)
  obtain rnd g' where r: "GenerateRandom (1 + drop_bit al left) g = Ok (rnd, g')" "unat rnd \<le> q"
    using GenerateRandom_total[of "1 + drop_bit al left" g] m qb by (auto simp: less_Suc_eq_le)
  have "unat rnd * 2 ^ al \<le> q * 2 ^ al" using r(2) by (rule mult_le_mono1)
  also have "\<dots> \<le> unat left" unfolding q_def by (rule div_times_less_eq_dividend)
  finally have ob: "unat rnd * 2 ^ al \<le> unat left" .
  moreover have "unat left < 2 ^ 64" using unsigned_less[of left, where 'a = nat] by simp
  ultimately have "unat (push_bit al rnd) = unat rnd * 2 ^ al" by (intro unat_shift_left) linarith
  then show ?thesis using r(1) ob by auto
qed

text \<open>The two rests of a popped block are freed and the middle part is handed out.\<close>

lemma cut_block_ok:
  assumes h: "heap_ok lo hi bs" "0 < lo" "hi < 2 ^ 41" "k < length bs"
    and t: "takes lo hi {unat a..<unat a + bsize (bs ! k)} bs bs1" "bsize (bs ! k) dvd unat a"
    and N: "4096 dvd unat needed" "0 < unat needed" "unat needed \<le> bsize (bs ! k)"
    and al: "12 \<le> al" "2 ^ al dvd bsize (bs ! k)"
    and L: "unat left = bsize (bs ! k) - unat needed"
  shows "\<exists>a' bs2 g'. cut_block (length bs) needed al left a bs1 g = Ok (a', bs2, g') \<and> 2 ^ al dvd unat a' \<and>
    takes lo hi {unat a'..<unat a' + unat needed} bs bs2"
proof -
  let ?S = "bsize (bs ! k)" and ?N = "unat needed" and ?A = "unat a"
  have hi: "?A + ?S < 2 ^ 41" using takes_range[OF h(1) t(1)] h(3) by auto
  have p4: "(4096::nat) dvd 2 ^ al" using le_imp_power_dvd[OF al(1), of "2::nat"] by simp
  have S4: "4096 dvd ?S" "4096 dvd ?A" using dvd_trans[OF p4 al(2)] dvd_trans[OF dvd_trans[OF p4 al(2)] t(2)] by blast+
  have "unat left < 2 ^ 41" using L hi by linarith
  from random_offset_ok[OF al(1) this, of g] obtain rnd g' where r: "GenerateRandom (1 + drop_bit al left) g = Ok (rnd, g')"
    and o: "2 ^ al dvd unat (push_bit al rnd)" "unat (push_bit al rnd) \<le> unat left" by blast
  define off where "off = push_bit al rnd"
  note o = o[folded off_def]
  have off4: "4096 dvd unat off" using p4 o(1) by (rule dvd_trans)
  have oS: "?A + unat off + ?N \<le> ?A + ?S" using o(2) L N(3) by linarith
  then have "?A + unat off \<le> ?A + ?S" by linarith
  from free_front[OF h(1,2) t(1) this S4(2) off4] obtain bs2 where
    2: "Free_blocks (length bs) a (off div PageSize) bs1 = Ok bs2" "takes lo hi {?A + unat off..<?A + ?S} bs bs2" by blast
  have "Free_blocks (length bs) a (off div PageSize) bs1 = Ok bs1" if "off = 0" using that by (simp add: Free_blocks_def)
  then have s2: "(if off \<noteq> 0 then Free_blocks (length bs) a (off div PageSize) bs1 else Ok bs1) = Ok bs2" using 2(1) by auto
  let ?a = "a + off"
  have a': "unat ?a = ?A + unat off" using oS hi by (intro unat_add_no_wrap) simp
  have aN: "unat (?a + needed) = ?A + unat off + ?N" using a' oS hi by (subst unat_add_no_wrap) simp_all
  have rest: "unat (left - off) = ?A + ?S - (?A + unat off + ?N)" using L o(2) by (simp add: unat_diff_no_wrap)
  have "4096 dvd unat (left - off)" unfolding rest using S4 off4 N(1) by (intro dvd_diff_nat dvd_add)
  moreover have "4096 dvd unat (?a + needed)" unfolding aN using S4 off4 N(1) by (intro dvd_add)
  ultimately obtain bs3 where
    3: "Free_blocks (length bs) (?a + needed) ((left - off) div PageSize) bs2 = Ok bs3" "takes lo hi {unat ?a..<unat ?a + ?N} bs bs3"
    using free_tail[OF h(1,2) 2(2) aN rest oS] unfolding a' by blast
  have "Free_blocks (length bs) (?a + needed) ((left - off) div PageSize) bs2 = Ok bs2" if "off = left"
    using that by (simp add: Free_blocks_def)
  then have s3: "(if off \<noteq> left then Free_blocks (length bs) (?a + needed) ((left - off) div PageSize) bs2 else Ok bs2) = Ok bs3"
    using 3(1) by auto
  have "cut_block (length bs) needed al left a bs1 g = Ok (?a, bs3, g')"
    unfolding cut_block_def r Let_def bind_res.simps prod.case off_def[symmetric] s2 s3 ..
  moreover have "2 ^ al dvd unat ?a" unfolding a' using dvd_trans[OF al(2) t(2)] o(1) by (rule dvd_add)
  ultimately show ?thesis using 3(2) by blast
qed

definition alignments :: "nat \<Rightarrow> nat \<Rightarrow> heap_block \<Rightarrow> nat" where
  "alignments N al b = (1 + (bsize b - N) div 2 ^ al) * card (bits_of (hb_bitmap b))"

lemma alignments_bound:
  assumes "4096 \<le> N" "N \<le> bsize b" "12 \<le> al"
  shows "alignments N al b * 4096 \<le> card (bits_of (hb_bitmap b)) * bsize b"
proof -
  have "(2::nat) ^ 12 \<le> 2 ^ al" using assms(3) by (rule power_increasing) simp
  then have "(bsize b - N) div 2 ^ al \<le> (bsize b - N) div 4096" by (intro div_le_mono2) simp_all
  then have "(bsize b - N) div 2 ^ al * 4096 \<le> (bsize b - N) div 4096 * 4096" by (rule mult_le_mono1)
  also have "\<dots> \<le> bsize b - N" by (rule div_times_less_eq_dividend)
  finally have "(1 + (bsize b - N) div 2 ^ al) * 4096 \<le> bsize b" using assms(1,2) by (simp add: distrib_right)
  then have "card (bits_of (hb_bitmap b)) * ((1 + (bsize b - N) div 2 ^ al) * 4096) \<le> card (bits_of (hb_bitmap b)) * bsize b"
    by (rule mult_le_mono2)
  then show ?thesis unfolding alignments_def by (simp only: ac_simps)
qed

lemma alignments_sum:
  assumes h: "heap_ok lo hi bs" "hi < 2 ^ 41" and N: "4096 \<le> N" "\<And>j. i \<le> j \<Longrightarrow> j < length bs \<Longrightarrow> N \<le> bsize (bs ! j)" "12 \<le> al"
  shows "(\<Sum>j = i..<length bs. alignments N al (bs ! j)) < 2 ^ 29"
proof -
  let ?c = "\<lambda>j. card (bits_of (hb_bitmap (bs ! j))) * bsize (bs ! j)"
  have "(\<Sum>j = i..<length bs. alignments N al (bs ! j)) * 4096 \<le> (\<Sum>j = i..<length bs. ?c j)"
    unfolding sum_distrib_right using N by (intro sum_mono alignments_bound) auto
  also have "\<dots> \<le> (\<Sum>j < length bs. ?c j)" by (intro sum_mono2) auto
  also have "\<dots> \<le> hi" unfolding card_total_free[OF h(1), symmetric] using total_free_card_le[OF h(1)] by linarith
  finally show ?thesis using h(2) by simp
qed

lemma unat_block_alignments:
  assumes h: "heap_ok lo hi bs" "k < length bs" and N: "4096 \<le> unat needed" "unat needed \<le> bsize (bs ! k)" "12 \<le> al"
  shows "unat (block_alignments needed al (bs ! k)) = alignments (unat needed) al (bs ! k)"
proof -
  let ?b = "bs ! k"
  note n = num_bits_bound[OF h]
  have d: "unat (drop_bit al (Block_GetSize ?b - needed)) = (bsize ?b - unat needed) div 2 ^ al"
    using unat_Block_GetSize[OF h] N(2) by (simp add: unat_shift_right unat_diff_no_wrap)
  have "(bsize ?b - unat needed) div 2 ^ al \<le> bsize ?b - unat needed" by simp
  then have "1 + (bsize ?b - unat needed) div 2 ^ al < 2 ^ 64"
    using N(1,2) geometry_okD(7)[OF heap_geometry[OF h]] by linarith
  then have s: "unat (1 + drop_bit al (Block_GetSize ?b - needed)) = 1 + (bsize ?b - unat needed) div 2 ^ al"
    using d by (subst unat_add_no_wrap) simp_all
  have "alignments (unat needed) al ?b * 4096 < 2 ^ 64" using alignments_bound[OF N] n(2,3) by linarith
  then have "alignments (unat needed) al ?b < 2 ^ 64" by linarith
  then show ?thesis unfolding block_alignments_def alignments_def by (subst unat_mult_no_wrap) (simp_all add: s n(1))
qed

lemma count_alignments_ok:
  "\<forall>j \<in> {i..<n}. unat (block_alignments needed al (bs ! j)) = f j \<Longrightarrow> unat p0 + (\<Sum>j = i..<n. f j) < 2 ^ 64 \<Longrightarrow> i \<le> n \<Longrightarrow>
    \<exists>p mx. count_alignments bs needed al n [i..<n] p0 = (p, mx) \<and> i \<le> mx \<and> mx \<le> n \<and>
      unat p = unat p0 + (\<Sum>j = i..<mx. f j) \<and> (mx = n \<or> 4 \<le> unat p)"
proof (induction "n - i" arbitrary: i p0)
  case 0
  then show ?case by auto
next
  case (Suc d)
  then have i: "i < n" by simp
  let ?p = "p0 + block_alignments needed al (bs ! i)"
  have sum: "(\<Sum>j = i..<m. f j) = f i + (\<Sum>j = Suc i..<m. f j)" if "i < m" for m using that by (rule sum.atLeast_Suc_lessThan)
  have p: "unat ?p = unat p0 + f i" using Suc.prems(1,2) i sum[OF i] by (subst unat_add_no_wrap) auto
  show ?case
  proof (cases "4 \<le> ?p")
    case True
    then have "count_alignments bs needed al n [i..<n] p0 = (?p, i + 1)" using i by (simp add: upt_conv_Cons Let_def)
    moreover have "4 \<le> unat ?p" using True by (simp add: word_le_nat_alt)
    ultimately show ?thesis using i p by auto
  next
    case False
    then have step: "count_alignments bs needed al n [i..<n] p0 = count_alignments bs needed al n [Suc i..<n] ?p"
      using i by (simp add: upt_conv_Cons Let_def)
    have "d = n - Suc i" "\<forall>j \<in> {Suc i..<n}. unat (block_alignments needed al (bs ! j)) = f j"
      "unat ?p + (\<Sum>j = Suc i..<n. f j) < 2 ^ 64" "Suc i \<le> n"
      using Suc.hyps(2) Suc.prems(1,2) i p sum[OF i] by auto
    from Suc.hyps(1)[OF this] obtain r mx where "count_alignments bs needed al n [Suc i..<n] ?p = (r, mx)"
      "Suc i \<le> mx" "mx \<le> n" "unat r = unat ?p + (\<Sum>j = Suc i..<mx. f j)" "mx = n \<or> 4 \<le> unat r" by blast
    then show ?thesis using step p sum[of mx] by auto
  qed
qed

lemma choose_block_ok:
  "\<forall>j \<in> {i..<n}. unat (block_alignments needed al (bs ! j)) = f j \<Longrightarrow> unat p0 + (\<Sum>j = i..<n. f j) < 2 ^ 64 \<Longrightarrow>
    unat p0 \<le> unat rnd \<Longrightarrow> unat rnd < unat p0 + (\<Sum>j = i..<n. f j) \<Longrightarrow>
    \<exists>c. choose_block bs needed al rnd index [i..<n] p0 = c \<and> i \<le> c \<and> c < n \<and> 0 < f c"
proof (induction "n - i" arbitrary: i p0)
  case 0
  then show ?case by auto
next
  case (Suc d)
  then have i: "i < n" by simp
  let ?p = "p0 + block_alignments needed al (bs ! i)"
  have sum: "(\<Sum>j = i..<n. f j) = f i + (\<Sum>j = Suc i..<n. f j)" using i by (rule sum.atLeast_Suc_lessThan)
  have p: "unat ?p = unat p0 + f i" using Suc.prems(1,2) i sum by (subst unat_add_no_wrap) auto
  show ?case
  proof (cases "rnd < ?p")
    case True
    then have "choose_block bs needed al rnd index [i..<n] p0 = i" using i by (simp add: upt_conv_Cons Let_def)
    moreover have "0 < f i" using True Suc.prems(3) p by (simp add: word_less_nat_alt)
    ultimately show ?thesis using i by auto
  next
    case False
    then have step: "choose_block bs needed al rnd index [i..<n] p0 = choose_block bs needed al rnd index [Suc i..<n] ?p"
      using i by (simp add: upt_conv_Cons Let_def)
    have "d = n - Suc i" "\<forall>j \<in> {Suc i..<n}. unat (block_alignments needed al (bs ! j)) = f j"
      "unat ?p + (\<Sum>j = Suc i..<n. f j) < 2 ^ 64" "unat ?p \<le> unat rnd" "unat rnd < unat ?p + (\<Sum>j = Suc i..<n. f j)"
      using Suc.hyps(2) Suc.prems i p sum False by (auto simp: word_less_nat_alt)
    from Suc.hyps(1)[OF this] show ?thesis unfolding step by (meson Suc_leD)
  qed
qed

definition heap_of :: "nat \<Rightarrow> nat \<Rightarrow> page_heap \<Rightarrow> bool" where
  "heap_of lo hi h \<longleftrightarrow> heap_ok lo hi (m_blocks h) \<and> m_num_blocks h = length (m_blocks h) \<and> 0 < lo"

text \<open>What an allocation of \<open>N\<close> bytes aligned to \<open>al\<close> does: it fails only when no block of sufficient size
  is free, and otherwise the result is an aligned free range that is no longer free.\<close>

definition allocated :: "nat \<Rightarrow> nat \<Rightarrow> nat \<Rightarrow> nat \<Rightarrow> nat \<Rightarrow> page_heap \<Rightarrow> u64 \<Rightarrow> page_heap \<Rightarrow> bool" where
  "allocated lo hi k N al h a h' \<longleftrightarrow> heap_of lo hi h' \<and> map geometry (m_blocks h') = map geometry (m_blocks h) \<and>
     (if a = 0 then (\<forall>i. k \<le> i \<and> i < length (m_blocks h) \<longrightarrow> block_free (m_blocks h ! i) = {}) \<and>
        total_free (m_blocks h') = total_free (m_blocks h)
      else al dvd unat a \<and> {unat a..<unat a + N} \<subseteq> total_free (m_blocks h) \<and>
        total_free (m_blocks h') = total_free (m_blocks h) - {unat a..<unat a + N})"

lemma allocatedI:
  assumes "heap_of lo hi h" "takes lo hi R (m_blocks h) bs'"
    "if a = 0 then R = {} \<and> (\<forall>i. k \<le> i \<and> i < length (m_blocks h) \<longrightarrow> block_free (m_blocks h ! i) = {})
     else R = {unat a..<unat a + N} \<and> al dvd unat a"
  shows "allocated lo hi k N al h a (h\<lparr>m_blocks := bs', heap_rng := g\<rparr>)"
proof -
  have "length bs' = length (m_blocks h)" using assms(2) unfolding takes_def by (auto dest: map_eq_imp_length_eq)
  then show ?thesis using assms by (auto simp: allocated_def heap_of_def takes_def split: if_splits)
qed

lemma countr_zero_pow2: "al < 64 \<Longrightarrow> unat w = 2 ^ al \<Longrightarrow> countr_zero w = al"
proof -
  assume w: "al < 64" "unat w = 2 ^ al"
  then have e: "w = push_bit al 1" using unat_pow2[OF w(1)] by (simp only: word_unat_eq_iff)
  have b: "bit w j \<longleftrightarrow> j = al" for j unfolding e bit_push_bit_iff bit_1_iff using w(1) by auto
  have "w \<noteq> 0" using b[of al] by auto
  then show ?thesis using countr_zero_props(1) b by blast
qed

text \<open>The choice of the size to cut from, for a request of \<open>needed\<close> bytes: the chosen size has a free block
  unless no size from the smallest one that fits has any.\<close>

definition pick_block :: "page_heap \<Rightarrow> u64 \<Rightarrow> nat \<Rightarrow> nat \<Rightarrow> (nat \<times> random_bits) res" where
  "pick_block h needed al k =
     (let (possible, mx) = count_alignments (m_blocks h) needed al (m_num_blocks h) [k..<m_num_blocks h] 0
      in if possible > 0 \<and> k + 1 < mx then bind_res (GenerateRandom possible (heap_rng h)) (\<lambda>(rnd, g).
           Ok (choose_block (m_blocks h) needed al rnd k [k..<mx] 0, g)) else Ok (k, heap_rng h))"

lemma pick_block_ok:
  assumes h: "heap_of lo hi h" "hi < 2 ^ 41" "k < length (m_blocks h)" and a12: "12 \<le> al"
    and N: "4096 \<le> unat needed" "\<And>j. k \<le> j \<Longrightarrow> j < length (m_blocks h) \<Longrightarrow> unat needed \<le> bsize (m_blocks h ! j)"
  shows "\<exists>c g. pick_block h needed al k = Ok (c, g) \<and> k \<le> c \<and> c < length (m_blocks h) \<and>
    (block_free (m_blocks h ! c) = {} \<longrightarrow> (\<forall>i. k \<le> i \<and> i < length (m_blocks h) \<longrightarrow> block_free (m_blocks h ! i) = {}))"
proof -
  let ?bs = "m_blocks h" and ?n = "length (m_blocks h)"
  let ?f = "\<lambda>j. alignments (unat needed) al (?bs ! j)"
  have ok: "heap_ok lo hi ?bs" "m_num_blocks h = ?n" using h(1) by (simp_all add: heap_of_def)
  have f: "\<forall>j \<in> {k..<?n}. unat (block_alignments needed al (?bs ! j)) = ?f j"
    using unat_block_alignments[OF ok(1) _ N(1) _ a12] N(2) by auto
  have fs: "(\<Sum>j = k..<?n. ?f j) < 2 ^ 29" by (rule alignments_sum[OF ok(1) h(2) N a12])
  have f0: "0 < ?f j \<longleftrightarrow> block_free (?bs ! j) \<noteq> {}" for j unfolding alignments_def block_free_empty by (auto simp: card_gt_0_iff)
  from count_alignments_ok[OF f, of 0] fs h(3) obtain p mx where
    p: "count_alignments ?bs needed al ?n [k..<?n] 0 = (p, mx)" "k \<le> mx" "mx \<le> ?n"
      "unat p = (\<Sum>j = k..<mx. ?f j)" "mx = ?n \<or> 4 \<le> unat p" by fastforce
  have sub: "unat p < 2 ^ 29" using fs sum_mono2[of "{k..<?n}" "{k..<mx}" ?f] p(3,4) by simp
  show ?thesis
  proof (cases "p > 0 \<and> k + 1 < mx")
    case True
    then obtain rnd g where r: "GenerateRandom p (heap_rng h) = Ok (rnd, g)" "unat rnd < unat p"
      using GenerateRandom_total[of p "heap_rng h"] sub by (auto simp: word_less_nat_alt)
    have "\<forall>j \<in> {k..<mx}. unat (block_alignments needed al (?bs ! j)) = ?f j" using f p(3) by simp
    then obtain c where "choose_block ?bs needed al rnd k [k..<mx] 0 = c" "k \<le> c" "c < mx" "0 < ?f c"
      using choose_block_ok[of k mx needed al ?bs ?f 0 rnd k] r(2) p(4) sub by auto
    then show ?thesis using True r(1) p(1,3) f0 ok(2) by (auto simp: pick_block_def)
  next
    case False
    have "block_free (?bs ! i) = {}" if e: "block_free (?bs ! k) = {}" and i: "k \<le> i" "i < ?n" for i
    proof -
      have "unat p = 0"
      proof (cases "p > 0")
        case True
        then have "{k..<mx} \<subseteq> {k}" using False by auto
        then show ?thesis unfolding p(4) using e f0[of k] by (intro sum.neutral) auto
      qed (simp add: word_less_nat_alt)
      then have "?f i = 0" using p(4,5) i by auto
      then show ?thesis using f0[of i] by simp
    qed
    moreover have "pick_block h needed al k = Ok (k, heap_rng h)"
      unfolding pick_block_def Let_def ok(2) p(1) prod.case using False by (simp only: if_False)
    ultimately show ?thesis using h(3) by blast
  qed
qed

text \<open>What a request asks of the blocks from its index on, in bytes.\<close>

lemma random_request:
  assumes h: "heap_of lo hi h" "k < length (m_blocks h)"
    and N: "0 < unat np" "unat np * 4096 \<le> bsize (m_blocks h ! k)"
    and al: "unat ap * 4096 = 2 ^ al" "2 ^ al \<le> bsize (m_blocks h ! k)"
  shows "unat (np * PageSize) = unat np * 4096" "12 \<le> al" "al < 64" "countr_zero (ap * PageSize) = al"
    "\<And>j. k \<le> j \<Longrightarrow> j < length (m_blocks h) \<Longrightarrow> 2 ^ al dvd bsize (m_blocks h ! j)"
    "\<And>j. k \<le> j \<Longrightarrow> j < length (m_blocks h) \<Longrightarrow> unat np * 4096 \<le> bsize (m_blocks h ! j)"
proof -
  let ?bs = "m_blocks h"
  have ok: "heap_ok lo hi ?bs" using h(1) by (simp add: heap_of_def)
  have k64: "bsize (?bs ! k) < 2 ^ 64" using geometry_okD(2)[OF heap_geometry[OF ok h(2)]] by (intro power_strict_increasing) simp_all
  show "unat (np * PageSize) = unat np * 4096" using N(2) k64 by (simp add: unat_mult_no_wrap PageSize_value)
  show "12 \<le> al"
  proof (rule ccontr)
    assume "\<not> 12 \<le> al"
    then have "(2::nat) ^ al < 2 ^ 12" by (intro power_strict_increasing) simp_all
    then show False using al(1) by (cases "unat ap") simp_all
  qed
  have alk: "al \<le> hb_block_shift (?bs ! k)" using al(2) by simp
  then show a64: "al < 64" using geometry_okD(2)[OF heap_geometry[OF ok h(2)]] by linarith
  have "unat ap * unat PageSize < 2 ^ 64" unfolding PageSize_value(2) al(1) using al(2) k64 by (rule le_less_trans)
  then show "countr_zero (ap * PageSize) = al"
    using a64 al(1) by (intro countr_zero_pow2) (simp_all add: unat_mult_no_wrap PageSize_value)
  fix j assume j: "k \<le> j" "j < length ?bs"
  have sh: "hb_block_shift (?bs ! k) \<le> hb_block_shift (?bs ! j)" using shifts_mono[OF ok j(2,1)] .
  show "2 ^ al dvd bsize (?bs ! j)" using alk sh by (intro le_imp_power_dvd) simp
  have "bsize (?bs ! k) \<le> bsize (?bs ! j)" using sh by (intro power_increasing) simp_all
  then show "unat np * 4096 \<le> bsize (?bs ! j)" using N(2) by linarith
qed

lemma AllocateByRandom_ok:
  assumes h: "heap_of lo hi h" "hi < 2 ^ 41" "k < length (m_blocks h)"
    and N: "0 < unat np" "unat np * 4096 \<le> bsize (m_blocks h ! k)"
    and al: "unat ap * 4096 = 2 ^ al" "2 ^ al \<le> bsize (m_blocks h ! k)"
  shows "\<exists>a h'. AllocateByRandom k np ap h = Ok (a, h') \<and> allocated lo hi k (unat np * 4096) (2 ^ al) h a h'"
proof -
  let ?bs = "m_blocks h" and ?n = "length (m_blocks h)" and ?N = "unat np * 4096"
  have ok: "heap_ok lo hi ?bs" "m_num_blocks h = ?n" "0 < lo" using h(1) by (simp_all add: heap_of_def)
  define needed where "needed = np * PageSize"
  note req = random_request[OF h(1,3) N al]
  have needed: "unat needed = ?N" unfolding needed_def by (rule req(1))
  note a12 = req(2) and a64 = req(3) and al' = req(4)
  have sz: "2 ^ al dvd bsize (?bs ! j)" "unat needed \<le> bsize (?bs ! j)" if "k \<le> j" "j < ?n" for j
    using req(5,6)[OF that] needed by simp_all
  have N4: "4096 \<le> unat needed" using needed N(1) by simp
  from pick_block_ok[OF h a12 N4 sz(2)] obtain c g where c: "pick_block h needed al k = Ok (c, g)" "k \<le> c" "c < ?n"
    "block_free (?bs ! c) = {} \<longrightarrow> (\<forall>i. k \<le> i \<and> i < ?n \<longrightarrow> block_free (?bs ! i) = {})" by blast
  from pop_heap[OF ok(1,3) c(3), of True] obtain a b' where
    pop: "PopBlock True (?bs ! c) = Ok (a, b')" "geometry b' = geometry (?bs ! c)"
      "if a = 0 then block_free (?bs ! c) = {} \<and> block_free b' = {} \<and> takes lo hi {} ?bs (?bs[c := b'])
       else bsize (?bs ! c) dvd unat a \<and> {unat a..<unat a + bsize (?bs ! c)} \<subseteq> block_free (?bs ! c) \<and>
         takes lo hi {unat a..<unat a + bsize (?bs ! c)} ?bs (?bs[c := b'])" by blast
  let ?left = "Block_GetSize b' - needed"
  have run: "AllocateByRandom k np ap h = (if a \<noteq> 0 then
      if ?left > 0 then bind_res (cut_block ?n needed al ?left a (?bs[c := b']) g)
        (\<lambda>(addr', bs'', g'). Ok (addr', h\<lparr>m_blocks := bs'', heap_rng := g'\<rparr>))
      else Ok (a, h\<lparr>m_blocks := ?bs[c := b'], heap_rng := g\<rparr>)
    else Ok (0, h\<lparr>m_blocks := ?bs[c := b'], heap_rng := g\<rparr>))"
  proof -
    obtain p mx where cm: "count_alignments ?bs needed al ?n [k..<?n] 0 = (p, mx)" by fastforce
    show ?thesis unfolding AllocateByRandom_def Let_def needed_def[symmetric] al' ok(2) cm prod.case
        c(1)[unfolded pick_block_def Let_def ok(2) cm prod.case] using a64 c(3) pop(1) by simp
  qed
  have "unat (Block_GetSize b') = bsize (?bs ! c)"
    using unat_Block_GetSize[OF ok(1) c(3)] geometry_eqD[OF pop(2)] by (simp add: Block_GetSize_def)
  then have left: "unat ?left = bsize (?bs ! c) - unat needed" using sz(2)[OF c(2,3)] by (simp add: unat_diff_no_wrap)
  consider "a = 0" | "a \<noteq> 0" "?left > 0" | "a \<noteq> 0" "\<not> ?left > 0" by blast
  then show ?thesis
  proof cases
    case 1
    then show ?thesis using run allocatedI[OF h(1), of "{}" "?bs[c := b']" a k] pop(3) c(4) by auto
  next
    case 2
    then have t: "bsize (?bs ! c) dvd unat a" "takes lo hi {unat a..<unat a + bsize (?bs ! c)} ?bs (?bs[c := b'])"
      using pop(3) by simp_all
    have "4096 dvd unat needed" "0 < unat needed" using needed N4 by simp_all
    from cut_block_ok[OF ok(1,3) h(2) c(3) t(2,1) this sz(2)[OF c(2,3)] a12 sz(1)[OF c(2,3)] left, of g] obtain a' bs2 g' where
      cut: "cut_block ?n needed al ?left a (?bs[c := b']) g = Ok (a', bs2, g')" "2 ^ al dvd unat a'"
        "takes lo hi {unat a'..<unat a' + unat needed} ?bs bs2" by blast
    have "a' \<noteq> 0" using takes_range[OF ok(1) cut(3)] N4 ok(3) by auto
    then show ?thesis using run cut 2 allocatedI[OF h(1) cut(3), of a' k ?N "2 ^ al"] needed by auto
  next
    case 3
    then have t: "bsize (?bs ! c) dvd unat a" "takes lo hi {unat a..<unat a + bsize (?bs ! c)} ?bs (?bs[c := b'])"
      using pop(3) by simp_all
    have "bsize (?bs ! c) = ?N" using 3 left needed sz(2)[OF c(2,3)] by (simp add: word_less_nat_alt)
    then show ?thesis
      using run 3 allocatedI[OF h(1) t(2), of a k ?N "2 ^ al"] dvd_trans[OF sz(1)[OF c(2,3)] t(1)] by auto
  qed
qed

section \<open>Initialization\<close>

lemma GetRequiredDepth_mono: "m \<le> n \<Longrightarrow> GetRequiredDepth m \<le> GetRequiredDepth n"
proof -
  assume "m \<le> n"
  obtain k where k: "GetRequiredDepth n = Suc k" using GetRequiredDepth_pos[of n] by (cases "GetRequiredDepth n") auto
  have "m < 64 ^ Suc k" using \<open>m \<le> n\<close> GetRequiredDepth_bound[of n] k by simp
  then show ?thesis using GetRequiredDepth_le[of m k] k by simp
qed

lemma overhead_loop_mono: "m \<le> n \<Longrightarrow> overhead_loop k m \<le> overhead_loop k n"
proof (induction k arbitrary: m n)
  case (Suc k)
  show ?case unfolding overhead_loop.simps
    using words_for_mono[OF Suc.prems] Suc.IH[OF words_for_mono[OF Suc.prems]] by (rule add_mono)
qed simp

lemma overhead_loop_depth: "overhead_loop k n \<le> overhead_loop (k + d) n"
  by (induction k arbitrary: n) auto

lemma overhead_size_mono: "m \<le> n \<Longrightarrow> CalculateManagementOverheadSize m \<le> CalculateManagementOverheadSize n"
proof -
  assume le: "m \<le> n"
  obtain d where d: "GetRequiredDepth n = GetRequiredDepth m + d" using GetRequiredDepth_mono[OF le] le_Suc_ex by blast
  have "overhead_loop (GetRequiredDepth m) m \<le> overhead_loop (GetRequiredDepth m) n" using overhead_loop_mono[OF le] .
  also have "\<dots> \<le> overhead_loop (GetRequiredDepth m + d) n" by (rule overhead_loop_depth)
  finally show ?thesis by (simp add: CalculateManagementOverheadSize_def d)
qed

lemma words_for_le: "words_for n \<le> n"
proof (cases n)
  case (Suc m)
  have "(n + 63) div 64 \<le> (64 * n) div 64" by (rule div_le_mono) (simp add: Suc)
  then show ?thesis by (simp add: words_for_def)
qed (simp add: words_for_def)

lemma overhead_loop_le: "overhead_loop k n \<le> k * n"
proof (induction k arbitrary: n)
  case (Suc k)
  have "overhead_loop k (words_for n) \<le> k * words_for n" by (rule Suc.IH)
  also have "\<dots> \<le> k * n" using words_for_le by (rule mult_le_mono2)
  finally show ?case using words_for_le[of n] by simp
qed simp

lemma overhead_size_le: "n < 64 ^ 4 \<Longrightarrow> CalculateManagementOverheadSize n < 2 ^ 29"
proof -
  assume n: "n < 64 ^ 4"
  then have "GetRequiredDepth n \<le> 4" using GetRequiredDepth_le[of n 3] by simp
  then have "GetRequiredDepth n * n \<le> 4 * n" by (rule mult_le_mono1)
  then have "overhead_loop (GetRequiredDepth n) n \<le> 4 * n" using overhead_loop_le order_trans by blast
  then show ?thesis using n by (simp add: CalculateManagementOverheadSize_def)
qed

lemma overhead_words: "8 dvd CalculateManagementOverheadSize n"
  by (simp add: CalculateManagementOverheadSize_def)

text \<open>One size of blocks. The number of blocks is at most the number the overhead was computed for.\<close>

definition block_align :: "nat \<Rightarrow> nat \<Rightarrow> nat" where
  "block_align s nxt = 2 ^ (if nxt \<noteq> 0 then nxt else s)"

lemma Block_overhead:
  assumes s: "12 \<le> s" "s \<le> 30" "nxt = 0 \<or> s < nxt \<and> nxt \<le> 30" and sz: "unat sz < 2 ^ 35"
  shows "\<exists>u. Block_CalculateManagementOverheadSize sz s nxt = CalculateManagementOverheadSize ((2 * block_align s nxt + u) div 2 ^ s) \<and>
    unat sz \<le> u" (is "\<exists>u. ?P u")
    "Block_CalculateManagementOverheadSize sz s nxt < 2 ^ 29"
proof -
  define A where "A = block_align s nxt"
  define align :: u64 where "align = (if nxt \<noteq> 0 then push_bit nxt 1 else push_bit s 1)"
  have s64: "s < 64" "nxt < 64" using s by auto
  have align: "unat align = A" unfolding align_def A_def block_align_def using unat_pow2 s64 by simp
  have A30: "A \<le> 2 ^ 30" unfolding A_def block_align_def by (rule power_increasing) (use s in auto)
  have A0: "0 < unat align" by (simp add: align A_def block_align_def)
  have "unat sz + unat align < 2 ^ 64" using sz A30 align by simp
  note w = AlignUp_props[OF A0 this, unfolded align]
  define u where "u = unat (AlignUp sz align)"
  define X where "X = unat ((align * 2 + AlignUp sz align) div push_bit s 1)"
  have "unat (align * 2 + AlignUp sz align) = 2 * A + u"
  proof -
    have "unat (align * 2) = 2 * A" using A30 align by (subst unat_mult_no_wrap) simp_all
    then show ?thesis using w(3) sz A30 by (subst unat_add_no_wrap) (simp_all add: u_def)
  qed
  then have X: "X = (2 * A + u) div 2 ^ s" unfolding X_def by (simp only: unat_div_distrib unat_pow2[OF s64(1)])
  have over: "Block_CalculateManagementOverheadSize sz s nxt = CalculateManagementOverheadSize X"
    by (simp add: Block_CalculateManagementOverheadSize_def Let_def X_def align_def)
  then show "\<exists>u. ?P u" using X w(2) by (intro exI[of _ u]) (simp add: A_def u_def)
  have "(2::nat) ^ 12 \<le> 2 ^ s" using s(1) by (rule power_increasing) simp
  then have "X \<le> (2 * A + u) div 2 ^ 12" unfolding X by (intro div_le_mono2) simp_all
  moreover have "2 * A + u < 2 ^ 36" using w(3) sz A30 by (simp add: u_def)
  then have "(2 * A + u) div 2 ^ 12 < 64 ^ 4" by (simp add: div_less_iff_less_mult)
  ultimately show "Block_CalculateManagementOverheadSize sz s nxt < 2 ^ 29"
    unfolding over by (intro overhead_size_le) (rule le_less_trans)
qed

text \<open>The region of a block size: the heap rounded outwards to the alignment of the size.\<close>

lemma block_region:
  assumes s: "12 \<le> s" "s \<le> 30" "nxt = 0 \<or> s < nxt \<and> nxt \<le> 30"
    and r: "0 < unat sz" "unat sz < 2 ^ 35" "0 < unat addr" "unat addr + unat sz < 2 ^ 41"
  defines "align \<equiv> if nxt \<noteq> 0 then push_bit nxt 1 else push_bit s 1 :: u64"
  defines "lo \<equiv> AlignDown addr align" and "hi \<equiv> AlignUp (addr + sz) align"
  defines "E \<equiv> unat ((hi - lo) div push_bit s 1)"
  shows "0 < E" "E < 64 ^ 4" "E * 2 ^ s < unat sz + 2 * block_align s nxt"
    "geometry_ok (unat addr) (unat addr + unat sz) \<lparr>hb_bitmap = bm, hb_heap_address = lo,
       hb_end_offset = (hi - lo) div push_bit s 1, hb_block_shift = s, hb_next_block_shift = nxt\<rparr>"
proof -
  define A where "A = block_align s nxt"
  have s64: "s < 64" "nxt < 64" using s by auto
  have align: "unat align = A" unfolding align_def A_def block_align_def using unat_pow2 s64 by simp
  have A30: "A \<le> 2 ^ 30" unfolding A_def block_align_def by (rule power_increasing) (use s in auto)
  have A0: "0 < unat align" by (simp add: align A_def block_align_def)
  have sA: "2 ^ s dvd A" unfolding A_def block_align_def using s by (auto intro: le_imp_power_dvd)
  have asz: "unat (addr + sz) = unat addr + unat sz" using r(4) by (intro unat_add_no_wrap) simp
  have b64: "unat (addr + sz) + unat align < 2 ^ 64" using r(4) A30 unfolding asz align by simp
  note l = AlignDown_props[OF A0, of addr, folded lo_def, unfolded align]
  note u = AlignUp_props[OF A0 b64, folded hi_def, unfolded align asz]
  have lh: "unat lo < unat hi" using l(2) u(2) r(1) by linarith
  have Ew: "E = (unat hi - unat lo) div 2 ^ s"
    using lh by (simp add: E_def unat_div_distrib unat_pow2[OF s64(1)] unat_diff_no_wrap del: push_bit_of_1)
  have dv: "A dvd unat hi - unat lo" using l(1) u(1) by (intro dvd_diff_nat)
  have Es: "E * 2 ^ s = unat hi - unat lo" unfolding Ew using dvd_trans[OF sA dv] by simp
  show span: "E * 2 ^ s < unat sz + 2 * block_align s nxt" unfolding Es A_def[symmetric] using l(3) u(3) lh by linarith
  have "E * 2 ^ 12 \<le> E * 2 ^ s" using s(1) by (intro mult_le_mono2 power_increasing) simp_all
  moreover have "unat sz + 2 * block_align s nxt < 2 ^ 36" using r(2) A30 unfolding A_def by simp
  ultimately have "E * 2 ^ 12 < 2 ^ 36" using span by linarith
  then show "E < 64 ^ 4" by simp
  show "0 < E" using Es lh by (cases E) auto
  have "2 ^ s \<le> A" using dvd_imp_le[OF sA] A0 align by simp
  then have room: "unat addr + unat sz + 2 ^ s < 2 ^ 64" using b64 unfolding asz align by linarith
  have next_ok: "2 ^ nxt dvd unat lo \<and> 2 ^ (nxt - s) dvd E" if n: "nxt \<noteq> 0"
  proof -
    have An: "A = 2 ^ nxt" using n by (simp add: A_def block_align_def)
    have "2 ^ s * 2 ^ (nxt - s) = (2::nat) ^ nxt" using s(3) n by (simp flip: power_add)
    then have "2 ^ s * 2 ^ (nxt - s) dvd 2 ^ s * E" using dv An Es by (simp add: mult.commute)
    then show ?thesis using l(1) An by simp
  qed
  have top: "unat lo + E * 2 ^ s = unat hi" using Es lh by simp
  have big: "unat hi < 2 ^ 64" using unsigned_less[of hi, where 'a = nat] by simp
  show "geometry_ok (unat addr) (unat addr + unat sz) \<lparr>hb_bitmap = bm, hb_heap_address = lo,
       hb_end_offset = (hi - lo) div push_bit s 1, hb_block_shift = s, hb_next_block_shift = nxt\<rparr>"
    unfolding geometry_ok_def using s s64 next_ok dvd_trans[OF sA l(1)] l(2) u(2) top big room
    by (auto simp: E_def[symmetric] simp del: push_bit_of_1)
qed

lemma Block_Initialize_ok:
  assumes s: "12 \<le> s" "s \<le> 30" "nxt = 0 \<or> s < nxt \<and> nxt \<le> 30"
    and r: "0 < unat sz" "unat sz < 2 ^ 35" "0 < unat addr" "unat addr + unat sz < 2 ^ 41"
    and st: "set storage \<subseteq> {0}" "Block_CalculateManagementOverheadSize sz s nxt \<le> 8 * length storage"
  shows "\<exists>b' n. Block_Initialize addr sz s nxt storage b = Ok (b', drop n storage) \<and>
    8 * n \<le> Block_CalculateManagementOverheadSize sz s nxt \<and>
    geometry_ok (unat addr) (unat addr + unat sz) b' \<and> bitmap_inv (hb_bitmap b') \<and>
    unat (hb_end_offset b') \<le> bitmap_capacity (hb_bitmap b') \<and> block_free b' = {} \<and>
    hb_block_shift b' = s \<and> hb_next_block_shift b' = nxt"
proof -
  define align :: u64 where "align = (if nxt \<noteq> 0 then push_bit nxt 1 else push_bit s 1)"
  define lo where "lo = AlignDown addr align"
  define hi where "hi = AlignUp (addr + sz) align"
  define E where "E = unat ((hi - lo) div push_bit s 1)"
  have s64: "s < 64" "nxt < 64" using s by auto
  define X where "X = CalculateManagementOverheadSize E"
  note reg = block_region[OF s r, folded align_def, folded lo_def hi_def, folded E_def]
  obtain v where over: "Block_CalculateManagementOverheadSize sz s nxt = CalculateManagementOverheadSize ((2 * block_align s nxt + v) div 2 ^ s)"
    and v: "unat sz \<le> v" using Block_overhead(1)[OF s r(2)] by blast
  have "E \<le> (2 * block_align s nxt + v) div 2 ^ s" using reg(3) v by (simp add: less_eq_div_iff_mult_less_eq)
  then have X: "X \<le> Block_CalculateManagementOverheadSize sz s nxt" unfolding X_def over by (rule overhead_size_mono)
  then have "CalculateManagementOverheadSize E \<le> 8 * length storage" using st(2) unfolding X_def by linarith
  from KPageBitmap_Initialize_ok[OF reg(1,2) st(1) this, of "bitmap_rng (hb_bitmap b)"] obtain bm where
    bm: "KPageBitmap_Initialize storage E (bitmap_rng (hb_bitmap b)) = Ok (bm, drop (X div 8) storage)"
      "bitmap_inv bm" "bits_of bm = {}" "bitmap_capacity bm = 64 * words_for E" unfolding X_def by blast
  let ?b = "\<lparr>hb_bitmap = bm, hb_heap_address = lo, hb_end_offset = (hi - lo) div push_bit s 1,
    hb_block_shift = s, hb_next_block_shift = nxt\<rparr>"
  have "Block_Initialize addr sz s nxt storage b = Ok (?b, drop (X div 8) storage)"
    unfolding Block_Initialize_def Let_def align_def[symmetric] lo_def[symmetric] hi_def[symmetric] E_def[symmetric]
    using s64 bm(1) by simp
  moreover have "8 * (X div 8) = X" unfolding X_def using overhead_words by simp
  moreover have "E \<le> bitmap_capacity bm" using bm(4) words_for_bound[of E] by simp
  ultimately show ?thesis using X bm(2,3) reg(4)[of bm]
    by (intro exI[of _ ?b] exI[of _ "X div 8"]) (simp add: block_free_def E_def[symmetric] del: push_bit_of_1)
qed

definition next_shift :: "nat list \<Rightarrow> nat \<Rightarrow> nat" where
  "next_shift ss k = (if Suc k < length ss then ss ! Suc k else 0)"

definition shifts_ok :: "nat list \<Rightarrow> bool" where
  "shifts_ok ss \<longleftrightarrow> sorted_wrt (<) ss \<and> (\<forall>s \<in> set ss. 12 \<le> s \<and> s \<le> 30)"

lemma overhead_blocks_le: "shifts_ok ss \<Longrightarrow> unat sz < 2 ^ 35 \<Longrightarrow> overhead_blocks sz ss \<le> length ss * 2 ^ 29"
proof (induction ss)
  case (Cons s ss)
  let ?n = "case ss of [] \<Rightarrow> 0 | n # _ \<Rightarrow> n"
  have "12 \<le> s" "s \<le> 30" "?n = 0 \<or> s < ?n \<and> ?n \<le> 30" using Cons.prems(1) by (auto simp: shifts_ok_def split: list.split)
  from Block_overhead(2)[OF this Cons.prems(2)] Cons.IH Cons.prems show ?case by (auto simp: shifts_ok_def)
qed simp

lemma Initialize_blocks_ok:
  assumes r: "0 < unat sz" "unat sz < 2 ^ 35" "0 < unat addr" "unat addr + unat sz < 2 ^ 41"
  shows "shifts_ok ss \<Longrightarrow> length bs = length ss \<Longrightarrow> set storage \<subseteq> {0} \<Longrightarrow> overhead_blocks sz ss \<le> 8 * length storage \<Longrightarrow>
    \<exists>bs'. Initialize_blocks addr sz ss storage bs = Ok bs' \<and> length bs' = length ss \<and>
      (\<forall>k < length ss. block_ok (unat addr) (unat addr + unat sz) (bs' ! k) \<and> block_free (bs' ! k) = {} \<and>
         hb_block_shift (bs' ! k) = ss ! k \<and> hb_next_block_shift (bs' ! k) = next_shift ss k)"
proof (induction ss arbitrary: bs storage)
  case Nil
  then show ?case by simp
next
  case (Cons s ss)
  obtain b bt where bs: "bs = b # bt" "length bt = length ss" using Cons.prems(2) by (cases bs) auto
  let ?n = "case ss of [] \<Rightarrow> 0 | n # _ \<Rightarrow> n"
  have n: "?n = next_shift (s # ss) 0" by (cases ss) (simp_all add: next_shift_def)
  have s: "12 \<le> s" "s \<le> 30" "?n = 0 \<or> s < ?n \<and> ?n \<le> 30" using Cons.prems(1) by (auto simp: shifts_ok_def split: list.split)
  have "Block_CalculateManagementOverheadSize sz s ?n \<le> 8 * length storage" using Cons.prems(4) by simp
  from Block_Initialize_ok[OF s r Cons.prems(3) this, of b] obtain b' m where
    1: "Block_Initialize addr sz s ?n storage b = Ok (b', drop m storage)" "8 * m \<le> Block_CalculateManagementOverheadSize sz s ?n"
      "geometry_ok (unat addr) (unat addr + unat sz) b'" "bitmap_inv (hb_bitmap b')"
      "unat (hb_end_offset b') \<le> bitmap_capacity (hb_bitmap b')" "block_free b' = {}"
      "hb_block_shift b' = s" "hb_next_block_shift b' = ?n" by blast
  have "shifts_ok ss" "set (drop m storage) \<subseteq> {0}" "overhead_blocks sz ss \<le> 8 * length (drop m storage)"
    using Cons.prems(1,3,4) 1(2) set_drop_subset[of m storage] by (auto simp: shifts_ok_def)
  from Cons.IH[OF this(1) bs(2) this(2,3)] obtain bt' where
    2: "Initialize_blocks addr sz ss (drop m storage) bt = Ok bt'" "length bt' = length ss"
      "\<forall>k < length ss. block_ok (unat addr) (unat addr + unat sz) (bt' ! k) \<and> block_free (bt' ! k) = {} \<and>
         hb_block_shift (bt' ! k) = ss ! k \<and> hb_next_block_shift (bt' ! k) = next_shift ss k" by blast
  have "block_ok (unat addr) (unat addr + unat sz) b'" using 1 by (simp add: block_ok_def)
  then have "\<forall>k < length (s # ss). block_ok (unat addr) (unat addr + unat sz) ((b' # bt') ! k) \<and> block_free ((b' # bt') ! k) = {} \<and>
      hb_block_shift ((b' # bt') ! k) = (s # ss) ! k \<and> hb_next_block_shift ((b' # bt') ! k) = next_shift (s # ss) k"
    using 1(6,7,8) 2(3) n by (auto simp: less_Suc_eq_0_disj next_shift_def)
  then show ?case using bs 1(1) 2(1,2) by auto
qed

lemma KPageHeap_Initialize_ok:
  assumes r: "0 < unat sz" "unat sz < 2 ^ 35" "0 < unat addr" "unat addr + unat sz < 2 ^ 41"
    and "length gs = 7" "unat (KPageHeap_CalculateManagementOverheadSize sz) \<le> unat msize"
  shows "\<exists>h. KPageHeap_Initialize addr sz msize (KPageHeap_new gs g) = Ok h \<and>
    heap_of (unat addr) (unat addr + unat sz) h \<and> total_free (m_blocks h) = {} \<and>
    map hb_block_shift (m_blocks h) = MemoryBlockPageShifts"
proof -
  let ?ss = MemoryBlockPageShifts
  have ss: "shifts_ok ?ss" "length ?ss = 7" by (simp_all add: shifts_ok_def MemoryBlockPageShifts_def)
  let ?o = "overhead_blocks sz ?ss"
  have "?o \<le> 7 * 2 ^ 29" using overhead_blocks_le[OF ss(1) r(2)] ss(2) by simp
  then have o: "unat (of_nat ?o :: u64) = ?o" "unat (of_nat ?o :: u64) + unat PageSize < 2 ^ 64"
    by (simp_all add: unat_of_nat PageSize_value)
  have "?o \<le> unat (KPageHeap_CalculateManagementOverheadSize sz)"
    unfolding KPageHeap_CalculateManagementOverheadSize_def using AlignUp_props(2)[OF _ o(2)] o(1) by (simp add: PageSize_value)
  then have le: "?o \<le> unat msize" using assms(6) by simp
  have "8 dvd ?o" by (simp add: MemoryBlockPageShifts_def Block_CalculateManagementOverheadSize_def Let_def overhead_words)
  then have "?o = 8 * (?o div 8)" by simp
  also have "\<dots> \<le> 8 * (unat msize div 8)" using le by (intro mult_le_mono2 div_le_mono)
  finally have "?o \<le> 8 * length (replicate (unat (msize div 8)) (0::u64))" by (simp add: unat_div_distrib)
  moreover have "set (replicate (unat (msize div 8)) (0::u64)) \<subseteq> {0}" by (auto simp: set_replicate_conv_if)
  moreover have "length (map Block_new (take NumMemoryBlockPageShifts gs)) = length ?ss" using assms(5) ss(2) by (simp add: NumMemoryBlockPageShifts_def)
  ultimately obtain bs where bs: "Initialize_blocks addr sz ?ss (replicate (unat (msize div 8)) 0) (map Block_new (take NumMemoryBlockPageShifts gs)) = Ok bs"
      "length bs = 7" "\<forall>k < 7. block_ok (unat addr) (unat addr + unat sz) (bs ! k) \<and> block_free (bs ! k) = {} \<and>
         hb_block_shift (bs ! k) = ?ss ! k \<and> hb_next_block_shift (bs ! k) = next_shift ?ss k"
    using Initialize_blocks_ok[OF r ss(1)] unfolding ss(2) by blast
  have "total_free bs = {}" using bs(2,3) by (auto simp: total_free_def)
  moreover have "heap_ok (unat addr) (unat addr + unat sz) bs"
  proof -
    have "bs \<noteq> []" "hb_block_shift (bs ! 0) = 12" using bs(2,3) by (auto simp: MemoryBlockPageShifts_def)
    then show ?thesis using bs(2,3) ss(2) by (auto simp: heap_ok_def next_shift_def)
  qed
  moreover have "map hb_block_shift bs = ?ss" using bs(2,3) ss(2) by (intro nth_equalityI) simp_all
  ultimately show ?thesis
    using bs(1,2) r(3) ss(2) by (simp add: KPageHeap_Initialize_def KPageHeap_Initialize_shifts_def KPageHeap_new_def heap_of_def)
qed

section \<open>The properties of the heap\<close>

lemma KPageHeap_Free_ok:
  assumes h: "heap_of lo hi h" and a: "4096 dvd unat a" "lo \<le> unat a" "unat a + unat np * 4096 \<le> hi"
    "{unat a..<unat a + unat np * 4096} \<inter> total_free (m_blocks h) = {}"
  shows "\<exists>h'. KPageHeap_Free a np h = Ok h' \<and> heap_of lo hi h' \<and> map geometry (m_blocks h') = map geometry (m_blocks h) \<and>
    total_free (m_blocks h') = total_free (m_blocks h) \<union> {unat a..<unat a + unat np * 4096}"
proof -
  let ?R = "{unat a..<unat a + unat np * 4096}"
  have "?R \<subseteq> {lo..<hi}" using a(2,3) by auto
  then have "can_free lo hi ?R (m_blocks h)" using h a(4) by (auto simp: can_free_def heap_of_def)
  from Free_blocks_ok[OF this a(1,3)] obtain bs where
    bs: "Free_blocks (length (m_blocks h)) a np (m_blocks h) = Ok bs" "adds lo hi ?R (m_blocks h) bs" by blast
  then have "length bs = length (m_blocks h)" using adds_geometry by blast
  then show ?thesis using bs h by (simp add: KPageHeap_Free_def heap_of_def adds_def)
qed

lemma heap_card: "heap_of lo hi h \<Longrightarrow> unat (GetNumFreePages h) * 4096 = card (total_free (m_blocks h))"
  using GetNumFreePages_total by (auto simp: heap_of_def)

lemma heap_finite: "heap_of lo hi h \<Longrightarrow> finite (total_free (m_blocks h))"
  using total_free_card_le by (auto simp: heap_of_def)

lemma AllocateByLinearSearch_ok:
  assumes h: "heap_of lo hi h" "k < length (m_blocks h)"
  shows "\<exists>a h'. AllocateByLinearSearch k h = Ok (a, h') \<and>
    allocated lo hi k (bsize (m_blocks h ! k)) (bsize (m_blocks h ! k)) h a h'"
proof -
  let ?bs = "m_blocks h" and ?needed = "Block_GetSize (m_blocks h ! k)"
  have ok: "heap_ok lo hi ?bs" "m_num_blocks h = length ?bs" "0 < lo" using h by (simp_all add: heap_of_def)
  note sz = unat_Block_GetSize[OF ok(1) h(2)]
  have "\<forall>i \<in> set [k..<length ?bs]. k \<le> i \<and> i < length ?bs" by simp
  from linear_search_ok[OF ok(3) h(2) sz ok(1) refl this] obtain a bs' where
    r: "linear_search (length ?bs) ?needed [k..<length ?bs] ?bs = Ok (a, bs')"
      "if a = 0 then (\<forall>i \<in> set [k..<length ?bs]. block_free (?bs ! i) = {}) \<and> takes lo hi {} ?bs bs'
       else unat ?needed dvd unat a \<and> takes lo hi {unat a..<unat a + unat ?needed} ?bs bs'" by blast
  have run: "AllocateByLinearSearch k h = Ok (a, h\<lparr>m_blocks := bs', heap_rng := heap_rng h\<rparr>)"
    using h(2) ok(2) r(1) by (simp add: AllocateByLinearSearch_def)
  have "\<exists>R. takes lo hi R ?bs bs' \<and> (if a = 0 then R = {} \<and> (\<forall>i. k \<le> i \<and> i < length ?bs \<longrightarrow> block_free (?bs ! i) = {})
      else R = {unat a..<unat a + bsize (?bs ! k)} \<and> bsize (?bs ! k) dvd unat a)"
    using r(2) sz by (cases "a = 0") auto
  then show ?thesis using run allocatedI[OF h(1)] by blast
qed

text \<open>The index of the smallest block that holds the pages and the alignment.\<close>

lemma GetAlignedBlockIndex_ok:
  assumes "GetAlignedBlockIndex np ap = int k" "map hb_block_shift (m_blocks h) = MemoryBlockPageShifts"
  shows "k < length (m_blocks h)" "np * 4096 \<le> bsize (m_blocks h ! k)" "ap * 4096 \<le> bsize (m_blocks h ! k)"
proof -
  let ?P = "\<lambda>i. max np ap \<le> 2 ^ (MemoryBlockPageShifts ! i) div unat PageSize"
  obtain r where "filter ?P [0..<NumMemoryBlockPageShifts] = k # r"
    using assms(1) by (auto simp: GetAlignedBlockIndex_def Let_def split: list.splits)
  then have "k \<in> set (filter ?P [0..<NumMemoryBlockPageShifts])" by simp
  then have k: "k < 7" "max np ap \<le> 2 ^ (MemoryBlockPageShifts ! k) div 4096"
    by (auto simp: NumMemoryBlockPageShifts_def PageSize_value)
  have len: "length (m_blocks h) = 7" using arg_cong[OF assms(2), of length] by (simp add: MemoryBlockPageShifts_def)
  then show "k < length (m_blocks h)" using k(1) by simp
  have "hb_block_shift (m_blocks h ! k) = MemoryBlockPageShifts ! k"
    using arg_cong[OF assms(2), of "\<lambda>xs. xs ! k"] k(1) len by simp
  then have "max np ap * 4096 \<le> bsize (m_blocks h ! k)"
    using k(2) div_times_less_eq_dividend[of "bsize (m_blocks h ! k)" 4096] by (metis mult_le_mono1 order_trans)
  moreover have "np * 4096 \<le> max np ap * 4096" "ap * 4096 \<le> max np ap * 4096" by simp_all
  ultimately show "np * 4096 \<le> bsize (m_blocks h ! k)" "ap * 4096 \<le> bsize (m_blocks h ! k)" by linarith+
qed

text \<open>
  Claim C6. Freeing a page-aligned range that is not free adds exactly that range to the free memory of the
  heap, whatever the sizes and alignments of the blocks it is cut into and merged with: the heap stays
  well formed (no address is free in two blocks, every block lies in the heap), the free addresses grow by
  the range and nothing else, and the reported number of free pages grows by the number of pages.
\<close>
theorem page_heap_free:
  assumes "heap_of lo hi h" "4096 dvd unat a" "lo \<le> unat a" "unat a + unat np * 4096 \<le> hi"
    "{unat a..<unat a + unat np * 4096} \<inter> total_free (m_blocks h) = {}"
  shows "\<exists>h'. KPageHeap_Free a np h = Ok h' \<and> heap_of lo hi h' \<and>
    total_free (m_blocks h') = total_free (m_blocks h) \<union> {unat a..<unat a + unat np * 4096} \<and>
    unat (GetNumFreePages h') = unat (GetNumFreePages h) + unat np"
proof -
  from KPageHeap_Free_ok[OF assms] obtain h' where h': "KPageHeap_Free a np h = Ok h'" "heap_of lo hi h'"
    "total_free (m_blocks h') = total_free (m_blocks h) \<union> {unat a..<unat a + unat np * 4096}" by blast
  have "card (total_free (m_blocks h')) = card (total_free (m_blocks h)) + unat np * 4096"
    unfolding h'(3) using assms(5) heap_finite[OF assms(1)] by (subst card_Un_disjoint) auto
  then show ?thesis using h' heap_card[OF h'(2)] heap_card[OF assms(1)] by auto
qed

text \<open>
  Claim C7. Allocating a block of one of the seven sizes by linear search fails only when no block of that or a
  larger size is free. Otherwise it returns an address aligned to the size, the block it returns was
  free and is not any more, and no other address changes; freeing the block again restores the free
  memory.
\<close>
theorem page_heap_allocate_block:
  assumes "heap_of lo hi h" "k < length (m_blocks h)"
  shows "\<exists>a h'. AllocateBlock (int k) False h = Ok (a, h') \<and> heap_of lo hi h' \<and>
    (a = 0 \<longrightarrow> (\<forall>i. k \<le> i \<and> i < length (m_blocks h) \<longrightarrow> block_free (m_blocks h ! i) = {}) \<and>
       total_free (m_blocks h') = total_free (m_blocks h)) \<and>
    (a \<noteq> 0 \<longrightarrow> bsize (m_blocks h ! k) dvd unat a \<and>
       {unat a..<unat a + bsize (m_blocks h ! k)} \<subseteq> total_free (m_blocks h) \<and>
       total_free (m_blocks h') = total_free (m_blocks h) - {unat a..<unat a + bsize (m_blocks h ! k)} \<and>
       (\<exists>h''. KPageHeap_Free a (Block_GetNumPages (m_blocks h ! k)) h' = Ok h'' \<and> heap_of lo hi h'' \<and>
          total_free (m_blocks h'') = total_free (m_blocks h)))"
proof -
  let ?S = "bsize (m_blocks h ! k)"
  obtain a h' where r: "AllocateByLinearSearch k h = Ok (a, h')" "allocated lo hi k ?S ?S h a h'"
    using AllocateByLinearSearch_ok[OF assms] by blast
  have run: "AllocateBlock (int k) False h = Ok (a, h')" using assms(2) r(1) by (simp add: AllocateBlock_def)
  have h': "heap_of lo hi h'" using r(2) by (simp add: allocated_def)
  have ok: "heap_ok lo hi (m_blocks h)" using assms(1) by (simp add: heap_of_def)
  show ?thesis
  proof (cases "a = 0")
    case True
    then have "(\<forall>i. k \<le> i \<and> i < length (m_blocks h) \<longrightarrow> block_free (m_blocks h ! i) = {}) \<and>
       total_free (m_blocks h') = total_free (m_blocks h)" using r(2) by (simp add: allocated_def)
    then show ?thesis using True run h' by blast
  next
    case False
    let ?R = "{unat a..<unat a + ?S}"
    have t: "?S dvd unat a" "?R \<subseteq> total_free (m_blocks h)" "total_free (m_blocks h') = total_free (m_blocks h) - ?R"
      using r(2) False by (simp_all add: allocated_def)
    have d: "4096 dvd ?S" using bsize_dvd[OF ok assms(2), of 0] bsize_0[OF ok] by simp
    have np: "unat (Block_GetNumPages (m_blocks h ! k)) * 4096 = ?S"
      using unat_Block_GetSize[OF ok assms(2)] d by (simp add: Block_GetNumPages_def pages_of_rest)
    have "?R \<subseteq> {lo..<hi}" using t(2) total_free_range[OF ok] by (rule order_trans)
    then have b: "lo \<le> unat a \<and> unat a + ?S \<le> hi" by (rule interval_bounds) simp
    have "?R \<inter> total_free (m_blocks h') = {}" unfolding t(3) by blast
    then obtain h'' where f: "KPageHeap_Free a (Block_GetNumPages (m_blocks h ! k)) h' = Ok h''" "heap_of lo hi h''"
      "total_free (m_blocks h'') = total_free (m_blocks h') \<union> ?R"
      using KPageHeap_Free_ok[OF h' dvd_trans[OF d t(1)], of "Block_GetNumPages (m_blocks h ! k)"] b unfolding np by blast
    have "total_free (m_blocks h'') = total_free (m_blocks h)" unfolding f(3) t(3) using t(2) by blast
    then show ?thesis using False run h' t f(1,2) by blast
  qed
qed

text \<open>
  Claim C8. A randomised allocation of a number of pages with a power-of-two alignment, at the block index that
  \<open>GetAlignedBlockIndex\<close> computes for it, fails only when no block of that or a larger size is free; whatever
  the random numbers are, the range it returns is aligned, was free, is free no more, and is all that
  changes.
\<close>
theorem page_heap_allocate_aligned:
  assumes "heap_of lo hi h" "hi < 2 ^ 41" "map hb_block_shift (m_blocks h) = MemoryBlockPageShifts"
    "0 < unat np" "unat ap = 2 ^ e" "GetAlignedBlockIndex (unat np) (unat ap) = int k"
  shows "\<exists>a h'. AllocateAligned (int k) np ap h = Ok (a, h') \<and> heap_of lo hi h' \<and>
    (a = 0 \<longrightarrow> (\<forall>i. k \<le> i \<and> i < length (m_blocks h) \<longrightarrow> block_free (m_blocks h ! i) = {}) \<and>
       total_free (m_blocks h') = total_free (m_blocks h)) \<and>
    (a \<noteq> 0 \<longrightarrow> unat ap * 4096 dvd unat a \<and>
       {unat a..<unat a + unat np * 4096} \<subseteq> total_free (m_blocks h) \<and>
       total_free (m_blocks h') = total_free (m_blocks h) - {unat a..<unat a + unat np * 4096})"
proof -
  note k = GetAlignedBlockIndex_ok[OF assms(6,3)]
  have al: "unat ap * 4096 = 2 ^ (e + 12)" using assms(5) by (simp add: power_add)
  have "2 ^ (e + 12) \<le> bsize (m_blocks h ! k)" using k(3) al by simp
  from AllocateByRandom_ok[OF assms(1,2) k(1) assms(4) k(2) al this] obtain a h' where
    r: "AllocateByRandom k np ap h = Ok (a, h')" "allocated lo hi k (unat np * 4096) (2 ^ (e + 12)) h a h'" by blast
  have "AllocateAligned (int k) np ap h = Ok (a, h')" using r(1) by (simp add: AllocateAligned_def)
  then show ?thesis using r(2) al by (auto simp: allocated_def split: if_splits)
qed

text \<open>
  Claim C36. A new heap initialised over a region, with as much management memory as
  \<open>CalculateManagementOverheadSize\<close> asks for, is well formed and has no free memory: the bitmaps of all seven
  sizes fit into the management memory and cover the region. The bounds on the region keep every bitmap
  within its four levels and the addresses within 41 bits.
\<close>
theorem page_heap_initialize:
  assumes "0 < unat sz" "unat sz < 2 ^ 35" "0 < unat addr" "unat addr + unat sz < 2 ^ 41"
    "length gs = 7" "unat (KPageHeap_CalculateManagementOverheadSize sz) \<le> unat msize"
  shows "\<exists>h. KPageHeap_Initialize addr sz msize (KPageHeap_new gs g) = Ok h \<and>
    heap_of (unat addr) (unat addr + unat sz) h \<and> total_free (m_blocks h) = {} \<and> GetNumFreePages h = 0 \<and>
    map hb_block_shift (m_blocks h) = MemoryBlockPageShifts"
proof -
  obtain h where h: "KPageHeap_Initialize addr sz msize (KPageHeap_new gs g) = Ok h"
    "heap_of (unat addr) (unat addr + unat sz) h" "total_free (m_blocks h) = {}"
    "map hb_block_shift (m_blocks h) = MemoryBlockPageShifts" using KPageHeap_Initialize_ok[OF assms] by blast
  have "unat (GetNumFreePages h) = 0" using heap_card[OF h(2)] h(3) by simp
  then show ?thesis using h by (auto simp: unat_eq_0)
qed

definition demo_rng :: random_bits where
  "demo_rng = \<lparr>m_rng = \<lparr>mt0 = 1, mt1 = 2, mt2 = 3, mt3 = 4\<rparr>, m_entropy = 0, m_bits_available = 0\<rparr>"

definition demo_new :: "page_heap res" where
  "demo_new = KPageHeap_Initialize 0x80000000 0x400000 0x100000000 (KPageHeap_new (replicate 7 demo_rng) demo_rng)"

lemma management_size_bound: "unat sz < 2 ^ 35 \<Longrightarrow> unat (KPageHeap_CalculateManagementOverheadSize sz) < 2 ^ 32"
proof -
  let ?o = "overhead_blocks sz MemoryBlockPageShifts"
  assume "unat sz < 2 ^ 35"
  moreover have "shifts_ok MemoryBlockPageShifts" "length MemoryBlockPageShifts = 7"
    by (simp_all add: shifts_ok_def MemoryBlockPageShifts_def)
  ultimately have b: "?o \<le> 7 * 2 ^ 29" using overhead_blocks_le[of MemoryBlockPageShifts sz] by simp
  then have o: "unat (of_nat ?o :: u64) = ?o" "unat (of_nat ?o :: u64) + unat PageSize < 2 ^ 64"
    by (simp_all add: unat_of_nat PageSize_value)
  have "unat (AlignUp (of_nat ?o) PageSize) < ?o + 4096" using AlignUp_props(3)[OF _ o(2)] o(1) by (simp add: PageSize_value)
  then show ?thesis unfolding KPageHeap_CalculateManagementOverheadSize_def using b by simp
qed

lemma demo_overhead: "unat (KPageHeap_CalculateManagementOverheadSize 0x400000) \<le> unat (0x100000000 :: u64)"
  using management_size_bound[of "0x400000"] by simp

theorem page_heap_initialize_witness:
  "\<exists>h. demo_new = Ok h \<and> heap_of 0x80000000 0x80400000 h \<and> total_free (m_blocks h) = {}"
  using page_heap_initialize[of "0x400000" "0x80000000" "replicate 7 demo_rng" "0x100000000" demo_rng] demo_overhead
  by (auto simp: demo_new_def)

lemma demo_heap:
  "\<exists>h. demo_new = Ok h \<and> heap_of 0x80000000 0x80400000 h \<and> total_free (m_blocks h) = {} \<and> GetNumFreePages h = 0 \<and>
     map hb_block_shift (m_blocks h) = MemoryBlockPageShifts"
proof -
  obtain h where h: "demo_new = Ok h" "heap_of 0x80000000 0x80400000 h" "total_free (m_blocks h) = {}"
    "map hb_block_shift (m_blocks h) = MemoryBlockPageShifts"
    using KPageHeap_Initialize_ok[of "0x400000" "0x80000000" "replicate 7 demo_rng" "0x100000000" demo_rng] demo_overhead
    by (auto simp: demo_new_def)
  have "unat (GetNumFreePages h) = 0" using heap_card[OF h(2)] h(3) by simp
  then show ?thesis using h by (auto simp: unat_eq_0)
qed

text \<open>The same heap with five pages freed.\<close>

lemma demo_heap_freed:
  "\<exists>h h'. demo_new = Ok h \<and> KPageHeap_Free 0x80003000 5 h = Ok h' \<and> heap_of 0x80000000 0x80400000 h' \<and>
     total_free (m_blocks h') = {0x80003000..<0x80008000} \<and> map hb_block_shift (m_blocks h') = MemoryBlockPageShifts"
proof -
  obtain h where h: "demo_new = Ok h" "heap_of 0x80000000 0x80400000 h" "total_free (m_blocks h) = {}"
    "map hb_block_shift (m_blocks h) = MemoryBlockPageShifts" using demo_heap by blast
  obtain h' where h': "KPageHeap_Free 0x80003000 5 h = Ok h'" "heap_of 0x80000000 0x80400000 h'"
    "map geometry (m_blocks h') = map geometry (m_blocks h)" "total_free (m_blocks h') = {0x80003000..<0x80008000}"
    using KPageHeap_Free_ok[OF h(2), of "0x80003000" 5] h(3) by auto
  have "map hb_block_shift (m_blocks h') = map hb_block_shift (m_blocks h)"
    using arg_cong[OF h'(3), of "map (\<lambda>(a, e, s, n). s)"] by (simp add: geometry_def comp_def)
  then show ?thesis using h h' by auto
qed

theorem page_heap_free_witness:
  "\<exists>h h'. demo_new = Ok h \<and> KPageHeap_Free 0x80003000 5 h = Ok h' \<and> unat (GetNumFreePages h') = 5"
proof -
  obtain h where h: "demo_new = Ok h" "heap_of 0x80000000 0x80400000 h" "total_free (m_blocks h) = {}" "GetNumFreePages h = 0"
    using demo_heap by blast
  then show ?thesis using page_heap_free[OF h(2), of "0x80003000" 5] by auto
qed

theorem page_heap_allocate_block_witness:
  "\<exists>h h' a h''. demo_new = Ok h \<and> KPageHeap_Free 0x80003000 5 h = Ok h' \<and> AllocateBlock 0 False h' = Ok (a, h'') \<and>
     unat a \<in> {0x80003000..<0x80008000}"
proof -
  obtain h h' where h: "demo_new = Ok h" "KPageHeap_Free 0x80003000 5 h = Ok h'" "heap_of 0x80000000 0x80400000 h'"
    "total_free (m_blocks h') = {0x80003000..<0x80008000}" using demo_heap_freed by blast
  have k: "0 < length (m_blocks h')" using h(3) by (simp add: heap_of_def heap_ok_def)
  obtain a h'' where r: "AllocateBlock (int 0) False h' = Ok (a, h'')"
    "a = 0 \<longrightarrow> (\<forall>i. 0 \<le> i \<and> i < length (m_blocks h') \<longrightarrow> block_free (m_blocks h' ! i) = {})"
    "a \<noteq> 0 \<longrightarrow> {unat a..<unat a + bsize (m_blocks h' ! 0)} \<subseteq> total_free (m_blocks h')"
    using page_heap_allocate_block[OF h(3) k] by (elim exE conjE) (rule that, assumption, blast, blast)
  have "a \<noteq> 0"
  proof
    assume "a = 0"
    then have "total_free (m_blocks h') = {}" using r(2) by (auto simp: total_free_def)
    then show False using h(4) by simp
  qed
  moreover have "unat a \<in> {unat a..<unat a + bsize (m_blocks h' ! 0)}" by simp
  ultimately have "unat a \<in> {0x80003000..<0x80008000}" using r(3) unfolding h(4) by blast
  then show ?thesis using h(1,2) r(1) by auto
qed

theorem page_heap_allocate_aligned_witness:
  "\<exists>h h' a h''. demo_new = Ok h \<and> KPageHeap_Free 0x80003000 5 h = Ok h' \<and> AllocateAligned 0 1 1 h' = Ok (a, h'') \<and>
     4096 dvd unat a \<and> unat a \<in> {0x80003000..<0x80008000}"
proof -
  obtain h h' where h: "demo_new = Ok h" "KPageHeap_Free 0x80003000 5 h = Ok h'" "heap_of 0x80000000 0x80400000 h'"
    "total_free (m_blocks h') = {0x80003000..<0x80008000}" "map hb_block_shift (m_blocks h') = MemoryBlockPageShifts"
    using demo_heap_freed by blast
  have idx: "GetAlignedBlockIndex (unat (1::u64)) (unat (1::u64)) = int 0"
    by (simp add: GetAlignedBlockIndex_def NumMemoryBlockPageShifts_def MemoryBlockPageShifts_def PageSize_value upt_conv_Cons)
  obtain a h'' where r: "AllocateAligned (int 0) 1 1 h' = Ok (a, h'')"
    "a = 0 \<longrightarrow> (\<forall>i. 0 \<le> i \<and> i < length (m_blocks h') \<longrightarrow> block_free (m_blocks h' ! i) = {})"
    "a \<noteq> 0 \<longrightarrow> unat (1::u64) * 4096 dvd unat a \<and> {unat a..<unat a + unat (1::u64) * 4096} \<subseteq> total_free (m_blocks h')"
    using page_heap_allocate_aligned[OF h(3) _ h(5) _ _ idx, of 0] by auto
  have "a \<noteq> 0"
  proof
    assume "a = 0"
    then have "total_free (m_blocks h') = {}" using r(2) by (auto simp: total_free_def)
    then show False using h(4) by simp
  qed
  moreover have "unat a \<in> {unat a..<unat a + unat (1::u64) * 4096}" by simp
  ultimately have "unat a \<in> {0x80003000..<0x80008000}" "4096 dvd unat a" using r(3) unfolding h(4) by (blast, simp)
  then show ?thesis using h(1,2) r(1) by auto
qed

end
