(* ===== verification/Cheat_VM.thy ===== *)
theory Cheat_VM
  imports Emu_Prelude
begin

text \<open>
  The cheat virtual machine, \<^verbatim>\<open>src/src/core/memory/dmnt_cheat_vm.cpp\<close> and \<^verbatim>\<open>dmnt_cheat_vm.h\<close>, with
  the callbacks of \<^verbatim>\<open>cheat_engine.cpp\<close> that it reads and writes the application's memory
  through. A program is a list of 32-bit words; instructions are one to four words long and are
  decoded as they are executed. The structures of the opcodes are records, the tagged union is a
  datatype, and an enumeration read from a four-bit field has a further constructor for the values
  that name nothing. Command logging is left out. Two calls of \<open>GetNextDword\<close> in one expression
  are taken from left to right, as the encoding comments say. The application's memory is a byte
  map with the set of mapped addresses (invalidation of translated code is left out); a shift by 64 or more and \<open>UNREACHABLE\<close> are \<open>UB\<close>, and a
  program that never stops has no result.
\<close>

section \<open>Instructions\<close>

datatype memory_access = MainNso | Heap | Alias | Aslr | Access_other

datatype comparison = CmpGT | CmpGE | CmpLT | CmpLE | CmpEQ | CmpNE | Cmp_other

datatype reg_arith =
    Addition | Subtraction | Multiplication | LeftShift | RightShift | LogicalAnd | LogicalOr
  | LogicalNot | LogicalXor | ArithNone | Arith_other

datatype offset_type =
    OfsNone | OfsReg | OfsImm | OfsMemReg | OfsMemImm | OfsMemImmReg

datatype compare_type =
    CmpMemoryRelAddr | CmpMemoryOfsReg | CmpRegisterRelAddr | CmpRegisterOfsReg | CmpStaticValue
  | CmpOtherRegister | CmpType_other

datatype save_restore = SrRestore | SrSave | SrClearSaved | SrClearRegs | Sr_other

datatype log_type =
    LogMemoryRelAddr | LogMemoryOfsReg | LogRegisterRelAddr | LogRegisterOfsReg | LogRegisterValue
  | Log_other

definition MemoryAccessType :: "u32 \<Rightarrow> memory_access" where
  "MemoryAccessType v =
     (if v = 0 then MainNso else if v = 1 then Heap else if v = 2 then Alias else if v = 3 then Aslr
      else Access_other)"

definition ConditionalComparisonType :: "u32 \<Rightarrow> comparison" where
  "ConditionalComparisonType v =
     (if v = 1 then CmpGT else if v = 2 then CmpGE else if v = 3 then CmpLT else if v = 4 then CmpLE
      else if v = 5 then CmpEQ else if v = 6 then CmpNE else Cmp_other)"

definition RegisterArithmeticType :: "u32 \<Rightarrow> reg_arith" where
  "RegisterArithmeticType v =
     (if v = 0 then Addition else if v = 1 then Subtraction else if v = 2 then Multiplication
      else if v = 3 then LeftShift else if v = 4 then RightShift else if v = 5 then LogicalAnd
      else if v = 6 then LogicalOr else if v = 7 then LogicalNot else if v = 8 then LogicalXor
      else if v = 9 then ArithNone else Arith_other)"

text \<open>The decoder turns an unknown offset type into \<open>None\<close>.\<close>

definition StoreRegisterOffsetType :: "u32 \<Rightarrow> offset_type" where
  "StoreRegisterOffsetType v =
     (if v = 1 then OfsReg else if v = 2 then OfsImm else if v = 3 then OfsMemReg
      else if v = 4 then OfsMemImm else if v = 5 then OfsMemImmReg else OfsNone)"

definition CompareRegisterValueType :: "u32 \<Rightarrow> compare_type" where
  "CompareRegisterValueType v =
     (if v = 0 then CmpMemoryRelAddr else if v = 1 then CmpMemoryOfsReg
      else if v = 2 then CmpRegisterRelAddr else if v = 3 then CmpRegisterOfsReg
      else if v = 4 then CmpStaticValue else if v = 5 then CmpOtherRegister else CmpType_other)"

definition SaveRestoreRegisterOpType :: "u32 \<Rightarrow> save_restore" where
  "SaveRestoreRegisterOpType v =
     (if v = 0 then SrRestore else if v = 1 then SrSave else if v = 2 then SrClearSaved
      else if v = 3 then SrClearRegs else Sr_other)"

definition DebugLogValueType :: "u32 \<Rightarrow> log_type" where
  "DebugLogValueType v =
     (if v = 0 then LogMemoryRelAddr else if v = 1 then LogMemoryOfsReg
      else if v = 2 then LogRegisterRelAddr else if v = 3 then LogRegisterOfsReg
      else if v = 4 then LogRegisterValue else Log_other)"

record store_static =
  ss_bit_width :: nat
  ss_mem_type :: memory_access
  ss_offset_register :: nat
  ss_rel_address :: u64
  ss_value :: u64

record begin_conditional =
  bc_bit_width :: nat
  bc_mem_type :: memory_access
  bc_cond_type :: comparison
  bc_rel_address :: u64
  bc_value :: u64

record load_register_memory =
  lrm_bit_width :: nat
  lrm_mem_type :: memory_access
  lrm_reg_index :: nat
  lrm_load_from_reg :: bool
  lrm_rel_address :: u64

record store_static_to_address =
  ssa_bit_width :: nat
  ssa_reg_index :: nat
  ssa_increment_reg :: bool
  ssa_add_offset_reg :: bool
  ssa_offset_reg_index :: nat
  ssa_value :: u64

record arithmetic_static =
  pas_bit_width :: nat
  pas_reg_index :: nat
  pas_math_type :: reg_arith
  pas_value :: u32

record arithmetic_register =
  par_bit_width :: nat
  par_math_type :: reg_arith
  par_dst_reg_index :: nat
  par_src_reg_1_index :: nat
  par_src_reg_2_index :: nat
  par_has_immediate :: bool
  par_value :: u64

record store_register =
  sr_bit_width :: nat
  sr_str_reg_index :: nat
  sr_addr_reg_index :: nat
  sr_increment_reg :: bool
  sr_ofs_type :: offset_type
  sr_mem_type :: memory_access
  sr_ofs_reg_index :: nat
  sr_rel_address :: u64

record register_conditional =
  brc_bit_width :: nat
  brc_cond_type :: comparison
  brc_val_reg_index :: nat
  brc_comp_type :: compare_type
  brc_mem_type :: memory_access
  brc_addr_reg_index :: nat
  brc_other_reg_index :: nat
  brc_ofs_reg_index :: nat
  brc_rel_address :: u64
  brc_value :: u64

record debug_log =
  dl_bit_width :: nat
  dl_log_id :: u32
  dl_val_type :: log_type
  dl_mem_type :: memory_access
  dl_addr_reg_index :: nat
  dl_val_reg_index :: nat
  dl_ofs_reg_index :: nat
  dl_rel_address :: u64

datatype cheat_instr =
    StoreStatic store_static
  | BeginConditional begin_conditional
  | EndConditional bool
  | ControlLoop bool nat u32
  | LoadRegisterStatic nat u64
  | LoadRegisterMemory load_register_memory
  | StoreStaticToAddress store_static_to_address
  | PerformArithmeticStatic arithmetic_static
  | BeginKeypressConditional u32
  | PerformArithmeticRegister arithmetic_register
  | StoreRegisterToAddress store_register
  | BeginRegisterConditional register_conditional
  | SaveRestoreRegister nat nat save_restore
  | SaveRestoreRegisterMask save_restore "bool list"
  | ReadWriteStaticRegister nat nat
  | PauseProcess
  | ResumeProcess
  | DebugLog debug_log
  | UnrecognizedInstruction u32

record cheat_opcode =
  begin_conditional_block :: bool
  opcode :: cheat_instr

section \<open>The machine\<close>

definition MaximumProgramOpcodeCount :: nat where "MaximumProgramOpcodeCount = 0x400"
definition NumRegisters :: nat where "NumRegisters = 0x10"
definition NumReadableStaticRegisters :: nat where "NumReadableStaticRegisters = 0x80"
definition NumWritableStaticRegisters :: nat where "NumWritableStaticRegisters = 0x80"
definition NumStaticRegisters :: nat where
  "NumStaticRegisters = NumReadableStaticRegisters + NumWritableStaticRegisters"

record cheat_vm =
  num_opcodes :: nat
  instruction_ptr :: nat
  condition_depth :: nat
  decode_success :: bool
  vm_program :: "u32 list"
  registers :: "u64 list"
  saved_values :: "u64 list"
  static_registers :: "u64 list"
  loop_tops :: "nat list"

definition DmntCheatVm_new :: cheat_vm where
  "DmntCheatVm_new =
     \<lparr>num_opcodes = 0, instruction_ptr = 0, condition_depth = 0, decode_success = False,
      vm_program = replicate MaximumProgramOpcodeCount 0, registers = replicate NumRegisters 0,
      saved_values = replicate NumRegisters 0,
      static_registers = replicate NumStaticRegisters 0, loop_tops = replicate NumRegisters 0\<rparr>"

record memory_extents =
  ext_base :: u64
  ext_size :: u64

record cheat_metadata =
  main_nso_extents :: memory_extents
  heap_extents :: memory_extents
  alias_extents :: memory_extents
  aslr_extents :: memory_extents

datatype cheat_event = EvPause | EvResume | EvDebugLog u8 u64

text \<open>
  What the callbacks see: the application's memory, its valid addresses, the width of its address space, the keys held
  down.
\<close>

record cheat_env =
  env_mem :: "u64 \<Rightarrow> u8"
  env_valid :: "u64 \<Rightarrow> bool"
  env_space_bits :: nat
  env_keys :: u64
  env_events :: "cheat_event list"

section \<open>Decoding\<close>

text \<open>The state of the decoder: whether it is still valid, and the instruction pointer.\<close>

type_synonym decode_state = "bool \<times> nat"

definition GetNextDword :: "cheat_vm \<Rightarrow> decode_state \<Rightarrow> u32 \<times> decode_state" where
  "GetNextDword vm ds =
     (case ds of (valid, ip) \<Rightarrow>
        if ip \<ge> num_opcodes vm then (0, (False, ip))
        else (vm_program vm ! ip, (valid, ip + 1)))"

definition GetNextQword :: "cheat_vm \<Rightarrow> decode_state \<Rightarrow> u64 \<times> decode_state" where
  "GetNextQword vm ds =
     (let (hi, ds1) = GetNextDword vm ds; (lo, ds2) = GetNextDword vm ds1
      in (push_bit 32 (ucast hi) OR ucast lo, ds2))"

definition GetNextVmInt :: "cheat_vm \<Rightarrow> nat \<Rightarrow> decode_state \<Rightarrow> u64 \<times> decode_state" where
  "GetNextVmInt vm bit_width ds =
     (let (first_dword, ds1) = GetNextDword vm ds in
      if bit_width = 1 then (ucast (ucast first_dword :: u8), ds1)
      else if bit_width = 2 then (ucast (ucast first_dword :: u16), ds1)
      else if bit_width = 4 then (ucast first_dword, ds1)
      else if bit_width = 8 then
        (let (second_dword, ds2) = GetNextDword vm ds1
         in (push_bit 32 (ucast first_dword) OR ucast second_dword, ds2))
      else (0, ds1))"

definition nib :: "u32 \<Rightarrow> nat \<Rightarrow> u32" where
  "nib w k = drop_bit k w AND 0xF"

definition reg_of :: "u32 \<Rightarrow> nat \<Rightarrow> nat" where
  "reg_of w k = unat (nib w k)"

definition opcode_type_of :: "u32 \<Rightarrow> u32" where
  "opcode_type_of first_dword =
     (let t0 = nib first_dword 28;
          t1 = (if t0 \<ge> 12 then push_bit 4 t0 OR nib first_dword 24 else t0)
      in if t1 \<ge> 0xF0 then push_bit 4 t1 OR nib first_dword 20 else t1)"

definition rel_address_8 :: "u32 \<Rightarrow> u32 \<Rightarrow> u64" where
  "rel_address_8 first_dword second_dword =
     push_bit 32 (ucast (first_dword AND 0xFF)) OR ucast second_dword"

definition rel_address_4 :: "u32 \<Rightarrow> u32 \<Rightarrow> u64" where
  "rel_address_4 first_dword second_dword =
     push_bit 32 (ucast (first_dword AND 0xF)) OR ucast second_dword"

definition decode_StoreStatic :: "cheat_vm \<Rightarrow> u32 \<Rightarrow> decode_state \<Rightarrow> cheat_instr \<times> decode_state" where
  "decode_StoreStatic vm w ds =
     (let (second_dword, ds1) = GetNextDword vm ds;
          bit_width = unat (nib w 24);
          (val, ds2) = GetNextVmInt vm bit_width ds1
      in (StoreStatic \<lparr>ss_bit_width = bit_width, ss_mem_type = MemoryAccessType (nib w 20),
            ss_offset_register = reg_of w 16, ss_rel_address = rel_address_8 w second_dword,
            ss_value = val\<rparr>, ds2))"

definition decode_BeginConditional :: "cheat_vm \<Rightarrow> u32 \<Rightarrow> decode_state \<Rightarrow> cheat_instr \<times> decode_state" where
  "decode_BeginConditional vm w ds =
     (let (second_dword, ds1) = GetNextDword vm ds;
          bit_width = unat (nib w 24);
          (val, ds2) = GetNextVmInt vm bit_width ds1
      in (BeginConditional \<lparr>bc_bit_width = bit_width, bc_mem_type = MemoryAccessType (nib w 20),
            bc_cond_type = ConditionalComparisonType (nib w 16),
            bc_rel_address = rel_address_8 w second_dword, bc_value = val\<rparr>, ds2))"

definition decode_ControlLoop :: "cheat_vm \<Rightarrow> u32 \<Rightarrow> decode_state \<Rightarrow> cheat_instr \<times> decode_state" where
  "decode_ControlLoop vm w ds =
     (if nib w 24 = 0
      then (let (num_iters, ds1) = GetNextDword vm ds
            in (ControlLoop True (reg_of w 20) num_iters, ds1))
      else (ControlLoop False (reg_of w 20) 0, ds))"

definition decode_LoadRegisterStatic :: "cheat_vm \<Rightarrow> u32 \<Rightarrow> decode_state \<Rightarrow> cheat_instr \<times> decode_state" where
  "decode_LoadRegisterStatic vm w ds =
     (let (val, ds1) = GetNextQword vm ds in (LoadRegisterStatic (reg_of w 16) val, ds1))"

definition decode_LoadRegisterMemory :: "cheat_vm \<Rightarrow> u32 \<Rightarrow> decode_state \<Rightarrow> cheat_instr \<times> decode_state" where
  "decode_LoadRegisterMemory vm w ds =
     (let (second_dword, ds1) = GetNextDword vm ds
      in (LoadRegisterMemory \<lparr>lrm_bit_width = unat (nib w 24),
            lrm_mem_type = MemoryAccessType (nib w 20), lrm_reg_index = reg_of w 16,
            lrm_load_from_reg = (nib w 12 \<noteq> 0), lrm_rel_address = rel_address_8 w second_dword\<rparr>, ds1))"

definition decode_StoreStaticToAddress :: "cheat_vm \<Rightarrow> u32 \<Rightarrow> decode_state \<Rightarrow> cheat_instr \<times> decode_state" where
  "decode_StoreStaticToAddress vm w ds =
     (let (val, ds1) = GetNextQword vm ds
      in (StoreStaticToAddress \<lparr>ssa_bit_width = unat (nib w 24), ssa_reg_index = reg_of w 16,
            ssa_increment_reg = (nib w 12 \<noteq> 0), ssa_add_offset_reg = (nib w 8 \<noteq> 0),
            ssa_offset_reg_index = reg_of w 4, ssa_value = val\<rparr>, ds1))"

definition decode_PerformArithmeticStatic :: "cheat_vm \<Rightarrow> u32 \<Rightarrow> decode_state \<Rightarrow> cheat_instr \<times> decode_state" where
  "decode_PerformArithmeticStatic vm w ds =
     (let (val, ds1) = GetNextDword vm ds
      in (PerformArithmeticStatic \<lparr>pas_bit_width = unat (nib w 24), pas_reg_index = reg_of w 16,
            pas_math_type = RegisterArithmeticType (nib w 12), pas_value = val\<rparr>, ds1))"

definition decode_PerformArithmeticRegister :: "cheat_vm \<Rightarrow> u32 \<Rightarrow> decode_state \<Rightarrow> cheat_instr \<times> decode_state" where
  "decode_PerformArithmeticRegister vm w ds =
     (let bit_width = unat (nib w 24);
          has_immediate = (nib w 8 \<noteq> 0);
          (val, ds1) = (if has_immediate then GetNextVmInt vm bit_width ds else (0, ds))
      in (PerformArithmeticRegister \<lparr>par_bit_width = bit_width,
            par_math_type = RegisterArithmeticType (nib w 20), par_dst_reg_index = reg_of w 16,
            par_src_reg_1_index = reg_of w 12,
            par_src_reg_2_index = (if has_immediate then 0 else reg_of w 4),
            par_has_immediate = has_immediate, par_value = val\<rparr>, ds1))"

definition decode_StoreRegisterToAddress :: "cheat_vm \<Rightarrow> u32 \<Rightarrow> decode_state \<Rightarrow> cheat_instr \<times> decode_state" where
  "decode_StoreRegisterToAddress vm w ds =
     (let str_register = \<lparr>sr_bit_width = unat (nib w 24), sr_str_reg_index = reg_of w 20,
            sr_addr_reg_index = reg_of w 16, sr_increment_reg = (nib w 12 \<noteq> 0),
            sr_ofs_type = StoreRegisterOffsetType (nib w 8), sr_mem_type = MainNso,
            sr_ofs_reg_index = reg_of w 4, sr_rel_address = 0\<rparr>
      in case sr_ofs_type str_register of
           OfsImm \<Rightarrow>
             (let (a, ds1) = GetNextDword vm ds
              in (StoreRegisterToAddress (str_register\<lparr>sr_rel_address := rel_address_4 w a\<rparr>), ds1))
         | OfsMemReg \<Rightarrow>
             (StoreRegisterToAddress (str_register\<lparr>sr_mem_type := MemoryAccessType (nib w 4)\<rparr>), ds)
         | OfsMemImm \<Rightarrow>
             (let (a, ds1) = GetNextDword vm ds
              in (StoreRegisterToAddress (str_register\<lparr>sr_mem_type := MemoryAccessType (nib w 4),
                    sr_rel_address := rel_address_4 w a\<rparr>), ds1))
         | OfsMemImmReg \<Rightarrow>
             (let (a, ds1) = GetNextDword vm ds
              in (StoreRegisterToAddress (str_register\<lparr>sr_mem_type := MemoryAccessType (nib w 4),
                    sr_rel_address := rel_address_4 w a\<rparr>), ds1))
         | _ \<Rightarrow> (StoreRegisterToAddress str_register, ds))"

definition decode_BeginRegisterConditional :: "cheat_vm \<Rightarrow> u32 \<Rightarrow> decode_state \<Rightarrow> cheat_instr \<times> decode_state" where
  "decode_BeginRegisterConditional vm w ds =
     (let c = \<lparr>brc_bit_width = unat (nib w 20), brc_cond_type = ConditionalComparisonType (nib w 16),
            brc_val_reg_index = reg_of w 12, brc_comp_type = CompareRegisterValueType (nib w 8),
            brc_mem_type = MainNso, brc_addr_reg_index = 0, brc_other_reg_index = 0,
            brc_ofs_reg_index = 0, brc_rel_address = 0, brc_value = 0\<rparr>
      in case brc_comp_type c of
           CmpStaticValue \<Rightarrow>
             (let (v, ds1) = GetNextVmInt vm (brc_bit_width c) ds
              in (BeginRegisterConditional (c\<lparr>brc_value := v\<rparr>), ds1))
         | CmpOtherRegister \<Rightarrow>
             (BeginRegisterConditional (c\<lparr>brc_other_reg_index := reg_of w 4\<rparr>), ds)
         | CmpMemoryRelAddr \<Rightarrow>
             (let (a, ds1) = GetNextDword vm ds
              in (BeginRegisterConditional (c\<lparr>brc_mem_type := MemoryAccessType (nib w 4),
                    brc_rel_address := rel_address_4 w a\<rparr>), ds1))
         | CmpMemoryOfsReg \<Rightarrow>
             (BeginRegisterConditional (c\<lparr>brc_mem_type := MemoryAccessType (nib w 4),
                brc_ofs_reg_index := reg_of w 0\<rparr>), ds)
         | CmpRegisterRelAddr \<Rightarrow>
             (let (a, ds1) = GetNextDword vm ds
              in (BeginRegisterConditional (c\<lparr>brc_addr_reg_index := reg_of w 4,
                    brc_rel_address := rel_address_4 w a\<rparr>), ds1))
         | CmpRegisterOfsReg \<Rightarrow>
             (BeginRegisterConditional (c\<lparr>brc_addr_reg_index := reg_of w 4,
                brc_ofs_reg_index := reg_of w 0\<rparr>), ds)
         | CmpType_other \<Rightarrow> (BeginRegisterConditional c, ds))"

definition decode_DebugLog :: "cheat_vm \<Rightarrow> u32 \<Rightarrow> decode_state \<Rightarrow> cheat_instr \<times> decode_state" where
  "decode_DebugLog vm w ds =
     (let d = \<lparr>dl_bit_width = unat (nib w 16), dl_log_id = nib w 12,
            dl_val_type = DebugLogValueType (nib w 8), dl_mem_type = MainNso, dl_addr_reg_index = 0,
            dl_val_reg_index = 0, dl_ofs_reg_index = 0, dl_rel_address = 0\<rparr>
      in case dl_val_type d of
           LogRegisterValue \<Rightarrow> (DebugLog (d\<lparr>dl_val_reg_index := reg_of w 4\<rparr>), ds)
         | LogMemoryRelAddr \<Rightarrow>
             (let (a, ds1) = GetNextDword vm ds
              in (DebugLog (d\<lparr>dl_mem_type := MemoryAccessType (nib w 4),
                    dl_rel_address := rel_address_4 w a\<rparr>), ds1))
         | LogMemoryOfsReg \<Rightarrow>
             (DebugLog (d\<lparr>dl_mem_type := MemoryAccessType (nib w 4),
                dl_ofs_reg_index := reg_of w 0\<rparr>), ds)
         | LogRegisterRelAddr \<Rightarrow>
             (let (a, ds1) = GetNextDword vm ds
              in (DebugLog (d\<lparr>dl_addr_reg_index := reg_of w 4,
                    dl_rel_address := rel_address_4 w a\<rparr>), ds1))
         | LogRegisterOfsReg \<Rightarrow>
             (DebugLog (d\<lparr>dl_addr_reg_index := reg_of w 4, dl_ofs_reg_index := reg_of w 0\<rparr>), ds)
         | Log_other \<Rightarrow> (DebugLog d, ds))"

definition decode_instr :: "cheat_vm \<Rightarrow> u32 \<Rightarrow> decode_state \<Rightarrow> cheat_instr \<times> decode_state" where
  "decode_instr vm w ds =
     (let t = opcode_type_of w in
      if t = 0 then decode_StoreStatic vm w ds
      else if t = 1 then decode_BeginConditional vm w ds
      else if t = 2 then (EndConditional (nib w 24 = 1), ds)
      else if t = 3 then decode_ControlLoop vm w ds
      else if t = 4 then decode_LoadRegisterStatic vm w ds
      else if t = 5 then decode_LoadRegisterMemory vm w ds
      else if t = 6 then decode_StoreStaticToAddress vm w ds
      else if t = 7 then decode_PerformArithmeticStatic vm w ds
      else if t = 8 then (BeginKeypressConditional (w AND 0x0FFFFFFF), ds)
      else if t = 9 then decode_PerformArithmeticRegister vm w ds
      else if t = 10 then decode_StoreRegisterToAddress vm w ds
      else if t = 0xC0 then decode_BeginRegisterConditional vm w ds
      else if t = 0xC1 then
        (SaveRestoreRegister (reg_of w 16) (reg_of w 8) (SaveRestoreRegisterOpType (nib w 4)), ds)
      else if t = 0xC2 then
        (SaveRestoreRegisterMask (SaveRestoreRegisterOpType (nib w 20))
           (map (\<lambda>i. w AND push_bit i 1 \<noteq> 0) [0..<NumRegisters]), ds)
      else if t = 0xC3 then
        (ReadWriteStaticRegister (unat (drop_bit 4 w AND 0xFF)) (unat (w AND 0xF)), ds)
      else if t = 0xFF0 then (PauseProcess, ds)
      else if t = 0xFF1 then (ResumeProcess, ds)
      else if t = 0xFFF then decode_DebugLog vm w ds
      else (UnrecognizedInstruction t, (False, snd ds)))"

definition DecodeNextOpcode :: "cheat_vm \<Rightarrow> cheat_opcode option \<times> cheat_vm" where
  "DecodeNextOpcode vm =
     (let (first_dword, ds) = GetNextDword vm (decode_success vm, instruction_ptr vm) in
      if \<not> fst ds then (None, vm\<lparr>instruction_ptr := snd ds, decode_success := False\<rparr>)
      else
        let t = opcode_type_of first_dword;
            (instr, (valid, ip)) = decode_instr vm first_dword ds;
            vm' = vm\<lparr>instruction_ptr := ip, decode_success := decode_success vm \<and> valid\<rparr>
        in if valid
           then (Some \<lparr>begin_conditional_block = (t = 1 \<or> t = 8 \<or> t = 0xC0), opcode = instr\<rparr>, vm')
           else (None, vm'))"

text \<open>A successful decode consumes at least one word and stays inside the program.\<close>

lemma GetNextDword_state:
  "GetNextDword vm ds = (w, ds') \<Longrightarrow>
     (fst ds' \<longrightarrow> fst ds \<and> snd ds < num_opcodes vm \<and> snd ds' = snd ds + 1) \<and>
     snd ds \<le> snd ds' \<and> (snd ds \<le> num_opcodes vm \<longrightarrow> snd ds' \<le> num_opcodes vm)"
  by (auto simp: GetNextDword_def split: prod.splits if_splits)

definition ds_mono :: "cheat_vm \<Rightarrow> decode_state \<Rightarrow> decode_state \<Rightarrow> bool" where
  "ds_mono vm ds ds' \<longleftrightarrow> (fst ds' \<longrightarrow> fst ds) \<and> snd ds \<le> snd ds' \<and>
     (snd ds \<le> num_opcodes vm \<longrightarrow> snd ds' \<le> num_opcodes vm)"

lemma ds_mono_refl [simp]: "ds_mono vm ds ds"
  by (simp add: ds_mono_def)

lemma ds_mono_trans [trans]: "ds_mono vm a b \<Longrightarrow> ds_mono vm b c \<Longrightarrow> ds_mono vm a c"
  by (auto simp: ds_mono_def)

lemma ds_mono_Dword: "GetNextDword vm ds = (w, ds') \<Longrightarrow> ds_mono vm ds ds'"
  using GetNextDword_state[of vm ds w ds'] by (auto simp: ds_mono_def)

lemma ds_mono_Qword: "GetNextQword vm ds = (w, ds') \<Longrightarrow> ds_mono vm ds ds'"
  by (auto simp: GetNextQword_def split: prod.splits dest!: ds_mono_Dword intro: ds_mono_trans)

lemma ds_mono_VmInt: "GetNextVmInt vm bw ds = (w, ds') \<Longrightarrow> ds_mono vm ds ds'"
  by (auto simp: GetNextVmInt_def Let_def split: prod.splits if_splits dest!: ds_mono_Dword
      intro: ds_mono_trans)

lemmas decode_defs =
  decode_StoreStatic_def decode_BeginConditional_def decode_ControlLoop_def
  decode_LoadRegisterStatic_def decode_LoadRegisterMemory_def decode_StoreStaticToAddress_def
  decode_PerformArithmeticStatic_def decode_PerformArithmeticRegister_def
  decode_StoreRegisterToAddress_def decode_BeginRegisterConditional_def decode_DebugLog_def

lemma ds_mono_parts:
  "decode_StoreStatic vm w ds = (i, ds') \<Longrightarrow> ds_mono vm ds ds'"
  "decode_BeginConditional vm w ds = (i, ds') \<Longrightarrow> ds_mono vm ds ds'"
  "decode_ControlLoop vm w ds = (i, ds') \<Longrightarrow> ds_mono vm ds ds'"
  "decode_LoadRegisterStatic vm w ds = (i, ds') \<Longrightarrow> ds_mono vm ds ds'"
  "decode_LoadRegisterMemory vm w ds = (i, ds') \<Longrightarrow> ds_mono vm ds ds'"
  "decode_StoreStaticToAddress vm w ds = (i, ds') \<Longrightarrow> ds_mono vm ds ds'"
  "decode_PerformArithmeticStatic vm w ds = (i, ds') \<Longrightarrow> ds_mono vm ds ds'"
  "decode_PerformArithmeticRegister vm w ds = (i, ds') \<Longrightarrow> ds_mono vm ds ds'"
  "decode_StoreRegisterToAddress vm w ds = (i, ds') \<Longrightarrow> ds_mono vm ds ds'"
  "decode_BeginRegisterConditional vm w ds = (i, ds') \<Longrightarrow> ds_mono vm ds ds'"
  "decode_DebugLog vm w ds = (i, ds') \<Longrightarrow> ds_mono vm ds ds'"
  by (auto simp: decode_defs Let_def split: prod.splits if_splits offset_type.splits
      compare_type.splits log_type.splits
      dest!: ds_mono_Dword ds_mono_Qword ds_mono_VmInt intro: ds_mono_trans)

lemma ds_mono_instr: "decode_instr vm w ds = (i, ds') \<Longrightarrow> ds_mono vm ds ds'"
  unfolding decode_instr_def Let_def
  by (auto split: if_splits dest: ds_mono_parts) (simp_all add: ds_mono_def)

lemma DecodeNextOpcode_progress:
  assumes "DecodeNextOpcode vm = (Some op, vm')"
  shows "instruction_ptr vm < instruction_ptr vm'" "instruction_ptr vm' \<le> num_opcodes vm"
    "decode_success vm" "vm' = vm\<lparr>instruction_ptr := instruction_ptr vm'\<rparr>"
proof -
  obtain w ds where 1: "GetNextDword vm (decode_success vm, instruction_ptr vm) = (w, ds)"
    by (cases "GetNextDword vm (decode_success vm, instruction_ptr vm)") auto
  obtain i v ip where 2: "decode_instr vm w ds = (i, v, ip)" by (cases "decode_instr vm w ds") auto
  have fst: "fst ds" "v" "vm' = vm\<lparr>instruction_ptr := ip, decode_success := decode_success vm \<and> v\<rparr>"
    using assms 1 2 by (auto simp: DecodeNextOpcode_def Let_def split: if_splits)
  note s = GetNextDword_state[OF 1] ds_mono_instr[OF 2]
  show "instruction_ptr vm < instruction_ptr vm'" "instruction_ptr vm' \<le> num_opcodes vm" "decode_success vm"
    using s fst by (auto simp: ds_mono_def)
  then show "vm' = vm\<lparr>instruction_ptr := instruction_ptr vm'\<rparr>"
    using fst by simp
qed

lemma decode_rank:
  assumes "DecodeNextOpcode vm = (Some op, vm')"
  shows "num_opcodes vm' - instruction_ptr vm' < num_opcodes vm - instruction_ptr vm"
proof -
  have "num_opcodes vm' = num_opcodes vm"
    by (subst DecodeNextOpcode_progress(4)[OF assms]) simp
  then show ?thesis using DecodeNextOpcode_progress(1,2)[OF assms] by simp
qed

section \<open>Control\<close>

function SkipConditionalBlock_loop :: "bool \<Rightarrow> nat \<Rightarrow> cheat_vm \<Rightarrow> cheat_vm" where
  "SkipConditionalBlock_loop is_if desired_depth vm =
     (if \<not> condition_depth vm > desired_depth then vm
      else case DecodeNextOpcode vm of
          (None, vm') \<Rightarrow> vm'
        | (Some skip_opcode, vm') \<Rightarrow>
            if begin_conditional_block skip_opcode then
              SkipConditionalBlock_loop is_if desired_depth
                (vm'\<lparr>condition_depth := condition_depth vm' + 1\<rparr>)
            else (case opcode skip_opcode of
                EndConditional is_else \<Rightarrow>
                  if \<not> is_else then
                    SkipConditionalBlock_loop is_if desired_depth
                      (vm'\<lparr>condition_depth := condition_depth vm' - 1\<rparr>)
                  else if is_if \<and> condition_depth vm' - 1 = desired_depth then vm'
                  else SkipConditionalBlock_loop is_if desired_depth vm'
              | _ \<Rightarrow> SkipConditionalBlock_loop is_if desired_depth vm'))"
  by pat_completeness auto
termination
  by (relation "measure (\<lambda>(b, d, vm). num_opcodes vm - instruction_ptr vm)")
    (simp_all add: decode_rank decode_rank[OF sym])

declare SkipConditionalBlock_loop.simps [simp del]

definition SkipConditionalBlock :: "bool \<Rightarrow> cheat_vm \<Rightarrow> cheat_vm res" where
  "SkipConditionalBlock is_if vm =
     (if condition_depth vm > 0
      then Ok (SkipConditionalBlock_loop is_if (condition_depth vm - 1) vm)
      else UB)"

section \<open>Memory\<close>

definition GetVmInt :: "u64 \<Rightarrow> nat \<Rightarrow> u64" where
  "GetVmInt val bit_width =
     (if bit_width = 1 then ucast (ucast val :: u8)
      else if bit_width = 2 then ucast (ucast val :: u16)
      else if bit_width = 4 then ucast (ucast val :: u32)
      else if bit_width = 8 then val
      else 0)"

definition GetCheatProcessAddress :: "cheat_metadata \<Rightarrow> memory_access \<Rightarrow> u64 \<Rightarrow> u64" where
  "GetCheatProcessAddress metadata mem_type rel_address =
     (case mem_type of
        Heap \<Rightarrow> ext_base (heap_extents metadata) + rel_address
      | Alias \<Rightarrow> ext_base (alias_extents metadata) + rel_address
      | Aslr \<Rightarrow> ext_base (aslr_extents metadata) + rel_address
      | _ \<Rightarrow> ext_base (main_nso_extents metadata) + rel_address)"

definition in_extents :: "memory_extents \<Rightarrow> u64 \<Rightarrow> bool" where
  "in_extents e a \<longleftrightarrow> \<not> (a < ext_base e \<or> a \<ge> ext_base e + ext_size e)"

definition IsAddressInRange :: "cheat_metadata \<Rightarrow> u64 \<Rightarrow> bool" where
  "IsAddressInRange metadata a \<longleftrightarrow>
     in_extents (main_nso_extents metadata) a \<or> in_extents (heap_extents metadata) a \<or>
     in_extents (alias_extents metadata) a \<or> in_extents (aslr_extents metadata) a"

fun load_bytes :: "(u64 \<Rightarrow> u8) \<Rightarrow> u64 \<Rightarrow> nat \<Rightarrow> u64" where
  "load_bytes mem a 0 = 0"
| "load_bytes mem a (Suc n) = ucast (mem a) OR push_bit 8 (load_bytes mem (a + 1) n)"

fun store_bytes :: "(u64 \<Rightarrow> u8) \<Rightarrow> u64 \<Rightarrow> nat \<Rightarrow> u64 \<Rightarrow> u64 \<Rightarrow> u8" where
  "store_bytes mem a 0 v = mem"
| "store_bytes mem a (Suc n) v = store_bytes (mem(a := ucast v)) (a + 1) n (drop_bit 8 v)"

text \<open>
  Reading into a 64-bit variable replaces only its low bytes. The block accesses of the emulated
  memory read unmapped bytes as zero and do not write them; a block that leaves the address space is
  unmapped as a whole.
\<close>

definition AddressSpaceContains :: "cheat_env \<Rightarrow> u64 \<Rightarrow> nat \<Rightarrow> bool" where
  "AddressSpaceContains env addr sz \<longleftrightarrow>
     addr + of_nat sz \<ge> addr \<and> addr + of_nat sz \<le> push_bit (env_space_bits env) 1"

definition MemoryReadUnsafe :: "cheat_metadata \<Rightarrow> cheat_env \<Rightarrow> u64 \<Rightarrow> u64 \<Rightarrow> nat \<Rightarrow> u64" where
  "MemoryReadUnsafe metadata env address old sz =
     (let v = (if \<not> IsAddressInRange metadata address \<or> \<not> env_valid env address then 0
               else if \<not> AddressSpaceContains env address sz then 0
               else load_bytes (\<lambda>a. if env_valid env a then env_mem env a else 0) address sz)
      in (old AND NOT (mask (8 * sz))) OR v)"

definition MemoryWriteUnsafe :: "cheat_metadata \<Rightarrow> u64 \<Rightarrow> u64 \<Rightarrow> nat \<Rightarrow> cheat_env \<Rightarrow> cheat_env" where
  "MemoryWriteUnsafe metadata address v sz env =
     (if \<not> IsAddressInRange metadata address \<or> \<not> env_valid env address then env
      else if \<not> AddressSpaceContains env address sz then env
      else env\<lparr>env_mem := (\<lambda>a. if env_valid env a then store_bytes (env_mem env) address sz v a
                             else env_mem env a)\<rparr>)"

definition valid_width :: "nat \<Rightarrow> bool" where
  "valid_width w \<longleftrightarrow> w = 1 \<or> w = 2 \<or> w = 4 \<or> w = 8"

definition write_width :: "cheat_metadata \<Rightarrow> u64 \<Rightarrow> u64 \<Rightarrow> nat \<Rightarrow> cheat_env \<Rightarrow> cheat_env" where
  "write_width metadata address v w env =
     (if valid_width w then MemoryWriteUnsafe metadata address v w env else env)"

definition read_width :: "cheat_metadata \<Rightarrow> cheat_env \<Rightarrow> u64 \<Rightarrow> u64 \<Rightarrow> nat \<Rightarrow> u64" where
  "read_width metadata env address old w =
     (if valid_width w then MemoryReadUnsafe metadata env address old w else old)"

section \<open>Execution\<close>

text \<open>The low bytes of a register; an invalid width leaves the zero the variable started with.\<close>

definition register_value :: "u64 \<Rightarrow> nat \<Rightarrow> u64" where
  "register_value r w =
     (if w = 1 then r AND 0xFF else if w = 2 then r AND 0xFFFF
      else if w = 4 then r AND 0xFFFFFFFF else if w = 8 then r else 0)"

definition apply_width :: "u64 \<Rightarrow> nat \<Rightarrow> u64" where
  "apply_width r w =
     (if w = 1 then ucast (ucast r :: u8) else if w = 2 then ucast (ucast r :: u16)
      else if w = 4 then ucast (ucast r :: u32) else r)"

definition compare_values :: "comparison \<Rightarrow> u64 \<Rightarrow> u64 \<Rightarrow> bool" where
  "compare_values c src_value cond_value =
     (case c of CmpGT \<Rightarrow> src_value > cond_value | CmpGE \<Rightarrow> src_value \<ge> cond_value
      | CmpLT \<Rightarrow> src_value < cond_value | CmpLE \<Rightarrow> src_value \<le> cond_value
      | CmpEQ \<Rightarrow> src_value = cond_value | CmpNE \<Rightarrow> src_value \<noteq> cond_value
      | Cmp_other \<Rightarrow> False)"

definition shift_left :: "u64 \<Rightarrow> u64 \<Rightarrow> u64 res" where
  "shift_left a b = (if unat b \<ge> 64 then UB else Ok (push_bit (unat b) a))"

definition shift_right :: "u64 \<Rightarrow> u64 \<Rightarrow> u64 res" where
  "shift_right a b = (if unat b \<ge> 64 then UB else Ok (drop_bit (unat b) a))"

definition arith_static :: "reg_arith \<Rightarrow> u64 \<Rightarrow> u64 \<Rightarrow> u64 res" where
  "arith_static t a b =
     (case t of Addition \<Rightarrow> Ok (a + b) | Subtraction \<Rightarrow> Ok (a - b) | Multiplication \<Rightarrow> Ok (a * b)
      | LeftShift \<Rightarrow> shift_left a b | RightShift \<Rightarrow> shift_right a b | _ \<Rightarrow> Ok a)"

definition arith_register :: "reg_arith \<Rightarrow> u64 \<Rightarrow> u64 \<Rightarrow> u64 res" where
  "arith_register t a b =
     (case t of Addition \<Rightarrow> Ok (a + b) | Subtraction \<Rightarrow> Ok (a - b) | Multiplication \<Rightarrow> Ok (a * b)
      | LeftShift \<Rightarrow> shift_left a b | RightShift \<Rightarrow> shift_right a b | LogicalAnd \<Rightarrow> Ok (a AND b)
      | LogicalOr \<Rightarrow> Ok (a OR b) | LogicalNot \<Rightarrow> Ok (NOT a) | LogicalXor \<Rightarrow> Ok (a XOR b)
      | ArithNone \<Rightarrow> Ok a | Arith_other \<Rightarrow> Ok 0)"

type_synonym vm_state = "cheat_vm \<times> cheat_env"

definition set_reg :: "nat \<Rightarrow> u64 \<Rightarrow> cheat_vm \<Rightarrow> cheat_vm" where
  "set_reg i v vm = vm\<lparr>registers := (registers vm)[i := v]\<rparr>"

definition branch_on :: "bool \<Rightarrow> cheat_vm \<Rightarrow> cheat_env \<Rightarrow> vm_state res" where
  "branch_on cond_met vm env =
     (if cond_met then Ok (vm, env)
      else bind_res (SkipConditionalBlock True vm) (\<lambda>vm'. Ok (vm', env)))"

definition exec_StoreStatic :: "cheat_metadata \<Rightarrow> store_static \<Rightarrow> cheat_vm \<Rightarrow> cheat_env \<Rightarrow> vm_state" where
  "exec_StoreStatic metadata o' vm env =
     (let dst_address = GetCheatProcessAddress metadata (ss_mem_type o')
            (ss_rel_address o' + registers vm ! ss_offset_register o');
          dst_value = GetVmInt (ss_value o') (ss_bit_width o')
      in (vm, write_width metadata dst_address dst_value (ss_bit_width o') env))"

definition exec_BeginConditional :: "cheat_metadata \<Rightarrow> begin_conditional \<Rightarrow> cheat_vm \<Rightarrow> cheat_env \<Rightarrow> vm_state res" where
  "exec_BeginConditional metadata o' vm env =
     (let src_address = GetCheatProcessAddress metadata (bc_mem_type o') (bc_rel_address o');
          src_value = read_width metadata env src_address 0 (bc_bit_width o');
          cond_value = GetVmInt (bc_value o') (bc_bit_width o')
      in branch_on (compare_values (bc_cond_type o') src_value cond_value) vm env)"

definition exec_EndConditional :: "bool \<Rightarrow> cheat_vm \<Rightarrow> cheat_env \<Rightarrow> vm_state res" where
  "exec_EndConditional is_else vm env =
     (if is_else then bind_res (SkipConditionalBlock False vm) (\<lambda>vm'. Ok (vm', env))
      else if condition_depth vm > 0 then Ok (vm\<lparr>condition_depth := condition_depth vm - 1\<rparr>, env)
      else Ok (vm, env))"

definition exec_ControlLoop :: "bool \<Rightarrow> nat \<Rightarrow> u32 \<Rightarrow> cheat_vm \<Rightarrow> cheat_vm" where
  "exec_ControlLoop start_loop reg_index num_iters vm =
     (if start_loop then
        (set_reg reg_index (ucast num_iters) vm)
          \<lparr>loop_tops := (loop_tops vm)[reg_index := instruction_ptr vm]\<rparr>
      else
        let vm1 = set_reg reg_index (registers vm ! reg_index - 1) vm
        in if registers vm1 ! reg_index \<noteq> 0
           then vm1\<lparr>instruction_ptr := loop_tops vm1 ! reg_index\<rparr>
           else vm1)"

definition exec_LoadRegisterMemory :: "cheat_metadata \<Rightarrow> load_register_memory \<Rightarrow> cheat_vm \<Rightarrow> cheat_env \<Rightarrow> cheat_vm" where
  "exec_LoadRegisterMemory metadata o' vm env =
     (let src_address = (if lrm_load_from_reg o'
            then registers vm ! lrm_reg_index o' + lrm_rel_address o'
            else GetCheatProcessAddress metadata (lrm_mem_type o') (lrm_rel_address o'))
      in set_reg (lrm_reg_index o')
           (read_width metadata env src_address (registers vm ! lrm_reg_index o') (lrm_bit_width o')) vm)"

definition exec_StoreStaticToAddress ::
  "cheat_metadata \<Rightarrow> store_static_to_address \<Rightarrow> cheat_vm \<Rightarrow> cheat_env \<Rightarrow> vm_state" where
  "exec_StoreStaticToAddress metadata o' vm env =
     (let dst_address = registers vm ! ssa_reg_index o' +
            (if ssa_add_offset_reg o' then registers vm ! ssa_offset_reg_index o' else 0);
          env' = write_width metadata dst_address (ssa_value o') (ssa_bit_width o') env
      in (if ssa_increment_reg o'
          then set_reg (ssa_reg_index o')
                 (registers vm ! ssa_reg_index o' + of_nat (ssa_bit_width o')) vm
          else vm, env'))"

definition exec_PerformArithmeticStatic :: "arithmetic_static \<Rightarrow> cheat_vm \<Rightarrow> cheat_vm res" where
  "exec_PerformArithmeticStatic o' vm =
     bind_res (arith_static (pas_math_type o') (registers vm ! pas_reg_index o') (ucast (pas_value o')))
       (\<lambda>v. Ok (set_reg (pas_reg_index o') (apply_width v (pas_bit_width o')) vm))"

definition exec_PerformArithmeticRegister :: "arithmetic_register \<Rightarrow> cheat_vm \<Rightarrow> cheat_vm res" where
  "exec_PerformArithmeticRegister o' vm =
     (let operand_1 = registers vm ! par_src_reg_1_index o';
          operand_2 = (if par_has_immediate o' then GetVmInt (par_value o') (par_bit_width o')
                       else registers vm ! par_src_reg_2_index o')
      in bind_res (arith_register (par_math_type o') operand_1 operand_2)
           (\<lambda>v. Ok (set_reg (par_dst_reg_index o') (apply_width v (par_bit_width o')) vm)))"

definition exec_StoreRegisterToAddress ::
  "cheat_metadata \<Rightarrow> store_register \<Rightarrow> cheat_vm \<Rightarrow> cheat_env \<Rightarrow> vm_state" where
  "exec_StoreRegisterToAddress metadata o' vm env =
     (let dst_value = registers vm ! sr_str_reg_index o';
          addr_reg = registers vm ! sr_addr_reg_index o';
          dst_address =
            (case sr_ofs_type o' of
               OfsNone \<Rightarrow> addr_reg
             | OfsReg \<Rightarrow> addr_reg + registers vm ! sr_ofs_reg_index o'
             | OfsImm \<Rightarrow> addr_reg + sr_rel_address o'
             | OfsMemReg \<Rightarrow> GetCheatProcessAddress metadata (sr_mem_type o') addr_reg
             | OfsMemImm \<Rightarrow> GetCheatProcessAddress metadata (sr_mem_type o') (sr_rel_address o')
             | OfsMemImmReg \<Rightarrow>
                 GetCheatProcessAddress metadata (sr_mem_type o') (addr_reg + sr_rel_address o'));
          env' = write_width metadata dst_address dst_value (sr_bit_width o') env
      in (if sr_increment_reg o'
          then set_reg (sr_addr_reg_index o') (addr_reg + of_nat (sr_bit_width o')) vm
          else vm, env'))"

definition exec_BeginRegisterConditional ::
  "cheat_metadata \<Rightarrow> register_conditional \<Rightarrow> cheat_vm \<Rightarrow> cheat_env \<Rightarrow> vm_state res" where
  "exec_BeginRegisterConditional metadata o' vm env =
     (let src_value = register_value (registers vm ! brc_val_reg_index o') (brc_bit_width o');
          from_memory = (\<lambda>a. read_width metadata env a 0 (brc_bit_width o'));
          cond_value =
            (case brc_comp_type o' of
               CmpStaticValue \<Rightarrow> GetVmInt (brc_value o') (brc_bit_width o')
             | CmpOtherRegister \<Rightarrow>
                 register_value (registers vm ! brc_other_reg_index o') (brc_bit_width o')
             | CmpMemoryRelAddr \<Rightarrow>
                 from_memory (GetCheatProcessAddress metadata (brc_mem_type o') (brc_rel_address o'))
             | CmpMemoryOfsReg \<Rightarrow>
                 from_memory (GetCheatProcessAddress metadata (brc_mem_type o')
                   (registers vm ! brc_ofs_reg_index o'))
             | CmpRegisterRelAddr \<Rightarrow>
                 from_memory (registers vm ! brc_addr_reg_index o' + brc_rel_address o')
             | CmpRegisterOfsReg \<Rightarrow>
                 from_memory (registers vm ! brc_addr_reg_index o' + registers vm ! brc_ofs_reg_index o')
             | CmpType_other \<Rightarrow> from_memory 0)
      in branch_on (compare_values (brc_cond_type o') src_value cond_value) vm env)"

definition exec_SaveRestoreRegister :: "nat \<Rightarrow> nat \<Rightarrow> save_restore \<Rightarrow> cheat_vm \<Rightarrow> cheat_vm" where
  "exec_SaveRestoreRegister dst_index src_index op_type vm =
     (case op_type of
        SrClearRegs \<Rightarrow> set_reg dst_index 0 vm
      | SrClearSaved \<Rightarrow> vm\<lparr>saved_values := (saved_values vm)[dst_index := 0]\<rparr>
      | SrSave \<Rightarrow> vm\<lparr>saved_values := (saved_values vm)[dst_index := registers vm ! src_index]\<rparr>
      | _ \<Rightarrow> set_reg dst_index (saved_values vm ! src_index) vm)"

definition masked_copy :: "bool list \<Rightarrow> bool \<Rightarrow> u64 list \<Rightarrow> u64 list \<Rightarrow> u64 list" where
  "masked_copy should_operate clear src dst =
     fold (\<lambda>i d. if should_operate ! i then d[i := (if clear then 0 else src ! i)] else d)
       [0..<NumRegisters] dst"

definition exec_SaveRestoreRegisterMask :: "save_restore \<Rightarrow> bool list \<Rightarrow> cheat_vm \<Rightarrow> cheat_vm" where
  "exec_SaveRestoreRegisterMask op_type should_operate vm =
     (case op_type of
        SrClearSaved \<Rightarrow>
          vm\<lparr>saved_values := masked_copy should_operate True (registers vm) (saved_values vm)\<rparr>
      | SrSave \<Rightarrow>
          vm\<lparr>saved_values := masked_copy should_operate False (registers vm) (saved_values vm)\<rparr>
      | SrClearRegs \<Rightarrow>
          vm\<lparr>registers := masked_copy should_operate True (saved_values vm) (registers vm)\<rparr>
      | _ \<Rightarrow> vm\<lparr>registers := masked_copy should_operate False (saved_values vm) (registers vm)\<rparr>)"

definition exec_ReadWriteStaticRegister :: "nat \<Rightarrow> nat \<Rightarrow> cheat_vm \<Rightarrow> cheat_vm" where
  "exec_ReadWriteStaticRegister static_idx idx vm =
     (if static_idx < NumReadableStaticRegisters
      then set_reg idx (static_registers vm ! static_idx) vm
      else vm\<lparr>static_registers := (static_registers vm)[static_idx := registers vm ! idx]\<rparr>)"

definition add_event :: "cheat_event \<Rightarrow> cheat_env \<Rightarrow> cheat_env" where
  "add_event e env = env\<lparr>env_events := env_events env @ [e]\<rparr>"

definition exec_DebugLog :: "cheat_metadata \<Rightarrow> debug_log \<Rightarrow> cheat_vm \<Rightarrow> cheat_env \<Rightarrow> cheat_env" where
  "exec_DebugLog metadata o' vm env =
     (let from_memory = (\<lambda>a. read_width metadata env a 0 (dl_bit_width o'));
          log_value =
            (case dl_val_type o' of
               LogRegisterValue \<Rightarrow>
                 register_value (registers vm ! dl_val_reg_index o') (dl_bit_width o')
             | LogMemoryRelAddr \<Rightarrow>
                 from_memory (GetCheatProcessAddress metadata (dl_mem_type o') (dl_rel_address o'))
             | LogMemoryOfsReg \<Rightarrow>
                 from_memory (GetCheatProcessAddress metadata (dl_mem_type o')
                   (registers vm ! dl_ofs_reg_index o'))
             | LogRegisterRelAddr \<Rightarrow>
                 from_memory (registers vm ! dl_addr_reg_index o' + dl_rel_address o')
             | LogRegisterOfsReg \<Rightarrow>
                 from_memory (registers vm ! dl_addr_reg_index o' + registers vm ! dl_ofs_reg_index o')
             | Log_other \<Rightarrow> from_memory 0)
      in add_event (EvDebugLog (ucast (dl_log_id o')) log_value) env)"

definition exec_instr :: "cheat_metadata \<Rightarrow> u64 \<Rightarrow> cheat_instr \<Rightarrow> cheat_vm \<Rightarrow> cheat_env \<Rightarrow> vm_state res" where
  "exec_instr metadata kDown instr vm env =
     (case instr of
        StoreStatic o' \<Rightarrow> Ok (exec_StoreStatic metadata o' vm env)
      | BeginConditional o' \<Rightarrow> exec_BeginConditional metadata o' vm env
      | EndConditional is_else \<Rightarrow> exec_EndConditional is_else vm env
      | ControlLoop start_loop reg_index num_iters \<Rightarrow>
          Ok (exec_ControlLoop start_loop reg_index num_iters vm, env)
      | LoadRegisterStatic reg_index v \<Rightarrow> Ok (set_reg reg_index v vm, env)
      | LoadRegisterMemory o' \<Rightarrow> Ok (exec_LoadRegisterMemory metadata o' vm env, env)
      | StoreStaticToAddress o' \<Rightarrow> Ok (exec_StoreStaticToAddress metadata o' vm env)
      | PerformArithmeticStatic o' \<Rightarrow>
          bind_res (exec_PerformArithmeticStatic o' vm) (\<lambda>vm'. Ok (vm', env))
      | BeginKeypressConditional key_mask \<Rightarrow>
          branch_on (ucast key_mask AND kDown = ucast key_mask) vm env
      | PerformArithmeticRegister o' \<Rightarrow>
          bind_res (exec_PerformArithmeticRegister o' vm) (\<lambda>vm'. Ok (vm', env))
      | StoreRegisterToAddress o' \<Rightarrow> Ok (exec_StoreRegisterToAddress metadata o' vm env)
      | BeginRegisterConditional o' \<Rightarrow> exec_BeginRegisterConditional metadata o' vm env
      | SaveRestoreRegister dst src t \<Rightarrow> Ok (exec_SaveRestoreRegister dst src t vm, env)
      | SaveRestoreRegisterMask t should_operate \<Rightarrow>
          Ok (exec_SaveRestoreRegisterMask t should_operate vm, env)
      | ReadWriteStaticRegister static_idx idx \<Rightarrow>
          Ok (exec_ReadWriteStaticRegister static_idx idx vm, env)
      | PauseProcess \<Rightarrow> Ok (vm, add_event EvPause env)
      | ResumeProcess \<Rightarrow> Ok (vm, add_event EvResume env)
      | DebugLog o' \<Rightarrow> Ok (vm, exec_DebugLog metadata o' vm env)
      | UnrecognizedInstruction t \<Rightarrow> Ok (vm, env))"

definition exec_opcode :: "cheat_metadata \<Rightarrow> u64 \<Rightarrow> cheat_opcode \<Rightarrow> cheat_vm \<Rightarrow> cheat_env \<Rightarrow> vm_state res" where
  "exec_opcode metadata kDown cur_opcode vm env =
     (let vm1 = (if begin_conditional_block cur_opcode
                 then vm\<lparr>condition_depth := condition_depth vm + 1\<rparr> else vm)
      in exec_instr metadata kDown (opcode cur_opcode) vm1 env)"

partial_function (option) Execute_loop ::
  "cheat_metadata \<Rightarrow> u64 \<Rightarrow> cheat_vm \<Rightarrow> cheat_env \<Rightarrow> vm_state res option" where
  [code]: "Execute_loop metadata kDown vm env =
     (case DecodeNextOpcode vm of
        (None, vm') \<Rightarrow> Some (Ok (vm', env))
      | (Some cur_opcode, vm') \<Rightarrow>
          (case exec_opcode metadata kDown cur_opcode vm' env of
             Ok (vm'', env') \<Rightarrow> Execute_loop metadata kDown vm'' env'
           | Err e \<Rightarrow> Some (Err e)
           | UB \<Rightarrow> Some UB))"

definition ResetState :: "cheat_vm \<Rightarrow> cheat_vm" where
  "ResetState vm =
     vm\<lparr>registers := replicate NumRegisters 0, saved_values := replicate NumRegisters 0,
        loop_tops := replicate NumRegisters 0, instruction_ptr := 0, condition_depth := 0,
        decode_success := True\<rparr>"

definition Execute :: "cheat_metadata \<Rightarrow> cheat_vm \<Rightarrow> cheat_env \<Rightarrow> vm_state res option" where
  "Execute metadata vm env = Execute_loop metadata (env_keys env) (ResetState vm) env"

section \<open>Loading\<close>

record cheat_definition =
  cd_readable_name :: string
  cd_num_opcodes :: nat
  cd_opcodes :: "u32 list"

record cheat_entry =
  ce_enabled :: bool
  ce_cheat_id :: nat
  ce_definition :: cheat_definition

definition load_entry :: "cheat_definition \<Rightarrow> cheat_vm \<Rightarrow> cheat_vm res" where
  "load_entry d vm =
     (if cd_num_opcodes d > length (cd_opcodes d) then UB
      else Ok (fold (\<lambda>n vm. vm\<lparr>vm_program := (vm_program vm)[num_opcodes vm := cd_opcodes d ! n],
                             num_opcodes := num_opcodes vm + 1\<rparr>) [0..<cd_num_opcodes d] vm))"

fun LoadProgram_loop :: "cheat_entry list \<Rightarrow> cheat_vm \<Rightarrow> (bool \<times> cheat_vm) res" where
  "LoadProgram_loop [] vm = Ok (True, vm)"
| "LoadProgram_loop (e # es) vm =
     (if ce_enabled e then
        if cd_num_opcodes (ce_definition e) + num_opcodes vm > MaximumProgramOpcodeCount
        then Ok (False, vm\<lparr>num_opcodes := 0\<rparr>)
        else bind_res (load_entry (ce_definition e) vm) (LoadProgram_loop es)
      else LoadProgram_loop es vm)"

definition LoadProgram :: "cheat_entry list \<Rightarrow> cheat_vm \<Rightarrow> (bool \<times> cheat_vm) res" where
  "LoadProgram entries vm = LoadProgram_loop entries (vm\<lparr>num_opcodes := 0\<rparr>)"

end
