(* ===== verification/Cheat_Execution.thy ===== *)
theory Cheat_Execution
  imports Cheat_VM
begin

text \<open>
  What running a cheat program guarantees: the machine stays well formed and memory is written only
  near addresses it may touch, the steps that are undefined, skipping of conditional blocks on
  bracketed code, termination of programs that close no loop (and a program that never stops), the
  memory callbacks, register arithmetic, and loading. The loop of \<open>Execute\<close> is treated once, in the
  locale \<open>run_relation\<close>; \<open>stream_of\<close> is the list of opcodes a straight run of the decoder sees.
\<close>

section \<open>Well-formed machines\<close>

text \<open>The arrays have their declared lengths and the program fits; a running machine moreover keeps
  its instruction pointer and its loop tops inside the program.\<close>

definition vm_arrays :: "cheat_vm \<Rightarrow> bool" where
  "vm_arrays vm \<longleftrightarrow>
     length (vm_program vm) = MaximumProgramOpcodeCount \<and> length (registers vm) = NumRegisters \<and>
     length (saved_values vm) = NumRegisters \<and> length (static_registers vm) = NumStaticRegisters \<and>
     length (loop_tops vm) = NumRegisters \<and> num_opcodes vm \<le> MaximumProgramOpcodeCount"

definition vm_wf :: "cheat_vm \<Rightarrow> bool" where
  "vm_wf vm \<longleftrightarrow> vm_arrays vm \<and>
     instruction_ptr vm \<le> num_opcodes vm \<and> (\<forall>t \<in> set (loop_tops vm). t \<le> num_opcodes vm)"

lemmas vm_wf_defs = vm_wf_def vm_arrays_def

text \<open>Every index of a decoded instruction is inside its array.\<close>

fun instr_wf :: "cheat_instr \<Rightarrow> bool" where
  "instr_wf (StoreStatic o') \<longleftrightarrow> ss_offset_register o' < NumRegisters"
| "instr_wf (ControlLoop st r n) \<longleftrightarrow> r < NumRegisters"
| "instr_wf (LoadRegisterStatic r v) \<longleftrightarrow> r < NumRegisters"
| "instr_wf (LoadRegisterMemory o') \<longleftrightarrow> lrm_reg_index o' < NumRegisters"
| "instr_wf (StoreStaticToAddress o') \<longleftrightarrow>
     ssa_reg_index o' < NumRegisters \<and> ssa_offset_reg_index o' < NumRegisters"
| "instr_wf (PerformArithmeticStatic o') \<longleftrightarrow> pas_reg_index o' < NumRegisters"
| "instr_wf (PerformArithmeticRegister o') \<longleftrightarrow>
     par_dst_reg_index o' < NumRegisters \<and> par_src_reg_1_index o' < NumRegisters \<and>
     par_src_reg_2_index o' < NumRegisters"
| "instr_wf (StoreRegisterToAddress o') \<longleftrightarrow>
     sr_str_reg_index o' < NumRegisters \<and> sr_addr_reg_index o' < NumRegisters \<and>
     sr_ofs_reg_index o' < NumRegisters"
| "instr_wf (BeginRegisterConditional o') \<longleftrightarrow>
     brc_val_reg_index o' < NumRegisters \<and> brc_addr_reg_index o' < NumRegisters \<and>
     brc_other_reg_index o' < NumRegisters \<and> brc_ofs_reg_index o' < NumRegisters"
| "instr_wf (SaveRestoreRegister d s t) \<longleftrightarrow> d < NumRegisters \<and> s < NumRegisters"
| "instr_wf (SaveRestoreRegisterMask t bs) \<longleftrightarrow> length bs = NumRegisters"
| "instr_wf (ReadWriteStaticRegister si i) \<longleftrightarrow> si < NumStaticRegisters \<and> i < NumRegisters"
| "instr_wf (DebugLog o') \<longleftrightarrow>
     dl_addr_reg_index o' < NumRegisters \<and> dl_val_reg_index o' < NumRegisters \<and>
     dl_ofs_reg_index o' < NumRegisters"
| "instr_wf _ \<longleftrightarrow> True"

lemma and_mask_less: "unat (w AND 0xF :: u32) < 16" "unat (w AND 0xFF :: u32) < 256"
  using word_and_le1[of w "0xF"] word_and_le1[of w "0xFF"] by (simp_all add: word_le_nat_alt)

lemma reg_of_less [simp]: "reg_of w k < NumRegisters"
  by (simp add: reg_of_def nib_def and_mask_less NumRegisters_def)

lemma zero_less_NumRegisters [simp]: "0 < NumRegisters"
  by (simp add: NumRegisters_def)

lemma decode_parts_wf:
  "instr_wf (fst (decode_StoreStatic vm w ds))" "instr_wf (fst (decode_BeginConditional vm w ds))"
  "instr_wf (fst (decode_ControlLoop vm w ds))" "instr_wf (fst (decode_LoadRegisterStatic vm w ds))"
  "instr_wf (fst (decode_LoadRegisterMemory vm w ds))" "instr_wf (fst (decode_StoreStaticToAddress vm w ds))"
  "instr_wf (fst (decode_PerformArithmeticStatic vm w ds))" "instr_wf (fst (decode_PerformArithmeticRegister vm w ds))"
  "instr_wf (fst (decode_StoreRegisterToAddress vm w ds))" "instr_wf (fst (decode_BeginRegisterConditional vm w ds))"
  "instr_wf (fst (decode_DebugLog vm w ds))"
  by (auto simp: decode_defs Let_def split: prod.splits offset_type.splits compare_type.splits log_type.splits)

lemma decode_instr_wf: "instr_wf (fst (decode_instr vm w ds))"
  unfolding decode_instr_def Let_def
  by (auto simp: decode_parts_wf NumStaticRegisters_def NumReadableStaticRegisters_def
      NumWritableStaticRegisters_def and_mask_less NumRegisters_def reg_of_def nib_def)

lemma Decode_wf: "DecodeNextOpcode vm = (Some op, vm') \<Longrightarrow> instr_wf (opcode op)"
  using decode_instr_wf[of vm] by (auto simp: DecodeNextOpcode_def Let_def split: prod.splits if_splits) (metis fst_conv)

lemma Decode_vm_wf: "vm_wf vm \<Longrightarrow> vm_wf (snd (DecodeNextOpcode vm)) \<and>
   num_opcodes (snd (DecodeNextOpcode vm)) = num_opcodes vm \<and> vm_program (snd (DecodeNextOpcode vm)) = vm_program vm"
proof -
  assume wf: "vm_wf vm"
  obtain w ds where 1: "GetNextDword vm (decode_success vm, instruction_ptr vm) = (w, ds)"
    by (cases "GetNextDword vm (decode_success vm, instruction_ptr vm)") auto
  obtain i v ip where 2: "decode_instr vm w ds = (i, v, ip)" by (cases "decode_instr vm w ds") auto
  have "snd ds \<le> num_opcodes vm" "ip \<le> num_opcodes vm"
    using GetNextDword_state[OF 1] ds_mono_instr[OF 2] wf by (auto simp: ds_mono_def vm_wf_defs)
  then show ?thesis using wf 1 2 by (auto simp: DecodeNextOpcode_def Let_def vm_wf_defs)
qed

lemma vm_wf_depth [simp]: "vm_wf (vm\<lparr>condition_depth := d\<rparr>) = vm_wf vm"
  by (simp add: vm_wf_defs)

lemma vm_wf_set_reg [simp]: "vm_wf (set_reg i v vm) = vm_wf vm"
  by (simp add: vm_wf_defs set_reg_def)

text \<open>Skipping only decodes and counts: what both keep, it keeps.\<close>

lemma Skip_loop_keeps:
  assumes dec: "\<And>vm. P vm \<Longrightarrow> P (snd (DecodeNextOpcode vm))"
    and dep: "\<And>vm n. P vm \<Longrightarrow> P (vm\<lparr>condition_depth := n\<rparr>)"
  shows "P vm \<Longrightarrow> P (SkipConditionalBlock_loop b d vm)"
proof (induction "num_opcodes vm - instruction_ptr vm" arbitrary: vm rule: less_induct)
  case less
  obtain r vm' where D: "DecodeNextOpcode vm = (r, vm')" by (cases "DecodeNextOpcode vm") auto
  have P': "P vm'" using dec[OF less.prems] D by simp
  show ?case
  proof (cases r)
    case None
    then show ?thesis using less.prems P' D by (subst SkipConditionalBlock_loop.simps) simp
  next
    case (Some op)
    have IH: "P (SkipConditionalBlock_loop b d (vm'\<lparr>condition_depth := n\<rparr>))" for n
      using less.hyps[OF _ dep[OF P']] decode_rank[OF D[unfolded Some]] by simp
    have IH0: "P (SkipConditionalBlock_loop b d vm')"
      using less.hyps[OF _ P'] decode_rank[OF D[unfolded Some]] by simp
    show ?thesis
      using less.prems P' D Some IH IH0
      by (subst SkipConditionalBlock_loop.simps) (cases b; simp split: cheat_instr.split)
  qed
qed

lemma Skip_loop_wf:
  assumes "vm_wf vm"
  shows "vm_wf (SkipConditionalBlock_loop b d vm)"
    "num_opcodes (SkipConditionalBlock_loop b d vm) = num_opcodes vm"
    "vm_program (SkipConditionalBlock_loop b d vm) = vm_program vm"
proof -
  have "(\<lambda>x. vm_wf x \<and> num_opcodes x = num_opcodes vm \<and> vm_program x = vm_program vm)
    (SkipConditionalBlock_loop b d vm)"
    by (rule Skip_loop_keeps) (use Decode_vm_wf assms in auto)
  then show "vm_wf (SkipConditionalBlock_loop b d vm)"
    "num_opcodes (SkipConditionalBlock_loop b d vm) = num_opcodes vm"
    "vm_program (SkipConditionalBlock_loop b d vm) = vm_program vm" by auto
qed

text \<open>What an instruction may do to the memory: change bytes close to an address it may access.\<close>

definition footprint :: "cheat_metadata \<Rightarrow> cheat_env \<Rightarrow> cheat_env \<Rightarrow> bool" where
  "footprint metadata env env' \<longleftrightarrow> env_valid env' = env_valid env \<and> env_keys env' = env_keys env \<and>
     (\<forall>a. env_mem env' a \<noteq> env_mem env a \<longrightarrow> env_valid env a \<and>
        (\<exists>b. IsAddressInRange metadata b \<and> env_valid env b \<and> unat (a - b) < 8))"

lemma footprint_refl [simp]: "footprint m e e"
  by (simp add: footprint_def)

lemma footprint_trans: "footprint m e1 e2 \<Longrightarrow> footprint m e2 e3 \<Longrightarrow> footprint m e1 e3"
  unfolding footprint_def by metis

lemma store_bytes_other: "n \<le> 8 \<Longrightarrow> store_bytes mem a n v x \<noteq> mem x \<Longrightarrow> unat (x - a) < n"
proof (induction n arbitrary: mem a v)
  case (Suc n)
  show ?case
  proof (cases "x = a")
    case False
    then have "x - a \<noteq> 0" by simp
    then have d: "unat (x - (a + 1)) = unat (x - a) - 1" "0 < unat (x - a)"
      using unat_minus_one[of "x - a"] by (simp_all add: algebra_simps unat_gt_0)
    have "store_bytes (mem(a := ucast v)) (a + 1) n (drop_bit 8 v) x \<noteq> (mem(a := ucast v)) x"
      using Suc.prems False by simp
    moreover have "n \<le> 8" using Suc.prems(1) by simp
    ultimately have "unat (x - (a + 1)) < n" by (rule Suc.IH[rotated])
    then show ?thesis using d by simp
  qed simp
qed simp

lemma footprint_write: "footprint m env (write_width m a v w env)"
proof (cases "valid_width w \<and> IsAddressInRange m a \<and> env_valid env a \<and> AddressSpaceContains env a w")
  case True
  then have "w \<le> 8" by (auto simp: valid_width_def)
  then have "store_bytes (env_mem env) a w v x \<noteq> env_mem env x \<Longrightarrow> unat (x - a) < 8" for x
    using store_bytes_other[of w "env_mem env" a v x] by simp
  then show ?thesis using True by (auto simp: footprint_def write_width_def MemoryWriteUnsafe_def)
next
  case False
  then show ?thesis by (auto simp: write_width_def MemoryWriteUnsafe_def)
qed


lemma footprint_event [simp]: "footprint m env (add_event e env)"
  by (simp add: footprint_def add_event_def)

text \<open>One opcode keeps the machine well formed and its program, and stays inside the footprint.\<close>

definition vm_step_ok :: "cheat_metadata \<Rightarrow> vm_state \<Rightarrow> vm_state \<Rightarrow> bool" where
  "vm_step_ok m s s' \<longleftrightarrow> vm_wf (fst s') \<and> num_opcodes (fst s') = num_opcodes (fst s) \<and>
     vm_program (fst s') = vm_program (fst s) \<and> footprint m (snd s) (snd s')"

lemma vm_step_ok_trans: "vm_step_ok m a b \<Longrightarrow> vm_step_ok m b c \<Longrightarrow> vm_step_ok m a c"
  by (auto simp: vm_step_ok_def intro: footprint_trans)

lemma num_opcodes_set_reg [simp]: "num_opcodes (set_reg i v vm) = num_opcodes vm"
  "vm_program (set_reg i v vm) = vm_program vm" "loop_tops (set_reg i v vm) = loop_tops vm"
  "instruction_ptr (set_reg i v vm) = instruction_ptr vm"
  "condition_depth (set_reg i v vm) = condition_depth vm"
  "decode_success (set_reg i v vm) = decode_success vm"
  by (simp_all add: set_reg_def)

lemma step_ok_refl:
  "vm_wf vm \<Longrightarrow> vm_step_ok m (vm, env) (vm, env)"
  "vm_wf vm \<Longrightarrow> vm_step_ok m (vm, env) (vm\<lparr>condition_depth := n\<rparr>, env)"
  "vm_wf vm \<Longrightarrow> vm_step_ok m (vm, env) (set_reg i v vm, env)"
  "vm_wf vm \<Longrightarrow> vm_step_ok m (vm, env) (vm, add_event e env)"
  by (simp_all add: vm_step_ok_def)

lemma step_ok_skip:
  "vm_wf vm \<Longrightarrow> bind_res (SkipConditionalBlock b vm) (\<lambda>vm'. Ok (vm', env)) = Ok s \<Longrightarrow>
     vm_step_ok m (vm, env) s"
  by (auto simp: SkipConditionalBlock_def vm_step_ok_def Skip_loop_wf split: if_splits)

lemma step_ok_branch: "vm_wf vm \<Longrightarrow> branch_on c vm env = Ok s \<Longrightarrow> vm_step_ok m (vm, env) s"
  by (cases c) (auto simp: branch_on_def step_ok_refl intro: step_ok_skip)

lemma masked_copy_length [simp]: "length (masked_copy bs c src dst) = length dst"
proof -
  have "length (fold (\<lambda>i d. if bs ! i then d[i := (if c then 0 else src ! i)] else d) xs dst) = length dst" for xs
    by (induction xs arbitrary: dst) auto
  then show ?thesis by (simp add: masked_copy_def)
qed

lemma step_ok_loop:
  "vm_wf vm \<Longrightarrow> i < NumRegisters \<Longrightarrow> vm_step_ok m (vm, env) (exec_ControlLoop st i n vm, env)"
  by (auto simp: exec_ControlLoop_def Let_def vm_step_ok_def vm_wf_defs set_reg_def
      dest: set_update_subset_insert[THEN subsetD])

lemma step_ok_end: "vm_wf vm \<Longrightarrow> exec_EndConditional e vm env = Ok s \<Longrightarrow> vm_step_ok m (vm, env) s"
  by (cases e) (auto simp: exec_EndConditional_def step_ok_refl split: if_splits intro: step_ok_skip)

lemma step_ok_saved:
  "vm_wf vm \<Longrightarrow> vm_step_ok m (vm, env) (exec_SaveRestoreRegister d s t vm, env)"
  "vm_wf vm \<Longrightarrow> vm_step_ok m (vm, env) (exec_SaveRestoreRegisterMask t bs vm, env)"
  "vm_wf vm \<Longrightarrow> vm_step_ok m (vm, env) (exec_ReadWriteStaticRegister d s vm, env)"
  by (auto simp: exec_SaveRestoreRegister_def exec_SaveRestoreRegisterMask_def
      exec_ReadWriteStaticRegister_def vm_step_ok_def vm_wf_defs set_reg_def split: save_restore.split)

lemma step_ok_stores:
  "vm_wf vm \<Longrightarrow> vm_step_ok m (vm, env) (exec_StoreStatic m o1 vm env)"
  "vm_wf vm \<Longrightarrow> vm_step_ok m (vm, env) (exec_StoreStaticToAddress m o2 vm env)"
  "vm_wf vm \<Longrightarrow> vm_step_ok m (vm, env) (exec_StoreRegisterToAddress m o3 vm env)"
  "vm_wf vm \<Longrightarrow> vm_step_ok m (vm, env) (exec_LoadRegisterMemory m o4 vm env, env)"
  "vm_wf vm \<Longrightarrow> vm_step_ok m (vm, env) (vm, exec_DebugLog m o5 vm env)"
  by (simp_all add: exec_StoreStatic_def exec_StoreStaticToAddress_def exec_StoreRegisterToAddress_def
      exec_LoadRegisterMemory_def exec_DebugLog_def Let_def vm_step_ok_def footprint_write)

lemma step_ok_arith:
  "vm_wf vm \<Longrightarrow> exec_PerformArithmeticStatic o1 vm = Ok vm' \<Longrightarrow> vm_step_ok m (vm, env) (vm', env)"
  "vm_wf vm \<Longrightarrow> exec_PerformArithmeticRegister o2 vm = Ok vm' \<Longrightarrow> vm_step_ok m (vm, env) (vm', env)"
  by (auto simp: exec_PerformArithmeticStatic_def exec_PerformArithmeticRegister_def Let_def
      bind_res_Ok_iff vm_step_ok_def)

lemma step_ok_instr:
  "vm_wf vm \<Longrightarrow> instr_wf i \<Longrightarrow> exec_instr m k i vm env = Ok s \<Longrightarrow> vm_step_ok m (vm, env) s"
  by (cases i) (auto simp: exec_instr_def exec_BeginConditional_def exec_BeginRegisterConditional_def
      Let_def bind_res_Ok_iff step_ok_loop step_ok_saved step_ok_stores step_ok_arith step_ok_refl
      intro: step_ok_branch step_ok_end)

lemma Decode_ok: "vm_wf vm \<Longrightarrow> DecodeNextOpcode vm = (r, vm') \<Longrightarrow> vm_step_ok m (vm, env) (vm', env)"
  using Decode_vm_wf[of vm] by (simp add: vm_step_ok_def)

lemma exec_opcode_ok:
  assumes "vm_wf vm" "instr_wf (opcode op)" "exec_opcode m k op vm env = Ok s"
  shows "vm_step_ok m (vm, env) s"
proof -
  define v1 where "v1 = (if begin_conditional_block op
    then vm\<lparr>condition_depth := condition_depth vm + 1\<rparr> else vm)"
  have 1: "vm_step_ok m (vm, env) (v1, env)" "vm_wf v1"
    using assms(1) by (simp_all add: v1_def step_ok_refl)
  have "exec_instr m k (opcode op) v1 env = Ok s"
    using assms(3) by (simp only: exec_opcode_def v1_def Let_def)
  then show ?thesis using vm_step_ok_trans[OF 1(1)] step_ok_instr[OF 1(2) assms(2)] by blast
qed

text \<open>
  The loop of \<open>Execute\<close>, for any invariant and transitive relation that its two steps keep:
  decoding an opcode and executing one.
\<close>

locale run_relation =
  fixes I :: "cheat_vm \<Rightarrow> bool"
    and R :: "cheat_metadata \<Rightarrow> vm_state \<Rightarrow> vm_state \<Rightarrow> bool"
  assumes R_trans: "R m a b \<Longrightarrow> R m b c \<Longrightarrow> R m a c"
    and R_decode: "I vm \<Longrightarrow> DecodeNextOpcode vm = (r, vm') \<Longrightarrow> I vm' \<and> R m (vm, env) (vm', env)"
    and R_exec: "I vm \<Longrightarrow> DecodeNextOpcode vm0 = (Some op, vm) \<Longrightarrow> exec_opcode m k op vm env = Ok s \<Longrightarrow>
      I (fst s) \<and> R m (vm, env) s"
begin

lemma run:
  assumes "Execute_loop m k vm env = Some (Ok s)" "I vm"
  shows "I (fst s) \<and> R m (vm, env) s"
proof -
  define P where "P = (\<lambda>m (k::u64) vm env r. I vm \<longrightarrow> (\<forall>s. r = Ok s \<longrightarrow> I (fst s) \<and> R m (vm, env) s))"
  have "P m k vm env (Ok s)"
  proof (rule Execute_loop.raw_induct[OF _ assms(1)])
    fix f m k vm env r
    assume IH: "\<And>m k vm env r. f m k vm env = Some r \<Longrightarrow> P m k vm env r"
      and eq: "(case DecodeNextOpcode vm of
          (None, vm') \<Rightarrow> Some (Ok (vm', env))
        | (Some cur_opcode, vm') \<Rightarrow>
            (case exec_opcode m k cur_opcode vm' env of
               Ok (vm'', env') \<Rightarrow> f m k vm'' env'
             | Err e \<Rightarrow> Some (Err e) | UB \<Rightarrow> Some UB)) = Some r"
    show "P m k vm env r"
      unfolding P_def
    proof (intro impI allI)
      fix s assume I: "I vm" and r: "r = Ok s"
      obtain o' vm' where D: "DecodeNextOpcode vm = (o', vm')" by (cases "DecodeNextOpcode vm") auto
      note d = R_decode[OF I D, of m env]
      show "I (fst s) \<and> R m (vm, env) s"
      proof (cases o')
        case None
        then show ?thesis using eq D r d by auto
      next
        case (Some op)
        obtain vm2 env2 where E: "exec_opcode m k op vm' env = Ok (vm2, env2)" "f m k vm2 env2 = Some (Ok s)"
          using eq D r Some by (auto split: res.splits)
        note e = R_exec[OF conjunct1[OF d] D[unfolded Some] E(1)]
        have "I (fst s) \<and> R m (vm2, env2) s"
          using IH[OF E(2)] e by (cases s) (simp add: P_def)
        then show ?thesis using d e R_trans by blast
      qed
    qed
  qed
  then show ?thesis using assms(2) by (cases s) (simp add: P_def)
qed

end

interpretation safe: run_relation vm_wf vm_step_ok
proof (unfold_locales, goal_cases)
  case (1 m a b c)
  then show ?case by (rule vm_step_ok_trans)
next
  case (2 vm r vm' m env)
  then show ?case using Decode_ok[of vm r vm' m env] by (simp add: vm_step_ok_def)
next
  case (3 vm vm0 op m k env s)
  then show ?case using exec_opcode_ok[of vm op m k env s] Decode_wf[of vm0 op vm] by (simp add: vm_step_ok_def)
qed

text \<open>The callbacks are only ever called in order: events are appended.\<close>

definition log_grows :: "cheat_metadata \<Rightarrow> vm_state \<Rightarrow> vm_state \<Rightarrow> bool" where
  "log_grows m s s' \<longleftrightarrow> (\<exists>es. env_events (snd s') = env_events (snd s) @ es) \<and>
     env_keys (snd s') = env_keys (snd s)"

lemma log_grows_simps:
  "env_events (write_width m a v w env) = env_events env" "env_keys (write_width m a v w env) = env_keys env"
  "env_events (add_event e env) = env_events env @ [e]" "env_keys (add_event e env) = env_keys env"
  "bind_res x (\<lambda>vm'. Ok (vm', env)) = Ok s \<Longrightarrow> snd s = env"
  "branch_on c vm env = Ok s \<Longrightarrow> snd s = env"
  by (auto simp: write_width_def MemoryWriteUnsafe_def add_event_def branch_on_def bind_res_Ok_iff split: if_splits)

lemma log_grows_instr: "exec_instr m k i vm env = Ok s \<Longrightarrow> log_grows m (vm, env) s"
  by (cases i) (auto simp: exec_instr_def exec_BeginConditional_def exec_BeginRegisterConditional_def
      exec_EndConditional_def exec_StoreStatic_def exec_StoreStaticToAddress_def
      exec_StoreRegisterToAddress_def exec_DebugLog_def Let_def log_grows_def log_grows_simps(1-4)
      split: if_splits dest!: log_grows_simps(5,6))

interpretation logged: run_relation "\<lambda>vm. True" log_grows
proof (unfold_locales, goal_cases)
  case (3 vm vm0 op m k env s)
  then show ?case using log_grows_instr by (fastforce simp: exec_opcode_def Let_def log_grows_def)
qed (auto simp: log_grows_def)

lemma ResetState_wf: "vm_arrays vm \<Longrightarrow> vm_wf (ResetState vm)"
  by (auto simp: vm_wf_defs ResetState_def)

lemma execution_safe:
  assumes "vm_arrays vm" "Execute metadata vm env = Some (Ok (vm', env'))"
  shows "vm_wf vm' \<and> num_opcodes vm' = num_opcodes vm \<and> vm_program vm' = vm_program vm \<and>
    env_valid env' = env_valid env \<and> (\<exists>es. env_events env' = env_events env @ es) \<and>
    (\<forall>a. env_mem env' a \<noteq> env_mem env a \<longrightarrow> env_valid env a \<and>
       (\<exists>b. IsAddressInRange metadata b \<and> env_valid env b \<and> unat (a - b) < 8))"
  using safe.run[OF assms(2)[unfolded Execute_def] ResetState_wf[OF assms(1)]]
    logged.run[OF assms(2)[unfolded Execute_def] TrueI]
  by (simp add: vm_step_ok_def footprint_def ResetState_def log_grows_def)

text \<open>
  Claim C26. Running a cheat program is memory safe: from a machine whose arrays have their
  declared lengths and whose program fits, if \<open>Execute\<close> returns then the machine is well formed (every
  instruction pointer is inside the program), its program has not changed, and the application's memory is changed
  only at mapped bytes within eight bytes of addresses that pass \<open>IsAddressInRange\<close> and are valid; the pause, resume
  and log callbacks are only appended to what was called before.
\<close>

theorem cheat_execution_safe:
  assumes "vm_arrays vm" "Execute metadata vm env = Some (Ok (vm', env'))"
  shows "vm_wf vm' \<and> num_opcodes vm' = num_opcodes vm \<and> vm_program vm' = vm_program vm \<and>
    env_valid env' = env_valid env \<and> (\<exists>es. env_events env' = env_events env @ es) \<and>
    (\<forall>a. env_mem env' a \<noteq> env_mem env a \<longrightarrow> env_valid env a \<and>
       (\<exists>b. IsAddressInRange metadata b \<and> env_valid env b \<and> unat (a - b) < 8))"
  using assms by (rule execution_safe)

text \<open>What may go wrong: only an \<open>else\<close> outside every block and a shift by 64 or more.\<close>

definition shift_hazard :: "reg_arith \<Rightarrow> u64 \<Rightarrow> bool" where
  "shift_hazard t b \<longleftrightarrow> (t = LeftShift \<or> t = RightShift) \<and> unat b \<ge> 64"

definition hazard :: "cheat_instr \<Rightarrow> cheat_vm \<Rightarrow> bool" where
  "hazard i vm \<longleftrightarrow>
     (case i of
        EndConditional is_else \<Rightarrow> is_else \<and> condition_depth vm = 0
      | PerformArithmeticStatic o' \<Rightarrow> shift_hazard (pas_math_type o') (ucast (pas_value o'))
      | PerformArithmeticRegister o' \<Rightarrow> shift_hazard (par_math_type o')
          (if par_has_immediate o' then GetVmInt (par_value o') (par_bit_width o')
           else registers vm ! par_src_reg_2_index o')
      | _ \<Rightarrow> False)"

fun is_conditional :: "cheat_instr \<Rightarrow> bool" where
  "is_conditional (BeginConditional _) = True"
| "is_conditional (BeginKeypressConditional _) = True"
| "is_conditional (BeginRegisterConditional _) = True"
| "is_conditional _ = False"

lemma decode_parts_kind:
  "\<not> is_conditional (fst (decode_StoreStatic vm w ds))" "is_conditional (fst (decode_BeginConditional vm w ds))"
  "\<not> is_conditional (fst (decode_ControlLoop vm w ds))" "\<not> is_conditional (fst (decode_LoadRegisterStatic vm w ds))"
  "\<not> is_conditional (fst (decode_LoadRegisterMemory vm w ds))"
  "\<not> is_conditional (fst (decode_StoreStaticToAddress vm w ds))"
  "\<not> is_conditional (fst (decode_PerformArithmeticStatic vm w ds))"
  "\<not> is_conditional (fst (decode_PerformArithmeticRegister vm w ds))"
  "\<not> is_conditional (fst (decode_StoreRegisterToAddress vm w ds))"
  "is_conditional (fst (decode_BeginRegisterConditional vm w ds))"
  "\<not> is_conditional (fst (decode_DebugLog vm w ds))"
  by (auto simp: decode_defs Let_def split: prod.splits offset_type.splits compare_type.splits log_type.splits)

lemma decode_instr_kind:
  "is_conditional (fst (decode_instr vm w ds)) \<longleftrightarrow>
     (let t = opcode_type_of w in t = 1 \<or> t = 8 \<or> t = 0xC0)"
  unfolding decode_instr_def Let_def by (auto simp: decode_parts_kind)

lemma Decode_kind:
  assumes "DecodeNextOpcode vm = (Some op, vm')"
  shows "begin_conditional_block op = is_conditional (opcode op)"
proof -
  obtain w ds where 1: "GetNextDword vm (decode_success vm, instruction_ptr vm) = (w, ds)"
    by (cases "GetNextDword vm (decode_success vm, instruction_ptr vm)") auto
  obtain i v ip where 2: "decode_instr vm w ds = (i, v, ip)" by (cases "decode_instr vm w ds") auto
  then show ?thesis
    using assms 1 2 decode_instr_kind[of vm w ds] by (auto simp: DecodeNextOpcode_def Let_def split: if_splits)
qed

lemma arith_UB: "arith_static t a b = UB \<longleftrightarrow> shift_hazard t b" "arith_register t a b = UB \<longleftrightarrow> shift_hazard t b"
  by (cases t; auto simp: arith_static_def arith_register_def shift_hazard_def shift_left_def shift_right_def)+

lemma arith_no_Err: "arith_static t a b \<noteq> Err e" "arith_register t a b \<noteq> Err e"
  by (cases t; auto simp: arith_static_def arith_register_def shift_left_def shift_right_def)+

lemma bind_res_UB_iff: "bind_res m f = UB \<longleftrightarrow> m = UB \<or> (\<exists>x. m = Ok x \<and> f x = UB)"
  by (cases m) auto

lemma branch_on_Ok: "condition_depth vm > 0 \<Longrightarrow> \<exists>a b. branch_on c vm env = Ok (a, b)"
  by (auto simp: branch_on_def SkipConditionalBlock_def)

lemma exec_conditional_Ok:
  "is_conditional i \<Longrightarrow> condition_depth vm > 0 \<Longrightarrow> \<exists>s. exec_instr m k i vm env = Ok s"
  by (cases i) (auto simp: exec_instr_def exec_BeginConditional_def exec_BeginRegisterConditional_def
      Let_def branch_on_Ok)

lemma exec_other_UB:
  "\<not> is_conditional i \<Longrightarrow> exec_instr m k i vm env = UB \<longleftrightarrow> hazard i vm"
  "\<not> is_conditional i \<Longrightarrow> exec_instr m k i vm env \<noteq> Err e"
  by (cases i; auto simp: exec_instr_def hazard_def exec_EndConditional_def SkipConditionalBlock_def
      exec_PerformArithmeticStatic_def exec_PerformArithmeticRegister_def Let_def bind_res_UB_iff
      bind_res_Err_iff arith_UB arith_no_Err)+

text \<open>
  Claim C34. The only undefined steps: an opcode decoded from the program runs into undefined
  behaviour exactly when it is an \<open>else\<close> outside every conditional block or a shift by 64 or
  more; a failed condition never reaches the \<open>UNREACHABLE\<close> of \<open>SkipConditionalBlock\<close>.
\<close>

theorem cheat_opcode_undefined_iff:
  assumes "DecodeNextOpcode vm = (Some op, vm')"
  shows "exec_opcode metadata kDown op vm' env = UB \<longleftrightarrow> hazard (opcode op) vm'"
proof (cases "is_conditional (opcode op)")
  case True
  then show ?thesis
    using exec_conditional_Ok[OF True, of "vm'\<lparr>condition_depth := condition_depth vm' + 1\<rparr>" metadata kDown env]
      Decode_kind[OF assms]
    by (cases "opcode op") (auto simp: exec_opcode_def hazard_def)
next
  case False
  then show ?thesis
    using Decode_kind[OF assms] by (simp add: exec_opcode_def exec_other_UB)
qed

section \<open>The instruction stream\<close>

text \<open>The opcodes from the instruction pointer on, as a straight run of the decoder sees them.\<close>

function stream_of :: "cheat_vm \<Rightarrow> cheat_opcode list" where
  "stream_of vm =
     (case DecodeNextOpcode vm of
        (None, vm') \<Rightarrow> []
      | (Some op, vm') \<Rightarrow> op # stream_of vm')"
  by pat_completeness auto
termination
  by (relation "measure (\<lambda>vm. num_opcodes vm - instruction_ptr vm)")
    (simp_all add: decode_rank[OF sym])

declare stream_of.simps [simp del]

text \<open>Decoding looks at the program, its length, the pointer and the success flag only.\<close>

definition same_code :: "cheat_vm \<Rightarrow> cheat_vm \<Rightarrow> bool" where
  "same_code a b \<longleftrightarrow> num_opcodes a = num_opcodes b \<and> vm_program a = vm_program b \<and>
     instruction_ptr a = instruction_ptr b \<and> decode_success a = decode_success b"

lemma GetNextDword_cong:
  "num_opcodes a = num_opcodes b \<Longrightarrow> vm_program a = vm_program b \<Longrightarrow> GetNextDword a = GetNextDword b"
  by (rule ext) (simp add: GetNextDword_def split: prod.splits)

lemma decode_instr_cong:
  assumes "num_opcodes a = num_opcodes b" "vm_program a = vm_program b"
  shows "decode_instr a = decode_instr b"
proof -
  note d = GetNextDword_cong[OF assms]
  have q: "GetNextQword a = GetNextQword b" "GetNextVmInt a = GetNextVmInt b"
    by (rule ext, simp only: GetNextQword_def d, rule ext, rule ext, simp only: GetNextVmInt_def d)
  show ?thesis
    by (rule ext, rule ext, simp only: decode_instr_def decode_defs d q)
qed

lemma Decode_cong:
  assumes "same_code a b"
  shows "fst (DecodeNextOpcode a) = fst (DecodeNextOpcode b) \<and>
    same_code (snd (DecodeNextOpcode a)) (snd (DecodeNextOpcode b))"
proof -
  note eqs = assms[unfolded same_code_def]
  have c: "decode_instr a = decode_instr b" "GetNextDword a = GetNextDword b"
    using eqs decode_instr_cong[of a b] GetNextDword_cong[of a b] by simp_all
  obtain w ds where 1: "GetNextDword b (decode_success b, instruction_ptr b) = (w, ds)"
    by (cases "GetNextDword b (decode_success b, instruction_ptr b)") auto
  obtain i v ip where 2: "decode_instr b w ds = (i, v, ip)" by (cases "decode_instr b w ds") auto
  show ?thesis
    using eqs 1 2 by (cases v) (simp_all add: DecodeNextOpcode_def same_code_def c Let_def)
qed

lemma stream_of_cong: "same_code a b \<Longrightarrow> stream_of a = stream_of b"
proof (induction a arbitrary: b rule: stream_of.induct)
  case (1 a)
  note c = Decode_cong[OF "1.prems"]
  show ?case
  proof (cases "DecodeNextOpcode a")
    case (Pair o' a')
    then obtain b' where b: "DecodeNextOpcode b = (o', b')" "same_code a' b'"
      using c by (cases "DecodeNextOpcode b") auto
    then show ?thesis
      using "1.IH"[OF Pair[symmetric]] Pair by (subst (1 2) stream_of.simps) (auto split: option.split)
  qed
qed

lemma stream_of_depth [simp]: "stream_of (vm\<lparr>condition_depth := n\<rparr>) = stream_of vm"
  by (rule stream_of_cong) (simp add: same_code_def)

lemma stream_of_eq:
  "DecodeNextOpcode vm = (Some op, vm') \<Longrightarrow> stream_of vm = op # stream_of vm'"
  "DecodeNextOpcode vm = (None, vm') \<Longrightarrow> stream_of vm = []"
  by (subst stream_of.simps, simp)+

lemma stream_of_Cons:
  assumes "stream_of vm = op # ops"
  obtains vm' where "DecodeNextOpcode vm = (Some op, vm')" "stream_of vm' = ops"
    "condition_depth vm' = condition_depth vm"
proof (cases "DecodeNextOpcode vm")
  case (Pair o' vm')
  then obtain "o' = Some op" "stream_of vm' = ops"
    using assms by (cases o') (auto simp: stream_of_eq)
  moreover have "condition_depth vm' = condition_depth vm"
    by (subst DecodeNextOpcode_progress(4)[OF Pair[unfolded \<open>o' = Some op\<close>]]) simp
  ultimately show ?thesis using that Pair by blast
qed

lemma stream_of_kind: "op \<in> set (stream_of vm) \<Longrightarrow> begin_conditional_block op = is_conditional (opcode op)"
  by (induction vm rule: stream_of.induct)
    (metis (no_types, lifting) Decode_kind empty_iff empty_set not_Some_eq set_ConsD stream_of_eq surj_pair)

text \<open>Skipping, on the stream.\<close>

abbreviation is_end :: "cheat_opcode \<Rightarrow> bool" where
  "is_end op \<equiv> \<not> begin_conditional_block op \<and> opcode op = EndConditional False"

abbreviation is_else_op :: "cheat_opcode \<Rightarrow> bool" where
  "is_else_op op \<equiv> \<not> begin_conditional_block op \<and> opcode op = EndConditional True"

lemma Skip_step:
  assumes "DecodeNextOpcode vm = (Some op, vm')" "condition_depth vm > d"
  shows "begin_conditional_block op \<Longrightarrow> SkipConditionalBlock_loop b d vm =
      SkipConditionalBlock_loop b d (vm'\<lparr>condition_depth := condition_depth vm + 1\<rparr>)"
    "is_end op \<Longrightarrow> SkipConditionalBlock_loop b d vm =
      SkipConditionalBlock_loop b d (vm'\<lparr>condition_depth := condition_depth vm - 1\<rparr>)"
    "is_else_op op \<Longrightarrow> \<not> (b \<and> condition_depth vm = Suc d) \<Longrightarrow> SkipConditionalBlock_loop b d vm =
      SkipConditionalBlock_loop b d vm'"
    "is_else_op op \<Longrightarrow> b \<Longrightarrow> condition_depth vm = Suc d \<Longrightarrow> SkipConditionalBlock_loop b d vm = vm'"
    "\<not> begin_conditional_block op \<Longrightarrow> \<not> is_end op \<Longrightarrow> \<not> is_else_op op \<Longrightarrow>
      SkipConditionalBlock_loop b d vm = SkipConditionalBlock_loop b d vm'"
proof -
  have "condition_depth vm' = condition_depth vm"
    by (subst DecodeNextOpcode_progress(4)[OF assms(1)]) simp
  then show "begin_conditional_block op \<Longrightarrow> SkipConditionalBlock_loop b d vm =
      SkipConditionalBlock_loop b d (vm'\<lparr>condition_depth := condition_depth vm + 1\<rparr>)"
    "is_end op \<Longrightarrow> SkipConditionalBlock_loop b d vm =
      SkipConditionalBlock_loop b d (vm'\<lparr>condition_depth := condition_depth vm - 1\<rparr>)"
    "is_else_op op \<Longrightarrow> \<not> (b \<and> condition_depth vm = Suc d) \<Longrightarrow> SkipConditionalBlock_loop b d vm =
      SkipConditionalBlock_loop b d vm'"
    "is_else_op op \<Longrightarrow> b \<Longrightarrow> condition_depth vm = Suc d \<Longrightarrow> SkipConditionalBlock_loop b d vm = vm'"
    "\<not> begin_conditional_block op \<Longrightarrow> \<not> is_end op \<Longrightarrow> \<not> is_else_op op \<Longrightarrow>
      SkipConditionalBlock_loop b d vm = SkipConditionalBlock_loop b d vm'"
    using assms by (subst SkipConditionalBlock_loop.simps; cases "opcode op"; auto)+
qed

text \<open>Well-bracketed code: every conditional of it is closed, with at most one \<open>else\<close> each.\<close>

inductive balanced :: "cheat_opcode list \<Rightarrow> bool" where
  balanced_Nil: "balanced []"
| balanced_plain: "\<not> begin_conditional_block op \<Longrightarrow> \<forall>e. opcode op \<noteq> EndConditional e \<Longrightarrow>
    balanced ops \<Longrightarrow> balanced (op # ops)"
| balanced_if: "begin_conditional_block op \<Longrightarrow> balanced body \<Longrightarrow> is_end e \<Longrightarrow> balanced ops \<Longrightarrow>
    balanced (op # body @ e # ops)"
| balanced_if_else: "begin_conditional_block op \<Longrightarrow> balanced body \<Longrightarrow> is_else_op l \<Longrightarrow>
    balanced body2 \<Longrightarrow> is_end e \<Longrightarrow> balanced ops \<Longrightarrow> balanced (op # body @ l # body2 @ e # ops)"

lemma balanced_skipped:
  "balanced blk \<Longrightarrow> stream_of vm = blk @ rest \<Longrightarrow> condition_depth vm = Suc d' \<Longrightarrow> d \<le> d' \<Longrightarrow>
    \<exists>vm'. SkipConditionalBlock_loop b d vm = SkipConditionalBlock_loop b d vm' \<and>
      stream_of vm' = rest \<and> condition_depth vm' = Suc d'"
proof (induction arbitrary: vm rest d' rule: balanced.induct)
  case balanced_Nil
  then show ?case by auto
next
  case (balanced_plain op ops)
  obtain vm' where D: "DecodeNextOpcode vm = (Some op, vm')" "stream_of vm' = ops @ rest"
    "condition_depth vm' = condition_depth vm"
    using balanced_plain.prems(1) by (auto elim: stream_of_Cons)
  have "SkipConditionalBlock_loop b d vm = SkipConditionalBlock_loop b d vm'"
    using Skip_step(5)[OF D(1), of d b] balanced_plain by auto
  then show ?case using balanced_plain.IH[OF D(2)] D(3) balanced_plain.prems by simp
next
  case (balanced_if op body e ops)
  obtain v1 where D: "DecodeNextOpcode vm = (Some op, v1)" "stream_of v1 = body @ e # ops @ rest"
    using balanced_if.prems(1) by (auto elim: stream_of_Cons)
  let ?v1 = "v1\<lparr>condition_depth := condition_depth vm + 1\<rparr>"
  have s1: "SkipConditionalBlock_loop b d vm = SkipConditionalBlock_loop b d ?v1"
    using Skip_step(1)[OF D(1)] balanced_if by auto
  obtain v2 where v2: "SkipConditionalBlock_loop b d ?v1 = SkipConditionalBlock_loop b d v2"
      "stream_of v2 = e # ops @ rest" "condition_depth v2 = Suc (Suc d')"
    using balanced_if.IH(1)[of ?v1 "e # ops @ rest" "Suc d'"] D balanced_if.prems by auto
  obtain v3 where v3: "DecodeNextOpcode v2 = (Some e, v3)" "stream_of v3 = ops @ rest"
    using v2(2) by (auto elim: stream_of_Cons)
  let ?v3 = "v3\<lparr>condition_depth := Suc d'\<rparr>"
  have s3: "SkipConditionalBlock_loop b d v2 = SkipConditionalBlock_loop b d ?v3"
    using Skip_step(2)[OF v3(1)] v2(3) balanced_if by auto
  show ?case
    using balanced_if.IH(2)[of ?v3 rest d'] v3(2) s1 v2(1) s3 balanced_if.prems by auto
next
  case (balanced_if_else op body l body2 e ops)
  obtain v1 where D: "DecodeNextOpcode vm = (Some op, v1)" "stream_of v1 = body @ l # body2 @ e # ops @ rest"
    using balanced_if_else.prems(1) by (auto elim: stream_of_Cons)
  let ?v1 = "v1\<lparr>condition_depth := condition_depth vm + 1\<rparr>"
  have s1: "SkipConditionalBlock_loop b d vm = SkipConditionalBlock_loop b d ?v1"
    using Skip_step(1)[OF D(1)] balanced_if_else by auto
  obtain v2 where v2: "SkipConditionalBlock_loop b d ?v1 = SkipConditionalBlock_loop b d v2"
      "stream_of v2 = l # body2 @ e # ops @ rest" "condition_depth v2 = Suc (Suc d')"
    using balanced_if_else.IH(1)[of ?v1 "l # body2 @ e # ops @ rest" "Suc d'"] D balanced_if_else.prems by auto
  obtain v3 where v3: "DecodeNextOpcode v2 = (Some l, v3)" "stream_of v3 = body2 @ e # ops @ rest"
      "condition_depth v3 = condition_depth v2"
    using v2(2) by (auto elim: stream_of_Cons)
  have s3: "SkipConditionalBlock_loop b d v2 = SkipConditionalBlock_loop b d v3"
    using Skip_step(3)[OF v3(1)] v2(3) balanced_if_else by auto
  obtain v4 where v4: "SkipConditionalBlock_loop b d v3 = SkipConditionalBlock_loop b d v4"
      "stream_of v4 = e # ops @ rest" "condition_depth v4 = Suc (Suc d')"
    using balanced_if_else.IH(2)[of v3 "e # ops @ rest" "Suc d'"] v3 v2(3) balanced_if_else.prems by auto
  obtain v5 where v5: "DecodeNextOpcode v4 = (Some e, v5)" "stream_of v5 = ops @ rest"
    using v4(2) by (auto elim: stream_of_Cons)
  let ?v5 = "v5\<lparr>condition_depth := Suc d'\<rparr>"
  have s5: "SkipConditionalBlock_loop b d v4 = SkipConditionalBlock_loop b d ?v5"
    using Skip_step(2)[OF v5(1)] v4(3) balanced_if_else by auto
  show ?case
    using balanced_if_else.IH(3)[of ?v5 rest d'] v5(2) s1 v2(1) s3 v4(1) s5 balanced_if_else.prems by auto
qed

text \<open>
  Claim C28. \<open>SkipConditionalBlock\<close> finds the end of its own block: in front of a well-bracketed
  body (nested conditionals with or without \<open>else\<close>, any other opcodes, immediates of any value) it
  stops right after the \<open>end\<close> that closes the current block, one level up, and, when it skips an
  if part, right after the \<open>else\<close> of the current block at the same level.
\<close>

theorem skip_conditional_block_correct:
  assumes "balanced body" "stream_of vm = body @ e # rest" "condition_depth vm = Suc d"
  shows "(is_end e \<longrightarrow> (\<exists>vm'. SkipConditionalBlock is_if vm = Ok vm' \<and>
             stream_of vm' = rest \<and> condition_depth vm' = d)) \<and>
         (is_else_op e \<longrightarrow> (\<exists>vm'. SkipConditionalBlock True vm = Ok vm' \<and>
             stream_of vm' = rest \<and> condition_depth vm' = Suc d))"
proof (intro conjI impI)
  obtain v1 where v1: "SkipConditionalBlock_loop is_if d vm = SkipConditionalBlock_loop is_if d v1"
      "stream_of v1 = e # rest" "condition_depth v1 = Suc d"
    using balanced_skipped[OF assms(1,2,3), of d is_if] by auto
  then obtain v2 where v2: "DecodeNextOpcode v1 = (Some e, v2)" "stream_of v2 = rest"
    by (auto elim: stream_of_Cons)
  assume e: "is_end e"
  have "SkipConditionalBlock_loop is_if d v1 = v2\<lparr>condition_depth := d\<rparr>"
    using Skip_step(2)[OF v2(1) _ e, of d is_if] v1(3) by (simp add: SkipConditionalBlock_loop.simps)
  then show "\<exists>vm'. SkipConditionalBlock is_if vm = Ok vm' \<and> stream_of vm' = rest \<and> condition_depth vm' = d"
    using v1 v2 assms(3) by (simp add: SkipConditionalBlock_def)
next
  obtain v1 where v1: "SkipConditionalBlock_loop True d vm = SkipConditionalBlock_loop True d v1"
      "stream_of v1 = e # rest" "condition_depth v1 = Suc d"
    using balanced_skipped[OF assms(1,2,3), of d True] by auto
  then obtain v2 where v2: "DecodeNextOpcode v1 = (Some e, v2)" "stream_of v2 = rest" "condition_depth v2 = Suc d"
    by (auto elim: stream_of_Cons)
  assume e: "is_else_op e"
  have "SkipConditionalBlock_loop True d v1 = v2"
    using Skip_step(4)[OF v2(1) _ e, of d True] v1(3) by simp
  then show "\<exists>vm'. SkipConditionalBlock True vm = Ok vm' \<and> stream_of vm' = rest \<and> condition_depth vm' = Suc d"
    using v1 v2 assms(3) by (simp add: SkipConditionalBlock_def)
qed

section \<open>Termination\<close>

text \<open>An opcode other than the end of a loop leaves a stream that is no longer and has no new opcodes.\<close>

definition shrinks :: "cheat_vm \<Rightarrow> cheat_vm \<Rightarrow> bool" where
  "shrinks a b \<longleftrightarrow> set (stream_of b) \<subseteq> set (stream_of a) \<and> length (stream_of b) \<le> length (stream_of a)"

lemma shrinks_same: "same_code a b \<Longrightarrow> shrinks a b"
  using stream_of_cong[of a b] by (simp add: shrinks_def)

lemma same_code_set_reg [simp]: "same_code vm (set_reg i v vm)"
  by (simp add: same_code_def set_reg_def)

lemma same_code_refl [simp]: "same_code vm vm"
  by (simp add: same_code_def)

lemma shrinks_trans: "shrinks a b \<Longrightarrow> shrinks b c \<Longrightarrow> shrinks a c"
  by (auto simp: shrinks_def)

lemma shrinks_decode: "shrinks vm (snd (DecodeNextOpcode vm))"
proof (cases "DecodeNextOpcode vm")
  case (Pair o' vm')
  show ?thesis
  proof (cases o')
    case None
    obtain w ds where 1: "GetNextDword vm (decode_success vm, instruction_ptr vm) = (w, ds)"
      by (cases "GetNextDword vm (decode_success vm, instruction_ptr vm)") auto
    obtain i v ip where 2: "decode_instr vm w ds = (i, v, ip)" by (cases "decode_instr vm w ds") auto
    have "\<not> decode_success vm'"
      using Pair None 1 2 by (auto simp: DecodeNextOpcode_def Let_def split: if_splits)
    then have "stream_of vm' = []"
      using DecodeNextOpcode_progress(3)[of vm'] by (subst stream_of.simps) (auto split: prod.split option.split)
    then show ?thesis using Pair by (simp add: shrinks_def)
  next
    case (Some op)
    then show ?thesis using Pair by (auto simp: shrinks_def stream_of_eq)
  qed
qed

lemma shrinks_skip: "SkipConditionalBlock b vm = Ok vm' \<Longrightarrow> shrinks vm vm'"
proof -
  assume a: "SkipConditionalBlock b vm = Ok vm'"
  have "shrinks vm (SkipConditionalBlock_loop b d vm)" for d
    by (rule Skip_loop_keeps) (erule shrinks_trans[OF _ shrinks_decode], simp_all add: shrinks_def)
  then show ?thesis using a by (auto simp: SkipConditionalBlock_def split: if_splits)
qed

lemma shrinks_branch: "branch_on c vm env = Ok s \<Longrightarrow> shrinks vm (fst s)"
  by (auto simp: branch_on_def bind_res_Ok_iff split: if_splits intro: shrinks_skip shrinks_same)

lemma shrinks_end: "exec_EndConditional e vm env = Ok s \<Longrightarrow> shrinks vm (fst s)"
  by (auto simp: exec_EndConditional_def bind_res_Ok_iff split: if_splits
      intro: shrinks_skip shrinks_same simp: same_code_def)

definition loop_end :: "cheat_instr \<Rightarrow> bool" where
  "loop_end i \<longleftrightarrow> (case i of ControlLoop start_loop r n \<Rightarrow> \<not> start_loop | _ \<Rightarrow> False)"

lemma same_code_exec:
  "same_code vm (exec_SaveRestoreRegister d s t vm)"
  "same_code vm (exec_SaveRestoreRegisterMask t bs vm)"
  "same_code vm (exec_ReadWriteStaticRegister d s vm)"
  "same_code vm (fst (exec_StoreStatic m o1 vm env))"
  "same_code vm (fst (exec_StoreStaticToAddress m o2 vm env))"
  "same_code vm (fst (exec_StoreRegisterToAddress m o3 vm env))"
  "same_code vm (exec_LoadRegisterMemory m o4 vm env)"
  "same_code vm (exec_ControlLoop True r n vm)"
  by (simp_all add: exec_SaveRestoreRegister_def exec_SaveRestoreRegisterMask_def exec_ReadWriteStaticRegister_def
      exec_StoreStatic_def exec_StoreStaticToAddress_def exec_StoreRegisterToAddress_def
      exec_LoadRegisterMemory_def exec_ControlLoop_def Let_def same_code_def split: save_restore.split)

lemma same_code_arith:
  "exec_PerformArithmeticStatic o1 vm = Ok vm' \<Longrightarrow> same_code vm vm'"
  "exec_PerformArithmeticRegister o2 vm = Ok vm' \<Longrightarrow> same_code vm vm'"
  by (auto simp: exec_PerformArithmeticStatic_def exec_PerformArithmeticRegister_def Let_def bind_res_Ok_iff)

lemma shrinks_instr: "\<not> loop_end i \<Longrightarrow> exec_instr m k i vm env = Ok s \<Longrightarrow> shrinks vm (fst s)"
  by (cases i) (auto simp: exec_instr_def exec_BeginConditional_def exec_BeginRegisterConditional_def
      Let_def bind_res_Ok_iff loop_end_def intro: shrinks_branch shrinks_end shrinks_same
      same_code_exec[THEN shrinks_same] same_code_arith[THEN shrinks_same])

lemma shrinks_opcode:
  assumes "\<not> loop_end (opcode op)" "exec_opcode m k op vm env = Ok s"
  shows "shrinks vm (fst s)"
proof -
  define v1 where "v1 = (if begin_conditional_block op
    then vm\<lparr>condition_depth := condition_depth vm + 1\<rparr> else vm)"
  have "exec_instr m k (opcode op) v1 env = Ok s"
    using assms(2) by (simp only: exec_opcode_def v1_def Let_def)
  then have "shrinks v1 (fst s)" using assms(1) by (rule shrinks_instr[rotated])
  moreover have "shrinks vm v1" by (rule shrinks_same) (simp add: v1_def same_code_def)
  ultimately show ?thesis using shrinks_trans by blast
qed

lemma Execute_loop_returns:
  "\<forall>op \<in> set (stream_of vm). \<not> loop_end (opcode op) \<Longrightarrow> \<exists>r. Execute_loop m k vm env = Some r"
proof (induction "length (stream_of vm)" arbitrary: vm env rule: less_induct)
  case less
  obtain o' vm' where D: "DecodeNextOpcode vm = (o', vm')" by (cases "DecodeNextOpcode vm") auto
  show ?case
  proof (cases o')
    case None
    then show ?thesis using D by (subst Execute_loop.simps) simp
  next
    case (Some op)
    note s = stream_of_eq(1)[OF D[unfolded Some]]
    have "\<exists>r. Execute_loop m k v2 e2 = Some r" if "exec_opcode m k op vm' env = Ok (v2, e2)" for v2 e2
      using shrinks_opcode[OF _ that] less s by (intro less.hyps) (auto simp: shrinks_def)
    then show ?thesis
      using D Some by (subst Execute_loop.simps) (auto split: res.split)
  qed
qed

text \<open>
  Claim C30. A cheat program in which no loop is closed always returns, whatever its conditionals,
  the memory and the keys: \<open>Execute\<close> has a result.
\<close>

theorem cheat_execution_terminates:
  assumes "\<forall>op \<in> set (stream_of (ResetState vm)). \<not> loop_end (opcode op)"
  shows "\<exists>r. Execute metadata vm env = Some r"
  using Execute_loop_returns[OF assms] by (simp add: Execute_def)

section \<open>Concrete programs\<close>

definition program_vm :: "u32 list \<Rightarrow> cheat_vm" where
  "program_vm ws = DmntCheatVm_new\<lparr>num_opcodes := length ws,
     vm_program := ws @ replicate (MaximumProgramOpcodeCount - length ws) 0\<rparr>"

lemma program_vm_arrays: "length ws \<le> MaximumProgramOpcodeCount \<Longrightarrow> vm_arrays (program_vm ws)"
  by (simp add: vm_arrays_def program_vm_def DmntCheatVm_new_def)

definition flat_metadata :: cheat_metadata where
  "flat_metadata = \<lparr>main_nso_extents = \<lparr>ext_base = 0x8000000, ext_size = 0x1000\<rparr>,
     heap_extents = \<lparr>ext_base = 0x10000000, ext_size = 0x1000\<rparr>,
     alias_extents = \<lparr>ext_base = 0, ext_size = 0\<rparr>, aslr_extents = \<lparr>ext_base = 0, ext_size = 0\<rparr>\<rparr>"

definition zero_env :: cheat_env where
  "zero_env = \<lparr>env_mem = (\<lambda>a. 0), env_valid = (\<lambda>a. True), env_space_bits = 39, env_keys = 0, env_events = []\<rparr>"

text \<open>The loop of the program below: its register is 2 whenever it reaches the loop end.\<close>

definition spin_words :: "u32 list" where
  "spin_words = [0x40000000, 0, 2, 0x31000000]"

definition spin_vm :: "u64 list \<Rightarrow> cheat_vm" where
  "spin_vm regs = (ResetState (program_vm spin_words))\<lparr>registers := regs\<rparr>"

definition spinning :: "cheat_vm \<Rightarrow> bool" where
  "spinning vm \<longleftrightarrow> (\<exists>regs. length regs = NumRegisters \<and>
     (vm = spin_vm regs \<or> vm = (spin_vm (regs[0 := 2]))\<lparr>instruction_ptr := 3\<rparr>))"

lemma spin_decode:
  "DecodeNextOpcode (spin_vm regs) =
     (Some \<lparr>begin_conditional_block = False, opcode = LoadRegisterStatic 0 2\<rparr>,
      (spin_vm regs)\<lparr>instruction_ptr := 3\<rparr>)"
  "DecodeNextOpcode ((spin_vm regs)\<lparr>instruction_ptr := 3\<rparr>) =
     (Some \<lparr>begin_conditional_block = False, opcode = ControlLoop False 0 0\<rparr>,
      (spin_vm regs)\<lparr>instruction_ptr := 4\<rparr>)"
  by (simp_all add: spin_vm_def DecodeNextOpcode_def GetNextDword_def GetNextQword_def Let_def
      decode_instr_def opcode_type_of_def nib_def decode_defs reg_of_def ResetState_def program_vm_def
      spin_words_def DmntCheatVm_new_def)

lemma spin_load: "set_reg 0 2 ((spin_vm regs)\<lparr>instruction_ptr := 3\<rparr>) = (spin_vm (regs[0 := 2]))\<lparr>instruction_ptr := 3\<rparr>"
  by (simp add: set_reg_def spin_vm_def ResetState_def program_vm_def DmntCheatVm_new_def)

lemma spin_step:
  assumes "spinning vm"
  shows "\<exists>op vm' vm''. DecodeNextOpcode vm = (Some op, vm') \<and>
    exec_opcode m k op vm' env = Ok (vm'', env) \<and> spinning vm''"
proof -
  obtain regs where r: "length regs = NumRegisters"
      "vm = spin_vm regs \<or> vm = (spin_vm (regs[0 := 2]))\<lparr>instruction_ptr := 3\<rparr>"
    using assms by (auto simp: spinning_def)
  from r(2) show ?thesis
  proof
    assume "vm = spin_vm regs"
    moreover have "spinning ((spin_vm (regs[0 := 2]))\<lparr>instruction_ptr := 3\<rparr>)"
      using r(1) by (auto simp: spinning_def)
    ultimately show ?thesis
      by (simp add: spin_decode exec_opcode_def exec_instr_def spin_load)
  next
    assume "vm = (spin_vm (regs[0 := 2]))\<lparr>instruction_ptr := 3\<rparr>"
    moreover have "exec_ControlLoop False 0 0 ((spin_vm (regs[0 := 2]))\<lparr>instruction_ptr := 4\<rparr>) = spin_vm (regs[0 := 1])"
      using r(1) by (simp add: exec_ControlLoop_def set_reg_def spin_vm_def ResetState_def NumRegisters_def Let_def)
    moreover have "spinning (spin_vm (regs[0 := 1]))"
      using r(1) unfolding spinning_def by (intro exI[of _ "regs[0 := 1]"]) simp
    ultimately show ?thesis
      by (simp add: spin_decode exec_opcode_def exec_instr_def)
  qed
qed

lemma spinning_diverges:
  assumes "spinning vm"
  shows "Execute_loop m k vm env = None"
proof -
  have "\<not> spinning vm" if "Execute_loop m k vm env = Some r" for r
  proof (rule Execute_loop.raw_induct[where P = "\<lambda>m k vm env r. \<not> spinning vm", OF _ that])
    fix f m k vm env r
    assume IH: "\<And>m k vm env r. f m k vm env = Some r \<Longrightarrow> \<not> spinning vm"
      and eq: "(case DecodeNextOpcode vm of
          (None, vm') \<Rightarrow> Some (Ok (vm', env))
        | (Some cur_opcode, vm') \<Rightarrow>
            (case exec_opcode m k cur_opcode vm' env of
               Ok (vm'', env') \<Rightarrow> f m k vm'' env'
             | Err e \<Rightarrow> Some (Err e) | UB \<Rightarrow> Some UB)) = Some r"
    show "\<not> spinning vm"
    proof
      assume "spinning vm"
      from spin_step[OF this, of m k env] eq show False using IH by fastforce
    qed
  qed
  then show ?thesis using assms by (cases "Execute_loop m k vm env") auto
qed

text \<open>
  Claim C35. The cheat machine has no step limit: the two-instruction program that loads 2 into a
  register and closes a loop on it never returns, on any metadata and memory.
\<close>

theorem cheat_execution_may_diverge:
  "Execute metadata (program_vm [0x40000000, 0, 2, 0x31000000]) env = None"
proof -
  have "spinning (spin_vm (replicate NumRegisters 0))"
    unfolding spinning_def by (intro exI[of _ "replicate NumRegisters 0"]) simp
  moreover have "ResetState (program_vm spin_words) = spin_vm (replicate NumRegisters 0)"
    by (simp add: spin_vm_def ResetState_def)
  ultimately show ?thesis
    using spinning_diverges by (simp add: Execute_def spin_words_def)
qed

text \<open>
  The \<open>else\<close> word outside every conditional block reaches the \<open>UNREACHABLE\<close> of
  \<open>SkipConditionalBlock\<close>, on any metadata and memory.
\<close>

theorem cheat_stray_else_unreachable:
  "Execute metadata (program_vm [0x21000000]) env = Some UB"
  by (simp add: Execute_def Execute_loop.simps DecodeNextOpcode_def GetNextDword_def Let_def
      decode_instr_def opcode_type_of_def nib_def ResetState_def program_vm_def DmntCheatVm_new_def
      exec_opcode_def exec_instr_def exec_EndConditional_def SkipConditionalBlock_def)

section \<open>Memory and arithmetic\<close>

lemma load_store_bytes: "n \<le> 8 \<Longrightarrow> load_bytes (store_bytes mem a n v) a n = take_bit (8 * n) v"
proof (induction n arbitrary: mem a v)
  case (Suc n)
  have "unat (a - (a + 1)) = 2 ^ 64 - 1"
    by (simp add: unsigned_minus_1_eq_mask mask_eq_exp_minus_1)
  then have "store_bytes (mem(a := ucast v)) (a + 1) n (drop_bit 8 v) a = (mem(a := ucast v)) a"
    using store_bytes_other[of n "mem(a := ucast v)" "a + 1" "drop_bit 8 v" a] Suc.prems by force
  then have "load_bytes (store_bytes mem a (Suc n) v) a (Suc n) =
      ucast (ucast v :: u8) OR push_bit 8 (take_bit (8 * n) (drop_bit 8 v))"
    using Suc by simp
  also have "\<dots> = take_bit (8 * Suc n) v"
    by (rule bit_word_eqI) (auto simp: bit_simps)
  finally show ?case .
qed simp

lemma GetVmInt_take_bit: "valid_width w \<Longrightarrow> GetVmInt v w = take_bit (8 * w) v"
  by (auto simp: valid_width_def GetVmInt_def intro!: bit_word_eqI) (auto simp: bit_simps)

lemma load_bytes_cong: "(\<And>i. i < n \<Longrightarrow> f (a + of_nat i) = g (a + of_nat i)) \<Longrightarrow> load_bytes f a n = load_bytes g a n"
proof (induction n arbitrary: a)
  case (Suc n)
  have "f (a + 1 + of_nat i) = g (a + 1 + of_nat i)" if "i < n" for i
    using Suc.prems[of "Suc i"] that by (simp add: algebra_simps)
  then have "load_bytes f (a + 1) n = load_bytes g (a + 1) n" by (rule Suc.IH)
  then show ?case using Suc.prems[of 0] by simp
qed simp

text \<open>
  What a cheat stores it reads back: at an address in range whose bytes are mapped and in the address space, a
  read of the width just written returns the low bytes of the value; at an address out of range or
  unmapped, or when the bytes leave the address space, the write has no effect and the read gives 0.
\<close>

theorem cheat_memory_roundtrip:
  assumes "valid_width w"
  shows "(IsAddressInRange metadata a \<and> AddressSpaceContains env a w \<and> (\<forall>i < w. env_valid env (a + of_nat i)) \<longrightarrow>
      read_width metadata (write_width metadata a v w env) a 0 w = GetVmInt v w) \<and>
    (\<not> (IsAddressInRange metadata a \<and> AddressSpaceContains env a w \<and> env_valid env a) \<longrightarrow>
      write_width metadata a v w env = env \<and> read_width metadata env a 0 w = 0)"
proof (intro conjI impI)
  have w: "w \<le> 8" "0 < w" using assms by (auto simp: valid_width_def)
  assume r: "IsAddressInRange metadata a \<and> AddressSpaceContains env a w \<and> (\<forall>i < w. env_valid env (a + of_nat i))"
  then have v: "env_valid env a" using w(2) by auto
  have "load_bytes (\<lambda>x. if env_valid env x then store_bytes (env_mem env) a w v x else 0) a w =
      load_bytes (store_bytes (env_mem env) a w v) a w"
    using r by (intro load_bytes_cong) simp
  moreover have "AddressSpaceContains (env\<lparr>env_mem := f\<rparr>) a w = AddressSpaceContains env a w" for f
    by (simp add: AddressSpaceContains_def)
  ultimately show "read_width metadata (write_width metadata a v w env) a 0 w = GetVmInt v w"
    using assms r v w(1) by (simp add: read_width_def write_width_def MemoryReadUnsafe_def MemoryWriteUnsafe_def
        load_store_bytes GetVmInt_take_bit if_distrib cong: if_cong)
qed (use assms in \<open>auto simp: read_width_def write_width_def MemoryReadUnsafe_def MemoryWriteUnsafe_def\<close>)

lemma apply_width_take_bit: "valid_width w \<Longrightarrow> apply_width v w = take_bit (8 * w) v"
  by (auto simp: valid_width_def apply_width_def intro!: bit_word_eqI) (auto simp: bit_simps)

lemma uint_apply_width: "valid_width w \<Longrightarrow> uint (apply_width v w) = uint v mod 2 ^ (8 * w)"
  by (simp only: apply_width_take_bit unsigned_take_bit_eq) (simp add: take_bit_eq_mod)

text \<open>
  Claim C32. Register arithmetic of a legal width is arithmetic modulo 2 to that width: addition,
  subtraction and multiplication of the operands are exact modulo the width, and no other register
  changes.
\<close>

theorem cheat_arithmetic_modulo:
  assumes "exec_PerformArithmeticRegister o' vm = Ok vm'" "valid_width (par_bit_width o')"
    "length (registers vm) = NumRegisters" "par_dst_reg_index o' < NumRegisters"
  defines "a \<equiv> uint (registers vm ! par_src_reg_1_index o')"
    and "b \<equiv> uint (if par_has_immediate o' then GetVmInt (par_value o') (par_bit_width o')
                    else registers vm ! par_src_reg_2_index o')"
    and "r \<equiv> uint (registers vm' ! par_dst_reg_index o')"
    and "M \<equiv> (2::int) ^ (8 * par_bit_width o')"
  shows "0 \<le> r \<and> r < M \<and> (par_math_type o' = Addition \<longrightarrow> r = (a + b) mod M) \<and>
    (par_math_type o' = Subtraction \<longrightarrow> r = (a - b) mod M) \<and>
    (par_math_type o' = Multiplication \<longrightarrow> r = (a * b) mod M) \<and>
    (\<forall>i. i \<noteq> par_dst_reg_index o' \<longrightarrow> registers vm' ! i = registers vm ! i)"
proof -
  define x where "x = registers vm ! par_src_reg_1_index o'"
  define y where "y = (if par_has_immediate o' then GetVmInt (par_value o') (par_bit_width o')
    else registers vm ! par_src_reg_2_index o')"
  obtain v where v: "arith_register (par_math_type o') x y = Ok v"
      "vm' = set_reg (par_dst_reg_index o') (apply_width v (par_bit_width o')) vm"
    using assms(1) by (auto simp: exec_PerformArithmeticRegister_def bind_res_Ok_iff x_def y_def Let_def)
  have r: "r = uint v mod M"
    using v(2) assms(3,4) uint_apply_width[OF assms(2)] by (simp add: r_def M_def set_reg_def)
  have M: "0 < M" "M dvd 2 ^ 64"
    using assms(2) by (auto simp: M_def valid_width_def intro: le_imp_power_dvd)
  have m: "(z mod 2 ^ 64) mod M = z mod M" for z :: int
    using M(2) by (rule mod_mod_cancel)
  have ab: "a = uint x" "b = uint y" by (simp_all add: a_def b_def x_def y_def)
  have "par_math_type o' = Addition \<Longrightarrow> r = (a + b) mod M"
    using v(1) m[of "uint x + uint y"] by (auto simp: arith_register_def r ab uint_word_ariths)
  moreover have "par_math_type o' = Subtraction \<Longrightarrow> r = (a - b) mod M"
    using v(1) m[of "uint x - uint y"] by (auto simp: arith_register_def r ab uint_word_ariths)
  moreover have "par_math_type o' = Multiplication \<Longrightarrow> r = (a * b) mod M"
    using v(1) m[of "uint x * uint y"] by (auto simp: arith_register_def r ab uint_word_ariths)
  moreover have "\<forall>i. i \<noteq> par_dst_reg_index o' \<longrightarrow> registers vm' ! i = registers vm ! i"
    using v(2) by (simp add: set_reg_def)
  ultimately show ?thesis using M(1) r by simp
qed


section \<open>Loading and running\<close>

definition entry_words :: "cheat_entry \<Rightarrow> u32 list" where
  "entry_words e = take (cd_num_opcodes (ce_definition e)) (cd_opcodes (ce_definition e))"

definition enabled_words :: "cheat_entry list \<Rightarrow> u32 list" where
  "enabled_words es = concat (map entry_words (filter ce_enabled es))"

lemma enabled_words_simps [simp]: "enabled_words [] = []"
  "enabled_words (e # es) = (if ce_enabled e then entry_words e @ enabled_words es else enabled_words es)"
  by (simp_all add: enabled_words_def)

definition entry_wf :: "cheat_entry \<Rightarrow> bool" where
  "entry_wf e \<longleftrightarrow> cd_num_opcodes (ce_definition e) \<le> length (cd_opcodes (ce_definition e))"

text \<open>Copying words one by one to the end of the program.\<close>

lemma load_words:
  assumes "num_opcodes vm + n \<le> length (vm_program vm)" "n \<le> length ws"
  shows "fold (\<lambda>n vm. vm\<lparr>vm_program := (vm_program vm)[num_opcodes vm := ws ! n],
      num_opcodes := num_opcodes vm + 1\<rparr>) [0..<n] vm =
    vm\<lparr>vm_program := take (num_opcodes vm) (vm_program vm) @ take n ws @
        drop (num_opcodes vm + n) (vm_program vm), num_opcodes := num_opcodes vm + n\<rparr>"
  using assms
proof (induction n)
  case (Suc n)
  have "(take k p @ take n ws @ drop (k + n) p)[k + n := ws ! n] = take k p @ take (Suc n) ws @ drop (k + Suc n) p"
    if "k + Suc n \<le> length p" for k and p :: "u32 list"
    using that Suc.prems(2)
    by (intro nth_equalityI) (auto simp: nth_append nth_list_update min_def take_Suc_conv_app_nth)
  then show ?case using Suc by simp
qed simp

lemma load_entry_eq:
  assumes "entry_wf e" "num_opcodes vm + cd_num_opcodes (ce_definition e) \<le> length (vm_program vm)"
  shows "load_entry (ce_definition e) vm =
    Ok (vm\<lparr>vm_program := take (num_opcodes vm) (vm_program vm) @ entry_words e @
        drop (num_opcodes vm + length (entry_words e)) (vm_program vm),
        num_opcodes := num_opcodes vm + length (entry_words e)\<rparr>)"
  using assms load_words[of vm "cd_num_opcodes (ce_definition e)" "cd_opcodes (ce_definition e)"]
  by (simp add: load_entry_def entry_wf_def entry_words_def min_def)

lemma LoadProgram_loop_eq:
  assumes "\<forall>e \<in> set es. entry_wf e" "length (vm_program vm) = MaximumProgramOpcodeCount"
    "num_opcodes vm \<le> MaximumProgramOpcodeCount"
  shows "\<exists>vm'. LoadProgram_loop es vm = Ok (num_opcodes vm + length (enabled_words es) \<le> MaximumProgramOpcodeCount, vm') \<and>
    length (vm_program vm') = MaximumProgramOpcodeCount \<and>
    vm'\<lparr>vm_program := [], num_opcodes := 0\<rparr> = vm\<lparr>vm_program := [], num_opcodes := 0\<rparr> \<and>
    (num_opcodes vm + length (enabled_words es) \<le> MaximumProgramOpcodeCount \<longrightarrow>
       num_opcodes vm' = num_opcodes vm + length (enabled_words es) \<and>
       take (num_opcodes vm') (vm_program vm') = take (num_opcodes vm) (vm_program vm) @ enabled_words es) \<and>
    (\<not> num_opcodes vm + length (enabled_words es) \<le> MaximumProgramOpcodeCount \<longrightarrow> num_opcodes vm' = 0)"
  using assms
proof (induction es arbitrary: vm)
  case Nil
  then show ?case by simp
next
  case (Cons e es)
  let ?n = "cd_num_opcodes (ce_definition e)"
  have len: "length (entry_words e) = ?n" using Cons.prems by (simp add: entry_words_def entry_wf_def)
  show ?case
  proof (cases "ce_enabled e")
    case False
    then show ?thesis using Cons.IH[of vm] Cons.prems by auto
  next
    case True
    show ?thesis
    proof (cases "?n + num_opcodes vm > MaximumProgramOpcodeCount")
      case over: True
      then show ?thesis using True len Cons.prems by simp
    next
      case False
      let ?vm = "vm\<lparr>vm_program := take (num_opcodes vm) (vm_program vm) @ entry_words e @
        drop (num_opcodes vm + length (entry_words e)) (vm_program vm),
        num_opcodes := num_opcodes vm + length (entry_words e)\<rparr>"
      have "LoadProgram_loop (e # es) vm = LoadProgram_loop es ?vm"
        using True False load_entry_eq[of e vm] Cons.prems by simp
      then show ?thesis
        using Cons.IH[of ?vm] Cons.prems False True len by (simp add: add.assoc)
    qed
  qed
qed

lemma load_program_result:
  assumes "\<forall>e \<in> set entries. entry_wf e" "vm_arrays vm"
  shows "\<exists>vm'. LoadProgram entries vm =
      Ok (length (enabled_words entries) \<le> MaximumProgramOpcodeCount, vm') \<and> vm_arrays vm' \<and>
    take (num_opcodes vm') (vm_program vm') =
      (if length (enabled_words entries) \<le> MaximumProgramOpcodeCount then enabled_words entries else [])"
proof -
  let ?vm = "vm\<lparr>num_opcodes := 0\<rparr>"
  obtain vm' where 1: "LoadProgram entries vm = Ok (length (enabled_words entries) \<le> MaximumProgramOpcodeCount, vm')"
    "length (vm_program vm') = MaximumProgramOpcodeCount"
    "vm'\<lparr>vm_program := [], num_opcodes := 0\<rparr> = ?vm\<lparr>vm_program := [], num_opcodes := 0\<rparr>"
    "length (enabled_words entries) \<le> MaximumProgramOpcodeCount \<Longrightarrow>
       num_opcodes vm' = length (enabled_words entries) \<and>
       take (num_opcodes vm') (vm_program vm') = enabled_words entries"
    "\<not> length (enabled_words entries) \<le> MaximumProgramOpcodeCount \<Longrightarrow> num_opcodes vm' = 0"
    using LoadProgram_loop_eq[of entries ?vm] assms by (auto simp: LoadProgram_def vm_arrays_def)
  have same: "registers vm' = registers vm" "saved_values vm' = saved_values vm"
      "static_registers vm' = static_registers vm" "loop_tops vm' = loop_tops vm"
    using arg_cong[OF 1(3), of registers] arg_cong[OF 1(3), of saved_values]
      arg_cong[OF 1(3), of static_registers] arg_cong[OF 1(3), of loop_tops] by simp_all
  show ?thesis using 1(1,2,4,5) assms(2) same
    by (cases "length (enabled_words entries) \<le> MaximumProgramOpcodeCount") (auto simp: vm_arrays_def)
qed

text \<open>
  \<open>LoadProgram\<close> succeeds exactly when the enabled entries together fit in the program
  memory; the program is then the concatenation of the enabled entries' words in order, and
  otherwise the machine is left with an empty program. The machine keeps its array lengths.
\<close>

theorem cheat_load_program:
  assumes "\<forall>e \<in> set entries. entry_wf e" "vm_arrays vm"
  shows "\<exists>vm'. LoadProgram entries vm =
      Ok (length (enabled_words entries) \<le> MaximumProgramOpcodeCount, vm') \<and> vm_arrays vm' \<and>
    take (num_opcodes vm') (vm_program vm') =
      (if length (enabled_words entries) \<le> MaximumProgramOpcodeCount then enabled_words entries else [])"
  using assms by (rule load_program_result)

section \<open>Witnesses\<close>

lemma run_store:
  "case Execute flat_metadata (program_vm [0x04000000, 0x10, 0xDEADBEEF]) zero_env of
     Some (Ok (vm, e)) \<Rightarrow> env_mem e 0x8000010 = 0xEF \<and> env_mem e 0x8000013 = 0xDE | _ \<Rightarrow> False"
  by code_simp

theorem cheat_execution_safe_witness:
  "\<exists>vm' env'. Execute flat_metadata (program_vm [0x04000000, 0x10, 0xDEADBEEF]) zero_env = Some (Ok (vm', env')) \<and>
     vm_wf vm' \<and> env_mem env' 0x8000010 = 0xEF \<and>
     (\<forall>a. env_mem env' a \<noteq> 0 \<longrightarrow> (\<exists>b. IsAddressInRange flat_metadata b \<and> unat (a - b) < 8))"
proof -
  obtain vm' env' where r: "Execute flat_metadata (program_vm [0x04000000, 0x10, 0xDEADBEEF]) zero_env = Some (Ok (vm', env'))"
    "env_mem env' 0x8000010 = 0xEF"
    using run_store by (auto split: option.splits res.splits)
  have "vm_arrays (program_vm [0x04000000, 0x10, 0xDEADBEEF])"
    by (rule program_vm_arrays) (simp add: MaximumProgramOpcodeCount_def)
  from cheat_execution_safe[OF this r(1)] show ?thesis
    using r by (auto simp: zero_env_def)
qed

theorem cheat_opcode_undefined_iff_witness:
  "exec_opcode flat_metadata 0 \<lparr>begin_conditional_block = False, opcode = EndConditional True\<rparr>
     ((ResetState (program_vm [0x21000000]))\<lparr>instruction_ptr := 1\<rparr>) zero_env = UB"
proof -
  have "DecodeNextOpcode (ResetState (program_vm [0x21000000])) =
    (Some \<lparr>begin_conditional_block = False, opcode = EndConditional True\<rparr>,
     (ResetState (program_vm [0x21000000]))\<lparr>instruction_ptr := 1\<rparr>)"
    by (simp add: DecodeNextOpcode_def GetNextDword_def Let_def decode_instr_def opcode_type_of_def
        nib_def ResetState_def program_vm_def DmntCheatVm_new_def)
  from cheat_opcode_undefined_iff[OF this] show ?thesis
    by (simp add: hazard_def ResetState_def)
qed

definition nested_vm :: cheat_vm where
  "nested_vm = (ResetState (program_vm [0x80000001, 0x20000000, 0x20000000, 0x40000000, 0, 7]))
     \<lparr>condition_depth := 1\<rparr>"

lemma nested_stream:
  "stream_of nested_vm =
     [\<lparr>begin_conditional_block = True, opcode = BeginKeypressConditional 1\<rparr>,
      \<lparr>begin_conditional_block = False, opcode = EndConditional False\<rparr>] @
     \<lparr>begin_conditional_block = False, opcode = EndConditional False\<rparr> #
     [\<lparr>begin_conditional_block = False, opcode = LoadRegisterStatic 0 7\<rparr>]"
  by code_simp

theorem skip_conditional_block_correct_witness:
  "\<exists>vm'. SkipConditionalBlock True nested_vm = Ok vm' \<and>
     stream_of vm' = [\<lparr>begin_conditional_block = False, opcode = LoadRegisterStatic 0 7\<rparr>] \<and>
     condition_depth vm' = 0"
proof -
  have "balanced [\<lparr>begin_conditional_block = True, opcode = BeginKeypressConditional 1\<rparr>,
      \<lparr>begin_conditional_block = False, opcode = EndConditional False\<rparr>]"
    using balanced_if[of "\<lparr>begin_conditional_block = True, opcode = BeginKeypressConditional 1\<rparr>" "[]"
        "\<lparr>begin_conditional_block = False, opcode = EndConditional False\<rparr>" "[]"]
    by (simp add: balanced_Nil)
  from skip_conditional_block_correct[OF this nested_stream, of 0 True] show ?thesis
    by (simp add: nested_vm_def)
qed

theorem cheat_execution_terminates_witness:
  "\<exists>r. Execute flat_metadata (program_vm [0x80000001, 0x04000000, 0x10, 7, 0x20000000]) zero_env = Some r"
proof (rule cheat_execution_terminates)
  show "\<forall>op \<in> set (stream_of (ResetState (program_vm [0x80000001, 0x04000000, 0x10, 7, 0x20000000]))).
    \<not> loop_end (opcode op)"
    by code_simp
qed

theorem cheat_memory_roundtrip_witness:
  "read_width flat_metadata (write_width flat_metadata 0x8000010 0x12345 2 zero_env) 0x8000010 0 2 = 0x2345"
  using cheat_memory_roundtrip[of 2 flat_metadata "0x8000010" zero_env "0x12345"]
  by (simp add: valid_width_def IsAddressInRange_def in_extents_def flat_metadata_def zero_env_def GetVmInt_def
      AddressSpaceContains_def)

definition byte_add :: arithmetic_register where
  "byte_add = \<lparr>par_bit_width = 1, par_math_type = Addition, par_dst_reg_index = 2, par_src_reg_1_index = 0,
     par_src_reg_2_index = 0, par_has_immediate = True, par_value = 0xFF\<rparr>"

theorem cheat_arithmetic_modulo_witness:
  "\<exists>vm'. exec_PerformArithmeticRegister byte_add (program_vm []\<lparr>registers := replicate NumRegisters 2\<rparr>) = Ok vm' \<and>
     uint (registers vm' ! 2) = 1"
proof -
  let ?vm = "program_vm []\<lparr>registers := replicate NumRegisters 2\<rparr>"
  obtain vm' where r: "exec_PerformArithmeticRegister byte_add ?vm = Ok vm'"
    by (simp add: exec_PerformArithmeticRegister_def byte_add_def arith_register_def)
  have w: "valid_width (par_bit_width byte_add)" by (simp add: byte_add_def valid_width_def)
  have i: "par_dst_reg_index byte_add < NumRegisters" by (simp add: byte_add_def NumRegisters_def)
  have "length (registers ?vm) = NumRegisters" by simp
  from cheat_arithmetic_modulo[OF r w this i] show ?thesis
    using r by (simp add: byte_add_def GetVmInt_def NumRegisters_def)
qed

definition two_entries :: "cheat_entry list" where
  "two_entries =
     [\<lparr>ce_enabled = True, ce_cheat_id = 0,
       ce_definition = \<lparr>cd_readable_name = ''a'', cd_num_opcodes = 2, cd_opcodes = [1, 2, 3]\<rparr>\<rparr>,
      \<lparr>ce_enabled = False, ce_cheat_id = 1,
       ce_definition = \<lparr>cd_readable_name = ''b'', cd_num_opcodes = 1, cd_opcodes = [9]\<rparr>\<rparr>,
      \<lparr>ce_enabled = True, ce_cheat_id = 2,
       ce_definition = \<lparr>cd_readable_name = ''c'', cd_num_opcodes = 1, cd_opcodes = [4]\<rparr>\<rparr>]"

theorem cheat_load_program_witness:
  "\<exists>vm'. LoadProgram two_entries DmntCheatVm_new = Ok (True, vm') \<and>
     take (num_opcodes vm') (vm_program vm') = [1, 2, 4]"
proof -
  have e: "\<forall>e \<in> set two_entries. entry_wf e" "enabled_words two_entries = [1, 2, 4]"
    by (simp_all add: two_entries_def entry_wf_def entry_words_def)
  have "vm_arrays DmntCheatVm_new" by (simp add: vm_arrays_def DmntCheatVm_new_def)
  from cheat_load_program[OF e(1) this] show ?thesis
    using e(2) by (auto simp: MaximumProgramOpcodeCount_def)
qed

end
