(* ===== verification/Cheat_Assembler.thy ===== *)
theory Cheat_Assembler
  imports Cheat_Execution
begin

text \<open>
  An assembler for the cheat machine, the inverse of the decoder of \<^verbatim>\<open>dmnt_cheat_vm.cpp\<close>: the words of
  every opcode in the layout that the code of \<open>DecodeNextOpcode\<close> reads, and the theorem that the decoder
  reads an assembled program back. The layouts in the decoder's comments agree except for two: the comment on
  \<open>ControlLoop\<close> puts the register into bits 16 to 19 (\<open>300R0000\<close>) where the code reads bits 20 to 23
  (\<open>30R00000\<close>), and the comment on \<open>ResumeProcess\<close> repeats \<open>FF0\<close>, the opcode of \<open>PauseProcess\<close>, where the code
  decodes \<open>FF1\<close>.
\<close>

section \<open>Assembling\<close>

fun digits16 :: "nat list \<Rightarrow> nat" where
  "digits16 [] = 0"
| "digits16 (d # ds) = d + 16 * digits16 ds"

primrec nibs_of :: "nat \<Rightarrow> nat \<Rightarrow> nat list" where
  "nibs_of 0 n = []"
| "nibs_of (Suc k) n = n mod 16 # nibs_of k (n div 16)"

lemma digits16_nibs_of: "digits16 (nibs_of k n @ ds) = n mod 16 ^ k + 16 ^ k * digits16 ds"
  by (induction k arbitrary: n) (auto simp: mod_mult2_eq algebra_simps)

lemma nibs_of_props: "length (nibs_of k n) = k" "\<forall>d \<in> set (nibs_of k n). d < 16"
  by (induction k arbitrary: n) auto

definition pack :: "nat list \<Rightarrow> u32" where
  "pack ds = of_nat (digits16 ds)"

lemma digits16_less: "\<forall>d \<in> set ds. d < 16 \<Longrightarrow> digits16 ds < 16 ^ length ds"
  by (induction ds) auto

lemma digits16_nth: "\<forall>d \<in> set ds. d < 16 \<Longrightarrow> i < length ds \<Longrightarrow> digits16 ds div 16 ^ i mod 16 = ds ! i"
proof (induction ds arbitrary: i)
  case (Cons d ds)
  show ?case
  proof (cases i)
    case (Suc j)
    have "digits16 (d # ds) div 16 ^ Suc j = (digits16 (d # ds) div 16) div 16 ^ j"
      by (metis div_mult2_eq power_Suc)
    then show ?thesis using Cons Suc by simp
  qed (use Cons in simp)
qed simp

lemma unat_pack: "\<forall>d \<in> set ds. d < 16 \<Longrightarrow> length ds = 8 \<Longrightarrow> unat (pack ds) = digits16 ds"
  using digits16_less[of ds] by (simp add: pack_def unsigned_of_nat take_bit_nat_eq_self)

lemma reg_of_pack:
  assumes "\<forall>d \<in> set ds. d < 16" "length ds = 8" "i < 8"
  shows "reg_of (pack ds) (4 * i) = ds ! i"
proof -
  have "(0xF :: u32) = mask 4" by (simp add: mask_eq_exp_minus_1)
  then have "reg_of (pack ds) (4 * i) = unat (take_bit 4 (drop_bit (4 * i) (pack ds)))"
    by (simp only: reg_of_def nib_def take_bit_eq_mask)
  also have "\<dots> = unat (pack ds) div 2 ^ (4 * i) mod 16"
    using unat_pack[OF assms(1,2)] digits16_less[OF assms(1)] assms(2)
    by (simp only: unsigned_take_bit_eq unsigned_drop_bit_eq) (simp add: take_bit_eq_mod drop_bit_eq_div)
  finally show ?thesis
    using digits16_nth[OF assms(1), of i] assms by (simp add: unat_pack power_mult)
qed

lemma reg_of_pack8 [simp]:
  assumes "a0 < 16" "a1 < 16" "a2 < 16" "a3 < 16" "a4 < 16" "a5 < 16" "a6 < 16" "a7 < 16"
  defines "w \<equiv> pack [a0, a1, a2, a3, a4, a5, a6, a7]"
  shows "reg_of w 0 = a0" "reg_of w 4 = a1" "reg_of w 8 = a2" "reg_of w 12 = a3" "reg_of w 16 = a4"
    "reg_of w 20 = a5" "reg_of w 24 = a6" "reg_of w 28 = a7"
  using reg_of_pack[of "[a0, a1, a2, a3, a4, a5, a6, a7]" 0] reg_of_pack[of "[a0, a1, a2, a3, a4, a5, a6, a7]" 1]
    reg_of_pack[of "[a0, a1, a2, a3, a4, a5, a6, a7]" 2] reg_of_pack[of "[a0, a1, a2, a3, a4, a5, a6, a7]" 3]
    reg_of_pack[of "[a0, a1, a2, a3, a4, a5, a6, a7]" 4] reg_of_pack[of "[a0, a1, a2, a3, a4, a5, a6, a7]" 5]
    reg_of_pack[of "[a0, a1, a2, a3, a4, a5, a6, a7]" 6] reg_of_pack[of "[a0, a1, a2, a3, a4, a5, a6, a7]" 7] assms(1-8)
  by (simp_all add: w_def)


lemma nib_reg_of: "nib w k = of_nat (reg_of w k)"
  by (simp add: reg_of_def)

lemma unat_bound: "unat (x :: 'a::len word) < 2 ^ LENGTH('a)"
  by (rule unsigned_less)

lemma unat_and_mask: "unat (x AND mask n :: 'a::len word) = unat x mod 2 ^ n"
proof -
  have "unat (take_bit n x) = take_bit n (unat x)" by (simp only: unsigned_take_bit_eq)
  then show ?thesis by (simp only: take_bit_eq_mask[symmetric]) (simp add: take_bit_eq_mod[where 'a = nat])
qed

lemma digits_mod:
  "a < 16 \<Longrightarrow> b < 16 \<Longrightarrow> (a + 16 * (b + 16 * c)) mod 256 = a + 16 * (b::nat)"
  "a < 16 \<Longrightarrow> (a + 16 * b) mod 16 = (a::nat)"
  "a < 16 \<Longrightarrow> (a + 16 * b) div 16 = (b::nat)"
proof -
  assume "a < 16" "b < 16"
  then have "(a + 16 * b + 256 * c) mod 256 = a + 16 * b" by (simp only: mod_mult_self2) simp
  then show "(a + 16 * (b + 16 * c)) mod 256 = a + 16 * b" by (simp add: algebra_simps)
qed simp_all

lemma pack_low:
  assumes "a0 < 16" "a1 < 16" "a2 < 16" "a3 < 16" "a4 < 16" "a5 < 16" "a6 < 16" "a7 < 16"
  shows "unat (pack [a0, a1, a2, a3, a4, a5, a6, a7] AND 0xFF) = a0 + 16 * a1"
    "unat (pack [a0, a1, a2, a3, a4, a5, a6, a7] AND 0xF) = a0"
    "unat (drop_bit 4 (pack [a0, a1, a2, a3, a4, a5, a6, a7]) AND 0xFF) = a1 + 16 * a2"
proof -
  let ?w = "pack [a0, a1, a2, a3, a4, a5, a6, a7]"
  have m: "(0xFF :: u32) = mask 8" "(0xF :: u32) = mask 4" by (simp_all add: mask_eq_exp_minus_1)
  have "unat ?w = digits16 [a0, a1, a2, a3, a4, a5, a6, a7]" using assms by (intro unat_pack) simp_all
  then obtain r where u: "unat ?w = a0 + 16 * (a1 + 16 * (a2 + 16 * r))" by (simp only: digits16.simps)
  have "unat (?w AND 0xFF) = unat ?w mod 256" "unat (?w AND 0xF) = unat ?w mod 16"
    by (simp_all only: m unat_and_mask) simp_all
  moreover have "unat (drop_bit 4 ?w AND 0xFF) = unat ?w div 16 mod 256"
    using unat_bound[of ?w] by (simp only: m unat_and_mask unsigned_drop_bit_eq) (simp add: drop_bit_eq_div take_bit_nat_eq_self)
  ultimately show "unat (?w AND 0xFF) = a0 + 16 * a1" "unat (?w AND 0xF) = a0"
    "unat (drop_bit 4 ?w AND 0xFF) = a1 + 16 * a2"
    using assms by (simp_all only: u digits_mod)
qed


text \<open>The numbers of the enumerations.\<close>

fun access_code :: "memory_access \<Rightarrow> nat" where
  "access_code MainNso = 0" | "access_code Heap = 1" | "access_code Alias = 2" | "access_code Aslr = 3"
| "access_code Access_other = 4"

fun comparison_code :: "comparison \<Rightarrow> nat" where
  "comparison_code CmpGT = 1" | "comparison_code CmpGE = 2" | "comparison_code CmpLT = 3"
| "comparison_code CmpLE = 4" | "comparison_code CmpEQ = 5" | "comparison_code CmpNE = 6"
| "comparison_code Cmp_other = 0"

fun arith_code :: "reg_arith \<Rightarrow> nat" where
  "arith_code Addition = 0" | "arith_code Subtraction = 1" | "arith_code Multiplication = 2"
| "arith_code LeftShift = 3" | "arith_code RightShift = 4" | "arith_code LogicalAnd = 5"
| "arith_code LogicalOr = 6" | "arith_code LogicalNot = 7" | "arith_code LogicalXor = 8"
| "arith_code ArithNone = 9" | "arith_code Arith_other = 10"

fun offset_code :: "offset_type \<Rightarrow> nat" where
  "offset_code OfsNone = 0" | "offset_code OfsReg = 1" | "offset_code OfsImm = 2"
| "offset_code OfsMemReg = 3" | "offset_code OfsMemImm = 4" | "offset_code OfsMemImmReg = 5"

fun compare_code :: "compare_type \<Rightarrow> nat" where
  "compare_code CmpMemoryRelAddr = 0" | "compare_code CmpMemoryOfsReg = 1"
| "compare_code CmpRegisterRelAddr = 2" | "compare_code CmpRegisterOfsReg = 3"
| "compare_code CmpStaticValue = 4" | "compare_code CmpOtherRegister = 5" | "compare_code CmpType_other = 6"

fun save_restore_code :: "save_restore \<Rightarrow> nat" where
  "save_restore_code SrRestore = 0" | "save_restore_code SrSave = 1" | "save_restore_code SrClearSaved = 2"
| "save_restore_code SrClearRegs = 3" | "save_restore_code Sr_other = 4"

fun log_code :: "log_type \<Rightarrow> nat" where
  "log_code LogMemoryRelAddr = 0" | "log_code LogMemoryOfsReg = 1" | "log_code LogRegisterRelAddr = 2"
| "log_code LogRegisterOfsReg = 3" | "log_code LogRegisterValue = 4" | "log_code Log_other = 5"

lemma access_code [simp]: "access_code a < 16" "MemoryAccessType (of_nat (access_code a)) = a"
  by (cases a; simp add: MemoryAccessType_def)+

lemma comparison_code [simp]: "comparison_code c < 16" "ConditionalComparisonType (of_nat (comparison_code c)) = c"
  by (cases c; simp add: ConditionalComparisonType_def)+

lemma arith_code [simp]: "arith_code t < 16" "RegisterArithmeticType (of_nat (arith_code t)) = t"
  by (cases t; simp add: RegisterArithmeticType_def)+

lemma offset_code [simp]: "offset_code x < 16" "StoreRegisterOffsetType (of_nat (offset_code x)) = x"
  by (cases x; simp add: StoreRegisterOffsetType_def)+

lemma compare_code [simp]: "compare_code k < 16" "CompareRegisterValueType (of_nat (compare_code k)) = k"
  by (cases k; simp add: CompareRegisterValueType_def)+

lemma save_restore_code [simp]: "save_restore_code s < 16" "SaveRestoreRegisterOpType (of_nat (save_restore_code s)) = s"
  by (cases s; simp add: SaveRestoreRegisterOpType_def)+

lemma log_code [simp]: "log_code l < 16" "DebugLogValueType (of_nat (log_code l)) = l"
  by (cases l; simp add: DebugLogValueType_def)+

text \<open>Immediates: the halves of a 64-bit value, and the bits of an address above the low word.\<close>

definition lo32 :: "u64 \<Rightarrow> u32" where "lo32 v = ucast v"
definition hi32 :: "u64 \<Rightarrow> u32" where "hi32 v = ucast (drop_bit 32 v)"

definition imm_words :: "nat \<Rightarrow> u64 \<Rightarrow> u32 list" where
  "imm_words w v = (if w = 8 then [hi32 v, lo32 v] else [lo32 v])"

definition imm_fits :: "nat \<Rightarrow> u64 \<Rightarrow> bool" where
  "imm_fits w v \<longleftrightarrow> (if valid_width w then unat v < 2 ^ (8 * w) else v = 0)"

definition high_nibs :: "u64 \<Rightarrow> nat" where "high_nibs a = unat a div 2 ^ 32"

lemma hi_lo: "push_bit 32 (ucast (hi32 v)) OR ucast (lo32 v) = v"
  by (rule bit_word_eqI) (auto simp: hi32_def lo32_def bit_simps dest: bit_imp_le_length)

lemma rel_address:
  assumes "a0 < 16" "a1 < 16" "a2 < 16" "a3 < 16" "a4 < 16" "a5 < 16" "a6 < 16" "a7 < 16"
  shows "high_nibs a = a0 + 16 * a1 \<Longrightarrow> rel_address_8 (pack [a0, a1, a2, a3, a4, a5, a6, a7]) (lo32 a) = a"
    "high_nibs a = a0 \<Longrightarrow> rel_address_4 (pack [a0, a1, a2, a3, a4, a5, a6, a7]) (lo32 a) = a"
proof -
  have *: "push_bit 32 (ucast x) OR ucast (lo32 a) = a" if "unat x = high_nibs a" for x :: u32
  proof -
    have "unat (drop_bit 32 a) = unat x"
      using that unat_bound[of a] by (simp add: high_nibs_def drop_bit_eq_div unat_div_distrib)
    then have "drop_bit 32 a = ucast x"
      by (simp add: word_unat_eq_iff unat_ucast_up)
    moreover have "push_bit 32 (drop_bit 32 a) OR ucast (lo32 a) = a"
      by (rule bit_word_eqI) (auto simp: lo32_def bit_simps)
    ultimately show ?thesis by (simp only:)
  qed
  show "high_nibs a = a0 + 16 * a1 \<Longrightarrow> rel_address_8 (pack [a0, a1, a2, a3, a4, a5, a6, a7]) (lo32 a) = a"
    "high_nibs a = a0 \<Longrightarrow> rel_address_4 (pack [a0, a1, a2, a3, a4, a5, a6, a7]) (lo32 a) = a"
    using pack_low[OF assms] by (simp_all add: rel_address_8_def rel_address_4_def *)
qed

text \<open>The assembler: the words that the code of the decoder reads for each opcode.\<close>

definition store_register_low :: "store_register \<Rightarrow> nat \<times> nat" where
  "store_register_low o' =
     (sr_ofs_reg_index o',
      case sr_ofs_type o' of OfsNone \<Rightarrow> 0 | OfsReg \<Rightarrow> 0 | OfsMemReg \<Rightarrow> 0 | _ \<Rightarrow> high_nibs (sr_rel_address o'))"

definition store_register_tail :: "store_register \<Rightarrow> u32 list" where
  "store_register_tail o' =
     (case sr_ofs_type o' of OfsNone \<Rightarrow> [] | OfsReg \<Rightarrow> [] | OfsMemReg \<Rightarrow> [] | _ \<Rightarrow> [lo32 (sr_rel_address o')])"

definition register_conditional_low :: "register_conditional \<Rightarrow> nat \<times> nat" where
  "register_conditional_low o' =
     (case brc_comp_type o' of
        CmpMemoryRelAddr \<Rightarrow> (access_code (brc_mem_type o'), high_nibs (brc_rel_address o'))
      | CmpMemoryOfsReg \<Rightarrow> (access_code (brc_mem_type o'), brc_ofs_reg_index o')
      | CmpRegisterRelAddr \<Rightarrow> (brc_addr_reg_index o', high_nibs (brc_rel_address o'))
      | CmpRegisterOfsReg \<Rightarrow> (brc_addr_reg_index o', brc_ofs_reg_index o')
      | CmpOtherRegister \<Rightarrow> (brc_other_reg_index o', 0)
      | _ \<Rightarrow> (0, 0))"

definition register_conditional_tail :: "register_conditional \<Rightarrow> u32 list" where
  "register_conditional_tail o' =
     (case brc_comp_type o' of
        CmpMemoryRelAddr \<Rightarrow> [lo32 (brc_rel_address o')]
      | CmpRegisterRelAddr \<Rightarrow> [lo32 (brc_rel_address o')]
      | CmpStaticValue \<Rightarrow> imm_words (brc_bit_width o') (brc_value o')
      | _ \<Rightarrow> [])"

definition debug_log_low :: "debug_log \<Rightarrow> nat \<times> nat" where
  "debug_log_low o' =
     (case dl_val_type o' of
        LogMemoryRelAddr \<Rightarrow> (access_code (dl_mem_type o'), high_nibs (dl_rel_address o'))
      | LogMemoryOfsReg \<Rightarrow> (access_code (dl_mem_type o'), dl_ofs_reg_index o')
      | LogRegisterRelAddr \<Rightarrow> (dl_addr_reg_index o', high_nibs (dl_rel_address o'))
      | LogRegisterOfsReg \<Rightarrow> (dl_addr_reg_index o', dl_ofs_reg_index o')
      | LogRegisterValue \<Rightarrow> (dl_val_reg_index o', 0)
      | Log_other \<Rightarrow> (0, 0))"

definition debug_log_tail :: "debug_log \<Rightarrow> u32 list" where
  "debug_log_tail o' =
     (case dl_val_type o' of LogMemoryRelAddr \<Rightarrow> [lo32 (dl_rel_address o')]
      | LogRegisterRelAddr \<Rightarrow> [lo32 (dl_rel_address o')] | _ \<Rightarrow> [])"

definition mask_nib :: "bool list \<Rightarrow> nat \<Rightarrow> nat" where
  "mask_nib bs i = of_bool (bs ! (4 * i)) + 2 * of_bool (bs ! (4 * i + 1)) +
     4 * of_bool (bs ! (4 * i + 2)) + 8 * of_bool (bs ! (4 * i + 3))"

fun encode_instr :: "cheat_instr \<Rightarrow> u32 list" where
  "encode_instr (StoreStatic o') =
     pack [high_nibs (ss_rel_address o') mod 16, high_nibs (ss_rel_address o') div 16, 0, 0,
       ss_offset_register o', access_code (ss_mem_type o'), ss_bit_width o', 0] #
     lo32 (ss_rel_address o') # imm_words (ss_bit_width o') (ss_value o')"
| "encode_instr (BeginConditional o') =
     pack [high_nibs (bc_rel_address o') mod 16, high_nibs (bc_rel_address o') div 16, 0, 0,
       comparison_code (bc_cond_type o'), access_code (bc_mem_type o'), bc_bit_width o', 1] #
     lo32 (bc_rel_address o') # imm_words (bc_bit_width o') (bc_value o')"
| "encode_instr (EndConditional is_else) = [pack [0, 0, 0, 0, 0, 0, of_bool is_else, 2]]"
| "encode_instr (ControlLoop start_loop r n) =
     (if start_loop then [pack [0, 0, 0, 0, 0, r, 0, 3], n] else [pack [0, 0, 0, 0, 0, r, 1, 3]])"
| "encode_instr (LoadRegisterStatic r v) = [pack [0, 0, 0, 0, r, 0, 0, 4], hi32 v, lo32 v]"
| "encode_instr (LoadRegisterMemory o') =
     [pack [high_nibs (lrm_rel_address o') mod 16, high_nibs (lrm_rel_address o') div 16, 0,
        of_bool (lrm_load_from_reg o'), lrm_reg_index o', access_code (lrm_mem_type o'), lrm_bit_width o', 5],
      lo32 (lrm_rel_address o')]"
| "encode_instr (StoreStaticToAddress o') =
     [pack [0, ssa_offset_reg_index o', of_bool (ssa_add_offset_reg o'), of_bool (ssa_increment_reg o'),
        ssa_reg_index o', 0, ssa_bit_width o', 6], hi32 (ssa_value o'), lo32 (ssa_value o')]"
| "encode_instr (PerformArithmeticStatic o') =
     [pack [0, 0, 0, arith_code (pas_math_type o'), pas_reg_index o', 0, pas_bit_width o', 7], pas_value o']"
| "encode_instr (BeginKeypressConditional key_mask) =
     [pack (nibs_of 7 (unat key_mask) @ [8])]"
| "encode_instr (PerformArithmeticRegister o') =
     pack [0, par_src_reg_2_index o', of_bool (par_has_immediate o'), par_src_reg_1_index o',
       par_dst_reg_index o', arith_code (par_math_type o'), par_bit_width o', 9] #
     (if par_has_immediate o' then imm_words (par_bit_width o') (par_value o') else [])"
| "encode_instr (StoreRegisterToAddress o') =
     pack [snd (store_register_low o'), fst (store_register_low o'), offset_code (sr_ofs_type o'),
       of_bool (sr_increment_reg o'), sr_addr_reg_index o', sr_str_reg_index o', sr_bit_width o', 10] #
     store_register_tail o'"
| "encode_instr (BeginRegisterConditional o') =
     pack [snd (register_conditional_low o'), fst (register_conditional_low o'),
       compare_code (brc_comp_type o'), brc_val_reg_index o', comparison_code (brc_cond_type o'),
       brc_bit_width o', 0, 12] # register_conditional_tail o'"
| "encode_instr (SaveRestoreRegister d s t) =
     [pack [0, save_restore_code t, s, 0, d, 0, 1, 12]]"
| "encode_instr (SaveRestoreRegisterMask t bs) =
     [pack [mask_nib bs 0, mask_nib bs 1, mask_nib bs 2, mask_nib bs 3, 0, save_restore_code t, 2, 12]]"
| "encode_instr (ReadWriteStaticRegister si i) = [pack [i, si mod 16, si div 16, 0, 0, 0, 3, 12]]"
| "encode_instr PauseProcess = [pack [0, 0, 0, 0, 0, 0, 15, 15]]"
| "encode_instr ResumeProcess = [pack [0, 0, 0, 0, 0, 1, 15, 15]]"
| "encode_instr (DebugLog o') =
     pack [snd (debug_log_low o'), fst (debug_log_low o'), log_code (dl_val_type o'),
       unat (dl_log_id o'), dl_bit_width o', 15, 15, 15] # debug_log_tail o'"
| "encode_instr (UnrecognizedInstruction t) = []"

text \<open>An instruction that the words can express: fields in their ranges, unused fields zero.\<close>

fun encodable :: "cheat_instr \<Rightarrow> bool" where
  "encodable (StoreStatic o') \<longleftrightarrow> ss_bit_width o' < 16 \<and> ss_offset_register o' < 16 \<and>
     high_nibs (ss_rel_address o') < 256 \<and> imm_fits (ss_bit_width o') (ss_value o')"
| "encodable (BeginConditional o') \<longleftrightarrow> bc_bit_width o' < 16 \<and> high_nibs (bc_rel_address o') < 256 \<and>
     imm_fits (bc_bit_width o') (bc_value o')"
| "encodable (EndConditional is_else) \<longleftrightarrow> True"
| "encodable (ControlLoop start_loop r n) \<longleftrightarrow> r < 16 \<and> (start_loop \<or> n = 0)"
| "encodable (LoadRegisterStatic r v) \<longleftrightarrow> r < 16"
| "encodable (LoadRegisterMemory o') \<longleftrightarrow> lrm_bit_width o' < 16 \<and> lrm_reg_index o' < 16 \<and>
     high_nibs (lrm_rel_address o') < 256"
| "encodable (StoreStaticToAddress o') \<longleftrightarrow> ssa_bit_width o' < 16 \<and> ssa_reg_index o' < 16 \<and>
     ssa_offset_reg_index o' < 16"
| "encodable (PerformArithmeticStatic o') \<longleftrightarrow> pas_bit_width o' < 16 \<and> pas_reg_index o' < 16"
| "encodable (BeginKeypressConditional key_mask) \<longleftrightarrow> unat key_mask < 16 ^ 7"
| "encodable (PerformArithmeticRegister o') \<longleftrightarrow> par_bit_width o' < 16 \<and> par_dst_reg_index o' < 16 \<and>
     par_src_reg_1_index o' < 16 \<and>
     (if par_has_immediate o' then par_src_reg_2_index o' = 0 \<and> imm_fits (par_bit_width o') (par_value o')
      else par_src_reg_2_index o' < 16 \<and> par_value o' = 0)"
| "encodable (StoreRegisterToAddress o') \<longleftrightarrow> sr_bit_width o' < 16 \<and> sr_str_reg_index o' < 16 \<and>
     sr_addr_reg_index o' < 16 \<and> sr_ofs_reg_index o' < 16 \<and> high_nibs (sr_rel_address o') < 16 \<and>
     sr_mem_type o' = (if sr_ofs_type o' \<in> {OfsMemReg, OfsMemImm, OfsMemImmReg}
       then MemoryAccessType (of_nat (sr_ofs_reg_index o')) else MainNso) \<and>
     (sr_ofs_type o' \<in> {OfsNone, OfsReg, OfsMemReg} \<longrightarrow> sr_rel_address o' = 0)"
| "encodable (BeginRegisterConditional o') \<longleftrightarrow> brc_bit_width o' < 16 \<and> brc_val_reg_index o' < 16 \<and>
     brc_addr_reg_index o' < 16 \<and> brc_other_reg_index o' < 16 \<and> brc_ofs_reg_index o' < 16 \<and>
     high_nibs (brc_rel_address o') < 16 \<and>
     (brc_comp_type o' \<notin> {CmpMemoryRelAddr, CmpMemoryOfsReg} \<longrightarrow> brc_mem_type o' = MainNso) \<and>
     (brc_comp_type o' \<notin> {CmpRegisterRelAddr, CmpRegisterOfsReg} \<longrightarrow> brc_addr_reg_index o' = 0) \<and>
     (brc_comp_type o' \<noteq> CmpOtherRegister \<longrightarrow> brc_other_reg_index o' = 0) \<and>
     (brc_comp_type o' \<notin> {CmpMemoryOfsReg, CmpRegisterOfsReg} \<longrightarrow> brc_ofs_reg_index o' = 0) \<and>
     (brc_comp_type o' \<notin> {CmpMemoryRelAddr, CmpRegisterRelAddr} \<longrightarrow> brc_rel_address o' = 0) \<and>
     (if brc_comp_type o' = CmpStaticValue then imm_fits (brc_bit_width o') (brc_value o') else brc_value o' = 0)"
| "encodable (SaveRestoreRegister d s t) \<longleftrightarrow> d < 16 \<and> s < 16"
| "encodable (SaveRestoreRegisterMask t bs) \<longleftrightarrow> length bs = 16"
| "encodable (ReadWriteStaticRegister si i) \<longleftrightarrow> si < 256 \<and> i < 16"
| "encodable PauseProcess \<longleftrightarrow> True"
| "encodable ResumeProcess \<longleftrightarrow> True"
| "encodable (DebugLog o') \<longleftrightarrow> dl_bit_width o' < 16 \<and> unat (dl_log_id o') < 16 \<and>
     dl_addr_reg_index o' < 16 \<and> dl_val_reg_index o' < 16 \<and> dl_ofs_reg_index o' < 16 \<and>
     high_nibs (dl_rel_address o') < 16 \<and>
     (dl_val_type o' \<notin> {LogMemoryRelAddr, LogMemoryOfsReg} \<longrightarrow> dl_mem_type o' = MainNso) \<and>
     (dl_val_type o' \<notin> {LogRegisterRelAddr, LogRegisterOfsReg} \<longrightarrow> dl_addr_reg_index o' = 0) \<and>
     (dl_val_type o' \<noteq> LogRegisterValue \<longrightarrow> dl_val_reg_index o' = 0) \<and>
     (dl_val_type o' \<notin> {LogMemoryOfsReg, LogRegisterOfsReg} \<longrightarrow> dl_ofs_reg_index o' = 0) \<and>
     (dl_val_type o' \<notin> {LogMemoryRelAddr, LogRegisterRelAddr} \<longrightarrow> dl_rel_address o' = 0)"
| "encodable (UnrecognizedInstruction t) \<longleftrightarrow> False"

text \<open>Words that lie in the program at an address.\<close>

fun code_at :: "cheat_vm \<Rightarrow> nat \<Rightarrow> u32 list \<Rightarrow> bool" where
  "code_at vm ip [] \<longleftrightarrow> True"
| "code_at vm ip (w # ws) \<longleftrightarrow> ip < num_opcodes vm \<and> vm_program vm ! ip = w \<and> code_at vm (Suc ip) ws"

lemma code_at_append: "code_at vm ip (xs @ ys) \<longleftrightarrow> code_at vm ip xs \<and> code_at vm (ip + length xs) ys"
  by (induction xs arbitrary: ip) auto

lemma next_dword:
  "code_at vm ip (w # ws) \<Longrightarrow> GetNextDword vm (True, ip) = (w, (True, Suc ip))"
  by (simp add: GetNextDword_def)

lemma next_qword:
  "code_at vm ip [hi32 v, lo32 v] \<Longrightarrow> GetNextQword vm (True, ip) = (v, (True, Suc (Suc ip)))"
  by (simp add: GetNextQword_def GetNextDword_def hi_lo)

lemma imm_low:
  "unat v < 2 ^ 8 \<Longrightarrow> ucast (ucast (lo32 v) :: u8) = v"
  "unat v < 2 ^ 16 \<Longrightarrow> ucast (ucast (lo32 v) :: u16) = v"
  "unat v < 2 ^ 32 \<Longrightarrow> ucast (lo32 v) = v"
proof -
  have *: "v = take_bit n v" if "unat v < 2 ^ n" for n
    using that by (simp add: word_unat_eq_iff unsigned_take_bit_eq take_bit_nat_eq_self)
  show "unat v < 2 ^ 8 \<Longrightarrow> ucast (ucast (lo32 v) :: u8) = v"
    by (subst (2) *[of 8], simp) (auto intro!: bit_word_eqI simp: lo32_def bit_simps)
  show "unat v < 2 ^ 16 \<Longrightarrow> ucast (ucast (lo32 v) :: u16) = v"
    by (subst (2) *[of 16], simp) (auto intro!: bit_word_eqI simp: lo32_def bit_simps)
  show "unat v < 2 ^ 32 \<Longrightarrow> ucast (lo32 v) = v"
    by (subst (2) *[of 32], simp) (auto intro!: bit_word_eqI simp: lo32_def bit_simps)
qed

lemma next_vm_int:
  "code_at vm ip (imm_words w v) \<Longrightarrow> imm_fits w v \<Longrightarrow>
     GetNextVmInt vm w (True, ip) = (v, (True, ip + length (imm_words w v)))"
  by (auto simp: GetNextVmInt_def imm_words_def imm_fits_def valid_width_def GetNextDword_def hi_lo imm_low
      split: if_splits)

lemma opcode_type_low: "reg_of w 28 < 12 \<Longrightarrow> opcode_type_of w = of_nat (reg_of w 28)"
  by (simp add: opcode_type_of_def nib_reg_of word_le_nat_alt unsigned_of_nat take_bit_nat_eq_self)

lemma opcode_type_pack [simp]:
  assumes "a0 < 16" "a1 < 16" "a2 < 16" "a3 < 16" "a4 < 16"
  shows "a5 < 16 \<Longrightarrow> a6 < 16 \<Longrightarrow> n < 12 \<Longrightarrow> opcode_type_of (pack [a0, a1, a2, a3, a4, a5, a6, n]) = of_nat n"
    "a5 < 16 \<Longrightarrow> n < 4 \<Longrightarrow> opcode_type_of (pack [a0, a1, a2, a3, a4, a5, n, 12]) = 0xC0 + of_nat n"
    "opcode_type_of (pack [a0, a1, a2, a3, a4, 0, 15, 15]) = 0xFF0"
    "opcode_type_of (pack [a0, a1, a2, a3, a4, Suc 0, 15, 15]) = 0xFF1"
    "opcode_type_of (pack [a0, a1, a2, a3, a4, 15, 15, 15]) = 0xFFF"
proof -
  show "a5 < 16 \<Longrightarrow> a6 < 16 \<Longrightarrow> n < 12 \<Longrightarrow> opcode_type_of (pack [a0, a1, a2, a3, a4, a5, a6, n]) = of_nat n"
    using assms by (simp add: opcode_type_low)
  show "opcode_type_of (pack [a0, a1, a2, a3, a4, a5, n, 12]) = 0xC0 + of_nat n" if "n < 4" "a5 < 16"
  proof -
    consider "n = 0" | "n = 1" | "n = 2" | "n = 3" using \<open>n < 4\<close> by linarith
    then show ?thesis using assms that by cases (simp_all add: opcode_type_of_def nib_reg_of)
  qed
  show "opcode_type_of (pack [a0, a1, a2, a3, a4, 0, 15, 15]) = 0xFF0"
    "opcode_type_of (pack [a0, a1, a2, a3, a4, Suc 0, 15, 15]) = 0xFF1"
    "opcode_type_of (pack [a0, a1, a2, a3, a4, 15, 15, 15]) = 0xFFF"
    using assms by (simp_all add: opcode_type_of_def nib_reg_of)
qed

lemma nib_flag [simp]: "of_nat (of_bool b) = (0::u32) \<longleftrightarrow> \<not> b" "of_nat (of_bool b) = (1::u32) \<longleftrightarrow> b"
  by (cases b; simp)+

lemma high_nibs_split [simp]: "n < 256 \<Longrightarrow> n div 16 < (16::nat)" "n mod 16 + 16 * (n div 16) = (n::nat)"
  by simp_all

lemmas decode_encode_simps =
  decode_instr_def decode_defs GetNextDword_def nib_reg_of rel_address unsigned_of_nat take_bit_nat_eq_self Let_def

definition decodes_back :: "cheat_vm \<Rightarrow> nat \<Rightarrow> cheat_instr \<Rightarrow> bool" where
  "decodes_back vm ip i \<longleftrightarrow>
     decode_instr vm (hd (encode_instr i)) (True, Suc ip) = (i, True, ip + length (encode_instr i))"

lemma back_static:
  "encodable (StoreStatic o1) \<Longrightarrow> code_at vm ip (encode_instr (StoreStatic o1)) \<Longrightarrow> decodes_back vm ip (StoreStatic o1)"
  "encodable (BeginConditional o2) \<Longrightarrow> code_at vm ip (encode_instr (BeginConditional o2)) \<Longrightarrow>
     decodes_back vm ip (BeginConditional o2)"
  using next_vm_int[of vm "Suc (Suc ip)" "ss_bit_width o1" "ss_value o1"]
    next_vm_int[of vm "Suc (Suc ip)" "bc_bit_width o2" "bc_value o2"]
  by (cases o1, simp add: decodes_back_def decode_encode_simps, cases o2, simp add: decodes_back_def decode_encode_simps)

lemma back_simple:
  "decodes_back vm ip (EndConditional e)" "decodes_back vm ip PauseProcess" "decodes_back vm ip ResumeProcess"
  "encodable (SaveRestoreRegister d s t) \<Longrightarrow> decodes_back vm ip (SaveRestoreRegister d s t)"
  "encodable (ControlLoop st r n) \<Longrightarrow> code_at vm ip (encode_instr (ControlLoop st r n)) \<Longrightarrow>
     decodes_back vm ip (ControlLoop st r n)"
  "encodable (LoadRegisterStatic r v) \<Longrightarrow> code_at vm ip (encode_instr (LoadRegisterStatic r v)) \<Longrightarrow>
     decodes_back vm ip (LoadRegisterStatic r v)"
  "encodable (ReadWriteStaticRegister si r) \<Longrightarrow> decodes_back vm ip (ReadWriteStaticRegister si r)"
  using next_qword[of vm "Suc ip" v]
  by (cases st; simp add: decodes_back_def decode_encode_simps pack_low)+


lemma back_records:
  "encodable (LoadRegisterMemory o1) \<Longrightarrow> code_at vm ip (encode_instr (LoadRegisterMemory o1)) \<Longrightarrow>
     decodes_back vm ip (LoadRegisterMemory o1)"
  "encodable (StoreStaticToAddress o2) \<Longrightarrow> code_at vm ip (encode_instr (StoreStaticToAddress o2)) \<Longrightarrow>
     decodes_back vm ip (StoreStaticToAddress o2)"
  "encodable (PerformArithmeticStatic o3) \<Longrightarrow> code_at vm ip (encode_instr (PerformArithmeticStatic o3)) \<Longrightarrow>
     decodes_back vm ip (PerformArithmeticStatic o3)"
  using next_qword[of vm "Suc ip" "ssa_value o2"]
  by (cases o1, simp add: decodes_back_def decode_encode_simps, cases o2, simp add: decodes_back_def decode_encode_simps,
      cases o3, simp add: decodes_back_def decode_encode_simps)

lemma back_arith:
  "encodable (PerformArithmeticRegister o') \<Longrightarrow> code_at vm ip (encode_instr (PerformArithmeticRegister o')) \<Longrightarrow>
     decodes_back vm ip (PerformArithmeticRegister o')"
  using next_vm_int[of vm "Suc ip" "par_bit_width o'" "par_value o'"]
  by (cases o'; cases "par_has_immediate o'") (simp_all add: decodes_back_def decode_encode_simps)

lemma back_store:
  "encodable (StoreRegisterToAddress o') \<Longrightarrow> code_at vm ip (encode_instr (StoreRegisterToAddress o')) \<Longrightarrow>
     decodes_back vm ip (StoreRegisterToAddress o')"
  by (cases o'; cases "sr_ofs_type o'")
    (simp_all add: decodes_back_def decode_encode_simps store_register_low_def store_register_tail_def
      StoreRegisterOffsetType_def)

lemma back_compare:
  "encodable (BeginRegisterConditional o') \<Longrightarrow> code_at vm ip (encode_instr (BeginRegisterConditional o')) \<Longrightarrow>
     decodes_back vm ip (BeginRegisterConditional o')"
  using next_vm_int[of vm "Suc ip" "brc_bit_width o'" "brc_value o'"]
  by (cases o'; cases "brc_comp_type o'")
    (simp_all add: decodes_back_def decode_encode_simps register_conditional_low_def register_conditional_tail_def
      CompareRegisterValueType_def)

lemma back_log:
  "encodable (DebugLog o') \<Longrightarrow> code_at vm ip (encode_instr (DebugLog o')) \<Longrightarrow> decodes_back vm ip (DebugLog o')"
  by (cases o'; cases "dl_val_type o'")
    (simp_all add: decodes_back_def decode_encode_simps debug_log_low_def debug_log_tail_def DebugLogValueType_def)

lemma back_keypress:
  assumes "encodable (BeginKeypressConditional k)"
  shows "decodes_back vm ip (BeginKeypressConditional k)"
proof -
  let ?w = "pack (nibs_of 7 (unat k) @ [8])"
  have "unat ?w = unat k + 16 ^ 7 * 8"
    using assms nibs_of_props[of 7 "unat k"] by (subst unat_pack) (auto simp: digits16_nibs_of)
  moreover have "(0x0FFFFFFF :: u32) = mask 28" by (simp add: mask_eq_exp_minus_1)
  ultimately have "unat (?w AND 0x0FFFFFFF) = unat k"
    using assms mod_mult_self1[of "unat k" 8 "2 ^ 28"] by (simp only: unat_and_mask) simp
  then have "?w AND 0x0FFFFFFF = k" by (simp add: word_unat_eq_iff)
  moreover have "opcode_type_of ?w = 8"
    using reg_of_pack[of "nibs_of 7 (unat k) @ [8]" 7] nibs_of_props[of 7 "unat k"] opcode_type_low[of ?w]
    by (auto simp: nth_append)
  ultimately show ?thesis by (simp add: decodes_back_def decode_instr_def)
qed

lemma bit_nib: "k < 4 \<Longrightarrow> bit w (4 * j + k) = bit (nib w (4 * j)) k"
  by (auto simp: nib_def bit_simps numeral_eq_Suc less_Suc_eq)

lemma bit_four:
  "bit (of_nat (of_bool a + 2 * of_bool b + 4 * of_bool c + 8 * of_bool d) :: u32) 0 = a"
  "bit (of_nat (of_bool a + 2 * of_bool b + 4 * of_bool c + 8 * of_bool d) :: u32) 1 = b"
  "bit (of_nat (of_bool a + 2 * of_bool b + 4 * of_bool c + 8 * of_bool d) :: u32) 2 = c"
  "bit (of_nat (of_bool a + 2 * of_bool b + 4 * of_bool c + 8 * of_bool d) :: u32) 3 = d"
  by (cases a; cases b; cases c; cases d; simp)+

lemma bit_mask_nib:
  assumes "k < 4"
  shows "bit (of_nat (mask_nib bs j) :: u32) k = bs ! (4 * j + k)"
proof -
  consider "k = 0" | "k = 1" | "k = 2" | "k = 3" using assms by linarith
  then show ?thesis by cases (simp_all only: mask_nib_def bit_four add_0_right)
qed

lemma back_mask:
  assumes "encodable (SaveRestoreRegisterMask t bs)"
  shows "decodes_back vm ip (SaveRestoreRegisterMask t bs)"
proof -
  let ?w = "pack [mask_nib bs 0, mask_nib bs 1, mask_nib bs 2, mask_nib bs 3, 0, save_restore_code t, 2, 12]"
  have m: "mask_nib bs j < 16" for j by (auto simp: mask_nib_def)
  have "bit ?w (4 * j + k) = bs ! (4 * j + k)" if kj: "k < 4" "j < 4" for j k
  proof -
    consider "j = 0" | "j = 1" | "j = 2" | "j = 3" using kj(2) by linarith
    then have "reg_of ?w (4 * j) = mask_nib bs j" using m by cases simp_all
    then have "bit ?w (4 * j + k) = bit (of_nat (mask_nib bs j) :: u32) k"
      using kj(1) by (simp add: bit_nib nib_reg_of)
    also have "\<dots> = bs ! (4 * j + k)"
      using kj(1) by (rule bit_mask_nib)
    finally show ?thesis .
  qed
  then have b: "bit ?w (4 * (i div 4) + i mod 4) = bs ! (4 * (i div 4) + i mod 4)" if "i < 16" for i
    using that by (intro \<open>\<And>k j. k < 4 \<Longrightarrow> j < 4 \<Longrightarrow> bit ?w (4 * j + k) = bs ! (4 * j + k)\<close>) auto
  have "bit ?w i = bs ! i" if "i < 16" for i
    using b[OF that] by (simp only: mult_div_mod_eq)
  then have "map (\<lambda>i. ?w AND push_bit i 1 \<noteq> 0) [0..<NumRegisters] = bs"
    using assms by (intro nth_equalityI) (auto simp: NumRegisters_def bit_iff_and_push_bit_not_eq_0)
  then show ?thesis using m by (simp add: decodes_back_def decode_instr_def Let_def nib_reg_of)
qed


lemma decode_encode: "encodable i \<Longrightarrow> code_at vm ip (encode_instr i) \<Longrightarrow> decodes_back vm ip i"
  by (cases i) (simp_all only: back_static back_simple back_records back_arith back_store back_compare
      back_log back_keypress back_mask encodable.simps(19))

definition opcode_of :: "cheat_instr \<Rightarrow> cheat_opcode" where
  "opcode_of i = \<lparr>begin_conditional_block = is_conditional i, opcode = i\<rparr>"

lemma encode_instr_Cons: "encodable i \<Longrightarrow> \<exists>w ws. encode_instr i = w # ws"
  by (cases i) auto

lemma Decode_encode:
  assumes "encodable i" "code_at vm (instruction_ptr vm) (encode_instr i)" "decode_success vm"
  shows "DecodeNextOpcode vm =
    (Some (opcode_of i), vm\<lparr>instruction_ptr := instruction_ptr vm + length (encode_instr i)\<rparr>)"
proof -
  obtain w ws where w: "encode_instr i = w # ws" using encode_instr_Cons[OF assms(1)] by blast
  have d: "decode_instr vm (hd (encode_instr i)) (True, Suc (instruction_ptr vm)) =
      (i, True, instruction_ptr vm + length (encode_instr i))"
    using decode_encode[OF assms(1,2)] by (simp add: decodes_back_def)
  have "is_conditional i = (let t = opcode_type_of (hd (encode_instr i)) in t = 1 \<or> t = 8 \<or> t = 0xC0)"
    using decode_instr_kind[of vm "hd (encode_instr i)" "(True, Suc (instruction_ptr vm))"] d by simp
  moreover have "vm\<lparr>instruction_ptr := p, decode_success := True\<rparr> = vm\<lparr>instruction_ptr := p\<rparr>" for p
    using assms(3) by simp
  ultimately show ?thesis
    using d next_dword[OF assms(2)[unfolded w]] w assms(3) by (simp add: DecodeNextOpcode_def opcode_of_def Let_def)
qed

lemma stream_of_encode:
  "\<forall>i \<in> set is. encodable i \<Longrightarrow> code_at vm (instruction_ptr vm) (concat (map encode_instr is)) \<Longrightarrow>
    instruction_ptr vm + length (concat (map encode_instr is)) = num_opcodes vm \<Longrightarrow> decode_success vm \<Longrightarrow>
    stream_of vm = map opcode_of is"
proof (induction "is" arbitrary: vm)
  case Nil
  then show ?case by (subst stream_of.simps) (simp add: DecodeNextOpcode_def GetNextDword_def)
next
  case (Cons i "is")
  let ?vm = "vm\<lparr>instruction_ptr := instruction_ptr vm + length (encode_instr i)\<rparr>"
  have c: "code_at vm (instruction_ptr vm) (encode_instr i)"
    "code_at vm (instruction_ptr vm + length (encode_instr i)) (concat (map encode_instr is))"
    using Cons.prems(2) by (simp_all add: code_at_append)
  have same: "code_at ?vm p ws = code_at vm p ws" for p ws by (induction ws arbitrary: p) auto
  have "DecodeNextOpcode vm = (Some (opcode_of i), ?vm)"
    using Cons.prems c(1) by (intro Decode_encode) auto
  then have "stream_of vm = opcode_of i # stream_of ?vm" by (rule stream_of_eq)
  also have "stream_of ?vm = map opcode_of is"
    using Cons.prems c(2) same by (intro Cons.IH) auto
  finally show ?case by simp
qed

lemma code_at_program: "code_at (vm\<lparr>num_opcodes := length xs + length ws, vm_program := xs @ ws @ ys\<rparr>) (length xs) ws"
proof (induction ws arbitrary: xs)
  case (Cons w ws)
  then show ?case using Cons.IH[of "xs @ [w]"] by (simp add: nth_append)
qed simp



text \<open>A loop written as the comment says, \<open>300R0000\<close>, is decoded as a loop on register 0, whatever \<open>R\<close> is.\<close>

lemma cheat_loop_documented_layout:
  assumes "r < 16"
  shows "\<exists>n ds'. decode_ControlLoop vm (pack [0, 0, 0, 0, r, 0, 0, 3]) ds = (ControlLoop True 0 n, ds')"
  using assms by (simp add: decode_ControlLoop_def nib_reg_of Let_def split: prod.split)

end
