(* ===== verification/Cheat_Parser.thy ===== *)
theory Cheat_Parser
  imports Cheat_Assembler
begin

text \<open>
  The text format of cheats and the engine that runs them, \<^verbatim>\<open>src/src/core/memory/cheat_engine.cpp\<close>. A
  file is read character by character: a master name in braces, a name in brackets that opens an
  entry, and words of up to eight hexadecimal digits. A malformed file gives no entries. Reading a
  character past the end of the text is \<open>UB\<close>. Characters outside ASCII are neither spaces nor
  digits. The engine keeps the entries, a reload flag and the machine; its callback runs the
  machine once per frame.
\<close>

section \<open>Characters\<close>

definition isspace :: "char \<Rightarrow> bool" where
  "isspace c \<longleftrightarrow> (of_char c :: nat) \<in> {9, 10, 11, 12, 13, 32}"

definition isxdigit :: "char \<Rightarrow> bool" where
  "isxdigit c \<longleftrightarrow> (let n = (of_char c :: nat)
     in 48 \<le> n \<and> n \<le> 57 \<or> 65 \<le> n \<and> n \<le> 70 \<or> 97 \<le> n \<and> n \<le> 102)"

definition hex_value :: "char \<Rightarrow> nat" where
  "hex_value c = (let n = (of_char c :: nat)
     in if n \<le> 57 then n - 48 else if n \<le> 70 then n - 55 else n - 87)"

definition strtoul16 :: "string \<Rightarrow> u32" where
  "strtoul16 hex = of_nat (foldl (\<lambda>acc c. 16 * acc + hex_value c) 0 hex)"

section \<open>Parsing\<close>

definition readable_name_size :: nat where "readable_name_size = 0x40"
definition max_definition_opcodes :: nat where "max_definition_opcodes = 0x100"

definition CheatEntry_new :: cheat_entry where
  "CheatEntry_new = \<lparr>ce_enabled = False, ce_cheat_id = 0,
     ce_definition = \<lparr>cd_readable_name = replicate readable_name_size (char_of (0::nat)),
       cd_num_opcodes = 0, cd_opcodes = replicate max_definition_opcodes 0\<rparr>\<rparr>"

function scan_name :: "string \<Rightarrow> char \<Rightarrow> nat \<Rightarrow> nat res" where
  "scan_name data match end_index =
     (if end_index \<ge> length data then UB
      else if data ! end_index = match then Ok end_index
      else scan_name data match (end_index + 1))"
  by pat_completeness auto
termination by (relation "measure (\<lambda>(d, m, i). length d - i)") auto

declare scan_name.simps [simp del]

definition ExtractName :: "string \<Rightarrow> nat \<Rightarrow> char \<Rightarrow> (nat \<times> string) res" where
  "ExtractName data start_index match =
     bind_res (scan_name data match start_index) (\<lambda>end_index.
       let out_name_size = end_index - start_index;
           end' = (if out_name_size > readable_name_size then start_index + readable_name_size else end_index)
       in Ok (out_name_size, take (end' - start_index) (drop start_index data)))"

definition set_name :: "string \<Rightarrow> cheat_definition \<Rightarrow> cheat_definition" where
  "set_name name d =
     (let n = min readable_name_size (length name);
          copied = take n name @ drop n (cd_readable_name d)
      in d\<lparr>cd_readable_name := copied[readable_name_size - 1 := char_of (0::nat)]\<rparr>)"

definition add_opcode :: "u32 \<Rightarrow> cheat_definition \<Rightarrow> cheat_definition" where
  "add_opcode w d = d\<lparr>cd_opcodes := (cd_opcodes d)[cd_num_opcodes d := w],
     cd_num_opcodes := cd_num_opcodes d + 1\<rparr>"

definition update_entry :: "nat \<Rightarrow> (cheat_definition \<Rightarrow> cheat_definition) \<Rightarrow> cheat_entry list \<Rightarrow> cheat_entry list" where
  "update_entry k f out = out[k := (out ! k)\<lparr>ce_definition := f (ce_definition (out ! k))\<rparr>]"

text \<open>The loop over the text; \<open>None\<close> is the empty result of a malformed file.\<close>

function Parse_loop :: "string \<Rightarrow> nat \<Rightarrow> cheat_entry list \<Rightarrow> nat option \<Rightarrow> cheat_entry list option res" where
  "Parse_loop data i out current_entry =
     (if i \<ge> length data then Ok (Some out)
      else if isspace (data ! i) then Parse_loop data (i + 1) out current_entry
      else if data ! i = CHR ''{'' then
        if cd_num_opcodes (ce_definition (out ! 0)) > 0 then Ok None
        else (case ExtractName data (i + 1) (CHR ''}'') of
            Ok (name_size, name) \<Rightarrow>
              if name = [] then Ok None
              else Parse_loop data (i + name_size + 2) (update_entry 0 (set_name name) out) (Some 0)
          | Err e \<Rightarrow> Err e | UB \<Rightarrow> UB)
      else if data ! i = CHR ''['' then
        (case ExtractName data (i + 1) (CHR '']'') of
            Ok (name_size, name) \<Rightarrow>
              if name = [] then Ok None
              else Parse_loop data (i + name_size + 2)
                     (update_entry (length out) (set_name name) (out @ [CheatEntry_new])) (Some (length out))
          | Err e \<Rightarrow> Err e | UB \<Rightarrow> UB)
      else if isxdigit (data ! i) then
        (case current_entry of
           None \<Rightarrow> Ok None
         | Some k \<Rightarrow>
             if cd_num_opcodes (ce_definition (out ! k)) \<ge> length (cd_opcodes (ce_definition (out ! k)))
             then Ok None
             else
               let hex = take 8 (drop i data)
               in if \<not> list_all isxdigit hex then Ok None
                  else Parse_loop data (i + 9) (update_entry k (add_opcode (strtoul16 hex)) out) current_entry)
      else Ok None)"
  by pat_completeness auto
termination by (relation "measure (\<lambda>(d, i, out, c). length d - i)") auto

declare Parse_loop.simps [simp del]

definition finish_entry :: "nat \<Rightarrow> cheat_entry \<Rightarrow> cheat_entry" where
  "finish_entry i e = e\<lparr>ce_enabled := (cd_num_opcodes (ce_definition e) > 0), ce_cheat_id := i\<rparr>"

definition Parse :: "string \<Rightarrow> cheat_entry list res" where
  "Parse data =
     (case Parse_loop data 0 [CheatEntry_new] None of
        Ok None \<Rightarrow> Ok []
      | Ok (Some out) \<Rightarrow> Ok (map (\<lambda>i. finish_entry i (out ! i)) [0..<length out])
      | Err e \<Rightarrow> Err e
      | UB \<Rightarrow> UB)"

section \<open>The engine\<close>

record cheat_engine =
  engine_vm :: cheat_vm
  engine_metadata :: cheat_metadata
  engine_cheats :: "cheat_entry list"
  is_pending_reload :: bool

definition CheatEngine_Initialize :: "memory_extents \<Rightarrow> memory_extents \<Rightarrow> memory_extents \<Rightarrow> cheat_engine \<Rightarrow> cheat_engine" where
  "CheatEngine_Initialize heap aslr alias ce =
     ce\<lparr>engine_metadata := (engine_metadata ce)\<lparr>heap_extents := heap, aslr_extents := aslr, alias_extents := alias\<rparr>,
        is_pending_reload := True\<rparr>"

definition SetMainMemoryParameters :: "u64 \<Rightarrow> u64 \<Rightarrow> cheat_engine \<Rightarrow> cheat_engine" where
  "SetMainMemoryParameters main_region_begin main_region_size ce =
     ce\<lparr>engine_metadata := (engine_metadata ce)
          \<lparr>main_nso_extents := \<lparr>ext_base = main_region_begin, ext_size = main_region_size\<rparr>\<rparr>\<rparr>"

definition Reload :: "cheat_entry list \<Rightarrow> cheat_engine \<Rightarrow> cheat_engine" where
  "Reload reload_cheats ce = ce\<lparr>engine_cheats := reload_cheats, is_pending_reload := True\<rparr>"

definition FrameCallback :: "cheat_engine \<Rightarrow> cheat_env \<Rightarrow> (cheat_engine \<times> cheat_env) res option" where
  "FrameCallback ce env =
     (let loaded = (if is_pending_reload ce
                    then bind_res (LoadProgram (engine_cheats ce) (engine_vm ce)) (\<lambda>(ok, vm). Ok vm)
                    else Ok (engine_vm ce));
          ce1 = ce\<lparr>is_pending_reload := False\<rparr>
      in case loaded of
           Ok vm \<Rightarrow>
             if num_opcodes vm = 0 then Some (Ok (ce1\<lparr>engine_vm := vm\<rparr>, env))
             else (case Execute (engine_metadata ce) vm env of
                 None \<Rightarrow> None
               | Some r \<Rightarrow> Some (bind_res r (\<lambda>(vm', env'). Ok (ce1\<lparr>engine_vm := vm'\<rparr>, env'))))
         | Err e \<Rightarrow> Some (Err e)
         | UB \<Rightarrow> Some UB)"

section \<open>Parsed entries are well formed\<close>

definition entry_ok :: "cheat_entry \<Rightarrow> bool" where
  "entry_ok e \<longleftrightarrow> length (cd_opcodes (ce_definition e)) = max_definition_opcodes \<and>
     cd_num_opcodes (ce_definition e) \<le> max_definition_opcodes \<and>
     length (cd_readable_name (ce_definition e)) = readable_name_size \<and>
     last (cd_readable_name (ce_definition e)) = char_of (0::nat)"

definition parse_inv :: "cheat_entry list \<Rightarrow> nat option \<Rightarrow> bool" where
  "parse_inv out cur \<longleftrightarrow> out \<noteq> [] \<and> (\<forall>e \<in> set out. entry_ok e) \<and> (\<forall>k. cur = Some k \<longrightarrow> k < length out)"

lemma entry_ok_new [simp]: "entry_ok CheatEntry_new"
  by (simp add: entry_ok_def CheatEntry_new_def readable_name_size_def)

lemma last_overwritten: "length xs = Suc n \<Longrightarrow> last (xs[n := c]) = c"
  by (cases xs rule: rev_cases) auto

lemma set_name_ok: "entry_ok e \<Longrightarrow> entry_ok (e\<lparr>ce_definition := set_name name (ce_definition e)\<rparr>)"
  by (auto simp: entry_ok_def set_name_def Let_def readable_name_size_def last_overwritten)

lemma add_opcode_ok:
  "entry_ok e \<Longrightarrow> cd_num_opcodes (ce_definition e) < max_definition_opcodes \<Longrightarrow>
     entry_ok (e\<lparr>ce_definition := add_opcode w (ce_definition e)\<rparr>)"
  by (simp add: entry_ok_def add_opcode_def)

lemma update_entry_inv:
  assumes "parse_inv out cur" "k < length out"
    "\<And>e. e = out ! k \<Longrightarrow> entry_ok e \<Longrightarrow> entry_ok (e\<lparr>ce_definition := f (ce_definition e)\<rparr>)"
  shows "parse_inv (update_entry k f out) (Some k)"
proof -
  have "entry_ok (out ! k)" using assms(1,2) by (simp add: parse_inv_def)
  then have "entry_ok ((out ! k)\<lparr>ce_definition := f (ce_definition (out ! k))\<rparr>)" by (rule assms(3)[OF refl])
  then show ?thesis
    using assms(1,2) set_update_subset_insert[of out k] by (fastforce simp: parse_inv_def update_entry_def)
qed

lemma parse_inv_snoc: "parse_inv out cur \<Longrightarrow> parse_inv (out @ [CheatEntry_new]) cur"
  by (auto simp: parse_inv_def)

lemma Parse_loop_inv:
  "parse_inv out cur \<Longrightarrow> Parse_loop data i out cur = Ok (Some out') \<Longrightarrow> parse_inv out' None"
proof (induction data i out cur rule: Parse_loop.induct)
  case (1 data i out cur)
  note inv = \<open>parse_inv out cur\<close>
  have P: "Parse_loop data i out cur = Ok (Some out')" by fact
  show ?case
  proof (cases "i \<ge> length data")
    case True
    then show ?thesis using inv P by (subst (asm) Parse_loop.simps) (auto simp: parse_inv_def)
  next
    case i: False
    show ?thesis
    proof (cases "isspace (data ! i)")
      case True
      then show ?thesis using "1.IH"(1)[OF i True inv] P i by (subst (asm) (2) Parse_loop.simps) simp
    next
      case sp: False
      show ?thesis
      proof (cases "data ! i = CHR ''{''")
        case b: True
        have 0: "0 < length out" using inv by (simp add: parse_inv_def)
        have "parse_inv (update_entry 0 (set_name name) out) (Some 0)" for name
          by (rule update_entry_inv[OF inv 0 set_name_ok])
        then show ?thesis using "1.IH"(2)[OF i sp b] P i sp b
          by (subst (asm) (2) Parse_loop.simps) (auto split: if_splits res.splits)
      next
        case nb: False
        show ?thesis
        proof (cases "data ! i = CHR ''[''")
          case b: True
          have "parse_inv (update_entry (length out) (set_name name) (out @ [CheatEntry_new])) (Some (length out))" for name
            by (rule update_entry_inv[OF parse_inv_snoc[OF inv] _ set_name_ok]) simp
          then show ?thesis using "1.IH"(3)[OF i sp nb b] P i sp nb b
            by (subst (asm) (2) Parse_loop.simps) (auto split: if_splits res.splits)
        next
          case nb2: False
          show ?thesis
          proof (cases "isxdigit (data ! i) \<and> cur \<noteq> None")
            case True
            then obtain k where k: "cur = Some k" by auto
            have lt: "k < length out" using inv k by (simp add: parse_inv_def)
            have inv': "parse_inv (update_entry k (add_opcode w) out) (Some k)"
              if "cd_num_opcodes (ce_definition (out ! k)) < length (cd_opcodes (ce_definition (out ! k)))" for w
            proof (rule update_entry_inv[OF inv lt])
              fix e assume "e = out ! k" "entry_ok e"
              then show "entry_ok (e\<lparr>ce_definition := add_opcode w (ce_definition e)\<rparr>)"
                using that by (intro add_opcode_ok) (auto simp: entry_ok_def)
            qed
            show ?thesis using "1.IH"(4)[OF i sp nb nb2 conjunct1[OF True] k _ refl] P i sp nb nb2 True k inv'
              by (subst (asm) (2) Parse_loop.simps) (auto simp: Let_def not_le split: if_splits)
          next
            case False
            then show ?thesis using P i sp nb nb2
              by (subst (asm) Parse_loop.simps) (auto split: if_splits option.splits)
          qed
        qed
      qed
    qed
  qed
qed

lemma Parse_entries_ok:
  assumes "Parse data = Ok es"
  shows "\<forall>e \<in> set es. entry_ok e"
proof -
  have "parse_inv [CheatEntry_new] None" by (simp add: parse_inv_def)
  from Parse_loop_inv[OF this, of data 0] show ?thesis
    using assms by (auto simp: Parse_def parse_inv_def finish_entry_def entry_ok_def split: res.splits option.splits)
qed

text \<open>
  Claim C33. Whatever the text, the entries \<open>Parse\<close> returns are well formed: at most 0x100 words in
  the fixed array, a terminated name of the fixed size, the position as the identifier, and enabled
  exactly when the entry has words.
\<close>

theorem cheat_parse_well_formed:
  assumes "Parse data = Ok es"
  shows "\<forall>i < length es. entry_ok (es ! i) \<and> ce_cheat_id (es ! i) = i \<and>
    (ce_enabled (es ! i) \<longleftrightarrow> cd_num_opcodes (ce_definition (es ! i)) > 0)"
  using Parse_entries_ok[OF assms] assms
  by (auto simp: Parse_def finish_entry_def split: res.splits option.splits)

section \<open>Printing\<close>

definition hex_char :: "nat \<Rightarrow> char" where
  "hex_char d = (if d < 10 then char_of (48 + d) else char_of (55 + d))"

definition word_hex :: "u32 \<Rightarrow> string" where
  "word_hex w = map hex_char (rev (nibs_of 8 (unat w)))"

definition newline :: char where "newline = char_of (10::nat)"

definition print_words :: "u32 list \<Rightarrow> string" where
  "print_words ws = concat (map (\<lambda>w. word_hex w @ [newline]) ws)"

definition print_entry :: "string \<times> u32 list \<Rightarrow> string" where
  "print_entry e = CHR ''['' # fst e @ CHR '']'' # newline # print_words (snd e)"

definition printed_entry :: "nat \<Rightarrow> string \<times> u32 list \<Rightarrow> cheat_entry" where
  "printed_entry i e = \<lparr>ce_enabled = (snd e \<noteq> []), ce_cheat_id = i,
     ce_definition = \<lparr>cd_readable_name = fst e @ replicate (readable_name_size - length (fst e)) (char_of (0::nat)),
       cd_num_opcodes = length (snd e),
       cd_opcodes = snd e @ replicate (max_definition_opcodes - length (snd e)) 0\<rparr>\<rparr>"

definition printable :: "string \<times> u32 list \<Rightarrow> bool" where
  "printable e \<longleftrightarrow> fst e \<noteq> [] \<and> length (fst e) < readable_name_size \<and> CHR '']'' \<notin> set (fst e) \<and>
     length (snd e) \<le> max_definition_opcodes"

lemma hex_char_props: "d < 16 \<Longrightarrow> isxdigit (hex_char d)" "d < 16 \<Longrightarrow> hex_value (hex_char d) = d"
  by (auto simp: hex_char_def isxdigit_def hex_value_def Let_def)

lemma xdigit_other:
  assumes "isxdigit c"
  shows "\<not> isspace c" "c \<noteq> CHR ''{''" "c \<noteq> CHR ''[''"
proof -
  have "(of_char (CHR ''{'') :: nat) = 123" "(of_char (CHR ''['') :: nat) = 91" by code_simp+
  then show "\<not> isspace c" "c \<noteq> CHR ''{''" "c \<noteq> CHR ''[''"
    using assms by (auto simp: isxdigit_def isspace_def Let_def)
qed

lemma foldl_digits: "foldl (\<lambda>acc c. 16 * acc + hex_value c) 0 (map hex_char (rev ds)) = digits16 ds"
  if "\<forall>d \<in> set ds. d < 16"
  using that by (induction ds) (auto simp: hex_char_props)

lemma word_hex_props:
  "length (word_hex w) = 8" "list_all isxdigit (word_hex w)" "strtoul16 (word_hex w) = w"
proof -
  note p = nibs_of_props[of 8 "unat w"]
  show "length (word_hex w) = 8" using p by (simp add: word_hex_def)
  show "list_all isxdigit (word_hex w)" using p by (auto simp: word_hex_def list_all_iff hex_char_props)
  have "digits16 (nibs_of 8 (unat w)) = unat w"
    using digits16_nibs_of[of 8 "unat w" "[]"] unat_bound[of w] by simp
  then show "strtoul16 (word_hex w) = w"
    using p by (simp add: word_hex_def strtoul16_def foldl_digits)
qed

text \<open>One step of the loop at a word, at a newline and at a name.\<close>

lemma parse_word:
  assumes "cd_num_opcodes (ce_definition (out ! k)) < length (cd_opcodes (ce_definition (out ! k)))"
  shows "Parse_loop (pre @ word_hex w @ c # rest) (length pre) out (Some k) =
    Parse_loop (pre @ word_hex w @ c # rest) (length pre + 9) (update_entry k (add_opcode w) out) (Some k)"
proof -
  let ?d = "pre @ word_hex w @ c # rest"
  obtain x xs where x: "word_hex w = x # xs" using word_hex_props(1)[of w] by (cases "word_hex w") auto
  then have d: "?d ! length pre = x" "isxdigit x" using word_hex_props(2)[of w] by (simp_all add: nth_append)
  have h: "take 8 (drop (length pre) ?d) = word_hex w" using word_hex_props(1)[of w] by simp
  show ?thesis
    using assms d xdigit_other[OF d(2)] word_hex_props[of w] h by (subst Parse_loop.simps) (simp add: Let_def)
qed

lemma parse_newline:
  "Parse_loop (pre @ newline # rest) (length pre) out cur = Parse_loop (pre @ newline # rest) (length pre + 1) out cur"
  by (subst Parse_loop.simps) (simp add: isspace_def newline_def nth_append)

lemma scan_name_found:
  "match \<notin> set name \<Longrightarrow> scan_name (pre @ name @ match # rest) match (length pre) = Ok (length pre + length name)"
proof (induction name arbitrary: pre)
  case Nil
  then show ?case by (subst scan_name.simps) (simp add: nth_append)
next
  case (Cons c name)
  then show ?case
    using Cons.IH[of "pre @ [c]"] by (subst scan_name.simps) (auto simp: nth_append)
qed

lemma ExtractName_found:
  assumes "match \<notin> set name" "length name < readable_name_size"
  shows "ExtractName (pre @ name @ match # rest) (length pre) match = Ok (length name, name)"
  using assms by (simp add: ExtractName_def scan_name_found)

lemma parse_name:
  assumes "name \<noteq> []" "length name < readable_name_size" "CHR '']'' \<notin> set name"
  shows "Parse_loop (pre @ CHR ''['' # name @ CHR '']'' # rest) (length pre) out cur =
    Parse_loop (pre @ CHR ''['' # name @ CHR '']'' # rest) (length pre + length name + 2)
      (update_entry (length out) (set_name name) (out @ [CheatEntry_new])) (Some (length out))"
proof -
  have "\<not> isspace (CHR ''['')" by code_simp
  then show ?thesis
    using assms ExtractName_found[OF assms(3,2), of "pre @ [CHR ''['']" rest]
    by (subst Parse_loop.simps) (simp add: nth_append)
qed

definition building :: "string \<times> u32 list \<Rightarrow> cheat_entry" where
  "building e = (printed_entry 0 e)\<lparr>ce_enabled := False\<rparr>"

lemma building_name:
  "name \<noteq> [] \<Longrightarrow> length name < readable_name_size \<Longrightarrow>
    update_entry (length out) (set_name name) (out @ [CheatEntry_new]) = out @ [building (name, [])]"
  by (auto simp: update_entry_def set_name_def building_def printed_entry_def CheatEntry_new_def Let_def
      readable_name_size_def list_update_append nth_append intro!: nth_equalityI simp: nth_list_update)

lemma building_word:
  "length ws < max_definition_opcodes \<Longrightarrow>
    update_entry (length out) (add_opcode w) (out @ [building (name, ws)]) = out @ [building (name, ws @ [w])]"
  by (auto simp: update_entry_def add_opcode_def building_def printed_entry_def list_update_append
      intro!: nth_equalityI simp: nth_append nth_list_update)

lemma parse_words:
  "length ws0 + length ws \<le> max_definition_opcodes \<Longrightarrow>
    Parse_loop (pre @ print_words ws @ rest) (length pre) (out @ [building (name, ws0)]) (Some (length out)) =
    Parse_loop (pre @ print_words ws @ rest) (length pre + length (print_words ws))
      (out @ [building (name, ws0 @ ws)]) (Some (length out))"
proof (induction ws arbitrary: pre ws0)
  case Nil
  then show ?case by (simp add: print_words_def)
next
  case (Cons w ws)
  have "cd_num_opcodes (ce_definition ((out @ [building (name, ws0)]) ! length out)) <
      length (cd_opcodes (ce_definition ((out @ [building (name, ws0)]) ! length out)))"
    using Cons.prems by (simp add: building_def printed_entry_def)
  from parse_word[OF this, of pre w newline "print_words ws @ rest"] show ?case
    using Cons.IH[of "ws0 @ [w]" "pre @ word_hex w @ [newline]"] Cons.prems
    by (simp add: building_word print_words_def word_hex_props add.assoc)
qed

lemma parse_entry:
  assumes "printable e"
  shows "Parse_loop (pre @ print_entry e @ rest) (length pre) out cur =
    Parse_loop (pre @ print_entry e @ rest) (length pre + length (print_entry e)) (out @ [building e]) (Some (length out))"
proof -
  obtain name ws where e: "e = (name, ws)" by (cases e)
  have n: "name \<noteq> []" "length name < readable_name_size" "CHR '']'' \<notin> set name"
    "length ws \<le> max_definition_opcodes" using assms by (auto simp: printable_def e)
  let ?d = "pre @ print_entry e @ rest"
  have "Parse_loop ?d (length pre) out cur =
      Parse_loop ?d (length pre + length name + 2) (out @ [building (name, [])]) (Some (length out))"
    using parse_name[OF n(1-3), of pre "newline # print_words ws @ rest" out cur] n
    by (simp add: e print_entry_def building_name)
  also have "\<dots> = Parse_loop ?d (length pre + length name + 3) (out @ [building (name, [])]) (Some (length out))"
    using parse_newline[of "pre @ CHR ''['' # name @ [CHR '']'']" "print_words ws @ rest"]
    by (simp add: e print_entry_def numeral_3_eq_3)
  also have "\<dots> = Parse_loop ?d (length pre + length (print_entry e)) (out @ [building e]) (Some (length out))"
    using parse_words[of "[]" ws "pre @ CHR ''['' # name @ [CHR '']'', newline]" rest out name] n(4)
    by (simp add: e print_entry_def numeral_3_eq_3 add.assoc)
  finally show ?thesis .
qed

lemma parse_entries:
  "\<forall>e \<in> set es. printable e \<Longrightarrow>
    Parse_loop (pre @ concat (map print_entry es)) (length pre) out cur = Ok (Some (out @ map building es))"
proof (induction es arbitrary: pre out cur)
  case Nil
  then show ?case by (subst Parse_loop.simps) simp
next
  case (Cons e es)
  then show ?case
    using parse_entry[of e pre "concat (map print_entry es)" out cur]
      Cons.IH[of "pre @ print_entry e" "out @ [building e]" "Some (length out)"] by simp
qed

lemma print_parse:
  assumes "\<forall>e \<in> set es. printable e"
  shows "Parse (concat (map print_entry es)) =
    Ok (finish_entry 0 CheatEntry_new # map (\<lambda>i. printed_entry (Suc i) (es ! i)) [0..<length es])"
proof -
  have "Parse_loop (concat (map print_entry es)) 0 [CheatEntry_new] None = Ok (Some (CheatEntry_new # map building es))"
    using parse_entries[OF assms, of "[]" "[CheatEntry_new]" None] by simp
  moreover have "finish_entry (Suc i) (building e) = printed_entry (Suc i) e" for i e
    by (auto simp: finish_entry_def building_def printed_entry_def)
  ultimately show ?thesis
    by (simp add: Parse_def upt_conv_Cons del: upt_Suc flip: map_Suc_upt) 
qed


text \<open>
  Claim C31. Printing and parsing are inverse: a text made of any number of named entries (a name of
  1 to 63 characters without a closing bracket, up to 0x100 words written as eight hexadecimal digits
  a line) is parsed to the empty master entry followed by exactly these entries in order.
\<close>

theorem cheat_print_parse:
  assumes "\<forall>e \<in> set es. printable e"
  shows "Parse (concat (map print_entry es)) =
    Ok (finish_entry 0 CheatEntry_new # map (\<lambda>i. printed_entry (Suc i) (es ! i)) [0..<length es])"
  using assms by (rule print_parse)

text \<open>
  A name that is never closed reads one character past the end of the text: the bound in
  \<open>ExtractName\<close> is tested after the index is advanced and allows the index to reach the length.
\<close>

theorem cheat_parse_unclosed_name:
  assumes "CHR '']'' \<notin> set name"
  shows "Parse (CHR ''['' # name) = UB"
proof -
  have *: "scan_name (pre @ name) (CHR '']'') (length pre) = UB" for pre
    using assms
  proof (induction name arbitrary: pre)
    case Nil
    then show ?case by (subst scan_name.simps) simp
  next
    case (Cons c name)
    then show ?case using Cons.IH[of "pre @ [c]"] by (subst scan_name.simps) (auto simp: nth_append)
  qed
  have "\<not> isspace (CHR ''['')" by code_simp
  then show ?thesis
    using *[of "[CHR ''['']"] by (simp add: Parse_def Parse_loop.simps ExtractName_def)
qed

theorem cheat_parse_unclosed_name_witness: "Parse ''[Infinite health'' = UB"
  by (rule cheat_parse_unclosed_name) simp

section \<open>From text to memory\<close>

lemma entry_ok_wf: "entry_ok e \<Longrightarrow> entry_wf e"
  by (simp add: entry_ok_def entry_wf_def)

text \<open>A frame after a reload runs the program that was loaded.\<close>

lemma FrameCallback_reload:
  assumes "LoadProgram es (engine_vm ce) = Ok (b, vm1)"
  shows "FrameCallback (Reload es ce) env =
    (if num_opcodes vm1 = 0 then Some (Ok (ce\<lparr>engine_cheats := es, is_pending_reload := False, engine_vm := vm1\<rparr>, env))
     else map_option (\<lambda>r. bind_res r (\<lambda>(vm', env').
         Ok (ce\<lparr>engine_cheats := es, is_pending_reload := False, engine_vm := vm'\<rparr>, env')))
       (Execute (engine_metadata ce) vm1 env))"
  using assms by (auto simp: FrameCallback_def Reload_def split: option.split)

lemma frame_result:
  assumes L: "LoadProgram es (engine_vm ce) = Ok (b, vm1)" "vm_arrays vm1"
    and r: "FrameCallback (Reload es ce) env = Some (Ok (ce', env'))"
  shows "vm_arrays (engine_vm ce') \<and> \<not> is_pending_reload ce' \<and>
    take (num_opcodes (engine_vm ce')) (vm_program (engine_vm ce')) = take (num_opcodes vm1) (vm_program vm1) \<and>
    (\<forall>a. env_mem env' a \<noteq> env_mem env a \<longrightarrow> env_valid env a \<and>
      (\<exists>b. IsAddressInRange (engine_metadata ce) b \<and> env_valid env b \<and> unat (a - b) < 8))"
proof (cases "num_opcodes vm1 = 0")
  case True
  then show ?thesis using r FrameCallback_reload[OF L(1)] L(2) by auto
next
  case False
  then obtain vm2 where E: "Execute (engine_metadata ce) vm1 env = Some (Ok (vm2, env'))"
      "ce' = ce\<lparr>engine_cheats := es, is_pending_reload := False, engine_vm := vm2\<rparr>"
    using r FrameCallback_reload[OF L(1)] by (auto simp: bind_res_Ok_iff)
  show ?thesis using execution_safe[OF L(2) E(1)] E(2) by (auto simp: vm_wf_def)
qed

text \<open>
  Claim C29. The engine end to end, for every text that the parser accepts. In the frame after a reload, loading the
  parsed entries is always defined; it reports whether the words of the enabled entries fit, and leaves exactly these
  words as the program when they do and an empty program when they do not. The frame then runs that program: it changes
  nothing when the program is empty, it returns when no loop is closed in the program, and whenever it returns
  normally the machine still holds the program, it is ready for the next frame, and memory has
  changed only at mapped bytes near addresses inside the metadata's regions.
\<close>

theorem cheat_engine_frame_safe:
  assumes "Parse data = Ok es" "vm_arrays (engine_vm ce)"
  shows "\<exists>vm1. LoadProgram es (engine_vm ce) = Ok (length (enabled_words es) \<le> MaximumProgramOpcodeCount, vm1) \<and> vm_arrays vm1 \<and>
    take (num_opcodes vm1) (vm_program vm1) =
      (if length (enabled_words es) \<le> MaximumProgramOpcodeCount then enabled_words es else []) \<and>
    (num_opcodes vm1 = 0 \<longrightarrow> FrameCallback (Reload es ce) env =
       Some (Ok (ce\<lparr>engine_cheats := es, is_pending_reload := False, engine_vm := vm1\<rparr>, env))) \<and>
    ((\<forall>op \<in> set (stream_of (ResetState vm1)). \<not> loop_end (opcode op)) \<longrightarrow> (\<exists>r. FrameCallback (Reload es ce) env = Some r)) \<and>
    (\<forall>ce' env'. FrameCallback (Reload es ce) env = Some (Ok (ce', env')) \<longrightarrow>
       vm_arrays (engine_vm ce') \<and> \<not> is_pending_reload ce' \<and>
       take (num_opcodes (engine_vm ce')) (vm_program (engine_vm ce')) =
         (if length (enabled_words es) \<le> MaximumProgramOpcodeCount then enabled_words es else []) \<and>
       (\<forall>a. env_mem env' a \<noteq> env_mem env a \<longrightarrow> env_valid env a \<and>
         (\<exists>b. IsAddressInRange (engine_metadata ce) b \<and> env_valid env b \<and> unat (a - b) < 8)))"
proof -
  have "\<forall>e \<in> set es. entry_wf e"
    using Parse_entries_ok[OF assms(1)] entry_ok_wf by blast
  then obtain vm1 where L: "LoadProgram es (engine_vm ce) =
      Ok (length (enabled_words es) \<le> MaximumProgramOpcodeCount, vm1)" "vm_arrays vm1"
      "take (num_opcodes vm1) (vm_program vm1) =
        (if length (enabled_words es) \<le> MaximumProgramOpcodeCount then enabled_words es else [])"
    using load_program_result assms(2) by blast
  have "\<exists>r. FrameCallback (Reload es ce) env = Some r" if "\<forall>op \<in> set (stream_of (ResetState vm1)). \<not> loop_end (opcode op)"
    using Execute_loop_returns[OF that] FrameCallback_reload[OF L(1)] by (auto simp: Execute_def)
  then show ?thesis
    using L frame_result[OF L(1,2)] FrameCallback_reload[OF L(1)] unfolding L(3)[symmetric] by (intro exI[of _ vm1]) simp
qed


section \<open>Witnesses of the parser\<close>

definition sample_text :: string where
  "sample_text = concat (map print_entry [(''Max coins'', [0x04000000, 0x10, 0xFF]), (''Fly'', [])])"

definition sample_entries :: "cheat_entry list" where
  "sample_entries = [finish_entry 0 CheatEntry_new, printed_entry 1 (''Max coins'', [0x04000000, 0x10, 0xFF]),
     printed_entry 2 (''Fly'', [])]"

definition sample_engine :: cheat_engine where
  "sample_engine = \<lparr>engine_vm = DmntCheatVm_new, engine_metadata = flat_metadata, engine_cheats = [],
     is_pending_reload = False\<rparr>"

lemma sample_printable: "\<forall>e \<in> set [(''Max coins'', [0x04000000, 0x10, 0xFF]), (''Fly'', [])]. printable e"
  by (simp add: printable_def readable_name_size_def max_definition_opcodes_def)

lemma sample_parse: "Parse sample_text = Ok sample_entries"
  unfolding sample_text_def
  by (subst print_parse[OF sample_printable]) (simp add: sample_entries_def numeral_2_eq_2)

lemma sample_frame:
  "case FrameCallback (Reload sample_entries sample_engine) zero_env of
     Some (Ok (ce', env')) \<Rightarrow> env_mem env' 0x8000010 = 0xFF | _ \<Rightarrow> False"
  by code_simp

theorem cheat_parse_well_formed_witness:
  "Parse sample_text = Ok sample_entries \<and> entry_ok (sample_entries ! 1) \<and> ce_cheat_id (sample_entries ! 1) = 1 \<and>
     ce_enabled (sample_entries ! 1)"
  using cheat_parse_well_formed[OF sample_parse] sample_parse
  by (auto simp: sample_entries_def printed_entry_def dest: spec[of _ 1])

theorem cheat_print_parse_witness: "Parse sample_text = Ok sample_entries"
  unfolding sample_text_def
  by (subst cheat_print_parse[OF sample_printable]) (simp add: sample_entries_def numeral_2_eq_2)

theorem cheat_engine_frame_safe_witness:
  "\<exists>ce' env'. FrameCallback (Reload sample_entries sample_engine) zero_env = Some (Ok (ce', env')) \<and>
     env_mem env' 0x8000010 = 0xFF \<and> vm_arrays (engine_vm ce')"
proof -
  obtain ce' env' where e:
      "FrameCallback (Reload sample_entries sample_engine) zero_env = Some (Ok (ce', env'))" "env_mem env' 0x8000010 = 0xFF"
  proof (cases "FrameCallback (Reload sample_entries sample_engine) zero_env")
    case None
    then show ?thesis using sample_frame by simp
  next
    case (Some r)
    then show ?thesis using sample_frame that by (cases r) (auto split: prod.splits)
  qed
  have "vm_arrays (engine_vm sample_engine)"
    by (simp add: sample_engine_def vm_arrays_def DmntCheatVm_new_def)
  from cheat_engine_frame_safe[OF sample_parse this, of zero_env] show ?thesis using e by blast
qed

end
