(* ===== verification/Macro_Interpreter.thy ===== *)
theory Macro_Interpreter
  imports Emu_Prelude
begin

text \<open>
  The macro interpreter of the emulated GPU, \<^verbatim>\<open>src/src/video_core/macro/macro_interpreter.cpp\<close> with the
  instruction format of \<^verbatim>\<open>macro.h\<close>. A macro is a list of 32-bit instructions; a taken branch and an
  exit execute one more instruction, the delay slot, which the code does by calling \<open>Step\<close> again from
  inside \<open>Step\<close>. The 3D engine that the interpreter reads and writes registers of is an argument, a
  record of the two methods it calls, with a state of its own; a macro that starts another macro
  through such a write is outside the model. Results have a case for each way of not returning a
  value: the exception of \<open>std::array::at\<close>, undefined behaviour, and a run that needs more fuel than it was
  given. Failed assertions only log.
\<close>

section \<open>Outcomes\<close>

datatype 'a run = Done 'a | Thrown | Undefined | OutOfFuel

fun bind_run :: "'a run \<Rightarrow> ('a \<Rightarrow> 'b run) \<Rightarrow> 'b run" where
  "bind_run (Done x) f = f x"
| "bind_run Thrown f = Thrown"
| "bind_run Undefined f = Undefined"
| "bind_run OutOfFuel f = OutOfFuel"

section \<open>Instructions\<close>

datatype operation =
    OpALU | OpAddImmediate | OpExtractInsert | OpExtractShiftLeftImmediate
  | OpExtractShiftLeftRegister | OpRead | OpUnused | OpBranch

datatype alu_operation =
    AluAdd | AluAddWithCarry | AluSubtract | AluSubtractWithBorrow
  | AluXor | AluOr | AluAnd | AluAndNot | AluNand | Alu_other

datatype result_operation =
    IgnoreAndFetch | Move | MoveAndSetMethod | FetchAndSend | MoveAndSend | FetchAndSetMethod
  | MoveAndSetMethodFetchAndSend | MoveAndSetMethodSend

datatype branch_condition = BranchZero | BranchNotZero

definition NUM_MACRO_REGISTERS :: nat where
  "NUM_MACRO_REGISTERS = 8"

definition Operation :: "u32 \<Rightarrow> operation" where
  "Operation v =
     (if v = 0 then OpALU else if v = 1 then OpAddImmediate else if v = 2 then OpExtractInsert
      else if v = 3 then OpExtractShiftLeftImmediate else if v = 4 then OpExtractShiftLeftRegister
      else if v = 5 then OpRead else if v = 6 then OpUnused else OpBranch)"

definition ALUOperation :: "u32 \<Rightarrow> alu_operation" where
  "ALUOperation v =
     (if v = 0 then AluAdd else if v = 1 then AluAddWithCarry else if v = 2 then AluSubtract
      else if v = 3 then AluSubtractWithBorrow else if v = 8 then AluXor else if v = 9 then AluOr
      else if v = 10 then AluAnd else if v = 11 then AluAndNot else if v = 12 then AluNand
      else Alu_other)"

definition ResultOperation :: "u32 \<Rightarrow> result_operation" where
  "ResultOperation v =
     (if v = 0 then IgnoreAndFetch else if v = 1 then Move else if v = 2 then MoveAndSetMethod
      else if v = 3 then FetchAndSend else if v = 4 then MoveAndSend
      else if v = 5 then FetchAndSetMethod else if v = 6 then MoveAndSetMethodFetchAndSend
      else MoveAndSetMethodSend)"

definition BranchCondition :: "u32 \<Rightarrow> branch_condition" where
  "BranchCondition v = (if v = 0 then BranchZero else BranchNotZero)"

text \<open>The fields of the union \<open>Opcode\<close>, read from the raw word. The immediate is sign-extended.\<close>

definition op_operation :: "u32 \<Rightarrow> operation" where
  "op_operation raw = Operation (bf_extract 0 3 raw)"

definition op_result_operation :: "u32 \<Rightarrow> result_operation" where
  "op_result_operation raw = ResultOperation (bf_extract 4 3 raw)"

definition op_branch_condition :: "u32 \<Rightarrow> branch_condition" where
  "op_branch_condition raw = BranchCondition (bf_extract 4 1 raw)"

definition op_branch_annul :: "u32 \<Rightarrow> bool" where
  "op_branch_annul raw \<longleftrightarrow> bf_extract 5 1 raw \<noteq> 0"

definition op_is_exit :: "u32 \<Rightarrow> bool" where
  "op_is_exit raw \<longleftrightarrow> bf_extract 7 1 raw \<noteq> 0"

definition op_dst :: "u32 \<Rightarrow> u32" where
  "op_dst raw = bf_extract 8 3 raw"

definition op_src_a :: "u32 \<Rightarrow> u32" where
  "op_src_a raw = bf_extract 11 3 raw"

definition op_src_b :: "u32 \<Rightarrow> u32" where
  "op_src_b raw = bf_extract 14 3 raw"

definition op_immediate :: "u32 \<Rightarrow> u32" where
  "op_immediate raw = bf_extract_signed 14 18 raw"

definition op_alu_operation :: "u32 \<Rightarrow> alu_operation" where
  "op_alu_operation raw = ALUOperation (bf_extract 17 5 raw)"

definition op_bf_src_bit :: "u32 \<Rightarrow> u32" where
  "op_bf_src_bit raw = bf_extract 17 5 raw"

definition op_bf_size :: "u32 \<Rightarrow> u32" where
  "op_bf_size raw = bf_extract 22 5 raw"

definition op_bf_dst_bit :: "u32 \<Rightarrow> u32" where
  "op_bf_dst_bit raw = bf_extract 27 5 raw"

text \<open>\<open>1\<close> is an \<open>int\<close>: for a size of 31 the subtraction overflows, which is undefined.\<close>

definition GetBitfieldMask :: "u32 \<Rightarrow> u32 run" where
  "GetBitfieldMask raw =
     (if unat (op_bf_size raw) = 31 then Undefined else Done (push_bit (unat (op_bf_size raw)) 1 - 1))"

definition GetBranchTarget :: "u32 \<Rightarrow> u32" where
  "GetBranchTarget raw = op_immediate raw * 4"

definition ma_address :: "u32 \<Rightarrow> u32" where
  "ma_address raw = bf_extract 0 12 raw"

definition ma_increment :: "u32 \<Rightarrow> u32" where
  "ma_increment raw = bf_extract 12 6 raw"

section \<open>State\<close>

text \<open>
  \<open>parameters\<close> is the allocated array, of length \<open>parameters_capacity\<close>; it survives from one run to the
  next, and only its first \<open>num_parameters\<close> elements belong to the current run.
\<close>

record macro_state =
  pc :: u32
  delayed_pc :: "u32 option"
  registers :: "u32 list"
  method_address :: u32
  parameters :: "u32 list"
  num_parameters :: nat
  parameters_capacity :: nat
  next_parameter_index :: u32
  carry_flag :: bool

record 'g maxwell3d =
  CallMethod :: "u32 \<Rightarrow> u32 \<Rightarrow> bool \<Rightarrow> 'g \<Rightarrow> 'g"
  GetRegisterValue :: "u32 \<Rightarrow> 'g \<Rightarrow> u32"

definition MacroInterpreterImpl :: macro_state where
  "MacroInterpreterImpl =
     \<lparr>pc = 0, delayed_pc = None, registers = replicate NUM_MACRO_REGISTERS 0, method_address = 0,
      parameters = [], num_parameters = 0, parameters_capacity = 0, next_parameter_index = 0,
      carry_flag = False\<rparr>"

definition Reset :: "macro_state \<Rightarrow> macro_state" where
  "Reset s =
     s\<lparr>registers := replicate NUM_MACRO_REGISTERS 0, pc := 0, delayed_pc := None, method_address := 0,
       num_parameters := 0, next_parameter_index := 1, carry_flag := False\<rparr>"

section \<open>Helpers of a step\<close>

definition GetOpcode :: "u32 list \<Rightarrow> macro_state \<Rightarrow> u32 run" where
  "GetOpcode code s =
     (let i = unat (pc s div 4) in if i < length code then Done (code ! i) else Undefined)"

definition GetRegister :: "u32 \<Rightarrow> macro_state \<Rightarrow> u32 run" where
  "GetRegister register_id s =
     (if unat register_id < length (registers s) then Done (registers s ! unat register_id) else Thrown)"

definition SetRegister :: "u32 \<Rightarrow> u32 \<Rightarrow> macro_state \<Rightarrow> macro_state run" where
  "SetRegister register_id value s =
     (if register_id = 0 then Done s
      else if unat register_id < length (registers s)
      then Done (s\<lparr>registers := (registers s)[unat register_id := value]\<rparr>)
      else Thrown)"

definition SetMethodAddress :: "u32 \<Rightarrow> macro_state \<Rightarrow> macro_state" where
  "SetMethodAddress address s = s\<lparr>method_address := address\<rparr>"

definition Send :: "'g maxwell3d \<Rightarrow> u32 \<Rightarrow> macro_state \<times> 'g \<Rightarrow> macro_state \<times> 'g" where
  "Send maxwell value sg =
     (let (s, g) = sg;
          ma = method_address s;
          g' = CallMethod maxwell (ma_address ma) value True g
      in (s\<lparr>method_address := bf_assign 0 12 ma (ma_address ma + ma_increment ma)\<rparr>, g'))"

text \<open>
  \<open>Maxwell3D::GetRegisterValue\<close> indexes an array of \<open>NUM_REGS\<close> registers after an assertion that only logs, so
  that a method number past its end is undefined; the field \<open>GetRegisterValue\<close> is the array.
\<close>

definition NUM_REGS :: u32 where
  "NUM_REGS = 0xE00"

definition Read :: "'g maxwell3d \<Rightarrow> u32 \<Rightarrow> 'g \<Rightarrow> u32 run" where
  "Read maxwell method g =
     (if method < NUM_REGS then Done (GetRegisterValue maxwell method g) else Undefined)"

definition FetchParameter :: "macro_state \<Rightarrow> (u32 \<times> macro_state) run" where
  "FetchParameter s =
     (let i = unat (next_parameter_index s) in
      if i < length (parameters s)
      then Done (parameters s ! i, s\<lparr>next_parameter_index := next_parameter_index s + 1\<rparr>)
      else Undefined)"

definition GetALUResult :: "alu_operation \<Rightarrow> u32 \<Rightarrow> u32 \<Rightarrow> macro_state \<Rightarrow> u32 \<times> macro_state" where
  "GetALUResult operation src_a src_b s =
     (case operation of
        AluAdd \<Rightarrow>
          let result = (ucast src_a :: u64) + ucast src_b
          in (ucast result, s\<lparr>carry_flag := result > 0xffffffff\<rparr>)
      | AluAddWithCarry \<Rightarrow>
          let result = (ucast src_a :: u64) + ucast src_b + (if carry_flag s then 1 else 0)
          in (ucast result, s\<lparr>carry_flag := result > 0xffffffff\<rparr>)
      | AluSubtract \<Rightarrow>
          let result = (ucast src_a :: u64) - ucast src_b
          in (ucast result, s\<lparr>carry_flag := result < 0x100000000\<rparr>)
      | AluSubtractWithBorrow \<Rightarrow>
          let result = (ucast src_a :: u64) - ucast src_b - (if carry_flag s then 0 else 1)
          in (ucast result, s\<lparr>carry_flag := result < 0x100000000\<rparr>)
      | AluXor \<Rightarrow> (src_a XOR src_b, s)
      | AluOr \<Rightarrow> (src_a OR src_b, s)
      | AluAnd \<Rightarrow> (src_a AND src_b, s)
      | AluAndNot \<Rightarrow> (src_a AND NOT src_b, s)
      | AluNand \<Rightarrow> (NOT (src_a AND src_b), s)
      | Alu_other \<Rightarrow> (0, s))"

definition ProcessResult ::
  "'g maxwell3d \<Rightarrow> result_operation \<Rightarrow> u32 \<Rightarrow> u32 \<Rightarrow> macro_state \<times> 'g \<Rightarrow> (macro_state \<times> 'g) run" where
  "ProcessResult maxwell operation reg result sg =
     (let (s, g) = sg in
      case operation of
        IgnoreAndFetch \<Rightarrow>
          bind_run (FetchParameter s) (\<lambda>(p, s). bind_run (SetRegister reg p s) (\<lambda>s. Done (s, g)))
      | Move \<Rightarrow> bind_run (SetRegister reg result s) (\<lambda>s. Done (s, g))
      | MoveAndSetMethod \<Rightarrow>
          bind_run (SetRegister reg result s) (\<lambda>s. Done (SetMethodAddress result s, g))
      | FetchAndSend \<Rightarrow>
          bind_run (FetchParameter s) (\<lambda>(p, s).
            bind_run (SetRegister reg p s) (\<lambda>s. Done (Send maxwell result (s, g))))
      | MoveAndSend \<Rightarrow>
          bind_run (SetRegister reg result s) (\<lambda>s. Done (Send maxwell result (s, g)))
      | FetchAndSetMethod \<Rightarrow>
          bind_run (FetchParameter s) (\<lambda>(p, s).
            bind_run (SetRegister reg p s) (\<lambda>s. Done (SetMethodAddress result s, g)))
      | MoveAndSetMethodFetchAndSend \<Rightarrow>
          bind_run (SetRegister reg result s) (\<lambda>s.
            bind_run (FetchParameter (SetMethodAddress result s)) (\<lambda>(p, s).
              Done (Send maxwell p (s, g))))
      | MoveAndSetMethodSend \<Rightarrow>
          bind_run (SetRegister reg result s) (\<lambda>s.
            Done (Send maxwell (drop_bit 12 result AND 0x3f) (SetMethodAddress result s, g))))"

definition EvaluateBranchCondition :: "branch_condition \<Rightarrow> u32 \<Rightarrow> bool" where
  "EvaluateBranchCondition cond value =
     (case cond of BranchZero \<Rightarrow> value = 0 | BranchNotZero \<Rightarrow> value \<noteq> 0)"

section \<open>Steps\<close>

text \<open>
  The result an instruction computes, the operand of its \<open>ProcessResult\<close>. \<open>StepOperation\<close> is the
  switch of \<open>Step\<close> without its branch case; the unused operation only logs.
\<close>

definition OperationResult ::
  "'g maxwell3d \<Rightarrow> u32 \<Rightarrow> macro_state \<times> 'g \<Rightarrow> (u32 \<times> macro_state) run" where
  "OperationResult maxwell opcode sg =
     (let (s, g) = sg in
      bind_run (GetRegister (op_src_a opcode) s) (\<lambda>a.
        case op_operation opcode of
          OpALU \<Rightarrow>
            bind_run (GetRegister (op_src_b opcode) s) (\<lambda>b.
              Done (GetALUResult (op_alu_operation opcode) a b s))
        | OpAddImmediate \<Rightarrow> Done (a + op_immediate opcode, s)
        | OpExtractInsert \<Rightarrow>
            bind_run (GetRegister (op_src_b opcode) s) (\<lambda>b.
              bind_run (GetBitfieldMask opcode) (\<lambda>m.
                let src = drop_bit (unat (op_bf_src_bit opcode)) b AND m;
                    dst = a AND NOT (push_bit (unat (op_bf_dst_bit opcode)) m)
                in Done (dst OR push_bit (unat (op_bf_dst_bit opcode)) src, s)))
        | OpExtractShiftLeftImmediate \<Rightarrow>
            bind_run (GetRegister (op_src_b opcode) s) (\<lambda>b.
              if unat a \<ge> 32 then Undefined
              else bind_run (GetBitfieldMask opcode) (\<lambda>m.
                Done (push_bit (unat (op_bf_dst_bit opcode)) (drop_bit (unat a) b AND m), s)))
        | OpExtractShiftLeftRegister \<Rightarrow>
            bind_run (GetRegister (op_src_b opcode) s) (\<lambda>b.
              bind_run (GetBitfieldMask opcode) (\<lambda>m.
                if unat a \<ge> 32 then Undefined
                else Done (push_bit (unat a) (drop_bit (unat (op_bf_src_bit opcode)) b AND m), s)))
        | OpRead \<Rightarrow> bind_run (Read maxwell (a + op_immediate opcode) g) (\<lambda>result. Done (result, s))
        | _ \<Rightarrow> Undefined))"

definition StepOperation ::
  "'g maxwell3d \<Rightarrow> u32 \<Rightarrow> macro_state \<times> 'g \<Rightarrow> (macro_state \<times> 'g) run" where
  "StepOperation maxwell opcode sg =
     (if op_operation opcode = OpUnused then Done sg
      else bind_run (OperationResult maxwell opcode sg) (\<lambda>(result, s).
        ProcessResult maxwell (op_result_operation opcode) (op_dst opcode) result (s, snd sg)))"

text \<open>The program counter moves on, or to the target of the branch this step is the delay slot of.\<close>

definition AdvancePc :: "macro_state \<Rightarrow> macro_state" where
  "AdvancePc s =
     (case delayed_pc s of
        Some target \<Rightarrow> s\<lparr>pc := target, delayed_pc := None\<rparr>
      | None \<Rightarrow> s\<lparr>pc := pc s + 4\<rparr>)"

fun Step :: "'g maxwell3d \<Rightarrow> u32 list \<Rightarrow> nat \<Rightarrow> bool \<Rightarrow> macro_state \<times> 'g \<Rightarrow> (bool \<times> macro_state \<times> 'g) run" where
  "Step maxwell code 0 is_delay_slot sg = OutOfFuel"
| "Step maxwell code (Suc n) is_delay_slot (s, g) =
     bind_run (GetOpcode code s) (\<lambda>opcode.
       let base_address = pc s;
           s = AdvancePc s;
           leave = (\<lambda>sg. if op_is_exit opcode \<and> \<not> is_delay_slot
                          then bind_run (Step maxwell code n True sg) (\<lambda>(_, sg). Done (False, sg))
                          else Done (True, sg))
       in if op_operation opcode = OpBranch then
            bind_run (GetRegister (op_src_a opcode) s) (\<lambda>value.
              if EvaluateBranchCondition (op_branch_condition opcode) value then
                let target = base_address + GetBranchTarget opcode in
                if op_branch_annul opcode then Done (True, s\<lparr>pc := target\<rparr>, g)
                else Step maxwell code n True (s\<lparr>delayed_pc := Some target\<rparr>, g)
              else leave (s, g))
          else bind_run (StepOperation maxwell opcode (s, g)) leave)"

fun Interpreter_loop :: "'g maxwell3d \<Rightarrow> u32 list \<Rightarrow> nat \<Rightarrow> macro_state \<times> 'g \<Rightarrow> (macro_state \<times> 'g) run" where
  "Interpreter_loop maxwell code 0 sg = OutOfFuel"
| "Interpreter_loop maxwell code (Suc n) sg =
     bind_run (Step maxwell code (Suc n) False sg) (\<lambda>(keep_executing, sg).
       if keep_executing then Interpreter_loop maxwell code n sg else Done sg)"

text \<open>The state a run starts from: the first parameter in a register, all of them in the array.\<close>

definition LoadParameters :: "u32 list \<Rightarrow> macro_state \<Rightarrow> macro_state" where
  "LoadParameters params s =
     (let s = Reset s;
          s = s\<lparr>registers := (registers s)[1 := params ! 0], num_parameters := length params\<rparr>;
          s = (if num_parameters s > parameters_capacity s
               then s\<lparr>parameters_capacity := num_parameters s,
                      parameters := replicate (num_parameters s) 0\<rparr>
               else s)
      in s\<lparr>parameters := params @ drop (length params) (parameters s)\<rparr>)"

definition Interpreter_Execute ::
  "'g maxwell3d \<Rightarrow> u32 list \<Rightarrow> nat \<Rightarrow> u32 list \<Rightarrow> macro_state \<times> 'g \<Rightarrow> (macro_state \<times> 'g) run" where
  "Interpreter_Execute maxwell code n params sg =
     (if params = [] then Undefined
      else Interpreter_loop maxwell code n (LoadParameters params (fst sg), snd sg))"

section \<open>Outcomes and fields\<close>

lemma bind_run_Done_iff: "bind_run m f = Done y \<longleftrightarrow> (\<exists>x. m = Done x \<and> f x = Done y)"
  by (cases m) auto

lemma bind_run_OutOfFuel_iff: "bind_run m f = OutOfFuel \<longleftrightarrow> m = OutOfFuel \<or> (\<exists>x. m = Done x \<and> f x = OutOfFuel)"
  by (cases m) auto

lemma bind_run_assoc: "bind_run (bind_run m f) g = bind_run m (\<lambda>x. bind_run (f x) g)"
  by (cases m) auto

lemma bind_run_right: "bind_run m Done = m"
  by (cases m) simp_all

lemma bind_run_cong: "m = m' \<Longrightarrow> (\<And>x. m' = Done x \<Longrightarrow> f x = f' x) \<Longrightarrow> bind_run m f = bind_run m' f'"
  by (cases m') auto

text \<open>A machine state of a run: eight registers, the first of them zero, and the parameters of the run in
  the allocated array.\<close>

definition macro_wf :: "macro_state \<Rightarrow> bool" where
  "macro_wf s \<longleftrightarrow> length (registers s) = NUM_MACRO_REGISTERS \<and> registers s ! 0 = 0 \<and>
     length (parameters s) = parameters_capacity s \<and> num_parameters s \<le> parameters_capacity s"

lemma register_index: "unat (bf_extract p 3 w :: u32) < NUM_MACRO_REGISTERS"
  using unat_bf_extract_less[of p 3 w] by (simp add: NUM_MACRO_REGISTERS_def)

lemma GetRegister_wf:
  "macro_wf s \<Longrightarrow> GetRegister (bf_extract p 3 w) s = Done (registers s ! unat (bf_extract p 3 w))"
  using register_index[of p w] by (simp add: GetRegister_def macro_wf_def)

text \<open>What the operations of an instruction leave alone.\<close>

definition same_control :: "macro_state \<Rightarrow> macro_state \<Rightarrow> bool" where
  "same_control s s' \<longleftrightarrow> pc s' = pc s \<and> delayed_pc s' = delayed_pc s \<and> parameters s' = parameters s \<and>
     num_parameters s' = num_parameters s \<and> parameters_capacity s' = parameters_capacity s \<and>
     (macro_wf s \<longrightarrow> macro_wf s')"

lemma same_control_refl [simp]: "same_control s s"
  by (simp add: same_control_def)

lemma same_control_trans: "same_control s s' \<Longrightarrow> same_control s' s'' \<Longrightarrow> same_control s s''"
  by (simp add: same_control_def)

lemma SetRegister_control: "SetRegister r v s = Done s' \<Longrightarrow> same_control s s'"
  by (auto simp: SetRegister_def same_control_def macro_wf_def nth_list_update unat_eq_zero split: if_splits)

lemma SetMethodAddress_control [simp]: "same_control s (SetMethodAddress a s)"
  by (simp add: SetMethodAddress_def same_control_def macro_wf_def)

lemma same_control_SetMethodAddress: "same_control (SetMethodAddress a s) s' \<Longrightarrow> same_control s s'"
  by (rule same_control_trans[OF SetMethodAddress_control])

lemma FetchParameter_control: "FetchParameter s = Done (p, s') \<Longrightarrow> same_control s s'"
  by (auto simp: FetchParameter_def same_control_def macro_wf_def Let_def split: if_splits)

lemma Send_control: "Send m v (s, g) = (s', g') \<Longrightarrow> same_control s s'"
  by (auto simp: Send_def same_control_def macro_wf_def Let_def)

lemma GetALUResult_control: "GetALUResult op a b s = (r, s') \<Longrightarrow> same_control s s'"
  by (auto simp: GetALUResult_def same_control_def macro_wf_def Let_def split: alu_operation.splits)

lemma ProcessResult_control:
  assumes "ProcessResult m rop reg v (s, g) = Done (s', g')" shows "same_control s s'"
  using assms
  by (cases rop)
    (auto simp: ProcessResult_def bind_run_Done_iff
      dest!: SetRegister_control FetchParameter_control Send_control same_control_SetMethodAddress intro: same_control_trans)

lemma OperationResult_control:
  assumes "OperationResult m opc (s, g) = Done (v, s')" shows "same_control s s'"
  using assms by (cases "op_operation opc")
    (auto simp: OperationResult_def bind_run_Done_iff Let_def split: if_splits dest: GetALUResult_control)

lemma StepOperation_control:
  assumes "StepOperation m opc (s, g) = Done (s', g')" shows "same_control s s'"
proof (cases "op_operation opc = OpUnused")
  case False
  with assms obtain v s1 where "OperationResult m opc (s, g) = Done (v, s1)"
    "ProcessResult m (op_result_operation opc) (op_dst opc) v (s1, g) = Done (s', g')"
    by (auto simp: StepOperation_def bind_run_Done_iff)
  then show ?thesis by (blast intro: same_control_trans dest: OperationResult_control ProcessResult_control)
qed (use assms in \<open>simp add: StepOperation_def\<close>)

lemma StepOperation_fuel: "StepOperation m opc sg \<noteq> OutOfFuel"
  by (cases sg) (auto simp: StepOperation_def OperationResult_def ProcessResult_def bind_run_OutOfFuel_iff Let_def
      GetRegister_def SetRegister_def FetchParameter_def GetBitfieldMask_def Read_def
      split: operation.splits result_operation.splits if_splits prod.splits)

lemma GetRegister_fuel [simp]: "GetRegister r s \<noteq> OutOfFuel"
  by (simp add: GetRegister_def)

lemma GetOpcode_fuel [simp]: "GetOpcode code s \<noteq> OutOfFuel"
  by (simp add: GetOpcode_def Let_def)

section \<open>Fuel\<close>

text \<open>More fuel only replaces a run that had run out.\<close>

named_theorems fuel_mono

definition fuel_le :: "'a run \<Rightarrow> 'a run \<Rightarrow> bool" where
  "fuel_le r r' \<longleftrightarrow> r = OutOfFuel \<or> r = r'"

lemma fuel_le_refl [fuel_mono]: "fuel_le r r"
  by (simp add: fuel_le_def)

lemma fuel_le_bind [fuel_mono]: "fuel_le m m' \<Longrightarrow> (\<And>x. fuel_le (f x) (f' x)) \<Longrightarrow> fuel_le (bind_run m f) (bind_run m' f')"
  unfolding fuel_le_def by (cases m) (simp, metis bind_run.simps(1,4), simp_all)

lemma fuel_le_if [fuel_mono]: "fuel_le r r' \<Longrightarrow> fuel_le q q' \<Longrightarrow> fuel_le (if b then r else q) (if b then r' else q')"
  by simp

lemma fuel_le_prod [fuel_mono]: "(\<And>x y. fuel_le (f x y) (f' x y)) \<Longrightarrow> fuel_le (case p of (x, y) \<Rightarrow> f x y) (case p of (x, y) \<Rightarrow> f' x y)"
  by (cases p) simp

lemma fuel_leD: "fuel_le r r' \<Longrightarrow> r \<noteq> OutOfFuel \<Longrightarrow> r' = r"
  by (auto simp: fuel_le_def)

lemma Step_fuel_le: "fuel_le (Step m code n d sg) (Step m code (n + k) d sg)"
proof (induction n arbitrary: d sg)
  case (Suc n)
  obtain s g where sg: "sg = (s, g)" by (cases sg)
  show ?case unfolding sg add_Suc Step.simps Let_def by (intro fuel_mono Suc.IH)
qed (simp add: fuel_le_def)

lemma Step_more: "Step m code n d sg \<noteq> OutOfFuel \<Longrightarrow> n \<le> n' \<Longrightarrow> Step m code n' d sg = Step m code n d sg"
  using fuel_leD[OF Step_fuel_le[of m code n d sg "n' - n"]] by simp

lemma Execute_loop_fuel_le: "fuel_le (Interpreter_loop m code n sg) (Interpreter_loop m code (n + k) sg)"
proof (induction n arbitrary: sg)
  case (Suc n)
  show ?case unfolding add_Suc Interpreter_loop.simps
    using Step_fuel_le[of m code "Suc n" False sg k] by (intro fuel_mono Suc.IH) simp
qed (simp add: fuel_le_def)

lemma Execute_loop_more:
  "Interpreter_loop m code n sg \<noteq> OutOfFuel \<Longrightarrow> n \<le> n' \<Longrightarrow> Interpreter_loop m code n' sg = Interpreter_loop m code n sg"
  using fuel_leD[OF Execute_loop_fuel_le[of m code n sg "n' - n"]] by simp

section \<open>Delay slots\<close>

declare Step.simps(2) [simp del]

text \<open>
  The reference machine for delay slots keeps the address of the instruction after the next one
  explicitly and executes one instruction per tick: no recursion and no pending program counter. A tick
  knows whether its instruction is in the delay slot of a branch or of an exit.
\<close>

datatype slot = NoSlot | BranchSlot | ExitSlot

definition Tick ::
  "'g maxwell3d \<Rightarrow> u32 list \<Rightarrow> slot \<times> u32 \<times> macro_state \<times> 'g \<Rightarrow>
   (slot \<times> u32 \<times> macro_state \<times> 'g + macro_state \<times> 'g) run" where
  "Tick maxwell code c =
     (case c of (slot, npc, s, g) \<Rightarrow>
      bind_run (GetOpcode code s) (\<lambda>opcode.
       let target = pc s + GetBranchTarget opcode;
           s = s\<lparr>pc := npc\<rparr>;
           advance = (\<lambda>sg.
             if slot = ExitSlot then Done (Inr sg)
             else Done (Inl (if op_is_exit opcode \<and> slot = NoSlot then ExitSlot else NoSlot, pc (fst sg) + 4, sg)))
       in if op_operation opcode = OpBranch then
            bind_run (GetRegister (op_src_a opcode) s) (\<lambda>value.
              if EvaluateBranchCondition (op_branch_condition opcode) value then
                if op_branch_annul opcode then Done (Inl (NoSlot, target + 4, s\<lparr>pc := target\<rparr>, g))
                else Done (Inl (BranchSlot, target, s, g))
              else advance (s, g))
          else bind_run (StepOperation maxwell opcode (s, g)) advance))"

fun Tick_loop ::
  "'g maxwell3d \<Rightarrow> u32 list \<Rightarrow> nat \<Rightarrow> slot \<times> u32 \<times> macro_state \<times> 'g \<Rightarrow> (macro_state \<times> 'g) run" where
  "Tick_loop maxwell code 0 c = OutOfFuel"
| "Tick_loop maxwell code (Suc n) c =
     bind_run (Tick maxwell code c) (\<lambda>x. case x of Inl c' \<Rightarrow> Tick_loop maxwell code n c' | Inr sg \<Rightarrow> Done sg)"

text \<open>Programs whose delay slots hold no branch.\<close>

definition has_delay_slot :: "u32 \<Rightarrow> bool" where
  "has_delay_slot opc \<longleftrightarrow> op_is_exit opc \<or> op_operation opc = OpBranch \<and> \<not> op_branch_annul opc"

fun slots_hold_no_branch :: "u32 list \<Rightarrow> bool" where
  "slots_hold_no_branch (x # y # ys) \<longleftrightarrow>
     (has_delay_slot x \<longrightarrow> op_operation y \<noteq> OpBranch) \<and> slots_hold_no_branch (y # ys)"
| "slots_hold_no_branch _ \<longleftrightarrow> True"

definition slots_valid :: "u32 list \<Rightarrow> bool" where
  "slots_valid code \<longleftrightarrow> length code < 2 ^ 30 \<and> slots_hold_no_branch code"

lemma slots_hold_no_branchD:
  "slots_hold_no_branch code \<Longrightarrow> i + 1 < length code \<Longrightarrow> has_delay_slot (code ! i) \<Longrightarrow> op_operation (code ! (i + 1)) \<noteq> OpBranch"
proof (induction code arbitrary: i rule: slots_hold_no_branch.induct)
  case (1 x y ys)
  then show ?case by (cases i) auto
qed simp_all

lemma next_index:
  assumes "unat (p div 4) < n" "n < 2 ^ 30" shows "unat ((p + 4) div 4 :: u32) = unat (p div 4) + 1"
proof -
  have d: "unat (q div 4) = unat q div 4" for q :: u32 by (simp add: unat_div_distrib)
  have "unat p div 4 < 2 ^ 30 - 1" using assms by (simp add: d)
  then have "unat (p + 4) = unat p + 4" by (intro unat_add_no_wrap[of p 4, simplified]) simp
  then show ?thesis by (simp add: d)
qed

lemma AdvancePc_simps:
  "delayed_pc s = None \<Longrightarrow> AdvancePc s = s\<lparr>pc := pc s + 4\<rparr>"
  "AdvancePc (s\<lparr>delayed_pc := Some t\<rparr>) = s\<lparr>pc := t, delayed_pc := None\<rparr>"
  by (simp_all add: AdvancePc_def)

text \<open>The delay slot: one more instruction, at the next address, that is not a branch.\<close>

definition run_slot :: "'g maxwell3d \<Rightarrow> u32 list \<Rightarrow> macro_state \<times> 'g \<Rightarrow> (macro_state \<times> 'g) run" where
  "run_slot m code sg = bind_run (GetOpcode code (fst sg)) (\<lambda>opc. StepOperation m opc (AdvancePc (fst sg), snd sg))"

lemma Step_slot:
  assumes "\<And>opc. GetOpcode code s = Done opc \<Longrightarrow> op_operation opc \<noteq> OpBranch"
  shows "Step m code (Suc n) True (s, g) = bind_run (run_slot m code (s, g)) (\<lambda>sg. Done (True, sg))"
  unfolding Step.simps Let_def run_slot_def bind_run_assoc using assms by (auto intro!: bind_run_cong)

lemma slot_not_branch:
  assumes "slots_valid code" "GetOpcode code s = Done opc" "has_delay_slot opc" "pc s' = pc s + 4" "GetOpcode code s' = Done opc'"
  shows "op_operation opc' \<noteq> OpBranch"
proof -
  have i: "unat (pc s div 4) < length code" "opc = code ! unat (pc s div 4)"
    using assms(2) by (auto simp: GetOpcode_def Let_def split: if_splits)
  have "unat (pc s' div 4) = unat (pc s div 4) + 1"
    using next_index[OF i(1)] assms(1,4) by (simp add: slots_valid_def)
  then have "opc' = code ! (unat (pc s div 4) + 1)" "unat (pc s div 4) + 1 < length code"
    using assms(5) by (auto simp: GetOpcode_def Let_def split: if_splits)
  then show ?thesis using assms(1,3) i slots_hold_no_branchD by (simp add: slots_valid_def)
qed

text \<open>One call of \<open>Step\<close> is one or two ticks.\<close>

definition ticks_to :: "'g maxwell3d \<Rightarrow> u32 list \<Rightarrow> slot \<times> u32 \<times> macro_state \<times> 'g \<Rightarrow>
   (slot \<times> u32 \<times> macro_state \<times> 'g + macro_state \<times> 'g) run \<Rightarrow> bool" where
  "ticks_to m code c r \<longleftrightarrow> Tick m code c = r \<or> (\<exists>c1. Tick m code c = Done (Inl c1) \<and> Tick m code c1 = r)"

definition start_of :: "macro_state \<times> 'g \<Rightarrow> slot \<times> u32 \<times> macro_state \<times> 'g" where
  "start_of sg = (NoSlot, pc (fst sg) + 4, sg)"

definition tick_result :: "(bool \<times> macro_state \<times> 'g) run \<Rightarrow> (slot \<times> u32 \<times> macro_state \<times> 'g + macro_state \<times> 'g) run" where
  "tick_result r = bind_run r (\<lambda>(keep, sg). Done (if keep then Inl (start_of sg) else Inr sg))"

lemma Tick_slot:
  assumes "\<And>opc. GetOpcode code s = Done opc \<Longrightarrow> op_operation opc \<noteq> OpBranch" "sl \<noteq> NoSlot"
    "s'\<lparr>pc := npc\<rparr> = AdvancePc s" "pc s' = pc s"
  shows "Tick m code (sl, npc, s', g) =
    bind_run (run_slot m code (s, g)) (\<lambda>sg. Done (if sl = ExitSlot then Inr sg else Inl (start_of sg)))"
proof -
  have o: "GetOpcode code s' = GetOpcode code s" using assms(4) by (simp add: GetOpcode_def)
  show ?thesis unfolding Tick_def prod.case o Let_def assms(3) run_slot_def bind_run_assoc
    using assms(1,2) by (auto intro!: bind_run_cong simp: start_of_def)
qed

text \<open>The end of an instruction that does not jump: the exit with its delay slot, or the next one.\<close>

lemma leave_ticks:
  assumes v: "slots_valid code" and opc: "GetOpcode code s = Done opc"
    and sg: "pc (fst sg) = pc s + 4" "delayed_pc (fst sg) = None"
    and c: "Tick m code c = Done (Inl (if op_is_exit opc then ExitSlot else NoSlot, pc (fst sg) + 4, sg))"
  shows "ticks_to m code c (tick_result (if op_is_exit opc
    then bind_run (Step m code (Suc n) True sg) (\<lambda>(_, sg). Done (False, sg)) else Done (True, sg)))"
proof (cases "op_is_exit opc")
  case True
  obtain s' g' where sg': "sg = (s', g')" by (cases sg)
  have nb: "op_operation o' \<noteq> OpBranch" if "GetOpcode code s' = Done o'" for o'
    using slot_not_branch[OF v opc _ _ that] True sg sg' by (simp add: has_delay_slot_def)
  have "Tick m code (ExitSlot, pc s' + 4, s', g') = bind_run (run_slot m code (s', g')) (\<lambda>sg. Done (Inr sg))"
    using sg sg' by (subst Tick_slot[OF nb]) (simp_all add: AdvancePc_simps)
  then show ?thesis
    using True c sg' by (simp add: ticks_to_def tick_result_def Step_slot[OF nb] bind_run_assoc)
next
  case False
  then show ?thesis using c by (simp add: ticks_to_def tick_result_def start_of_def)
qed

lemma branch_ticks:
  assumes v: "slots_valid code" and opc: "GetOpcode code s = Done opc" and d: "delayed_pc s = None"
    and b: "op_operation opc = OpBranch" "\<not> op_branch_annul opc"
    and c: "Tick m code c = Done (Inl (BranchSlot, t, s\<lparr>pc := pc s + 4\<rparr>, g))"
  shows "ticks_to m code c (tick_result (Step m code (Suc n) True (s\<lparr>pc := pc s + 4, delayed_pc := Some t\<rparr>, g)))"
proof -
  let ?s = "s\<lparr>pc := pc s + 4, delayed_pc := Some t\<rparr>"
  have nb: "op_operation o' \<noteq> OpBranch" if "GetOpcode code ?s = Done o'" for o'
    using slot_not_branch[OF v opc _ _ that] b by (simp add: has_delay_slot_def)
  have "Tick m code (BranchSlot, t, s\<lparr>pc := pc s + 4\<rparr>, g) = bind_run (run_slot m code (?s, g)) (\<lambda>sg. Done (Inl (start_of sg)))"
    using d by (subst Tick_slot[OF nb]) (simp_all add: AdvancePc_def)
  then show ?thesis using c by (simp add: ticks_to_def tick_result_def Step_slot[OF nb] bind_run_assoc)
qed

lemma Step_ticks:
  assumes v: "slots_valid code" and d: "delayed_pc s = None"
  shows "ticks_to m code (start_of (s, g)) (tick_result (Step m code (Suc (Suc n)) False (s, g)))"
proof (cases "GetOpcode code s")
  case opc: (Done opc)
  let ?s = "s\<lparr>pc := pc s + 4\<rparr>" and ?c = "start_of (s, g)"
  note unf = Step.simps(2)[of m code "Suc n" False s g, unfolded opc bind_run.simps Let_def AdvancePc_simps(1)[OF d]]
    Tick_def[of m code ?c, unfolded start_of_def fst_conv prod.case opc bind_run.simps Let_def]
  show ?thesis
  proof (cases "op_operation opc = OpBranch")
    case br: True
    show ?thesis
    proof (cases "GetRegister (op_src_a opc) ?s")
      case r: (Done v)
      show ?thesis
      proof (cases "EvaluateBranchCondition (op_branch_condition opc) v")
        case True
        then show ?thesis
          using branch_ticks[OF v opc d br, of m ?c "pc s + GetBranchTarget opc" g n] r br
          by (cases "op_branch_annul opc") (simp_all add: unf ticks_to_def tick_result_def start_of_def)
      next
        case False
        then show ?thesis
          using leave_ticks[OF v opc, of "(?s, g)" m ?c n] r br d by (simp add: unf start_of_def)
      qed
    qed (simp_all add: unf br ticks_to_def tick_result_def start_of_def)
  next
    case nb: False
    show ?thesis
    proof (cases "StepOperation m opc (?s, g)")
      case r: (Done sg)
      have "same_control ?s (fst sg)" using StepOperation_control[of m opc ?s g "fst sg" "snd sg"] r by simp
      then have "pc (fst sg) = pc s + 4" "delayed_pc (fst sg) = None" using d by (simp_all add: same_control_def)
      then show ?thesis
        using leave_ticks[OF v opc, of sg m ?c n] r nb by (simp add: unf start_of_def)
    qed (simp_all add: unf nb ticks_to_def tick_result_def start_of_def)
  qed
qed (simp_all add: ticks_to_def Tick_def start_of_def tick_result_def Step.simps(2))


lemma Tick_fuel: "Tick m code c \<noteq> OutOfFuel"
  by (cases c) (auto simp: Tick_def bind_run_OutOfFuel_iff Let_def StepOperation_fuel split: if_splits)

lemma StepOperation_pc: "StepOperation m opc (s, g) = Done (s', g') \<Longrightarrow> pc s' = pc s \<and> delayed_pc s' = delayed_pc s"
  by (drule StepOperation_control) (simp add: same_control_def)

lemma Tick_delayed:
  assumes "Tick m code (sl, npc, s, g) = Done (Inl (sl', npc', s', g'))" "delayed_pc s = None"
  shows "delayed_pc s' = None"
proof -
  from assms(1) obtain opc where t: "Tick m code (sl, npc, s, g) = Done (Inl (sl', npc', s', g'))" "GetOpcode code s = Done opc"
    by (auto simp: Tick_def bind_run_Done_iff)
  show ?thesis
  proof (cases "op_operation opc = OpBranch")
    case True
    with t assms(2) show ?thesis
      by (cases "GetRegister (op_src_a opc) (s\<lparr>pc := npc\<rparr>)") (auto simp: Tick_def Let_def split: if_splits)
  next
    case False
    with t obtain sg where "StepOperation m opc (s\<lparr>pc := npc\<rparr>, g) = Done sg" "sg = (s', g')"
      by (cases "StepOperation m opc (s\<lparr>pc := npc\<rparr>, g)") (auto simp: Tick_def Let_def split: if_splits)
    then show ?thesis using StepOperation_pc[of m opc "s\<lparr>pc := npc\<rparr>" g s' g'] assms(2) by simp
  qed
qed

lemma Step_two:
  assumes "slots_valid code" "delayed_pc s = None"
  shows "Step m code 2 False (s, g) \<noteq> OutOfFuel"
    "Step m code 2 False (s, g) = Done (True, s', g') \<Longrightarrow> delayed_pc s' = None"
proof -
  have t: "ticks_to m code (start_of (s, g)) (tick_result (Step m code 2 False (s, g)))"
    using Step_ticks[OF assms, of m g 0] by (simp add: numeral_2_eq_2)
  then have "tick_result (Step m code 2 False (s, g)) \<noteq> OutOfFuel" using Tick_fuel unfolding ticks_to_def by metis
  then show "Step m code 2 False (s, g) \<noteq> OutOfFuel" by (auto simp: tick_result_def)
  assume "Step m code 2 False (s, g) = Done (True, s', g')"
  then have "ticks_to m code (start_of (s, g)) (Done (Inl (NoSlot, pc s' + 4, s', g')))" using t by (simp add: tick_result_def start_of_def)
  then show "delayed_pc s' = None"
    using Tick_delayed assms(2) unfolding ticks_to_def start_of_def by (metis fst_conv prod_cases4)
qed

lemma Step_enough:
  assumes "slots_valid code" "delayed_pc s = None"
  shows "2 \<le> n \<Longrightarrow> Step m code n False (s, g) = Step m code 2 False (s, g)"
    "Step m code n False (s, g) \<noteq> OutOfFuel \<Longrightarrow> Step m code n False (s, g) = Step m code 2 False (s, g)"
proof -
  show more: "2 \<le> n \<Longrightarrow> Step m code n False (s, g) = Step m code 2 False (s, g)"
    by (rule Step_more[OF Step_two(1)[OF assms]])
  show "Step m code n False (s, g) = Step m code 2 False (s, g)" if "Step m code n False (s, g) \<noteq> OutOfFuel"
    using Step_more[OF that, of 2] more by (cases "2 \<le> n") simp_all
qed

lemma Tick_loop_ticks:
  assumes "ticks_to m code c r"
  shows "\<exists>j > 0. (\<forall>n. Tick_loop m code (n + j) c =
      bind_run r (\<lambda>x. case x of Inl c' \<Rightarrow> Tick_loop m code n c' | Inr sg \<Rightarrow> Done sg)) \<and>
    (\<forall>n < j. Tick_loop m code n c = OutOfFuel)"
  using assms unfolding ticks_to_def
proof (elim disjE exE conjE)
  assume "Tick m code c = r"
  then show ?thesis by (intro exI[of _ 1]) simp
next
  fix c1 assume "Tick m code c = Done (Inl c1)" "Tick m code c1 = r"
  then show ?thesis by (intro exI[of _ 2]) (simp add: less_2_cases_iff)
qed

lemma Tick_loop_Step:
  assumes "slots_valid code" "delayed_pc s = None"
  shows "\<exists>j > 0. (\<forall>n. Tick_loop m code (n + j) (start_of (s, g)) =
      bind_run (Step m code 2 False (s, g)) (\<lambda>(keep, sg). if keep then Tick_loop m code n (start_of sg) else Done sg)) \<and>
    (\<forall>n < j. Tick_loop m code n (start_of (s, g)) = OutOfFuel)"
proof -
  have r: "bind_run (tick_result r) (\<lambda>x. case x of Inl c' \<Rightarrow> Tick_loop m code n c' | Inr sg \<Rightarrow> Done sg) =
    bind_run r (\<lambda>(keep, sg). if keep then Tick_loop m code n (start_of sg) else Done sg)" for r n
    by (cases r) (auto simp: tick_result_def)
  show ?thesis using Tick_loop_ticks[OF Step_ticks[OF assms, of m g 0]] unfolding r by (simp add: numeral_2_eq_2)
qed

lemma loop_to_ticks:
  assumes "slots_valid code"
  shows "delayed_pc s = None \<Longrightarrow> Interpreter_loop m code n (s, g) \<noteq> OutOfFuel \<Longrightarrow>
    \<exists>n'. Tick_loop m code n' (start_of (s, g)) = Interpreter_loop m code n (s, g)"
proof (induction n arbitrary: s g)
  case (Suc n)
  from Tick_loop_Step[OF assms Suc.prems(1), of m g] obtain j where
    "\<forall>n. Tick_loop m code (n + j) (start_of (s, g)) =
      bind_run (Step m code 2 False (s, g)) (\<lambda>(keep, sg). if keep then Tick_loop m code n (start_of sg) else Done sg)"
    by (elim exE conjE)
  note j = this[rule_format]
  have st: "Step m code (Suc n) False (s, g) = Step m code 2 False (s, g)"
  proof (rule Step_enough(2)[OF assms Suc.prems(1)])
    show "Step m code (Suc n) False (s, g) \<noteq> OutOfFuel"
    proof
      assume "Step m code (Suc n) False (s, g) = OutOfFuel"
      then have "Interpreter_loop m code (Suc n) (s, g) = OutOfFuel" by simp
      with Suc.prems(2) show False by contradiction
    qed
  qed
  show ?case
  proof (cases "\<exists>s' g'. Step m code 2 False (s, g) = Done (True, s', g')")
    case True
    then obtain s' g' where r: "Step m code 2 False (s, g) = Done (True, s', g')" by blast
    from Suc.IH[OF Step_two(2)[OF assms Suc.prems(1) r]] Suc.prems(2) obtain n' where
      "Tick_loop m code n' (start_of (s', g')) = Interpreter_loop m code n (s', g')" by (auto simp: st r)
    then show ?thesis using j[of n'] by (auto simp: st r)
  next
    case False
    then show ?thesis using j[of 0]
      by (intro exI[of _ "0 + j"]) (auto simp: st intro!: bind_run_cong)
  qed
qed simp

lemma ticks_to_loop:
  assumes "slots_valid code"
  shows "delayed_pc s = None \<Longrightarrow> Tick_loop m code n (start_of (s, g)) \<noteq> OutOfFuel \<Longrightarrow>
    \<exists>n'. Interpreter_loop m code n' (s, g) = Tick_loop m code n (start_of (s, g))"
proof (induction n arbitrary: s g rule: less_induct)
  case (less n)
  from Tick_loop_Step[OF assms less.prems(1), of m g] obtain j where
    "j > 0" "\<forall>n. Tick_loop m code (n + j) (start_of (s, g)) =
      bind_run (Step m code 2 False (s, g)) (\<lambda>(keep, sg). if keep then Tick_loop m code n (start_of sg) else Done sg)"
    "\<forall>n < j. Tick_loop m code n (start_of (s, g)) = OutOfFuel"
    by (elim exE conjE)
  note j = this[rule_format]
  define k where "k = n - j"
  have n: "n = k + j" using j(3)[of n] less.prems(2) unfolding k_def by (cases "n < j") auto
  have ex: "Interpreter_loop m code (Suc i) (s, g) =
      bind_run (Step m code 2 False (s, g)) (\<lambda>(keep, sg). if keep then Interpreter_loop m code i sg else Done sg)" if "i > 0" for i
    using Step_enough(1)[OF assms less.prems(1), of "Suc i" m g] that by simp
  show ?case
  proof (cases "\<exists>s' g'. Step m code 2 False (s, g) = Done (True, s', g')")
    case True
    then obtain s' g' where r: "Step m code 2 False (s, g) = Done (True, s', g')" by blast
    have t: "Tick_loop m code n (start_of (s, g)) = Tick_loop m code k (start_of (s', g'))" unfolding n j(2) r by simp
    have "k < n" using n j(1) by simp
    from less.IH[OF this Step_two(2)[OF assms less.prems(1) r]] t less.prems(2) obtain n' where
      e: "Interpreter_loop m code n' (s', g') = Tick_loop m code n (start_of (s, g))" by auto
    then have "Interpreter_loop m code (Suc n') (s', g') = Tick_loop m code n (start_of (s, g))"
      using Execute_loop_more[of m code n' "(s', g')" "Suc n'"] less.prems(2) by simp
    then show ?thesis using ex[of "Suc n'"] r by (intro exI[of _ "Suc (Suc n')"]) simp
  next
    case False
    then show ?thesis unfolding n j(2) by (intro exI[of _ "Suc 1"]) (auto simp: ex simp del: Interpreter_loop.simps intro!: bind_run_cong)
  qed
qed

definition Execute_reference ::
  "'g maxwell3d \<Rightarrow> u32 list \<Rightarrow> nat \<Rightarrow> u32 list \<Rightarrow> macro_state \<times> 'g \<Rightarrow> (macro_state \<times> 'g) run" where
  "Execute_reference maxwell code n params sg =
     (if params = [] then Undefined
      else Tick_loop maxwell code n (start_of (LoadParameters params (fst sg), snd sg)))"

lemma LoadParameters_delayed [simp]: "delayed_pc (LoadParameters params s) = None" "pc (LoadParameters params s) = 0"
  by (simp_all add: LoadParameters_def Reset_def Let_def)

text \<open>
  Claim C10. Delay slots. On a macro whose delay slots hold no branch, the interpreter, which runs a delay
  slot by calling \<open>Step\<close> from inside \<open>Step\<close> with a pending program counter, computes exactly what the
  machine does that executes one instruction after the other with an explicit next address: whatever one
  of the two ends with (a final state, an exception, undefined behaviour) the other ends with too, and
  if one of them never ends neither does the other.
\<close>

theorem macro_delay_slots_equivalent:
  assumes "slots_valid code" "r \<noteq> OutOfFuel"
  shows "(\<exists>n. Interpreter_Execute m code n params (s, g) = r) \<longleftrightarrow> (\<exists>n. Execute_reference m code n params (s, g) = r)"
proof (cases "params = []")
  case False
  let ?s = "LoadParameters params s"
  show ?thesis unfolding Interpreter_Execute_def Execute_reference_def using False
    loop_to_ticks[OF assms(1) LoadParameters_delayed(1)[of params s], of m _ g]
    ticks_to_loop[OF assms(1) LoadParameters_delayed(1)[of params s], of m _ g] assms(2)
    by (simp only: if_False fst_conv snd_conv) metis
qed (simp add: Interpreter_Execute_def Execute_reference_def)

definition trace_engine :: "(u32 \<times> u32) list maxwell3d" where
  "trace_engine = \<lparr>CallMethod = (\<lambda>a v l g. g @ [(a, v)]), GetRegisterValue = (\<lambda>a g. a)\<rparr>"

definition slot_program :: "u32 list" where
  "slot_program = [0x14211, 0x8817, 0x5311, 0x18c1, 0x11]"

theorem macro_delay_slots_equivalent_witness:
  "slots_valid slot_program \<and>
   (\<exists>n s'. Execute_reference trace_engine slot_program n [7] (MacroInterpreterImpl, []) = Done (s', [(0, 6)]))"
proof
  have "slots_hold_no_branch slot_program" by code_simp
  then show v: "slots_valid slot_program" by (simp add: slots_valid_def slot_program_def)
  have e: "bind_run (Interpreter_Execute trace_engine slot_program 5 [7] (MacroInterpreterImpl, [])) (\<lambda>(s, g). Done g) = Done [(0, 6)]"
    by code_simp
  then obtain s' where x: "Interpreter_Execute trace_engine slot_program 5 [7] (MacroInterpreterImpl, []) = Done (s', [(0, 6)])"
    by (auto simp: bind_run_Done_iff)
  then show "\<exists>n s'. Execute_reference trace_engine slot_program n [7] (MacroInterpreterImpl, []) = Done (s', [(0, 6)])"
    using macro_delay_slots_equivalent[OF v, of "Done (s', [(0, 6)])" trace_engine "[7]" MacroInterpreterImpl "[]"] by auto
qed

section \<open>Arithmetic over several words\<close>

text \<open>The carry is the borrow inverted: after a subtraction it is set when nothing was borrowed.\<close>

lemma carry_add:
  fixes a b :: u32 and c :: bool
  defines "r \<equiv> (ucast a :: u64) + ucast b + (if c then 1 else 0)"
  shows "unat (ucast r :: u32) = (unat a + unat b + of_bool c) mod 2 ^ 32"
    "r > 0xffffffff \<longleftrightarrow> unat a + unat b + of_bool c \<ge> 2 ^ 32"
proof -
  have ab: "unat a < 2 ^ 32" "unat b < 2 ^ 32" using unsigned_less[of a, where 'a = nat] unsigned_less[of b, where 'a = nat] by simp_all
  have u: "unat (ucast x :: u64) = unat x" for x :: u32 by (simp add: unat_ucast_up)
  have "unat r = unat a + unat b + of_bool c" unfolding r_def using ab
    by (simp add: unat_add_no_wrap u)
  then show "unat (ucast r :: u32) = (unat a + unat b + of_bool c) mod 2 ^ 32"
    "r > 0xffffffff \<longleftrightarrow> unat a + unat b + of_bool c \<ge> 2 ^ 32"
    by (auto simp: unsigned_ucast_eq take_bit_eq_mod word_less_nat_alt)
qed

lemma borrow_sub:
  fixes a b :: u32 and c :: bool
  defines "r \<equiv> (ucast a :: u64) - ucast b - (if c then 0 else 1)"
  shows "uint (ucast r :: u32) = (uint a - uint b - of_bool (\<not> c)) mod 2 ^ 32"
    "r < 0x100000000 \<longleftrightarrow> uint b + of_bool (\<not> c) \<le> uint a"
proof -
  have ab: "uint a < 4294967296" "uint b < 4294967296" "0 \<le> uint a" "0 \<le> uint b" "(2::int) ^ 64 = 18446744073709551616"
    using unsigned_less[of a, where 'a = int] unsigned_less[of b, where 'a = int] by simp_all
  have bc: "0 \<le> (of_bool (\<not> c) :: int)" "of_bool (\<not> c) \<le> (1::int)" by simp_all
  have u: "uint (ucast x :: u64) = uint x" for x :: u32
    by (simp add: unsigned_ucast_eq take_bit_int_eq_self unsigned_less[THEN less_trans])
  have r: "uint r = (uint a - uint b - of_bool (\<not> c)) mod 2 ^ 64"
    unfolding r_def by (simp add: uint_word_ariths u mod_simps)
  show "uint (ucast r :: u32) = (uint a - uint b - of_bool (\<not> c)) mod 2 ^ 32"
    by (simp add: unsigned_ucast_eq take_bit_eq_mod r mod_mod_cancel)
  show "r < 0x100000000 \<longleftrightarrow> uint b + of_bool (\<not> c) \<le> uint a"
  proof (cases "uint b + of_bool (\<not> c) \<le> uint a")
    case True
    then have "uint r = uint a - uint b - of_bool (\<not> c)" 
      unfolding r ab(5) using ab(1-4) bc by (intro mod_pos_pos_trivial) linarith+
    then have "uint r < 4294967296" using ab bc by linarith
    then show ?thesis using True by (simp add: word_less_def)
  next
    case False
    let ?d = "uint a - uint b - of_bool (\<not> c)"
    have "?d mod 2 ^ 64 = (?d + 2 ^ 64) mod 2 ^ 64" by simp
    also have "\<dots> = ?d + 2 ^ 64" unfolding ab(5) using False ab(1-4) bc by (intro mod_pos_pos_trivial) linarith+
    finally have "uint r \<ge> 18446744069414584319" unfolding r using ab bc by linarith
    then show ?thesis using False by (simp add: word_less_def)
  qed
qed


lemma two_digits_add:
  fixes x y u v M :: nat
  assumes "x < M" "y < M" "u < M" "v < M"
  shows "(u + v + of_bool (M \<le> x + y)) mod M * M + (x + y) mod M = (u * M + x + (v * M + y)) mod (M * M)"
    "M \<le> u + v + of_bool (M \<le> x + y) \<longleftrightarrow> M * M \<le> u * M + x + (v * M + y)"
proof -
  let ?c = "of_bool (M \<le> x + y) :: nat"
  have q: "(x + y) div M = ?c" using assms(1,2) by (simp add: div_nat_eqI)
  have e: "u * M + x + (v * M + y) = (u + v) * M + (x + y)" by (simp add: algebra_simps)
  have d: "(u * M + x + (v * M + y)) div M = u + v + ?c" unfolding e using q assms(1) by simp
  have "(u * M + x + (v * M + y)) mod M = (x + y) mod M" unfolding e by simp
  then show "(u + v + ?c) mod M * M + (x + y) mod M = (u * M + x + (v * M + y)) mod (M * M)"
    using d by (simp add: mod_mult2_eq mult.commute)
  show "M \<le> u + v + ?c \<longleftrightarrow> M * M \<le> u * M + x + (v * M + y)"
    using less_eq_div_iff_mult_less_eq[of M M "u * M + x + (v * M + y)"] d assms(1) by simp
qed

lemma two_digits_sub:
  fixes x y u v M :: int
  assumes "0 \<le> x" "x < M" "0 \<le> y" "y < M"
  shows "(u - v - of_bool (\<not> y \<le> x)) mod M * M + (x - y) mod M = (u * M + x - (v * M + y)) mod (M * M)"
    "v + of_bool (\<not> y \<le> x) \<le> u \<longleftrightarrow> v * M + y \<le> u * M + x"
proof -
  let ?c = "of_bool (\<not> y \<le> x) :: int"
  have "(x - y) div M = - 1" if "x < y" using int_div_pos_eq[of "x - y" M "- 1" "x - y + M"] assms that by simp
  then have q: "(x - y) div M = - ?c" using assms by (cases "y \<le> x") (auto intro: div_pos_pos_trivial)
  have e: "u * M + x - (v * M + y) = (u - v) * M + (x - y)" by (simp add: algebra_simps)
  have d: "(u * M + x - (v * M + y)) div M = u - v - ?c" unfolding e using q assms by simp
  have "(u * M + x - (v * M + y)) mod M = (x - y) mod M" unfolding e by simp
  then show "(u - v - ?c) mod M * M + (x - y) mod M = (u * M + x - (v * M + y)) mod (M * M)"
    using d assms by (simp add: zmod_zmult2_eq mult.commute)
  have "0 \<le> u * M + x - (v * M + y) \<longleftrightarrow> 0 \<le> u - v - ?c" unfolding d[symmetric] using assms by (simp add: pos_imp_zdiv_nonneg_iff)
  then show "v + ?c \<le> u \<longleftrightarrow> v * M + y \<le> u * M + x" by linarith
qed

text \<open>
  Claim C16. Arithmetic over two words. An addition of the low words followed by an addition with carry of the
  high words is the addition of the 64-bit numbers, with the carry flag for the overflow; a subtraction
  followed by a subtraction with borrow is the 64-bit subtraction, with the carry flag set when the
  first number is at least the second. The flag in between passes through the machine state.
\<close>

theorem macro_wide_arithmetic:
  "(case GetALUResult AluAdd a_lo b_lo s of (lo, s1) \<Rightarrow> case GetALUResult AluAddWithCarry a_hi b_hi s1 of (hi, s2) \<Rightarrow>
     unat hi * 2 ^ 32 + unat lo = (unat a_hi * 2 ^ 32 + unat a_lo + (unat b_hi * 2 ^ 32 + unat b_lo)) mod 2 ^ 64 \<and>
     (carry_flag s2 \<longleftrightarrow> unat a_hi * 2 ^ 32 + unat a_lo + (unat b_hi * 2 ^ 32 + unat b_lo) \<ge> 2 ^ 64)) \<and>
   (case GetALUResult AluSubtract a_lo b_lo s of (lo, s1) \<Rightarrow> case GetALUResult AluSubtractWithBorrow a_hi b_hi s1 of (hi, s2) \<Rightarrow>
     uint hi * 2 ^ 32 + uint lo = (uint a_hi * 2 ^ 32 + uint a_lo - (uint b_hi * 2 ^ 32 + uint b_lo)) mod 2 ^ 64 \<and>
     (carry_flag s2 \<longleftrightarrow> uint b_hi * 2 ^ 32 + uint b_lo \<le> uint a_hi * 2 ^ 32 + uint a_lo))"
proof -
  have lt: "unat w < 2 ^ 32" "0 \<le> uint w" "uint w < 2 ^ 32" for w :: u32
    using unsigned_less[of w, where 'a = nat] unsigned_less[of w, where 'a = int] by simp_all
  have M: "2 ^ 32 * 2 ^ 32 = (2 ^ 64 :: nat)" "2 ^ 32 * 2 ^ 32 = (2 ^ 64 :: int)" by simp_all
  note add = two_digits_add[OF lt(1)[of a_lo] lt(1)[of b_lo] lt(1)[of a_hi] lt(1)[of b_hi], unfolded M]
  note sub = two_digits_sub[OF lt(2)[of a_lo] lt(3) lt(2)[of b_lo] lt(3), where u = "uint a_hi" and v = "uint b_hi", unfolded M]
  have "\<not> False \<longleftrightarrow> True" "of_bool False = (0::nat)" "of_bool (\<not> True) = (0::int)" by simp_all
  note lo = carry_add[of a_lo b_lo False, unfolded this if_False add_0_right] borrow_sub[of a_lo b_lo True, unfolded this if_True diff_0_right add_0_right]
  have c: "carry_flag (t\<lparr>carry_flag := b\<rparr>) = b" for t :: macro_state and b by simp
  show ?thesis
    unfolding GetALUResult_def alu_operation.case Let_def prod.case lo c
      carry_add[of a_hi b_hi "2 ^ 32 \<le> unat a_lo + unat b_lo"] borrow_sub[of a_hi b_hi "uint b_lo \<le> uint a_lo"]
    using add sub by blast
qed

section \<open>Macros that are known to end\<close>

text \<open>
  A check of the program text: branches go forward past their delay slot, the instruction before the last one
  exits, the delay slots hold no branch, no operation can shift too far, reads are at constant addresses in range, and there are enough parameters
  for every instruction that fetches one.
\<close>

definition fetching_results :: "result_operation set" where
  "fetching_results = {IgnoreAndFetch, FetchAndSend, FetchAndSetMethod, MoveAndSetMethodFetchAndSend}"

definition fetches :: "u32 \<Rightarrow> bool" where
  "fetches opc \<longleftrightarrow> op_operation opc \<noteq> OpUnused \<and> op_operation opc \<noteq> OpBranch \<and>
     op_result_operation opc \<in> fetching_results"

definition operands_safe :: "u32 \<Rightarrow> bool" where
  "operands_safe opc \<longleftrightarrow> op_operation opc \<notin> {OpExtractShiftLeftImmediate, OpExtractShiftLeftRegister} \<and>
     (op_operation opc = OpExtractInsert \<longrightarrow> op_bf_size opc \<noteq> 31) \<and>
     (op_operation opc = OpRead \<longrightarrow> op_src_a opc = 0 \<and> op_immediate opc < NUM_REGS)"

definition branch_forward :: "nat \<Rightarrow> nat \<Rightarrow> u32 \<Rightarrow> bool" where
  "branch_forward e i opc \<longleftrightarrow> (op_operation opc = OpBranch \<longrightarrow>
     (let t = unat (op_immediate opc) in 2 \<le> t \<and> i + t \<le> e))"

definition macro_checked :: "nat \<Rightarrow> u32 list \<Rightarrow> bool" where
  "macro_checked np code \<longleftrightarrow>
     (let e = length code - 2 in
      2 \<le> length code \<and> slots_valid code \<and> list_all operands_safe code \<and>
      op_is_exit (code ! e) \<and> op_operation (code ! e) \<noteq> OpBranch \<and>
      list_all (\<lambda>(i, opc). branch_forward e i opc) (zip [0..<e] code) \<and>
      length (filter fetches code) < np \<and> np < 2 ^ 32)"

lemma branch_forwardD:
  assumes "list_all (\<lambda>(i, opc). branch_forward e i opc) (zip [0..<e] code)" "i < e" "e \<le> length code"
  shows "branch_forward e i (code ! i)"
proof -
  have "(i, code ! i) \<in> set (zip [0..<e] code)" using assms(2,3) by (force simp: set_zip)
  then show ?thesis using assms(1) by (auto simp: list_all_iff)
qed

text \<open>A well-formed state with a parameter left for an instruction that needs one executes it.\<close>

lemma SetRegister_wf:
  assumes "macro_wf s"
  shows "\<exists>s'. SetRegister (bf_extract p 3 w) v s = Done s' \<and> next_parameter_index s' = next_parameter_index s"
  using register_index[of p w] assms by (auto simp: SetRegister_def macro_wf_def)

lemma FetchParameter_wf:
  assumes "macro_wf s" "unat (next_parameter_index s) < num_parameters s" "num_parameters s < 2 ^ 32"
  shows "\<exists>p s'. FetchParameter s = Done (p, s') \<and> unat (next_parameter_index s') = unat (next_parameter_index s) + 1"
proof -
  have "unat (next_parameter_index s + 1) = unat (next_parameter_index s) + 1"
    using assms(2,3) by (subst unat_add_no_wrap) simp_all
  then show ?thesis using assms(1,2) by (auto simp: FetchParameter_def macro_wf_def)
qed

lemma next_parameter_simps [simp]:
  "next_parameter_index (SetMethodAddress a s) = next_parameter_index s"
  "next_parameter_index (fst (Send m v (s, g))) = next_parameter_index s"
  by (simp_all add: SetMethodAddress_def Send_def Let_def)

lemma ProcessResult_wf:
  assumes s: "macro_wf s" "num_parameters s < 2 ^ 32"
    and f: "rop \<in> fetching_results \<Longrightarrow> unat (next_parameter_index s) < num_parameters s"
  shows "\<exists>sg'. ProcessResult m rop (bf_extract p 3 w) v (s, g) = Done sg' \<and>
    unat (next_parameter_index (fst sg')) \<le> unat (next_parameter_index s) +
      of_bool (rop \<in> fetching_results)"
proof -
  have fetch: "\<exists>p s1. FetchParameter s' = Done (p, s1) \<and> macro_wf s1 \<and> unat (next_parameter_index s1) = unat (next_parameter_index s) + 1"
    if t: "same_control s s'" "next_parameter_index s' = next_parameter_index s" "rop \<in> fetching_results" for s'
  proof -
    have w: "macro_wf s'" "num_parameters s' = num_parameters s" using t(1) s(1) by (simp_all add: same_control_def)
    from FetchParameter_wf[OF w(1)] f[OF t(3)] s(2) t(2) w(2) obtain p s1 where
      1: "FetchParameter s' = Done (p, s1)" "unat (next_parameter_index s1) = unat (next_parameter_index s) + 1" by auto
    then show ?thesis using FetchParameter_control[OF 1(1)] w(1) by (auto simp: same_control_def)
  qed
  have set: "\<exists>s1. SetRegister (bf_extract p 3 w) x s' = Done s1 \<and> next_parameter_index s1 = next_parameter_index s' \<and> same_control s' s1"
    if "macro_wf s'" for s' x
    using SetRegister_wf[OF that, of p w x] SetRegister_control by blast
  show ?thesis
  proof (cases "rop \<in> {IgnoreAndFetch, FetchAndSend, FetchAndSetMethod}")
    case True
    then obtain q s1 where 1: "FetchParameter s = Done (q, s1)" "macro_wf s1" "unat (next_parameter_index s1) = unat (next_parameter_index s) + 1"
      using fetch[of s] by (auto simp: fetching_results_def)
    from set[OF 1(2), of q] obtain s2 where "SetRegister (bf_extract p 3 w) q s1 = Done s2" "next_parameter_index s2 = next_parameter_index s1" by blast
    then show ?thesis using 1 True by (auto simp: ProcessResult_def fetching_results_def simp del: split_paired_Ex)
  next
    case False
    from set[OF s(1), of v] obtain s1 where 1: "SetRegister (bf_extract p 3 w) v s = Done s1" "next_parameter_index s1 = next_parameter_index s" "same_control s s1" by blast
    show ?thesis
    proof (cases "rop = MoveAndSetMethodFetchAndSend")
      case True
      then obtain q s2 where "FetchParameter (SetMethodAddress v s1) = Done (q, s2)" "unat (next_parameter_index s2) = unat (next_parameter_index s) + 1"
        using fetch[of "SetMethodAddress v s1"] 1 same_control_trans[OF 1(3) SetMethodAddress_control] by (auto simp: fetching_results_def)
      then show ?thesis using 1 True by (simp add: ProcessResult_def fetching_results_def)
    next
      case no: False
      then show ?thesis using 1 False by (cases rop) (simp_all add: ProcessResult_def)
    qed
  qed
qed


lemma OperationResult_wf:
  assumes "macro_wf s" "op_operation opc \<noteq> OpUnused" "op_operation opc \<noteq> OpBranch" "operands_safe opc"
  shows "\<exists>v s'. OperationResult m opc (s, g) = Done (v, s') \<and> next_parameter_index s' = next_parameter_index s"
proof -
  have alu: "\<exists>v s'. GetALUResult op a b s = (v, s') \<and> next_parameter_index s' = next_parameter_index s" for op a b
    by (cases op) (simp_all add: GetALUResult_def Let_def)
  have mask: "\<exists>k. GetBitfieldMask opc = Done k" if "op_operation opc = OpExtractInsert"
    using assms(4) that by (auto simp: GetBitfieldMask_def operands_safe_def dest!: arg_cong[of _ _ "of_nat :: nat \<Rightarrow> u32"])
  note reg = GetRegister_wf[OF assms(1), of 11 opc] GetRegister_wf[OF assms(1), of 14 opc]
  show ?thesis
  proof (cases "op_operation opc = OpRead")
    case True
    then have "op_src_a opc = 0" "op_immediate opc < NUM_REGS" using assms(4) by (simp_all add: operands_safe_def)
    moreover have "GetRegister 0 s = Done 0" using assms(1) by (simp add: GetRegister_def macro_wf_def NUM_MACRO_REGISTERS_def)
    ultimately show ?thesis using True reg(2)
      by (simp add: OperationResult_def Read_def Let_def op_src_b_def)
  next
    case False
    then show ?thesis using assms(2-4) mask alu by (cases "op_operation opc")
      (auto simp: OperationResult_def op_src_a_def op_src_b_def reg operands_safe_def Let_def)
  qed
qed

lemma StepOperation_wf:
  assumes "macro_wf s" "num_parameters s < 2 ^ 32" "op_operation opc \<noteq> OpBranch" "operands_safe opc"
    "fetches opc \<Longrightarrow> unat (next_parameter_index s) < num_parameters s"
  shows "\<exists>s' g'. StepOperation m opc (s, g) = Done (s', g') \<and>
    unat (next_parameter_index s') \<le> unat (next_parameter_index s) + of_bool (fetches opc)"
proof (cases "op_operation opc = OpUnused")
  case False
  from OperationResult_wf[OF assms(1) False assms(3,4), of m g] obtain v s1 where
    1: "OperationResult m opc (s, g) = Done (v, s1)" "next_parameter_index s1 = next_parameter_index s" by blast
  have wf: "macro_wf s1" "num_parameters s1 = num_parameters s"
    using OperationResult_control[OF 1(1)] assms(1) by (simp_all add: same_control_def)
  have "fetches opc \<longleftrightarrow> op_result_operation opc \<in> fetching_results" using False assms(3) by (simp add: fetches_def)
  then show ?thesis
    using ProcessResult_wf[OF wf(1), of "op_result_operation opc" m 8 opc v g] assms(2,5) False 1 wf(2)
    by (auto simp: StepOperation_def op_dst_def)
qed (simp add: StepOperation_def)

text \<open>A state with room for the parameters that the instructions from index \<open>i\<close> on may fetch.\<close>

definition room :: "nat \<Rightarrow> u32 list \<Rightarrow> nat \<Rightarrow> macro_state \<Rightarrow> bool" where
  "room np code i s \<longleftrightarrow> macro_wf s \<and> num_parameters s = np \<and>
     unat (next_parameter_index s) + length (filter fetches (drop i code)) \<le> np"

lemma room_later: "room np code i s \<Longrightarrow> i \<le> j \<Longrightarrow> room np code j s"
proof -
  assume "i \<le> j"
  then have "drop i code = take (j - i) (drop i code) @ drop j code" by (metis append_take_drop_id drop_drop le_add_diff_inverse2)
  then have "length (filter fetches (drop j code)) \<le> length (filter fetches (drop i code))"
    by (metis filter_append le_add2 length_append)
  then show "room np code i s \<Longrightarrow> room np code j s" by (auto simp: room_def)
qed

lemma room_control [simp]:
  "room np code i (s\<lparr>pc := p\<rparr>) \<longleftrightarrow> room np code i s" "room np code i (s\<lparr>delayed_pc := d\<rparr>) \<longleftrightarrow> room np code i s"
  by (simp_all add: room_def macro_wf_def)

lemma room_step:
  assumes c: "macro_checked np code" and r: "room np code i s" "i < length code" "op_operation (code ! i) \<noteq> OpBranch"
  shows "\<exists>s' g'. StepOperation m (code ! i) (s, g) = Done (s', g') \<and> pc s' = pc s \<and> delayed_pc s' = delayed_pc s \<and> room np code (i + 1) s'"
proof -
  have safe: "operands_safe (code ! i)" "np < 2 ^ 32" using c r(2) by (simp_all add: macro_checked_def Let_def list_all_length)
  have d: "length (filter fetches (drop i code)) = of_bool (fetches (code ! i)) + length (filter fetches (drop (i + 1) code))"
    using r(2) by (simp add: Cons_nth_drop_Suc[symmetric])
  have wf: "macro_wf s" "num_parameters s = np" using r(1) by (simp_all add: room_def)
  have n: "num_parameters s < 2 ^ 32" "fetches (code ! i) \<Longrightarrow> unat (next_parameter_index s) < num_parameters s"
    using safe(2) r(1) d wf(2) by (auto simp: room_def)
  from StepOperation_wf[OF wf(1) n(1) r(3) safe(1) n(2), of m g] obtain s' g' where
    1: "StepOperation m (code ! i) (s, g) = Done (s', g')"
      "unat (next_parameter_index s') \<le> unat (next_parameter_index s) + of_bool (fetches (code ! i))" by blast
  then show ?thesis using StepOperation_control[OF 1(1)] r(1) d by (auto simp: room_def same_control_def)
qed


text \<open>Where the run is between two steps: at an instruction up to the exit.\<close>

definition at_instruction :: "nat \<Rightarrow> u32 list \<Rightarrow> nat \<Rightarrow> macro_state \<Rightarrow> bool" where
  "at_instruction np code i s \<longleftrightarrow> room np code i s \<and> i + 2 \<le> length code \<and> pc s = of_nat (4 * i) \<and> delayed_pc s = None"

lemma GetOpcode_at:
  assumes "i < length code" "length code < 2 ^ 30" "pc s = of_nat (4 * i)"
  shows "GetOpcode code s = Done (code ! i)"
proof -
  have "unat (of_nat (4 * i) :: u32) = 4 * i" using assms(1,2) by (simp only: unsigned_of_nat) (simp add: take_bit_nat_eq_self)
  then have "unat (pc s) = 4 * i" using assms(3) by simp
  then have "unat (pc s div 4) = i" by (simp add: unat_div_distrib)
  then show ?thesis using assms(1) by (simp add: GetOpcode_def)
qed

lemma run_slot_at:
  assumes c: "macro_checked np code" and s: "room np code j s" "j < length code" "pc s = of_nat (4 * j)"
    and nb: "op_operation (code ! j) \<noteq> OpBranch"
  shows "\<exists>s' g'. run_slot m code (s, g) = Done (s', g') \<and> Step m code (Suc n) True (s, g) = Done (True, s', g') \<and>
    pc s' = pc (AdvancePc s) \<and> delayed_pc s' = None \<and> room np code (j + 1) s'"
proof -
  have o: "GetOpcode code s = Done (code ! j)"
    using c s(2,3) by (intro GetOpcode_at) (simp_all add: macro_checked_def slots_valid_def Let_def)
  have r: "room np code j (AdvancePc s)" "delayed_pc (AdvancePc s) = None" using s(1) by (simp_all add: AdvancePc_def split: option.splits)
  from room_step[OF c r(1) s(2) nb, of m g] obtain s' g' where
    "StepOperation m (code ! j) (AdvancePc s, g) = Done (s', g')" "pc s' = pc (AdvancePc s)" "delayed_pc s' = None" "room np code (j + 1) s'"
    using r(2) by auto
  moreover have "Step m code (Suc n) True (s, g) = bind_run (run_slot m code (s, g)) (\<lambda>sg. Done (True, sg))"
    using nb o by (intro Step_slot) simp
  ultimately show ?thesis using o by (simp add: run_slot_def)
qed

lemma leave_at:
  assumes c: "macro_checked np code" and i: "i + 2 \<le> length code"
    and s: "room np code (i + 1) s" "pc s = of_nat (4 * (i + 1))" "delayed_pc s = None"
  shows "if op_is_exit (code ! i) then \<exists>s' g'. Step m code (Suc n) True (s, g) = Done (True, s', g') \<and> room np code (i + 2) s'
    else at_instruction np code (i + 1) s"
proof (cases "op_is_exit (code ! i)")
  case True
  have "op_operation (code ! (i + 1)) \<noteq> OpBranch"
    using c True i slots_hold_no_branchD[of code i] by (simp add: macro_checked_def slots_valid_def Let_def has_delay_slot_def)
  from run_slot_at[OF c s(1) _ s(2) this, of m g n] i True show ?thesis by auto
next
  case False
  then have "i \<noteq> length code - 2" using c by (auto simp: macro_checked_def Let_def)
  then show ?thesis using False s i by (simp add: at_instruction_def)
qed

lemma branch_at:
  assumes c: "macro_checked np code" and i: "i + 2 \<le> length code" and b: "op_operation (code ! i) = OpBranch"
  obtains t where "op_immediate (code ! i) = of_nat t" "2 \<le> t" "i + t + 2 \<le> length code"
    "\<not> op_branch_annul (code ! i) \<Longrightarrow> op_operation (code ! (i + 1)) \<noteq> OpBranch"
proof
  let ?t = "unat (op_immediate (code ! i))"
  have "i \<noteq> length code - 2" using c b by (auto simp: macro_checked_def Let_def)
  then have "branch_forward (length code - 2) i (code ! i)"
    using c i by (intro branch_forwardD) (simp_all add: macro_checked_def Let_def)
  then show "2 \<le> ?t" "i + ?t + 2 \<le> length code" using b i by (auto simp: branch_forward_def Let_def)
  show "op_immediate (code ! i) = of_nat ?t" by simp
  show "op_operation (code ! (i + 1)) \<noteq> OpBranch" if "\<not> op_branch_annul (code ! i)"
    using c b that i slots_hold_no_branchD[of code i] by (simp add: macro_checked_def slots_valid_def Let_def has_delay_slot_def)
qed


text \<open>A branch that is taken reaches a later instruction, with or without its delay slot.\<close>

lemma Step_taken:
  assumes c: "macro_checked np code" and at: "at_instruction np code i s" and br: "op_operation (code ! i) = OpBranch"
    and v: "GetRegister (op_src_a (code ! i)) (s\<lparr>pc := of_nat (4 * (i + 1))\<rparr>) = Done v"
      "EvaluateBranchCondition (op_branch_condition (code ! i)) v"
    and step: "Step m code 2 False (s, g) = (if op_branch_annul (code ! i)
      then Done (True, s\<lparr>pc := pc s + GetBranchTarget (code ! i)\<rparr>, g)
      else Step m code 1 True (s\<lparr>pc := of_nat (4 * (i + 1)), delayed_pc := Some (pc s + GetBranchTarget (code ! i))\<rparr>, g))"
  shows "\<exists>j s' g'. i < j \<and> Step m code 2 False (s, g) = Done (True, s', g') \<and> at_instruction np code j s'"
proof -
  have i: "room np code i s" "i + 2 \<le> length code" "pc s = of_nat (4 * i)" "delayed_pc s = None" using at by (simp_all add: at_instruction_def)
  obtain t where t: "op_immediate (code ! i) = of_nat t" "2 \<le> t" "i + t + 2 \<le> length code"
    "\<not> op_branch_annul (code ! i) \<Longrightarrow> op_operation (code ! (i + 1)) \<noteq> OpBranch" using branch_at[OF c i(2) br] by metis
  have target: "pc s + GetBranchTarget (code ! i) = of_nat (4 * (i + t))" using i(3) t(1) by (simp add: GetBranchTarget_def algebra_simps)
  show ?thesis
  proof (cases "op_branch_annul (code ! i)")
    case True
    have "at_instruction np code (i + t) (s\<lparr>pc := of_nat (4 * (i + t))\<rparr>)"
      using room_later[OF i(1), of "i + t"] t(3) i(4) by (simp add: at_instruction_def)
    then show ?thesis using step True target t(2) by (intro exI[of _ "i + t"] exI) auto
  next
    case False
    let ?d = "s\<lparr>pc := of_nat (4 * (i + 1)), delayed_pc := Some (of_nat (4 * (i + t)))\<rparr>"
    have "room np code (i + 1) ?d" using room_later[OF i(1), of "i + 1"] by simp
    from run_slot_at[OF c this, of m g 0] i(2) t(4)[OF False] obtain s' g' where
      s': "Step m code 1 True (?d, g) = Done (True, s', g')" "pc s' = of_nat (4 * (i + t))" "delayed_pc s' = None" "room np code (i + 2) s'"
      by (auto simp: AdvancePc_def)
    have "at_instruction np code (i + t) s'" using room_later[OF s'(4), of "i + t"] t(2,3) s'(2,3) by (simp add: at_instruction_def)
    then show ?thesis using step False target s'(1) t(2) by (intro exI[of _ "i + t"] exI) auto
  qed
qed

lemma Step_at:
  assumes c: "macro_checked np code" and at: "at_instruction np code i s"
  shows "(\<exists>s' g'. Step m code 2 False (s, g) = Done (False, s', g') \<and> room np code (i + 2) s') \<or>
    (\<exists>j s' g'. i < j \<and> Step m code 2 False (s, g) = Done (True, s', g') \<and> at_instruction np code j s')"
proof -
  have i: "room np code i s" "i + 2 \<le> length code" "pc s = of_nat (4 * i)" "delayed_pc s = None" using at by (simp_all add: at_instruction_def)
  have len: "length code < 2 ^ 30" using c by (simp add: macro_checked_def slots_valid_def Let_def)
  let ?opc = "code ! i" and ?s = "s\<lparr>pc := of_nat (4 * (i + 1))\<rparr>"
  have o: "GetOpcode code s = Done ?opc" using i len by (intro GetOpcode_at) simp_all
  have adv: "AdvancePc s = ?s" using AdvancePc_simps(1)[OF i(4)] i(3) by (simp add: algebra_simps)
  note step = Step.simps(2)[of m code 1 False s g, unfolded o bind_run.simps Let_def adv, simplified]
  have leave: ?thesis if "Step m code 2 False (s, g) = (if op_is_exit ?opc
      then bind_run (Step m code 1 True (s1, g1)) (\<lambda>(_, sg). Done (False, sg)) else Done (True, s1, g1))"
    "room np code (i + 1) s1" "pc s1 = of_nat (4 * (i + 1))" "delayed_pc s1 = None" for s1 g1
    using leave_at[OF c i(2) that(2-4), of m 0 g1] that(1) by (fastforce split: if_splits)
  show ?thesis
  proof (cases "op_operation ?opc = OpBranch")
    case False
    have "room np code i ?s" using i(1) by simp
    from room_step[OF c this _ False, of m g] i(2) obtain s1 g1 where
      "StepOperation m ?opc (?s, g) = Done (s1, g1)" "pc s1 = of_nat (4 * (i + 1))" "delayed_pc s1 = None" "room np code (i + 1) s1"
      using i(4) by auto
    then show ?thesis using leave[of s1 g1] step False by (simp add: numeral_2_eq_2)
  next
    case br: True
    have "macro_wf ?s" using i(1) room_control(1) by (simp add: room_def macro_wf_def)
    then obtain v where v: "GetRegister (op_src_a ?opc) ?s = Done v" using GetRegister_wf by (simp add: op_src_a_def)
    have later: "room np code j ?s" if "i \<le> j" for j using room_later[OF i(1) that] by simp
    show ?thesis
    proof (cases "EvaluateBranchCondition (op_branch_condition ?opc) v")
      case True
      then have "Step m code 2 False (s, g) = (if op_branch_annul ?opc then Done (True, s\<lparr>pc := pc s + GetBranchTarget ?opc\<rparr>, g)
          else Step m code 1 True (?s\<lparr>delayed_pc := Some (pc s + GetBranchTarget ?opc)\<rparr>, g))"
        using step br v by (simp add: numeral_2_eq_2)
      from Step_taken[OF c at br v True this] show ?thesis by (rule disjI2)
    next
      case False
      then show ?thesis using leave[of ?s g] step br v later[of "i + 1"] i(4) by (simp add: numeral_2_eq_2)
    qed
  qed
qed

lemma loop_at:
  assumes c: "macro_checked np code"
  shows "at_instruction np code i s \<Longrightarrow> length code - i \<le> n + 1 \<Longrightarrow>
    \<exists>s' g'. Interpreter_loop m code (Suc n) (s, g) = Done (s', g') \<and> room np code (length code) s'"
proof (induction n arbitrary: i s g)
  case 0
  then show ?case by (auto simp: at_instruction_def)
next
  case (Suc n)
  have "Step m code 2 False (s, g) \<noteq> OutOfFuel" using Step_at[OF c Suc.prems(1), of m g] by auto
  then have st: "Step m code (Suc (Suc n)) False (s, g) = Step m code 2 False (s, g)" by (rule Step_more) simp
  from Step_at[OF c Suc.prems(1), of m g] show ?case
  proof (elim disjE exE conjE)
    fix s' g' assume 1: "Step m code 2 False (s, g) = Done (False, s', g')" "room np code (i + 2) s'"
    then show ?thesis using st room_later[OF 1(2), of "length code"] Suc.prems(1) by (simp add: at_instruction_def)
  next
    fix j s' g' assume 1: "i < j" "Step m code 2 False (s, g) = Done (True, s', g')" "at_instruction np code j s'"
    have "length code - j \<le> n + 1" using Suc.prems(2) 1(1) by simp
    from Suc.IH[OF 1(3) this, of g'] st 1(2) show ?thesis by (simp del: Interpreter_loop.simps add: Interpreter_loop.simps(2)[of m code "Suc n"])
  qed
qed

lemma LoadParameters_wf:
  assumes "length (parameters s) = parameters_capacity s" "params \<noteq> []"
  shows "macro_wf (LoadParameters params s)" "num_parameters (LoadParameters params s) = length params"
    "next_parameter_index (LoadParameters params s) = 1"
  using assms by (auto simp: LoadParameters_def Reset_def macro_wf_def NUM_MACRO_REGISTERS_def Let_def)

text \<open>
  Claim C14. Checked macros end. The check on the text of a macro asks for: forward branches past their delay slots, an
  exit before the last instruction, no branch in a delay slot, no operation that can shift by 32 or more or overflow a
  mask, reads only at constant addresses below the number of registers, and more parameters than instructions that fetch
  one. A checked macro returns on every engine, as long as the calls of the engine return, and from every state
  of the interpreter, with one unit of fuel per instruction: it raises no exception and reads no
  instruction, macro register, engine register or parameter out of range. Afterwards register 0 is still zero and no more
  parameters were fetched than were passed.
\<close>

theorem macro_checked_ends:
  assumes "macro_checked (length params) code" "length (parameters s) = parameters_capacity s"
  shows "\<exists>s' g'. Interpreter_Execute m code (length code) params (s, g) = Done (s', g') \<and> macro_wf s' \<and>
    registers s' ! 0 = 0 \<and> unat (next_parameter_index s') \<le> length params"
proof -
  have p: "params \<noteq> []" and len: "2 \<le> length code" using assms(1) by (auto simp: macro_checked_def Let_def)
  let ?s = "LoadParameters params s"
  have "room (length params) code 0 ?s"
    using LoadParameters_wf[OF assms(2) p] assms(1) by (simp add: room_def macro_checked_def Let_def)
  then have "at_instruction (length params) code 0 ?s" using len by (simp add: at_instruction_def)
  moreover have "Suc (length code - 1) = length code" using len by simp
  ultimately have "\<exists>s' g'. Interpreter_loop m code (length code) (?s, g) = Done (s', g') \<and> room (length params) code (length code) s'"
    using loop_at[OF assms(1), of 0 ?s "length code - 1" m g] by (simp del: Interpreter_loop.simps)
  then show ?thesis using p by (auto simp: Interpreter_Execute_def room_def macro_wf_def)
qed


theorem macro_checked_ends_witness:
  "macro_checked (length [7::u32]) slot_program \<and> length (parameters MacroInterpreterImpl) = parameters_capacity MacroInterpreterImpl \<and>
   (\<exists>s' g'. Interpreter_Execute trace_engine slot_program 5 [7] (MacroInterpreterImpl, []) = Done (s', g') \<and> macro_wf s')"
proof -
  have len: "length slot_program = 5" by (simp add: slot_program_def)
  have "slots_hold_no_branch slot_program \<and> list_all operands_safe slot_program \<and> op_is_exit (slot_program ! 3) \<and>
      op_operation (slot_program ! 3) \<noteq> OpBranch \<and> list_all (\<lambda>(i, opc). branch_forward 3 i opc) (zip [0..<3] slot_program) \<and>
      length (filter fetches slot_program) = 0"
    by code_simp
  then have c: "macro_checked (length [7::u32]) slot_program"
    by (simp add: macro_checked_def slots_valid_def len del: upt_rec_numeral)
  have "length (parameters MacroInterpreterImpl) = parameters_capacity MacroInterpreterImpl" by (simp add: MacroInterpreterImpl_def)
  with c macro_checked_ends[OF c this, of trace_engine "[]"] show ?thesis unfolding len by blast
qed

section \<open>Runs do not depend on earlier runs\<close>

text \<open>
  The array of parameters may be longer than the current run needs, with values of earlier runs at its end.
  Every operation that succeeds without them does the same with them.
\<close>

named_theorems keeps_intros

definition spare :: "u32 list \<Rightarrow> nat \<Rightarrow> macro_state \<Rightarrow> macro_state" where
  "spare xs c s = s\<lparr>parameters := parameters s @ xs, parameters_capacity := c\<rparr>"

definition keeps_run :: "('a \<Rightarrow> 'b) \<Rightarrow> 'a run \<Rightarrow> 'b run \<Rightarrow> bool" where
  "keeps_run f r r' \<longleftrightarrow> (\<forall>x. r = Done x \<longrightarrow> r' = Done (f x))"

definition at_fst :: "('a \<Rightarrow> 'b) \<Rightarrow> 'a \<times> 'c \<Rightarrow> 'b \<times> 'c" where
  "at_fst f x = (f (fst x), snd x)"

definition at_snd :: "('a \<Rightarrow> 'b) \<Rightarrow> 'c \<times> 'a \<Rightarrow> 'c \<times> 'b" where
  "at_snd f x = (fst x, f (snd x))"

lemma at_pair [simp]: "at_fst f (x, y) = (f x, y)" "at_snd f (z, x) = (z, f x)"
  by (simp_all add: at_fst_def at_snd_def)

lemma keeps_run_bind:
  assumes "keeps_run f m m'" "\<And>x. keeps_run h (k x) (k' (f x))"
  shows "keeps_run h (bind_run m k) (bind_run m' k')"
  using assms by (cases m) (simp_all add: keeps_run_def)

lemma keeps_run_Done [keeps_intros]: "y = f x \<Longrightarrow> keeps_run f (Done x) (Done y)"
  by (simp add: keeps_run_def)

lemma keeps_run_Undefined [keeps_intros]: "keeps_run f Undefined r"
  by (simp add: keeps_run_def)

lemma keeps_run_if [keeps_intros]:
  "(b \<Longrightarrow> keeps_run f r r') \<Longrightarrow> (\<not> b \<Longrightarrow> keeps_run f q q') \<Longrightarrow> keeps_run f (if b then r else q) (if b then r' else q')"
  by simp

lemma spare_simps [simp]:
  "pc (spare xs c s) = pc s" "delayed_pc (spare xs c s) = delayed_pc s" "registers (spare xs c s) = registers s"
  "method_address (spare xs c s) = method_address s" "carry_flag (spare xs c s) = carry_flag s"
  "next_parameter_index (spare xs c s) = next_parameter_index s"
  "(spare xs c s)\<lparr>pc := p\<rparr> = spare xs c (s\<lparr>pc := p\<rparr>)"
  "(spare xs c s)\<lparr>delayed_pc := d\<rparr> = spare xs c (s\<lparr>delayed_pc := d\<rparr>)"
  "(spare xs c s)\<lparr>registers := r\<rparr> = spare xs c (s\<lparr>registers := r\<rparr>)"
  "(spare xs c s)\<lparr>method_address := a\<rparr> = spare xs c (s\<lparr>method_address := a\<rparr>)"
  "(spare xs c s)\<lparr>carry_flag := f\<rparr> = spare xs c (s\<lparr>carry_flag := f\<rparr>)"
  "(spare xs c s)\<lparr>next_parameter_index := i\<rparr> = spare xs c (s\<lparr>next_parameter_index := i\<rparr>)"
  by (simp_all add: spare_def)

lemma spare_operations [simp]:
  "GetOpcode code (spare xs c s) = GetOpcode code s"
  "GetRegister r (spare xs c s) = GetRegister r s"
  "SetMethodAddress a (spare xs c s) = spare xs c (SetMethodAddress a s)"
  "AdvancePc (spare xs c s) = spare xs c (AdvancePc s)"
  "Send m v (spare xs c s, g) = at_fst (spare xs c) (Send m v (s, g))"
  "GetALUResult op a b (spare xs c s) = at_snd (spare xs c) (GetALUResult op a b s)"
  by (auto simp: GetOpcode_def GetRegister_def SetMethodAddress_def AdvancePc_def Send_def GetALUResult_def Let_def
      split: option.splits alu_operation.splits)

lemma spare_SetRegister [keeps_intros]: "keeps_run (spare xs c) (SetRegister r v s) (SetRegister r v (spare xs c s))"
  by (simp add: keeps_run_def SetRegister_def)

lemma spare_FetchParameter [keeps_intros]:
  "keeps_run (at_snd (spare xs c)) (FetchParameter s) (FetchParameter (spare xs c s))"
  by (auto simp: keeps_run_def FetchParameter_def Let_def spare_def nth_append split: if_splits)

lemma spare_ProcessResult:
  "keeps_run (at_fst (spare xs c)) (ProcessResult m rop reg v (s, g)) (ProcessResult m rop reg v (spare xs c s, g))"
proof -
  have set: "keeps_run h (bind_run (SetRegister reg x s) k) (bind_run (SetRegister reg x (spare xs c s)) k')"
    if "\<And>s. keeps_run h (k s) (k' (spare xs c s))" for x s k k' and h :: "macro_state \<times> 'a \<Rightarrow> macro_state \<times> 'a"
    using that by (intro keeps_run_bind[OF spare_SetRegister])
  have fetch: "keeps_run h (bind_run (FetchParameter s) k) (bind_run (FetchParameter (spare xs c s)) k')"
    if "\<And>p s. keeps_run h (k (p, s)) (k' (p, spare xs c s))" for s k k' and h :: "macro_state \<times> 'a \<Rightarrow> macro_state \<times> 'a"
    using that by (intro keeps_run_bind[OF spare_FetchParameter]) auto
  show ?thesis
    by (cases rop) (auto simp: ProcessResult_def intro!: set fetch keeps_run_Done)
qed

lemma spare_OperationResult:
  "keeps_run (at_snd (spare xs c)) (OperationResult m opc (s, g)) (OperationResult m opc (spare xs c s, g))"
proof -
  have r: "keeps_run h (bind_run r k) (bind_run r k')" if "\<And>x. keeps_run h (k x) (k' x)"
    for r :: "u32 run" and k k' and h :: "u32 \<times> macro_state \<Rightarrow> u32 \<times> macro_state"
    using that by (cases r) (simp_all add: keeps_run_def)
  show ?thesis by (cases "op_operation opc") (auto simp: OperationResult_def Let_def intro!: r keeps_intros)
qed

lemma spare_StepOperation:
  "keeps_run (at_fst (spare xs c)) (StepOperation m opc (s, g)) (StepOperation m opc (spare xs c s, g))"
proof (cases "op_operation opc = OpUnused")
  case False
  then show ?thesis unfolding StepOperation_def
    by (auto intro!: keeps_run_bind[OF spare_OperationResult] spare_ProcessResult)
qed (simp add: StepOperation_def keeps_run_def)

lemma spare_Step:
  "keeps_run (at_snd (at_fst (spare xs c))) (Step m code n d (s, g)) (Step m code n d (spare xs c s, g))"
proof (induction n arbitrary: d s g)
  case (Suc n)
  have exit: "keeps_run (at_snd (at_fst (spare xs c))) (bind_run (Step m code n True (s, g)) (\<lambda>(_, sg). Done (False, sg)))
      (bind_run (Step m code n True (spare xs c s, g)) (\<lambda>(_, sg). Done (False, sg)))" for s g
    by (auto intro!: keeps_run_bind[OF Suc.IH] keeps_run_Done)
  show ?case
  proof (cases "GetOpcode code s")
    case (Done opc)
    show ?thesis
    proof (cases "op_operation opc = OpBranch")
      case True
      then show ?thesis using Done Suc.IH exit
        by (cases "GetRegister (op_src_a opc) (AdvancePc s)")
          (simp_all add: Step.simps(2) Let_def keeps_run_def[of _ Thrown] keeps_intros)
    next
      case False
      then show ?thesis using Done
        by (auto simp: Step.simps(2) Let_def intro!: keeps_run_bind[OF spare_StepOperation] exit keeps_run_Done)
    qed
  qed (simp_all add: Step.simps(2) keeps_run_def)
qed (simp add: keeps_run_def)

lemma spare_Execute_loop:
  "keeps_run (at_fst (spare xs c)) (Interpreter_loop m code n (s, g)) (Interpreter_loop m code n (spare xs c s, g))"
proof (induction n arbitrary: s g)
  case (Suc n)
  show ?case unfolding Interpreter_loop.simps
    by (rule keeps_run_bind[OF spare_Step]) (auto intro!: Suc.IH keeps_run_Done split: prod.splits)
qed (simp add: keeps_run_def)

lemma LoadParameters_spare:
  assumes "length (parameters s) = parameters_capacity s" "params \<noteq> []"
  shows "LoadParameters params s =
    spare (drop (length params) (parameters s)) (max (length params) (parameters_capacity s)) (LoadParameters params MacroInterpreterImpl)"
  using assms by (auto simp: LoadParameters_def Reset_def MacroInterpreterImpl_def spare_def Let_def max_def)

lemma Execute_any_history:
  assumes "length (parameters s) = parameters_capacity s" "Interpreter_Execute m code n params (MacroInterpreterImpl, g) = Done (s1, g1)"
  shows "Interpreter_Execute m code n params (s, g) =
    Done (s1\<lparr>parameters := parameters s1 @ drop (length params) (parameters s),
             parameters_capacity := max (length params) (parameters_capacity s)\<rparr>, g1)"
proof -
  have p: "params \<noteq> []" using assms(2) by (auto simp: Interpreter_Execute_def)
  let ?x = "drop (length params) (parameters s)" and ?c = "max (length params) (parameters_capacity s)"
  have "Interpreter_Execute m code n params (s, g) = Done (at_fst (spare ?x ?c) (s1, g1))"
    using spare_Execute_loop[of ?x ?c m code n "LoadParameters params MacroInterpreterImpl" g] assms(2) p
      LoadParameters_spare[OF assms(1) p] by (simp add: Interpreter_Execute_def keeps_run_def)
  then show ?thesis by (simp add: spare_def)
qed

text \<open>
  Runs are independent. When a macro completes on a new interpreter, it completes on an interpreter
  with any history of earlier runs, with the same calls of the engine, the same registers, method
  address, carry flag and number of fetched parameters: nothing of an earlier run is visible, although the
  array of parameters, with its old contents beyond the new parameters, is kept between runs.
\<close>

theorem macro_runs_independent:
  assumes "length (parameters s) = parameters_capacity s" "Interpreter_Execute m code n params (MacroInterpreterImpl, g) = Done (s1, g1)"
  shows "Interpreter_Execute m code n params (s, g) =
    Done (s1\<lparr>parameters := parameters s1 @ drop (length params) (parameters s),
             parameters_capacity := max (length params) (parameters_capacity s)\<rparr>, g1)"
  by (rule Execute_any_history[OF assms])

theorem macro_runs_independent_witness:
  "\<exists>s1 s2. Interpreter_Execute trace_engine slot_program 5 [7] (MacroInterpreterImpl, []) = Done (s1, [(0, 6)]) \<and>
    Interpreter_Execute trace_engine slot_program 5 [7] (MacroInterpreterImpl\<lparr>parameters := [1, 2, 3], parameters_capacity := 3\<rparr>, []) =
      Done (s2, [(0, 6)]) \<and> parameters s2 = parameters s1 @ [2, 3]"
proof -
  let ?s = "MacroInterpreterImpl\<lparr>parameters := [1, 2, 3], parameters_capacity := 3\<rparr>"
  have "bind_run (Interpreter_Execute trace_engine slot_program 5 [7] (MacroInterpreterImpl, [])) (\<lambda>(s, g). Done g) = Done [(0, 6)]" by code_simp
  then obtain s1 where 1: "Interpreter_Execute trace_engine slot_program 5 [7] (MacroInterpreterImpl, []) = Done (s1, [(0, 6)])"
    by (auto simp: bind_run_Done_iff)
  have "length (parameters ?s) = parameters_capacity ?s" by simp
  with 1 macro_runs_independent[OF this 1] show ?thesis by auto
qed

end
