(* ===== verification/Macro_JIT.thy ===== *)
theory Macro_JIT
  imports Macro_Interpreter
begin

text \<open>
  The code the macro compiler emits for one instruction, \<^verbatim>\<open>src/src/video_core/macro/macro_jit_x64.cpp\<close>, against
  the interpreter. Emitting is a function from the instruction to a list of x64 instructions over the
  registers the compiler names; their meaning is the architecture's, written out for the operands that
  occur (32-bit results, the carry and zero flags, shift counts modulo 32). The values that a called
  function leaves in the caller-saved registers are an argument. Labels, branches between macro
  instructions, the prologue and the delay-slot bookkeeping are not modelled; of the saved and restored
  registers around calls only the effect is. A register object that is never assigned has the value
  of the assembler library's default constructor, an argument.
\<close>

section \<open>The target\<close>

datatype reg = RESULT | EAX | ECX | METHOD_ADDRESS

datatype instr =
    MovRR reg reg | MovRI reg u32
  | AddRR reg reg | AdcRR reg reg | SubRR reg reg | SbbRR reg reg
  | XorRR reg reg | OrRR reg reg | AndRR reg reg | NotR reg | IncR reg
  | AddRI reg u32 | SubRI reg u32 | AndRI reg u32 | TestRI reg u32
  | ShrRI reg u32 | ShlRI reg u32 | ShrCL reg | ShlCL reg
  | LeaAdd reg reg reg
  | LoadState reg u32 | StoreState u32 reg
  | SetcCarry | BtCarry
  | LoadEngine reg reg
  | LoadParameter reg | NextParameter
  | CallSend reg
  | JeOver "instr list"

text \<open>
  The machine: the four registers, the flags, the structure \<open>JITState\<close> (registers and the low bit of
  \<open>carry_flag\<close>), the position of the pointer \<open>PARAMETERS\<close> in the parameters, and the engine.
\<close>

record 'g cpu =
  cpu_reg :: "reg \<Rightarrow> u32"
  CF :: bool
  ZF :: bool
  jit_registers :: "u32 list"
  jit_carry_flag :: bool
  jit_parameter :: nat
  jit_engine :: 'g

definition put :: "reg \<Rightarrow> u32 \<Rightarrow> 'g cpu \<Rightarrow> 'g cpu" where
  "put r v c = c\<lparr>cpu_reg := (cpu_reg c)(r := v)\<rparr>"

text \<open>A result with the flags of an arithmetic or logical instruction.\<close>

definition put_flags :: "reg \<Rightarrow> u32 \<Rightarrow> bool \<Rightarrow> 'g cpu \<Rightarrow> 'g cpu" where
  "put_flags r v carry c = (put r v c)\<lparr>CF := carry, ZF := (v = 0)\<rparr>"

definition shift :: "(nat \<Rightarrow> u32 \<Rightarrow> u32) \<Rightarrow> (nat \<Rightarrow> nat) \<Rightarrow> reg \<Rightarrow> nat \<Rightarrow> 'g cpu \<Rightarrow> 'g cpu" where
  "shift op out r n c =
     (let k = n mod 32; v = cpu_reg c r in
      if k = 0 then c else put_flags r (op k v) (bit v (out k)) c)"

fun exec1 ::
  "'g maxwell3d \<Rightarrow> ('g \<Rightarrow> u32 \<times> u32 \<times> bool \<times> bool) \<Rightarrow> u32 list \<Rightarrow> instr \<Rightarrow> 'g cpu \<Rightarrow> 'g cpu run" where
  "exec1 m clobber params (MovRR d s) c = Done (put d (cpu_reg c s) c)"
| "exec1 m clobber params (MovRI d v) c = Done (put d v c)"
| "exec1 m clobber params (AddRR d s) c =
     Done (put_flags d (cpu_reg c d + cpu_reg c s) (uint (cpu_reg c d) + uint (cpu_reg c s) \<ge> 2 ^ 32) c)"
| "exec1 m clobber params (AdcRR d s) c =
     Done (put_flags d (cpu_reg c d + cpu_reg c s + of_bool (CF c))
             (uint (cpu_reg c d) + uint (cpu_reg c s) + of_bool (CF c) \<ge> 2 ^ 32) c)"
| "exec1 m clobber params (SubRR d s) c =
     Done (put_flags d (cpu_reg c d - cpu_reg c s) (cpu_reg c d < cpu_reg c s) c)"
| "exec1 m clobber params (SbbRR d s) c =
     Done (put_flags d (cpu_reg c d - cpu_reg c s - of_bool (CF c))
             (uint (cpu_reg c d) < uint (cpu_reg c s) + of_bool (CF c)) c)"
| "exec1 m clobber params (XorRR d s) c = Done (put_flags d (cpu_reg c d XOR cpu_reg c s) False c)"
| "exec1 m clobber params (OrRR d s) c = Done (put_flags d (cpu_reg c d OR cpu_reg c s) False c)"
| "exec1 m clobber params (AndRR d s) c = Done (put_flags d (cpu_reg c d AND cpu_reg c s) False c)"
| "exec1 m clobber params (NotR d) c = Done (put d (NOT (cpu_reg c d)) c)"
| "exec1 m clobber params (IncR d) c = Done (put_flags d (cpu_reg c d + 1) (CF c) c)"
| "exec1 m clobber params (AddRI d v) c =
     Done (put_flags d (cpu_reg c d + v) (uint (cpu_reg c d) + uint v \<ge> 2 ^ 32) c)"
| "exec1 m clobber params (SubRI d v) c = Done (put_flags d (cpu_reg c d - v) (cpu_reg c d < v) c)"
| "exec1 m clobber params (AndRI d v) c = Done (put_flags d (cpu_reg c d AND v) False c)"
| "exec1 m clobber params (TestRI d v) c = Done (c\<lparr>CF := False, ZF := (cpu_reg c d AND v = 0)\<rparr>)"
| "exec1 m clobber params (ShrRI d n) c = Done (shift drop_bit (\<lambda>k. k - 1) d (unat n) c)"
| "exec1 m clobber params (ShlRI d n) c = Done (shift push_bit (\<lambda>k. 32 - k) d (unat n) c)"
| "exec1 m clobber params (ShrCL d) c = Done (shift drop_bit (\<lambda>k. k - 1) d (unat (cpu_reg c ECX)) c)"
| "exec1 m clobber params (ShlCL d) c = Done (shift push_bit (\<lambda>k. 32 - k) d (unat (cpu_reg c ECX)) c)"
| "exec1 m clobber params (LeaAdd d a b) c = Done (put d (cpu_reg c a + cpu_reg c b) c)"
| "exec1 m clobber params (LoadState d i) c =
     (if unat i < length (jit_registers c) then Done (put d (jit_registers c ! unat i) c) else Undefined)"
| "exec1 m clobber params (StoreState i s) c =
     (if unat i < length (jit_registers c)
      then Done (c\<lparr>jit_registers := (jit_registers c)[unat i := cpu_reg c s]\<rparr>) else Undefined)"
| "exec1 m clobber params SetcCarry c = Done (c\<lparr>jit_carry_flag := CF c\<rparr>)"
| "exec1 m clobber params BtCarry c = Done (c\<lparr>CF := jit_carry_flag c\<rparr>)"
| "exec1 m clobber params (LoadEngine d a) c =
     bind_run (Read m (cpu_reg c a) (jit_engine c)) (\<lambda>v. Done (put d v c))"
| "exec1 m clobber params (LoadParameter d) c =
     (if jit_parameter c < length params then Done (put d (params ! jit_parameter c) c) else Undefined)"
| "exec1 m clobber params NextParameter c = Done (c\<lparr>jit_parameter := jit_parameter c + 1\<rparr>)"
| "exec1 m clobber params (CallSend s) c =
     (let g = CallMethod m (ma_address (cpu_reg c METHOD_ADDRESS)) (cpu_reg c s) True (jit_engine c);
          (eax, ecx, cf, zf) = clobber g
      in Done (put EAX eax (put ECX ecx c)\<lparr>CF := cf, ZF := zf, jit_engine := g\<rparr>))"
| "exec1 m clobber params (JeOver cs) c = Done c"

fun exec ::
  "'g maxwell3d \<Rightarrow> ('g \<Rightarrow> u32 \<times> u32 \<times> bool \<times> bool) \<Rightarrow> u32 list \<Rightarrow> instr list \<Rightarrow> 'g cpu \<Rightarrow> 'g cpu run" where
  "exec m clobber params [] c = Done c"
| "exec m clobber params (JeOver cs # is) c =
     (if ZF c then exec m clobber params is c
      else bind_run (exec m clobber params cs c) (exec m clobber params is))"
| "exec m clobber params (i # is) c = bind_run (exec1 m clobber params i c) (exec m clobber params is)"

section \<open>The compiler\<close>

record optimizer_state =
  can_skip_carry :: bool
  has_delayed_pc :: bool
  zero_reg_skip :: bool
  skip_dummy_addimmediate :: bool
  optimize_for_method_move :: bool
  enable_asserts :: bool

text \<open>The flags a compilation scans its code for, and the ones it always sets.\<close>

definition Optimizer_ScanFlags :: "u32 list \<Rightarrow> optimizer_state \<Rightarrow> optimizer_state" where
  "Optimizer_ScanFlags code opt =
     opt\<lparr>can_skip_carry := \<not> list_ex (\<lambda>op. op_operation op = OpALU \<and>
            (op_alu_operation op = AluAddWithCarry \<or> op_alu_operation op = AluSubtractWithBorrow)) code,
         has_delayed_pc := list_ex (\<lambda>op. op_operation op = OpBranch \<and> \<not> op_branch_annul op) code\<rparr>"

definition Compile_optimizer :: "u32 list \<Rightarrow> optimizer_state" where
  "Compile_optimizer code = Optimizer_ScanFlags code
     \<lparr>can_skip_carry = False, has_delayed_pc = False, zero_reg_skip = True, skip_dummy_addimmediate = True,
      optimize_for_method_move = True, enable_asserts = False\<rparr>"

definition Compile_GetRegister :: "u32 \<Rightarrow> reg \<Rightarrow> instr list" where
  "Compile_GetRegister index dst = (if index = 0 then [XorRR dst dst] else [LoadState dst index])"

text \<open>The range check of \<open>Compile_FetchParameter\<close> only logs; the result is in \<open>eax\<close>.\<close>

definition Compile_FetchParameter :: "instr list" where
  "Compile_FetchParameter = [LoadParameter EAX, NextParameter]"

definition Compile_Send :: "reg \<Rightarrow> instr list" where
  "Compile_Send value =
     [CallSend value,
      TestRI METHOD_ADDRESS 0x3f000,
      JeOver
        [MovRR ECX METHOD_ADDRESS,
         AndRI METHOD_ADDRESS 0xfff,
         ShrRI ECX 12,
         AndRI ECX 0x3f,
         LeaAdd EAX ECX METHOD_ADDRESS,
         ShlRI ECX 12,
         OrRR EAX ECX,
         MovRR METHOD_ADDRESS EAX]]"

definition Compile_SetRegister :: "u32 \<Rightarrow> reg \<Rightarrow> instr list" where
  "Compile_SetRegister reg_index result = (if reg_index = 0 then [] else [StoreState reg_index result])"

definition Compile_SetMethodAddress :: "reg \<Rightarrow> instr list" where
  "Compile_SetMethodAddress r = [MovRR METHOD_ADDRESS r]"

definition Compile_ProcessResult :: "result_operation \<Rightarrow> u32 \<Rightarrow> instr list" where
  "Compile_ProcessResult operation reg =
     (case operation of
        IgnoreAndFetch \<Rightarrow> Compile_FetchParameter @ Compile_SetRegister reg EAX
      | Move \<Rightarrow> Compile_SetRegister reg RESULT
      | MoveAndSetMethod \<Rightarrow> Compile_SetRegister reg RESULT @ Compile_SetMethodAddress RESULT
      | FetchAndSend \<Rightarrow> Compile_FetchParameter @ Compile_SetRegister reg EAX @ Compile_Send RESULT
      | MoveAndSend \<Rightarrow> Compile_SetRegister reg RESULT @ Compile_Send RESULT
      | FetchAndSetMethod \<Rightarrow>
          Compile_FetchParameter @ Compile_SetRegister reg EAX @ Compile_SetMethodAddress RESULT
      | MoveAndSetMethodFetchAndSend \<Rightarrow>
          Compile_SetRegister reg RESULT @ Compile_SetMethodAddress RESULT @
          Compile_FetchParameter @ Compile_Send EAX
      | MoveAndSetMethodSend \<Rightarrow>
          Compile_SetRegister reg RESULT @ Compile_SetMethodAddress RESULT @
          [ShrRI RESULT 12, AndRI RESULT 0x3f] @ Compile_Send RESULT)"

text \<open>
  The operands of an arithmetic instruction: with \<open>zero_reg_skip\<close> a zero register is not loaded and its
  register object keeps the default \<open>dreg\<close>.
\<close>

definition Compile_ALU :: "optimizer_state \<Rightarrow> reg \<Rightarrow> u32 \<Rightarrow> instr list" where
  "Compile_ALU opt dreg opcode =
     (let is_a_zero = op_src_a opcode = 0;
          is_b_zero = op_src_b opcode = 0;
          valid_operation = (\<not> is_a_zero \<and> \<not> is_b_zero);
          has_zero_register = (is_a_zero \<or> is_b_zero);
          no_zero_reg_skip = (op_alu_operation opcode = AluAddWithCarry \<or>
                              op_alu_operation opcode = AluSubtractWithBorrow);
          all = (\<not> zero_reg_skip opt \<or> no_zero_reg_skip);
          load_a = (if all \<or> \<not> is_a_zero then Compile_GetRegister (op_src_a opcode) RESULT else []);
          load_b = (if all \<or> \<not> is_b_zero then Compile_GetRegister (op_src_b opcode) EAX else []);
          src_a = (if all \<or> \<not> is_a_zero then RESULT else dreg);
          src_b = (if all \<or> \<not> is_b_zero then EAX else dreg);
          emit = (\<lambda>b is. if zero_reg_skip opt \<and> \<not> b then [] else is);
          setc = (\<lambda>b. if \<not> can_skip_carry opt \<and> b then [SetcCarry] else []);
          compute =
            (case op_alu_operation opcode of
               AluAdd \<Rightarrow> emit valid_operation [AddRR src_a src_b] @ setc True
             | AluAddWithCarry \<Rightarrow> [BtCarry, AdcRR src_a src_b, SetcCarry]
             | AluSubtract \<Rightarrow>
                 emit valid_operation [SubRR src_a src_b] @ setc (\<not> zero_reg_skip opt \<or> valid_operation)
             | AluSubtractWithBorrow \<Rightarrow> [BtCarry, SbbRR src_a src_b, SetcCarry]
             | AluXor \<Rightarrow> emit valid_operation [XorRR src_a src_b]
             | AluOr \<Rightarrow> emit valid_operation [OrRR src_a src_b]
             | AluAnd \<Rightarrow> emit (\<not> has_zero_register) [AndRR src_a src_b]
             | AluAndNot \<Rightarrow> emit (\<not> is_a_zero) [NotR src_b, AndRR src_a src_b]
             | AluNand \<Rightarrow> emit (\<not> is_a_zero) [AndRR src_a src_b, NotR src_a]
             | Alu_other \<Rightarrow> [])
      in load_a @ load_b @ compute @ Compile_ProcessResult (op_result_operation opcode) (op_dst opcode))"

text \<open>
  The sum of a register and the immediate, in \<open>RESULT\<close>: nothing is added when the immediate is 0 or 2.
  The code appears in \<open>Compile_AddImmediate\<close> and again in \<open>Compile_Read\<close>.
\<close>

definition Compile_RegisterPlusImmediate :: "optimizer_state \<Rightarrow> u32 \<Rightarrow> instr list" where
  "Compile_RegisterPlusImmediate opt opcode =
     (let imm = op_immediate opcode in
      if zero_reg_skip opt \<and> op_src_a opcode = 0 then
        (if imm = 0 then [XorRR RESULT RESULT] else [MovRI RESULT imm])
      else
        Compile_GetRegister (op_src_a opcode) RESULT @
        (if sint imm > 2 then [AddRI RESULT imm]
         else if imm = 1 then [IncR RESULT]
         else if sint imm < 0 then [SubRI RESULT (imm * (- 1))]
         else []))"

definition Compile_AddImmediate :: "optimizer_state \<Rightarrow> u32 option \<Rightarrow> u32 \<Rightarrow> instr list" where
  "Compile_AddImmediate opt next_opcode opcode =
     (if skip_dummy_addimmediate opt \<and> op_result_operation opcode = Move \<and> op_dst opcode = 0 then []
      else if optimize_for_method_move opt \<and> op_result_operation opcode = MoveAndSetMethod \<and>
              (case next_opcode of None \<Rightarrow> False
               | Some nxt \<Rightarrow> op_result_operation nxt = MoveAndSetMethod \<and> op_dst opcode = op_dst nxt) then []
      else Compile_RegisterPlusImmediate opt opcode @
           Compile_ProcessResult (op_result_operation opcode) (op_dst opcode))"

definition Compile_ExtractInsert :: "u32 \<Rightarrow> instr list run" where
  "Compile_ExtractInsert opcode =
     bind_run (GetBitfieldMask opcode) (\<lambda>m.
       Done (Compile_GetRegister (op_src_a opcode) RESULT @ Compile_GetRegister (op_src_b opcode) EAX @
         [AndRI RESULT (NOT (push_bit (unat (op_bf_dst_bit opcode)) m)),
          ShrRI EAX (op_bf_src_bit opcode),
          AndRI EAX m,
          ShlRI EAX (op_bf_dst_bit opcode),
          OrRR RESULT EAX] @
         Compile_ProcessResult (op_result_operation opcode) (op_dst opcode)))"

definition Compile_ExtractShiftLeftImmediate :: "u32 \<Rightarrow> instr list run" where
  "Compile_ExtractShiftLeftImmediate opcode =
     bind_run (GetBitfieldMask opcode) (\<lambda>m.
       Done (Compile_GetRegister (op_src_a opcode) ECX @ Compile_GetRegister (op_src_b opcode) RESULT @
         [ShrCL RESULT, AndRI RESULT m, ShlRI RESULT (op_bf_dst_bit opcode)] @
         Compile_ProcessResult (op_result_operation opcode) (op_dst opcode)))"

definition Compile_ExtractShiftLeftRegister :: "u32 \<Rightarrow> instr list run" where
  "Compile_ExtractShiftLeftRegister opcode =
     bind_run (GetBitfieldMask opcode) (\<lambda>m.
       Done (Compile_GetRegister (op_src_a opcode) ECX @ Compile_GetRegister (op_src_b opcode) RESULT @
         [ShrRI RESULT (op_bf_src_bit opcode), AndRI RESULT m, ShlCL RESULT] @
         Compile_ProcessResult (op_result_operation opcode) (op_dst opcode)))"

definition Compile_Read :: "optimizer_state \<Rightarrow> u32 \<Rightarrow> instr list" where
  "Compile_Read opt opcode =
     Compile_RegisterPlusImmediate opt opcode @ [LoadEngine RESULT RESULT] @
     Compile_ProcessResult (op_result_operation opcode) (op_dst opcode)"

text \<open>The switch of \<open>Compile_NextInstruction\<close> without its branch case.\<close>

definition Compile_Operation :: "optimizer_state \<Rightarrow> reg \<Rightarrow> u32 option \<Rightarrow> u32 \<Rightarrow> instr list run" where
  "Compile_Operation opt dreg next_opcode opcode =
     (case op_operation opcode of
        OpALU \<Rightarrow> Done (Compile_ALU opt dreg opcode)
      | OpAddImmediate \<Rightarrow> Done (Compile_AddImmediate opt next_opcode opcode)
      | OpExtractInsert \<Rightarrow> Compile_ExtractInsert opcode
      | OpExtractShiftLeftImmediate \<Rightarrow> Compile_ExtractShiftLeftImmediate opcode
      | OpExtractShiftLeftRegister \<Rightarrow> Compile_ExtractShiftLeftRegister opcode
      | OpRead \<Rightarrow> Done (Compile_Read opt opcode)
      | _ \<Rightarrow> Done [])"

section \<open>Running emitted code\<close>

lemma exec_Nil: "exec m cl ps [] = Done"
  by (rule ext) simp

lemma exec_append: "exec m cl ps (xs @ ys) c = bind_run (exec m cl ps xs c) (exec m cl ps ys)"
proof (induction xs arbitrary: c)
  case (Cons i xs)
  have split: "exec m cl ps (i # is) c = bind_run (exec m cl ps [i] c) (exec m cl ps is)" for "is"
    by (cases i) (auto simp: bind_run_right exec_Nil bind_run_assoc simp del: exec1.simps)
  have "exec m cl ps (xs @ ys) = (\<lambda>c. bind_run (exec m cl ps xs c) (exec m cl ps ys))" using Cons.IH by (rule ext)
  then show ?case using split[of "xs @ ys"] split[of xs] by (simp add: bind_run_assoc)
qed simp

lemma put_simps [simp]:
  "cpu_reg (put r v c) = (cpu_reg c)(r := v)" "jit_registers (put r v c) = jit_registers c"
  "jit_carry_flag (put r v c) = jit_carry_flag c" "jit_parameter (put r v c) = jit_parameter c" "jit_engine (put r v c) = jit_engine c"
  by (simp_all add: put_def)

lemma put_flags_simps [simp]:
  "cpu_reg (put_flags r v f c) = (cpu_reg c)(r := v)" "jit_registers (put_flags r v f c) = jit_registers c"
  "CF (put_flags r v f c) = f" "jit_carry_flag (put_flags r v f c) = jit_carry_flag c"
  "jit_parameter (put_flags r v f c) = jit_parameter c" "jit_engine (put_flags r v f c) = jit_engine c"
  by (simp_all add: put_flags_def)

lemma shift_simps [simp]:
  "jit_registers (shift op out r n c) = jit_registers c" "jit_parameter (shift op out r n c) = jit_parameter c"
  "jit_engine (shift op out r n c) = jit_engine c" "jit_carry_flag (shift op out r n c) = jit_carry_flag c"
  by (simp_all add: shift_def Let_def)

lemma shift_reg:
  assumes "\<And>x. op 0 x = x" "n < 32"
  shows "cpu_reg (shift op out r n c) = (cpu_reg c)(r := op n (cpu_reg c r))"
  using assms by (auto simp: shift_def Let_def)

lemma shift_regs [simp]:
  "n < 32 \<Longrightarrow> cpu_reg (shift drop_bit out r n c) = (cpu_reg c)(r := drop_bit n (cpu_reg c r))"
  "n < 32 \<Longrightarrow> cpu_reg (shift push_bit out r n c) = (cpu_reg c)(r := push_bit n (cpu_reg c r))"
  by (simp_all add: shift_reg)

text \<open>
  The machine matches a state of the interpreter: same registers, same parameters fetched, same engine, and
  method addresses that agree on the address and increment fields.
\<close>

definition jit_data_match :: "u32 list \<Rightarrow> macro_state \<times> 'g \<Rightarrow> 'g cpu \<Rightarrow> bool" where
  "jit_data_match params sg c \<longleftrightarrow>
     (let s = fst sg in
      jit_registers c = registers s \<and> take_bit 18 (cpu_reg c METHOD_ADDRESS) = take_bit 18 (method_address s) \<and>
      jit_parameter c = unat (next_parameter_index s) \<and> jit_engine c = snd sg \<and>
      take (length params) (parameters s) = params \<and> num_parameters s = length params)"

text \<open>
  The carry. The interpreter keeps the carry of a sum and the inverted borrow of a difference, the compiled code the
  processor's flag: the carry of a sum and the borrow of a difference. The two flags are equal or opposite
  according to the last instruction that set them; at the start both are clear, as after a sum. When the
  macro has no instruction that reads the carry the compiled code does not store it.
\<close>

datatype carry_source = FromSum | FromDifference

definition carry_match :: "carry_source \<Rightarrow> bool \<Rightarrow> bool \<Rightarrow> bool" where
  "carry_match src flag k \<longleftrightarrow> (case src of FromSum \<Rightarrow> flag = k | FromDifference \<Rightarrow> flag = (\<not> k))"

definition carry_after :: "carry_source \<Rightarrow> u32 \<Rightarrow> carry_source" where
  "carry_after src opc =
     (if op_operation opc \<noteq> OpALU then src
      else if op_alu_operation opc \<in> {AluAdd, AluAddWithCarry} then FromSum
      else if op_alu_operation opc \<in> {AluSubtract, AluSubtractWithBorrow} then FromDifference
      else src)"

definition jit_match :: "u32 list \<Rightarrow> carry_source \<Rightarrow> u32 list \<Rightarrow> macro_state \<times> 'g \<Rightarrow> 'g cpu \<Rightarrow> bool" where
  "jit_match code src params sg c \<longleftrightarrow> jit_data_match params sg c \<and>
     (can_skip_carry (Compile_optimizer code) \<or> carry_match src (carry_flag (fst sg)) (jit_carry_flag c))"

definition no_address_carry :: "u32 \<Rightarrow> bool" where
  "no_address_carry a \<longleftrightarrow> unat (ma_address a) + unat (ma_increment a) < 4096"

lemma take_18_fields:
  assumes "take_bit 18 a = take_bit 18 (b :: u32)"
  shows "ma_address a = ma_address b" "ma_increment a = ma_increment b"
proof -
  have b: "bit a i \<longleftrightarrow> bit b i" if "i < 18" for i
    using assms that by (metis bit_take_bit_iff)
  show "ma_address a = ma_address b" "ma_increment a = ma_increment b"
    by (auto intro!: bit_word_eqI simp: ma_address_def ma_increment_def bit_bf_extract b)
qed

text \<open>The address after a send: the compiled code drops the bits above the two fields and lets the sum run into
  the increment; without a carry the two fields agree with the interpreter's.\<close>

lemma send_address:
  assumes e: "take_bit 18 a = take_bit 18 (b :: u32)" and n: "no_address_carry b"
  shows "take_bit 18 (if a AND 0x3f000 = 0 then a
      else (drop_bit 12 a AND 0x3f) + (a AND 0xfff) OR push_bit 12 (drop_bit 12 a AND 0x3f)) =
    take_bit 18 (bf_assign 0 12 b (ma_address b + ma_increment b))"
proof -
  have bits: "bit a i \<longleftrightarrow> bit b i" if "i < 18" for i using e that by (metis bit_take_bit_iff)
  have m: "(0xfff :: u32) = mask 12" "(0x3f :: u32) = mask 6" "(0x3f000 :: u32) = push_bit 12 (mask 6)" by (simp_all add: mask_eq_exp_minus_1)
  have x: "a AND 0xfff = ma_address b" "drop_bit 12 a AND 0x3f = ma_increment b"
    unfolding m ma_address_def ma_increment_def by (auto intro!: bit_word_eqI simp: bit_simps bit_bf_extract bits)
  let ?s = "ma_increment b + ma_address b"
  have s: "unat ?s < 2 ^ 12" using n by (simp add: no_address_carry_def unat_add_no_wrap)
  then have t: "take_bit 12 ?s = ?s" by (simp only: word_unat_eq_iff unsigned_take_bit_eq take_bit_nat_eq_self)
  have small: "\<not> bit ?s i" if "12 \<le> i" for i using that by (subst t[symmetric]) (simp add: bit_take_bit_iff)
  show ?thesis
  proof (cases "a AND 0x3f000 = 0")
    case True
    have "ma_increment b = 0"
    proof (rule bit_word_eqI)
      fix i assume "i < LENGTH(32)"
      have "\<not> bit (a AND 0x3f000) (i + 12)" using True by simp
      then show "bit (ma_increment b) i \<longleftrightarrow> bit 0 i" unfolding m ma_increment_def
        by (auto simp: bit_simps bit_bf_extract bits add.commute)
    qed
    then show ?thesis using True by (auto intro!: bit_word_eqI simp: bit_simps bit_bf_assign bits ma_address_def bit_bf_extract split: if_splits)
  next
    case False
    show ?thesis unfolding if_not_P[OF False] x
      using small by (auto split: if_splits intro!: bit_word_eqI simp: bit_simps bit_bf_assign add.commute ma_increment_def bit_bf_extract)
  qed
qed


section \<open>Sending and storing results\<close>

lemma exec_Send:
  assumes "r = RESULT \<or> r = EAX" "jit_data_match params (s, g) c" "no_address_carry (method_address s)"
  shows "\<exists>c'. exec m cl params (Compile_Send r) c = Done c' \<and> jit_data_match params (Send m (cpu_reg c r) (s, g)) c'"
proof -
  let ?a = "cpu_reg c METHOD_ADDRESS" and ?b = "method_address s"
  have e: "take_bit 18 ?a = take_bit 18 ?b" using assms(2) by (simp add: jit_data_match_def Let_def)
  let ?g = "CallMethod m (ma_address ?a) (cpu_reg c r) True (jit_engine c)"
  obtain x y f z where cl: "cl ?g = (x, y, f, z)" by (metis prod_cases4)
  have "\<exists>c'. exec m cl params (Compile_Send r) c = Done c' \<and>
      cpu_reg c' METHOD_ADDRESS = (if ?a AND 0x3f000 = 0 then ?a
        else (drop_bit 12 ?a AND 0x3f) + (?a AND 0xfff) OR push_bit 12 (drop_bit 12 ?a AND 0x3f)) \<and>
      jit_engine c' = ?g \<and> jit_registers c' = jit_registers c \<and> jit_parameter c' = jit_parameter c"
    using assms(1) cl by (cases "?a AND 0x3f000 = 0"; elim disjE) (simp_all add: Compile_Send_def Let_def)
  then obtain c' where c': "exec m cl params (Compile_Send r) c = Done c'"
      "cpu_reg c' METHOD_ADDRESS = (if ?a AND 0x3f000 = 0 then ?a
        else (drop_bit 12 ?a AND 0x3f) + (?a AND 0xfff) OR push_bit 12 (drop_bit 12 ?a AND 0x3f))"
      "jit_engine c' = ?g" "jit_registers c' = jit_registers c" "jit_parameter c' = jit_parameter c" by (elim exE conjE)
  have "take_bit 18 (cpu_reg c' METHOD_ADDRESS) = take_bit 18 (bf_assign 0 12 ?b (ma_address ?b + ma_increment ?b))"
    unfolding c'(2) by (rule send_address[OF e assms(3)])
  moreover have "?g = CallMethod m (ma_address ?b) (cpu_reg c r) True g"
    using take_18_fields(1)[OF e] assms(2) by (simp add: jit_data_match_def Let_def)
  ultimately show ?thesis using assms(2) c'(1,3-5) by (simp add: jit_data_match_def Send_def Let_def)
qed

lemma exec_SetRegister:
  assumes "jit_data_match params (s, g) c" "SetRegister i (cpu_reg c r) s = Done s'"
  shows "\<exists>c'. exec m cl params (Compile_SetRegister i r) c = Done c' \<and> jit_data_match params (s', g) c' \<and> cpu_reg c' = cpu_reg c"
  using assms by (auto simp: Compile_SetRegister_def SetRegister_def jit_data_match_def Let_def split: if_splits)

lemma exec_FetchParameter:
  assumes "jit_data_match params (s, g) c" "FetchParameter s = Done (p, s')" "unat (next_parameter_index s) < length params" "length params < 2 ^ 32"
  shows "\<exists>c'. exec m cl params Compile_FetchParameter c = Done c' \<and> jit_data_match params (s', g) c' \<and>
    cpu_reg c' EAX = p \<and> cpu_reg c' RESULT = cpu_reg c RESULT"
proof -
  let ?i = "unat (next_parameter_index s)"
  have "unat (next_parameter_index s + 1) = ?i + 1" using assms(3,4) by (subst unat_add_no_wrap) simp_all
  moreover have "take (length params) (parameters s) = params" using assms(1) by (simp add: jit_data_match_def Let_def)
  then have "params ! ?i = parameters s ! ?i" using nth_take[OF assms(3), of "parameters s"] by simp
  ultimately show ?thesis using assms
    by (auto simp: Compile_FetchParameter_def FetchParameter_def jit_data_match_def Let_def split: if_splits)
qed

lemma exec_SetMethodAddress:
  "jit_data_match params (s, g) c \<Longrightarrow> \<exists>c'. exec m cl params (Compile_SetMethodAddress r) c = Done c' \<and>
    jit_data_match params (SetMethodAddress (cpu_reg c r) s, g) c' \<and> (\<forall>q. q \<noteq> METHOD_ADDRESS \<longrightarrow> cpu_reg c' q = cpu_reg c q)"
  by (auto simp: Compile_SetMethodAddress_def SetMethodAddress_def jit_data_match_def Let_def)


text \<open>Where the method address of a send comes from.\<close>

definition send_in_range :: "result_operation \<Rightarrow> u32 \<Rightarrow> macro_state \<Rightarrow> bool" where
  "send_in_range rop result s \<longleftrightarrow>
     (rop \<in> {FetchAndSend, MoveAndSend} \<longrightarrow> no_address_carry (method_address s)) \<and>
     (rop \<in> {MoveAndSetMethodFetchAndSend, MoveAndSetMethodSend} \<longrightarrow> no_address_carry result)"

lemma control_match_fields:
  "SetRegister r v s = Done s' \<Longrightarrow> method_address s' = method_address s \<and> next_parameter_index s' = next_parameter_index s"
  "FetchParameter s = Done (p, s') \<Longrightarrow> method_address s' = method_address s"
  by (auto simp: SetRegister_def FetchParameter_def Let_def split: if_splits)

text \<open>The results that fetch a parameter into the register, and those that move the result.\<close>

lemma exec_ProcessResult_fetch:
  assumes m: "jit_data_match params (s, g) c" "cpu_reg c RESULT = v" and p: "length params < 2 ^ 32"
    and f: "rop \<in> fetching_results \<Longrightarrow> unat (next_parameter_index s) < length params"
    and a: "send_in_range rop v s" and r: "ProcessResult mx rop i v (s, g) = Done (s', g')"
    and fetch: "rop \<in> {IgnoreAndFetch, FetchAndSend, FetchAndSetMethod}"
  shows "\<exists>c'. exec mx cl params (Compile_ProcessResult rop i) c = Done c' \<and> jit_data_match params (s', g') c'"
proof -
  have fe: "unat (next_parameter_index s) < length params" using f fetch by (auto simp: fetching_results_def)
  from fetch r obtain x s1 s2 where 1: "FetchParameter s = Done (x, s1)" "SetRegister i x s1 = Done s2"
    by (auto simp: ProcessResult_def bind_run_Done_iff)
  from exec_FetchParameter[OF m(1) 1(1) fe p, of mx cl] obtain c1 where
    c1: "exec mx cl params Compile_FetchParameter c = Done c1" "jit_data_match params (s1, g) c1" "cpu_reg c1 EAX = x" "cpu_reg c1 RESULT = v"
    using m(2) by auto
  from exec_SetRegister[OF c1(2), of i EAX s2 mx cl] 1(2) c1(3) obtain c2 where
    c2: "exec mx cl params (Compile_SetRegister i EAX) c1 = Done c2" "jit_data_match params (s2, g) c2" "cpu_reg c2 = cpu_reg c1" by auto
  have ma: "method_address s2 = method_address s" using control_match_fields 1 by metis
  consider "rop = IgnoreAndFetch" | "rop = FetchAndSend" | "rop = FetchAndSetMethod" using fetch by auto
  then show ?thesis
  proof cases
    case 1
    with \<open>FetchParameter s = Done (x, s1)\<close> \<open>SetRegister i x s1 = Done s2\<close> r c1(1) c2(1,2) show ?thesis
      by (simp add: ProcessResult_def Compile_ProcessResult_def exec_append)
  next
    case 2
    then have "no_address_carry (method_address s2)" using a ma by (simp add: send_in_range_def)
    from exec_Send[OF disjI1[OF refl] c2(2) this, of mx cl] 2 r c1 c2 1 show ?thesis
      by (auto simp: ProcessResult_def Compile_ProcessResult_def exec_append)
  next
    case 3
    from exec_SetMethodAddress[OF c2(2), of mx cl RESULT] 3 r c1 c2 1 show ?thesis
      by (auto simp: ProcessResult_def Compile_ProcessResult_def exec_append)
  qed
qed

lemma exec_ProcessResult_move:
  assumes m: "jit_data_match params (s, g) c" "cpu_reg c RESULT = v" and p: "length params < 2 ^ 32"
    and f: "rop \<in> fetching_results \<Longrightarrow> unat (next_parameter_index s) < length params"
    and a: "send_in_range rop v s" and r: "ProcessResult mx rop i v (s, g) = Done (s', g')"
    and move: "rop \<notin> {IgnoreAndFetch, FetchAndSend, FetchAndSetMethod}"
  shows "\<exists>c'. exec mx cl params (Compile_ProcessResult rop i) c = Done c' \<and> jit_data_match params (s', g') c'"
proof -
  obtain s1 where s1: "SetRegister i v s = Done s1" using r move
    by (cases rop; cases "SetRegister i v s") (auto simp: ProcessResult_def)
  from exec_SetRegister[OF m(1), of i RESULT s1 mx cl] s1 m(2) obtain c1 where
    c1: "exec mx cl params (Compile_SetRegister i RESULT) c = Done c1" "jit_data_match params (s1, g) c1" "cpu_reg c1 = cpu_reg c" by auto
  note ma = control_match_fields(1)[OF s1]
  from exec_SetMethodAddress[OF c1(2), of mx cl RESULT] c1(3) m(2) obtain c2 where
    c2: "exec mx cl params (Compile_SetMethodAddress RESULT) c1 = Done c2" "jit_data_match params (SetMethodAddress v s1, g) c2"
      "cpu_reg c2 RESULT = v" by auto
  note code = ProcessResult_def Compile_ProcessResult_def exec_append s1 c1(1) c2(1)
  consider "rop = Move" | "rop = MoveAndSetMethod" | "rop = MoveAndSend" | "rop = MoveAndSetMethodFetchAndSend" | "rop = MoveAndSetMethodSend"
    using move by (cases rop) auto
  then show ?thesis
  proof cases
    case 3
    then have "no_address_carry (method_address s1)" using a ma by (simp add: send_in_range_def)
    from exec_Send[OF disjI1[OF refl] c1(2) this, of mx cl] 3 r c1(3) m(2) show ?thesis by (auto simp: code)
  next
    case 4
    then obtain x s2 where x: "FetchParameter (SetMethodAddress v s1) = Done (x, s2)"
      using r by (auto simp: code bind_run_Done_iff)
    have "unat (next_parameter_index (SetMethodAddress v s1)) < length params"
      using f 4 ma by (simp add: fetching_results_def SetMethodAddress_def)
    from exec_FetchParameter[OF c2(2) x this p, of mx cl] obtain c3 where
      c3: "exec mx cl params Compile_FetchParameter c2 = Done c3" "jit_data_match params (s2, g) c3" "cpu_reg c3 EAX = x" by auto
    have "no_address_carry (method_address s2)"
      using a 4 control_match_fields(2)[OF x] by (simp add: send_in_range_def SetMethodAddress_def)
    from exec_Send[OF disjI2[OF refl] c3(2) this, of mx cl] 4 r c3 x show ?thesis by (auto simp: code)
  next
    case 5
    let ?c = "put_flags RESULT (drop_bit 12 v AND 0x3f) False (shift drop_bit (\<lambda>k. k - 1) RESULT 12 c2)"
    have "jit_data_match params (SetMethodAddress v s1, g) ?c" using c2(2) by (simp add: jit_data_match_def Let_def)
    moreover have "no_address_carry (method_address (SetMethodAddress v s1))" using a 5 by (simp add: send_in_range_def SetMethodAddress_def)
    ultimately show ?thesis
      using exec_Send[of RESULT params "SetMethodAddress v s1" g ?c mx cl] 5 r c2(3) by (auto simp: code)
  qed (use r c1(2) c2(2) in \<open>simp_all add: code\<close>)
qed

lemma exec_ProcessResult:
  assumes m: "jit_data_match params (s, g) c" "cpu_reg c RESULT = v" and p: "length params < 2 ^ 32"
    and f: "rop \<in> fetching_results \<Longrightarrow> unat (next_parameter_index s) < length params"
    and a: "send_in_range rop v s" and r: "ProcessResult mx rop i v (s, g) = Done (s', g')"
  shows "\<exists>c'. exec mx cl params (Compile_ProcessResult rop i) c = Done c' \<and> jit_data_match params (s', g') c'"
  using exec_ProcessResult_fetch[OF m p f a r, of cl] exec_ProcessResult_move[OF m p f a r, of cl] by blast

section \<open>Computing results\<close>

text \<open>Code that computes a value leaves the matched part of the machine alone.\<close>

definition computes :: "'g maxwell3d \<Rightarrow> ('g \<Rightarrow> u32 \<times> u32 \<times> bool \<times> bool) \<Rightarrow> u32 list \<Rightarrow> instr list \<Rightarrow> 'g cpu \<Rightarrow> (reg \<Rightarrow> u32) \<Rightarrow> bool" where
  "computes m cl params is c f \<longleftrightarrow>
     (\<exists>c'. exec m cl params is c = Done c' \<and> cpu_reg c' = f \<and> jit_registers c' = jit_registers c \<and>
        jit_parameter c' = jit_parameter c \<and> jit_engine c' = jit_engine c \<and> jit_carry_flag c' = jit_carry_flag c)"

lemma computes_append:
  assumes "computes m cl params xs c f"
    "\<And>c'. cpu_reg c' = f \<Longrightarrow> jit_registers c' = jit_registers c \<Longrightarrow> jit_engine c' = jit_engine c \<Longrightarrow> computes m cl params ys c' h"
  shows "computes m cl params (xs @ ys) c h"
proof -
  from assms(1) obtain c1 where "exec m cl params xs c = Done c1" "cpu_reg c1 = f" "jit_registers c1 = jit_registers c"
    "jit_parameter c1 = jit_parameter c" "jit_engine c1 = jit_engine c" "jit_carry_flag c1 = jit_carry_flag c"
    by (auto simp: computes_def)
  with assms(2)[of c1] show ?thesis by (auto simp: computes_def exec_append)
qed

lemma computes_GetRegister:
  assumes "macro_wf s" "jit_registers c = registers s"
  shows "computes m cl params (Compile_GetRegister (bf_extract p 3 w) r) c ((cpu_reg c)(r := registers s ! unat (bf_extract p 3 w)))"
  using assms register_index[of p w] by (auto simp: computes_def Compile_GetRegister_def macro_wf_def)

lemma computes_code:
  "computes m cl params [] c (cpu_reg c)"
  "computes m cl params [AddRR d q] c ((cpu_reg c)(d := cpu_reg c d + cpu_reg c q))"
  "computes m cl params [SubRR d q] c ((cpu_reg c)(d := cpu_reg c d - cpu_reg c q))"
  "computes m cl params [XorRR d q] c ((cpu_reg c)(d := cpu_reg c d XOR cpu_reg c q))"
  "computes m cl params [OrRR d q] c ((cpu_reg c)(d := cpu_reg c d OR cpu_reg c q))"
  "computes m cl params [AndRR d q] c ((cpu_reg c)(d := cpu_reg c d AND cpu_reg c q))"
  by (simp_all add: computes_def)

text \<open>
  The instructions whose compiled form agrees with the interpreter, under the flags every compilation sets. Not among them: the
  addition of the immediate 2 to a register other than the zero register, additions, subtractions and logical
  operations with a zero register as an operand, unknown arithmetic operations, an addition with carry
  after a difference, a subtraction with borrow that does not follow a difference, and an addition that the redundant-move optimisation
  drops.
\<close>

definition jit_exact :: "carry_source \<Rightarrow> u32 option \<Rightarrow> u32 \<Rightarrow> bool" where
  "jit_exact src next_opcode opc \<longleftrightarrow>
     (case op_operation opc of
        OpALU \<Rightarrow>
          (case op_alu_operation opc of
             AluAddWithCarry \<Rightarrow> src = FromSum
           | AluSubtractWithBorrow \<Rightarrow> src = FromDifference
           | Alu_other \<Rightarrow> False
           | _ \<Rightarrow> op_src_a opc \<noteq> 0 \<and> op_src_b opc \<noteq> 0)
      | OpAddImmediate \<Rightarrow> (op_immediate opc \<noteq> 2 \<or> op_src_a opc = 0) \<and>
          \<not> (op_result_operation opc = MoveAndSetMethod \<and>
            (\<exists>nxt. next_opcode = Some nxt \<and> op_result_operation nxt = MoveAndSetMethod \<and> op_dst nxt = op_dst opc))
      | OpRead \<Rightarrow> op_immediate opc \<noteq> 2 \<or> op_src_a opc = 0
      | _ \<Rightarrow> True)"

lemma immediate_cases:
  fixes imm :: u32
  assumes "imm \<noteq> 2" "\<not> sint imm > 2" "imm \<noteq> 1" "\<not> sint imm < 0"
  shows "imm = 0"
proof -
  have "sint imm \<in> {0, 1, 2}" using assms(2,4) by auto
  moreover have "sint (1 :: u32) = 1" "sint (2 :: u32) = 2" "sint (0 :: u32) = 0" by simp_all
  ultimately have "sint imm = sint (0 :: u32) \<or> sint imm = sint (1 :: u32) \<or> sint imm = sint (2 :: u32)" by auto
  then show ?thesis using assms(1,3) signed_word_eqI[of imm] by blast
qed


text \<open>Code that leaves a value in \<open>RESULT\<close> and a value in the stored carry flag.\<close>

definition yields :: "'g maxwell3d \<Rightarrow> ('g \<Rightarrow> u32 \<times> u32 \<times> bool \<times> bool) \<Rightarrow> u32 list \<Rightarrow> instr list \<Rightarrow> 'g cpu \<Rightarrow> u32 \<Rightarrow> bool \<Rightarrow> bool" where
  "yields m cl params is c v k \<longleftrightarrow>
     (\<exists>c'. exec m cl params is c = Done c' \<and> cpu_reg c' RESULT = v \<and> cpu_reg c' METHOD_ADDRESS = cpu_reg c METHOD_ADDRESS \<and>
        jit_registers c' = jit_registers c \<and> jit_parameter c' = jit_parameter c \<and> jit_engine c' = jit_engine c \<and>
        jit_carry_flag c' = k)"

lemma yieldsI:
  "computes m cl params is c f \<Longrightarrow> f RESULT = v \<Longrightarrow> f METHOD_ADDRESS = cpu_reg c METHOD_ADDRESS \<Longrightarrow>
    yields m cl params is c v (jit_carry_flag c)"
  by (auto simp: yields_def computes_def)

lemma yields_append:
  assumes "computes m cl params xs c f" "f METHOD_ADDRESS = cpu_reg c METHOD_ADDRESS"
    "\<And>c'. cpu_reg c' = f \<Longrightarrow> jit_engine c' = jit_engine c \<Longrightarrow> jit_carry_flag c' = jit_carry_flag c \<Longrightarrow> yields m cl params ys c' v k"
  shows "yields m cl params (xs @ ys) c v k"
proof -
  from assms(1) obtain c1 where c1: "exec m cl params xs c = Done c1" "cpu_reg c1 = f" "jit_registers c1 = jit_registers c"
    "jit_parameter c1 = jit_parameter c" "jit_engine c1 = jit_engine c" "jit_carry_flag c1 = jit_carry_flag c"
    by (auto simp: computes_def)
  from assms(3)[OF c1(2,5,6)] show ?thesis using c1 assms(2) by (auto simp: yields_def exec_append)
qed

lemma yields_plus:
  assumes s: "macro_wf s" "jit_registers c = registers s" and i: "op_immediate opc \<noteq> 2 \<or> op_src_a opc = 0" and z: "zero_reg_skip opt"
  shows "yields m cl params (Compile_RegisterPlusImmediate opt opc) c
    (registers s ! unat (op_src_a opc) + op_immediate opc) (jit_carry_flag c)"
proof (cases "op_src_a opc = 0")
  case True
  have "registers s ! 0 = 0" using s(1) by (simp add: macro_wf_def)
  then show ?thesis using True z by (auto simp: yields_def computes_def Compile_RegisterPlusImmediate_def Let_def)
next
  case False
  let ?v = "registers s ! unat (op_src_a opc)" and ?imm = "op_immediate opc"
  let ?add = "if sint ?imm > 2 then [AddRI RESULT ?imm] else if ?imm = 1 then [IncR RESULT]
         else if sint ?imm < 0 then [SubRI RESULT (?imm * (- 1))] else []"
  have load: "computes m cl params (Compile_GetRegister (op_src_a opc) RESULT) c ((cpu_reg c)(RESULT := ?v))"
    unfolding op_src_a_def by (rule computes_GetRegister[OF s])
  have imm: "?imm = 0" if "\<not> sint ?imm > 2" "?imm \<noteq> 1" "\<not> sint ?imm < 0"
    using immediate_cases[of ?imm] i False that by blast
  have "computes m cl params (Compile_GetRegister (op_src_a opc) RESULT @ ?add) c ((cpu_reg c)(RESULT := ?v + ?imm))"
  proof (rule computes_append[OF load])
    fix c' :: "'a cpu" assume "cpu_reg c' = (cpu_reg c)(RESULT := ?v)"
    then show "computes m cl params ?add c' ((cpu_reg c)(RESULT := ?v + ?imm))"
      using imm by (auto simp: computes_def)
  qed
  moreover have "Compile_RegisterPlusImmediate opt opc = Compile_GetRegister (op_src_a opc) RESULT @ ?add"
    using False by (simp add: Compile_RegisterPlusImmediate_def Let_def)
  ultimately show ?thesis using yieldsI[of m cl params _ c "(cpu_reg c)(RESULT := ?v + ?imm)"] by simp
qed

lemma two_loads:
  assumes s: "macro_wf s" "jit_registers c = registers s"
  shows "computes m cl params (Compile_GetRegister (op_src_a opc) q @ Compile_GetRegister (op_src_b opc) r) c
    ((cpu_reg c)(q := registers s ! unat (op_src_a opc), r := registers s ! unat (op_src_b opc)))"
proof (rule computes_append)
  show "computes m cl params (Compile_GetRegister (op_src_a opc) q) c ((cpu_reg c)(q := registers s ! unat (op_src_a opc)))"
    unfolding op_src_a_def by (rule computes_GetRegister[OF s])
  fix c' :: "'a cpu" assume c': "cpu_reg c' = (cpu_reg c)(q := registers s ! unat (op_src_a opc))" "jit_registers c' = jit_registers c"
  show "computes m cl params (Compile_GetRegister (op_src_b opc) r) c'
      ((cpu_reg c)(q := registers s ! unat (op_src_a opc), r := registers s ! unat (op_src_b opc)))"
    unfolding op_src_b_def c'(1)[symmetric] using s c'(2) by (intro computes_GetRegister) simp_all
qed

text \<open>The part of the code before \<open>Compile_ProcessResult\<close>, for each operation.\<close>

lemma field_small: "unat (op_bf_src_bit opc) < 32" "unat (op_bf_dst_bit opc) < 32"
  using unat_bf_extract_less[of 17 5 opc] unat_bf_extract_less[of 27 5 opc] by (simp_all add: op_bf_src_bit_def op_bf_dst_bit_def)

lemma alu_value:
  assumes "GetALUResult op a b s = (v, s1)" "op \<noteq> Alu_other"
  shows "v = (case op of AluAdd \<Rightarrow> a + b | AluAddWithCarry \<Rightarrow> a + b + of_bool (carry_flag s)
      | AluSubtract \<Rightarrow> a - b | AluSubtractWithBorrow \<Rightarrow> a - b - of_bool (\<not> carry_flag s) | AluXor \<Rightarrow> a XOR b
      | AluOr \<Rightarrow> a OR b | AluAnd \<Rightarrow> a AND b | AluAndNot \<Rightarrow> a AND NOT b | _ \<Rightarrow> NOT (a AND b))"
    "carry_flag s1 = (case op of AluAdd \<Rightarrow> uint a + uint b \<ge> 2 ^ 32
      | AluAddWithCarry \<Rightarrow> uint a + uint b + of_bool (carry_flag s) \<ge> 2 ^ 32
      | AluSubtract \<Rightarrow> \<not> a < b | AluSubtractWithBorrow \<Rightarrow> \<not> uint a < uint b + of_bool (\<not> carry_flag s)
      | _ \<Rightarrow> carry_flag s)"
proof -
  have add: "ucast ((ucast a :: u64) + ucast b + (if k then 1 else 0)) = a + b + of_bool k" for k
    using carry_add(1)[of a b k] by (cases k) (simp_all add: word_unat_eq_iff unat_word_ariths mod_simps)
  have sub: "ucast ((ucast a :: u64) - ucast b - (if k then 0 else 1)) = a - b - of_bool (\<not> k)" for k
    using borrow_sub(1)[of a b k] by (cases k) (simp_all add: word_uint_eq_iff uint_word_ariths mod_simps)
  note plain = add[of False] sub[of True] carry_add(2)[of a b False] borrow_sub(2)[of a b True]
  have int: "2 ^ 32 \<le> unat a + unat b + of_bool k \<longleftrightarrow> 2 ^ 32 \<le> uint a + uint b + of_bool k" for k
    using of_nat_le_iff[of "2 ^ 32" "unat a + unat b + of_bool k", where 'a = int] by simp
  show "v = (case op of AluAdd \<Rightarrow> a + b | AluAddWithCarry \<Rightarrow> a + b + of_bool (carry_flag s)
      | AluSubtract \<Rightarrow> a - b | AluSubtractWithBorrow \<Rightarrow> a - b - of_bool (\<not> carry_flag s) | AluXor \<Rightarrow> a XOR b
      | AluOr \<Rightarrow> a OR b | AluAnd \<Rightarrow> a AND b | AluAndNot \<Rightarrow> a AND NOT b | _ \<Rightarrow> NOT (a AND b))"
    using assms plain(1,2) add[of "carry_flag s"] sub[of "carry_flag s"] by (cases op) (simp_all add: GetALUResult_def Let_def)
  show "carry_flag s1 = (case op of AluAdd \<Rightarrow> uint a + uint b \<ge> 2 ^ 32
      | AluAddWithCarry \<Rightarrow> uint a + uint b + of_bool (carry_flag s) \<ge> 2 ^ 32
      | AluSubtract \<Rightarrow> \<not> a < b | AluSubtractWithBorrow \<Rightarrow> \<not> uint a < uint b + of_bool (\<not> carry_flag s)
      | _ \<Rightarrow> carry_flag s)"
    using assms plain(3,4) carry_add(2)[of a b "carry_flag s"] borrow_sub(2)[of a b "carry_flag s"] int[of "carry_flag s"] int[of False]
    by (cases op) (auto simp: GetALUResult_def Let_def word_le_def not_less)
qed

text \<open>The instructions that compute, on two operands loaded into \<open>RESULT\<close> and \<open>EAX\<close>.\<close>

definition alu_code :: "optimizer_state \<Rightarrow> alu_operation \<Rightarrow> instr list" where
  "alu_code opt op =
     (let setc = (if can_skip_carry opt then [] else [SetcCarry]) in
      case op of AluAdd \<Rightarrow> AddRR RESULT EAX # setc | AluAddWithCarry \<Rightarrow> [BtCarry, AdcRR RESULT EAX, SetcCarry]
      | AluSubtract \<Rightarrow> SubRR RESULT EAX # setc | AluSubtractWithBorrow \<Rightarrow> [BtCarry, SbbRR RESULT EAX, SetcCarry]
      | AluXor \<Rightarrow> [XorRR RESULT EAX] | AluOr \<Rightarrow> [OrRR RESULT EAX] | AluAnd \<Rightarrow> [AndRR RESULT EAX]
      | AluAndNot \<Rightarrow> [NotR EAX, AndRR RESULT EAX] | _ \<Rightarrow> [AndRR RESULT EAX, NotR RESULT])"

lemma Compile_ALU_code:
  assumes "jit_exact src nxt opc" "op_operation opc = OpALU" "zero_reg_skip opt"
  shows "Compile_ALU opt dreg opc = ((Compile_GetRegister (op_src_a opc) RESULT @ Compile_GetRegister (op_src_b opc) EAX) @
      alu_code opt (op_alu_operation opc)) @ Compile_ProcessResult (op_result_operation opc) (op_dst opc)"
  using assms by (cases "op_alu_operation opc") (simp_all add: Compile_ALU_def alu_code_def jit_exact_def Let_def)

lemma yields_ALU:
  assumes s: "macro_wf s" "jit_registers c = registers s" and o: "op_operation opc = OpALU" "jit_exact src nxt opc"
    and r: "OperationResult m opc (s, g) = Done (v, s1)"
    and k: "can_skip_carry opt \<or> carry_match src (carry_flag s) (jit_carry_flag c)"
      "op_alu_operation opc \<in> {AluAddWithCarry, AluSubtractWithBorrow} \<Longrightarrow> \<not> can_skip_carry opt"
  shows "\<exists>k. yields m cl params ((Compile_GetRegister (op_src_a opc) RESULT @ Compile_GetRegister (op_src_b opc) EAX) @
      alu_code opt (op_alu_operation opc)) c v k \<and> (can_skip_carry opt \<or> carry_match (carry_after src opc) (carry_flag s1) k)"
proof -
  let ?op = "op_alu_operation opc" and ?a = "registers s ! unat (op_src_a opc)" and ?b = "registers s ! unat (op_src_b opc)"
  let ?k = "if can_skip_carry opt \<or> ?op \<notin> {AluAdd, AluAddWithCarry, AluSubtract, AluSubtractWithBorrow} then jit_carry_flag c
    else if carry_after src opc = FromSum then carry_flag s1 else \<not> carry_flag s1"
  have other: "?op \<noteq> Alu_other" using o by (auto simp: jit_exact_def)
  have "GetALUResult ?op ?a ?b s = (v, s1)"
    using r o(1) GetRegister_wf[OF s(1)] by (simp add: OperationResult_def op_src_a_def op_src_b_def)
  note v = alu_value[OF this other]
  have "yields m cl params ((Compile_GetRegister (op_src_a opc) RESULT @ Compile_GetRegister (op_src_b opc) EAX) @ alu_code opt ?op) c v ?k"
  proof (rule yields_append[OF two_loads[OF s]])
    fix c' :: "'a cpu"
    assume "cpu_reg c' = (cpu_reg c)(RESULT := ?a, EAX := ?b)" "jit_carry_flag c' = jit_carry_flag c"
    then show "yields m cl params (alu_code opt ?op) c' v ?k" using o k other v
      by (cases ?op) (auto simp: yields_def alu_code_def jit_exact_def carry_match_def carry_after_def)
  qed simp
  moreover have "can_skip_carry opt \<or> carry_match (carry_after src opc) (carry_flag s1) ?k"
    using o(1) k(1) other v(2) by (cases ?op; cases "carry_after src opc") (auto simp: carry_match_def carry_after_def)
  ultimately show ?thesis by blast
qed


lemma yields_Extract:
  assumes s: "macro_wf s" "jit_registers c = registers s"
    and o: "op_operation opc \<in> {OpExtractInsert, OpExtractShiftLeftImmediate, OpExtractShiftLeftRegister}"
    and r: "OperationResult m opc (s, g) = Done (v, s1)"
  shows "\<exists>is. Compile_Operation opt dreg nxt opc = Done (is @ Compile_ProcessResult (op_result_operation opc) (op_dst opc)) \<and>
    yields m cl params is c v (jit_carry_flag c)"
proof -
  let ?a = "registers s ! unat (op_src_a opc)" and ?b = "registers s ! unat (op_src_b opc)"
  have reg: "GetRegister (op_src_a opc) s = Done ?a" "GetRegister (op_src_b opc) s = Done ?b"
    using GetRegister_wf[OF s(1)] by (simp_all add: op_src_a_def op_src_b_def)
  obtain k where k: "GetBitfieldMask opc = Done k"
    using r o by (cases "GetBitfieldMask opc") (auto simp: OperationResult_def reg split: if_splits)
  note code = Compile_Operation_def Compile_ExtractInsert_def Compile_ExtractShiftLeftImmediate_def Compile_ExtractShiftLeftRegister_def k
  from o consider "op_operation opc = OpExtractInsert" | "op_operation opc = OpExtractShiftLeftImmediate" | "op_operation opc = OpExtractShiftLeftRegister" by blast
  then show ?thesis
  proof cases
    case 1
    let ?is = "[AndRI RESULT (NOT (push_bit (unat (op_bf_dst_bit opc)) k)), ShrRI EAX (op_bf_src_bit opc), AndRI EAX k,
      ShlRI EAX (op_bf_dst_bit opc), OrRR RESULT EAX]"
    have "yields m cl params ((Compile_GetRegister (op_src_a opc) RESULT @ Compile_GetRegister (op_src_b opc) EAX) @ ?is) c v (jit_carry_flag c)"
      using r 1 k reg field_small[of opc] by (intro yields_append[OF two_loads[OF s]]) (auto simp: yields_def computes_def OperationResult_def Let_def)
    then show ?thesis using 1 by (simp add: code)
  next
    case 2
    let ?is = "[ShrCL RESULT, AndRI RESULT k, ShlRI RESULT (op_bf_dst_bit opc)]"
    have "yields m cl params ((Compile_GetRegister (op_src_a opc) ECX @ Compile_GetRegister (op_src_b opc) RESULT) @ ?is) c v (jit_carry_flag c)"
      using r 2 k reg field_small[of opc] by (intro yields_append[OF two_loads[OF s]]) (auto simp: yields_def computes_def OperationResult_def Let_def split: if_splits)
    then show ?thesis using 2 by (simp add: code)
  next
    case 3
    let ?is = "[ShrRI RESULT (op_bf_src_bit opc), AndRI RESULT k, ShlCL RESULT]"
    have "yields m cl params ((Compile_GetRegister (op_src_a opc) ECX @ Compile_GetRegister (op_src_b opc) RESULT) @ ?is) c v (jit_carry_flag c)"
      using r 3 k reg field_small[of opc] by (intro yields_append[OF two_loads[OF s]]) (auto simp: yields_def computes_def OperationResult_def Let_def split: if_splits)
    then show ?thesis using 3 by (simp add: code)
  qed
qed

section \<open>One instruction\<close>

lemma OperationResult_carry:
  assumes "OperationResult m opc (s, g) = Done (v, s1)"
  shows "s1 = s\<lparr>carry_flag := carry_flag s1\<rparr>"
proof -
  have "s2 = s\<lparr>carry_flag := carry_flag s2\<rparr>" if "GetALUResult op a b s = (w, s2)" for op a b w s2
    using that by (cases op) (auto simp: GetALUResult_def Let_def)
  then show ?thesis using assms
    by (cases "op_operation opc") (auto simp: OperationResult_def bind_run_Done_iff Let_def split: if_splits)
qed

lemma jit_data_match_carry: "jit_data_match params (s\<lparr>carry_flag := f\<rparr>, g) c \<longleftrightarrow> jit_data_match params (s, g) c"
  by (simp add: jit_data_match_def Let_def)

lemma yields_exec:
  assumes "yields m cl params is c v k" "jit_data_match params (s, g) c"
  shows "\<exists>c1. exec m cl params is c = Done c1 \<and> cpu_reg c1 RESULT = v \<and> jit_data_match params (s, g) c1 \<and> jit_carry_flag c1 = k"
  using assms by (auto simp: yields_def jit_data_match_def Let_def)

text \<open>Storing and sending a result keeps the carry, interpreted and compiled.\<close>

fun carry_free :: "instr \<Rightarrow> bool" where
  "carry_free SetcCarry = False"
| "carry_free (JeOver cs) = list_all carry_free cs"
| "carry_free _ = True"

lemma exec1_carry: "exec1 m cl params i c = Done c' \<Longrightarrow> carry_free i \<Longrightarrow> jit_carry_flag c' = jit_carry_flag c"
  by (cases i) (auto simp: bind_run_Done_iff Let_def split: if_splits prod.splits)

lemma exec_carry: "exec m cl params is c = Done c' \<Longrightarrow> list_all carry_free is \<Longrightarrow> jit_carry_flag c' = jit_carry_flag c"
  by (induction m cl params "is" c arbitrary: c' rule: exec.induct)
    (auto simp: bind_run_Done_iff simp del: exec1.simps dest: exec1_carry split: if_splits)

lemma carry_free_ProcessResult: "list_all carry_free (Compile_ProcessResult rop i)"
  by (cases rop) (simp_all add: Compile_ProcessResult_def Compile_FetchParameter_def Compile_SetRegister_def
    Compile_SetMethodAddress_def Compile_Send_def)

lemma ProcessResult_carry:
  assumes "ProcessResult m rop i v (s, g) = Done (s', g')"
  shows "carry_flag s' = carry_flag s"
proof -
  have k: "carry_flag s1 = carry_flag s0" if "SetRegister i x s0 = Done s1" for x s0 s1
    using that by (auto simp: SetRegister_def split: if_splits)
  have f: "carry_flag s1 = carry_flag s0" if "FetchParameter s0 = Done (x, s1)" for x s0 s1
    using that by (auto simp: FetchParameter_def Let_def split: if_splits)
  have "carry_flag (fst (Send m x (s0, g))) = carry_flag s0" "carry_flag (SetMethodAddress x s0) = carry_flag s0" for x s0
    by (simp_all add: Send_def SetMethodAddress_def Let_def)
  then show ?thesis using assms
    by (cases rop) (auto simp: ProcessResult_def bind_run_Done_iff dest!: k f, (metis fst_conv)+)
qed

lemma Compile_Operation_yields:
  assumes s: "macro_wf s" "jit_registers c = registers s" "jit_engine c = g"
    and o: "op_operation opc \<noteq> OpBranch" "op_operation opc \<noteq> OpUnused" "jit_exact src nxt opc" "opc \<in> set code"
    and k: "can_skip_carry (Compile_optimizer code) \<or> carry_match src (carry_flag s) (jit_carry_flag c)"
    and r: "OperationResult m opc (s, g) = Done (v, s1)"
  shows "(op_operation opc = OpAddImmediate \<and> op_result_operation opc = Move \<and> op_dst opc = 0 \<and>
      Compile_Operation (Compile_optimizer code) dreg nxt opc = Done []) \<or>
    (\<exists>is k. Compile_Operation (Compile_optimizer code) dreg nxt opc =
        Done (is @ Compile_ProcessResult (op_result_operation opc) (op_dst opc)) \<and> yields m cl params is c v k \<and>
      (can_skip_carry (Compile_optimizer code) \<or> carry_match (carry_after src opc) (carry_flag s1) k))"
proof -
  let ?a = "registers s ! unat (op_src_a opc)" and ?opt = "Compile_optimizer code"
  have opt: "zero_reg_skip ?opt" "skip_dummy_addimmediate ?opt" "optimize_for_method_move ?opt"
    by (simp_all add: Compile_optimizer_def Optimizer_ScanFlags_def)
  have reg: "GetRegister (op_src_a opc) s = Done ?a" using GetRegister_wf[OF s(1)] by (simp add: op_src_a_def)
  have same: "carry_flag s1 = carry_flag s" "carry_after src opc = src" if "op_operation opc \<noteq> OpALU"
    using r that by (cases "op_operation opc"; auto simp: OperationResult_def carry_after_def bind_run_Done_iff Let_def split: if_splits)+
  have carry: "can_skip_carry ?opt \<or> carry_match (carry_after src opc) (carry_flag s1) (jit_carry_flag c)" if "op_operation opc \<noteq> OpALU"
    using k same[OF that] by simp
  consider "op_operation opc = OpALU" | "op_operation opc = OpAddImmediate" | "op_operation opc = OpRead"
    | "op_operation opc \<in> {OpExtractInsert, OpExtractShiftLeftImmediate, OpExtractShiftLeftRegister}"
    using o(1,2) by (cases "op_operation opc") auto
  then show ?thesis
  proof cases
    case 1
    have "\<not> can_skip_carry ?opt" if "op_alu_operation opc \<in> {AluAddWithCarry, AluSubtractWithBorrow}"
      using that 1 o(4) by (auto simp: Compile_optimizer_def Optimizer_ScanFlags_def list_ex_iff)
    from yields_ALU[OF s(1,2) 1 o(3) r k this, of cl params] Compile_ALU_code[OF o(3) 1 opt(1), of dreg] 1 show ?thesis
      by (auto simp: Compile_Operation_def)
  next
    case 2
    then have i: "op_immediate opc \<noteq> 2 \<or> op_src_a opc = 0" using o(3) by (simp add: jit_exact_def)
    have "v = ?a + op_immediate opc" using r 2 reg by (auto simp: OperationResult_def)
    then show ?thesis using 2 o(3) opt carry yields_plus[OF s(1,2) i opt(1), of m cl params]
      by (auto simp: Compile_Operation_def Compile_AddImmediate_def jit_exact_def split: option.splits)
  next
    case 3
    then have i: "op_immediate opc \<noteq> 2 \<or> op_src_a opc = 0" using o(3) by (simp add: jit_exact_def)
    have v: "Read m (?a + op_immediate opc) g = Done v" using r 3 reg by (auto simp: OperationResult_def bind_run_Done_iff)
    from yields_plus[OF s(1,2) i opt(1), of m cl params] v s(3)
    have "yields m cl params (Compile_RegisterPlusImmediate ?opt opc @ [LoadEngine RESULT RESULT]) c v (jit_carry_flag c)"
      by (auto simp: yields_def exec_append)
    then show ?thesis using 3 carry by (auto simp: Compile_Operation_def Compile_Read_def)
  next
    case 4
    then show ?thesis using carry yields_Extract[OF s(1,2) 4 r, of ?opt dreg nxt cl params] by auto
  qed
qed


definition jit_start :: "macro_state \<Rightarrow> (u32 \<times> u32) list cpu" where
  "jit_start s = \<lparr>cpu_reg = (\<lambda>r. if r = METHOD_ADDRESS then 0 else 9), CF = False, ZF = False, jit_registers = registers s,
     jit_carry_flag = False, jit_parameter = unat (next_parameter_index s), jit_engine = []\<rparr>"

definition no_clobber :: "'g \<Rightarrow> u32 \<times> u32 \<times> bool \<times> bool" where
  "no_clobber g = (0, 0, False, False)"

text \<open>The second register after one instruction, interpreted and compiled, with 5 in the first register.\<close>

definition interpreted_r2 :: "u32 \<Rightarrow> u32 run" where
  "interpreted_r2 opc = bind_run (StepOperation trace_engine opc (LoadParameters [5] MacroInterpreterImpl, [])) (\<lambda>(s, g). Done (registers s ! 2))"

definition compiled_r2 :: "u32 option \<Rightarrow> u32 \<Rightarrow> u32 run" where
  "compiled_r2 nxt opc = bind_run (Compile_Operation (Compile_optimizer [opc]) EAX nxt opc) (\<lambda>is.
     bind_run (exec trace_engine no_clobber [5] is (jit_start (LoadParameters [5] MacroInterpreterImpl))) (\<lambda>c. Done (jit_registers c ! 2)))"


text \<open>
  Where compiled and interpreted macros differ. With 5 in register 1 and a left-over 9 in the result register:
  adding the immediate 2 gives 7 interpreted and 5 compiled; adding register 1 to the zero register gives 5 interpreted
  and the left-over value compiled; masking register 1 with the zero register gives 0 interpreted and 5 compiled;
  an addition that also sets the method address is dropped when the next instruction moves to the same
  register and sets the method address too, even if that instruction reads the register;
  subtracting with borrow as a first instruction gives a borrow interpreted and none compiled; and an
  unknown arithmetic operation gives 0 interpreted and its first operand compiled.
\<close>

theorem macro_jit_divergences:
  "interpreted_r2 0x8a11 = Done 7 \<and> compiled_r2 None 0x8a11 = Done 5 \<and>
   interpreted_r2 0x4210 = Done 5 \<and> compiled_r2 None 0x4210 = Done 9 \<and>
   interpreted_r2 0x140a10 = Done 0 \<and> compiled_r2 None 0x140a10 = Done 5 \<and>
   interpreted_r2 0x4a21 = Done 6 \<and> compiled_r2 (Some 0x5221) 0x4a21 = Done 0 \<and>
   interpreted_r2 0x64a10 = Done 0xFFFFFFFF \<and> compiled_r2 None 0x64a10 = Done 0 \<and>
   interpreted_r2 0x84a10 = Done 0 \<and> compiled_r2 None 0x84a10 = Done 5"
  by code_simp

text \<open>
  The carry has the opposite polarity after a subtraction: an addition with carry that follows one adds
  the inverted flag. \<open>5 - 5\<close> and then \<open>5 + 5\<close> with carry gives 11 interpreted and 10 compiled.
\<close>

theorem macro_jit_carry_after_difference:
  "bind_run (StepOperation trace_engine 0x44a10 (LoadParameters [5] MacroInterpreterImpl, []))
     (\<lambda>sg. bind_run (StepOperation trace_engine 0x24a10 sg) (\<lambda>(s, g). Done (registers s ! 2))) = Done 11 \<and>
   bind_run (Compile_Operation (Compile_optimizer [0x44a10, 0x24a10]) EAX None 0x44a10) (\<lambda>is1.
     bind_run (Compile_Operation (Compile_optimizer [0x44a10, 0x24a10]) EAX None 0x24a10) (\<lambda>is2.
       bind_run (exec trace_engine no_clobber [5] (is1 @ is2) (jit_start (LoadParameters [5] MacroInterpreterImpl)))
         (\<lambda>c. Done (jit_registers c ! 2)))) = Done 10"
  by code_simp

end
