(* ===== verification/Macro_Engine.thy ===== *)
theory Macro_Engine
  imports Macro_Interpreter
begin

text \<open>
  The macro engine, \<^verbatim>\<open>src/src/video_core/macro/macro.cpp\<close>: the table of uploaded code, the cache of programs and
  the choice of what to run, with the interpreter as the program that is run (\<open>MacroInterpreter\<close>) and
  the hash of \<^verbatim>\<open>src/src/common/container_hash.h\<close>. The interpreter keeps a reference to the uploaded vector, so the
  code of a cached program is looked up when it runs. Arguments stand for what lies outside: the
  replacement programs of \<^verbatim>\<open>macro_hle.cpp\<close> by hash, the parameters after \<open>RefreshParameters\<close>, the settings, and the
  order in which a hash table is traversed. Writing the dump files is left out, but not the access that decides
  what is dumped.
\<close>

section \<open>Hashes\<close>

definition HashCombine :: "u64 \<Rightarrow> u64 \<Rightarrow> u64" where
  "HashCombine h k =
     (let m = push_bit 32 0xc6a4a793 + 0x5bd1e995;
          k = k * m;
          k = k XOR drop_bit 47 k;
          k = k * m;
          h = h XOR k;
          h = h * m
      in h + 0xe6546b64)"

definition HashValue :: "u32 list \<Rightarrow> u64" where
  "HashValue v = foldl (\<lambda>seed x. HashCombine seed (ucast x)) 0 v"

section \<open>State and operations\<close>

record cache_info =
  lle_program :: macro_state
  hash :: u64
  has_hle_program :: bool

record macro_engine =
  macro_cache :: "u32 \<rightharpoonup> cache_info"
  uploaded_macro_code :: "u32 \<rightharpoonup> u32 list"

record 'g engine_env =
  env_maxwell :: "'g maxwell3d"
  env_hle :: "u64 \<rightharpoonup> (u32 list \<Rightarrow> u32 \<Rightarrow> 'g \<Rightarrow> 'g)"
  env_refresh :: "'g \<Rightarrow> u32 list \<Rightarrow> u32 list"
  env_order :: "(u32 \<rightharpoonup> u32 list) \<Rightarrow> u32 list"
  disable_macro_hle :: bool
  dump_macros :: bool

definition AddCode :: "u32 \<Rightarrow> u32 \<Rightarrow> macro_engine \<Rightarrow> macro_engine" where
  "AddCode method data e =
     (let code = (case uploaded_macro_code e method of Some c \<Rightarrow> c | None \<Rightarrow> [])
      in e\<lparr>uploaded_macro_code := (uploaded_macro_code e)(method \<mapsto> code @ [data])\<rparr>)"

definition ClearCode :: "u32 \<Rightarrow> macro_engine \<Rightarrow> macro_engine" where
  "ClearCode method e =
     e\<lparr>macro_cache := (macro_cache e)(method := None),
       uploaded_macro_code := (uploaded_macro_code e)(method := None)\<rparr>"

text \<open>Running the program of a cache entry, which is updated in place.\<close>

definition RunLle ::
  "'g engine_env \<Rightarrow> nat \<Rightarrow> u32 \<Rightarrow> u32 list \<Rightarrow> macro_engine \<times> 'g \<Rightarrow> (macro_engine \<times> 'g) run" where
  "RunLle env n method params eg =
     (let (e, g) = eg in
      case (macro_cache e method, uploaded_macro_code e method) of
        (Some info, Some code) \<Rightarrow>
          bind_run (Interpreter_Execute (env_maxwell env) code n (env_refresh env g params) (lle_program info, g)) (\<lambda>(s, g).
            Done (e\<lparr>macro_cache := (macro_cache e)(method \<mapsto> info\<lparr>lle_program := s\<rparr>)\<rparr>, g))
      | _ \<Rightarrow> Undefined)"

text \<open>The uploaded code that a method points into the middle of: the first one the traversal meets.\<close>

definition FindMidMethod :: "'g engine_env \<Rightarrow> u32 \<Rightarrow> macro_engine \<Rightarrow> u32 option" where
  "FindMidMethod env method e =
     find (\<lambda>method_base. case uploaded_macro_code e method_base of
             None \<Rightarrow> False
           | Some code \<Rightarrow> method \<ge> method_base \<and> unat (method - method_base) < length code)
       (env_order env (uploaded_macro_code e))"

definition CompileMethod :: "u32 \<Rightarrow> u32 option \<Rightarrow> macro_engine \<Rightarrow> macro_engine run" where
  "CompileMethod method mid_method e =
     (let cache = (\<lambda>e code. e\<lparr>macro_cache := (macro_cache e)(method \<mapsto>
            \<lparr>lle_program = MacroInterpreterImpl, hash = HashValue code, has_hle_program = False\<rparr>)\<rparr>)
      in case mid_method of
           None \<Rightarrow> (case uploaded_macro_code e method of
                       Some code \<Rightarrow> Done (cache e code)
                     | None \<Rightarrow> Undefined)
         | Some base \<Rightarrow> (case uploaded_macro_code e base of
                       Some macro_cached \<Rightarrow>
                         let code = drop (unat (method - base)) macro_cached
                         in Done (cache (e\<lparr>uploaded_macro_code := (uploaded_macro_code e)(method \<mapsto> code)\<rparr>) code)
                     | None \<Rightarrow> Undefined))"

definition MacroEngine_Execute ::
  "'g engine_env \<Rightarrow> nat \<Rightarrow> u32 \<Rightarrow> u32 list \<Rightarrow> macro_engine \<times> 'g \<Rightarrow> (macro_engine \<times> 'g) run" where
  "MacroEngine_Execute env n method params eg =
     (let (e, g) = eg in
      case macro_cache e method of
        Some info \<Rightarrow>
          if has_hle_program info then
            (case env_hle env (hash info) of
               Some hle \<Rightarrow> Done (e, hle params method g)
             | None \<Rightarrow> Undefined)
          else RunLle env n method params (e, g)
      | None \<Rightarrow>
          let mid_method = (case uploaded_macro_code e method of
                              Some _ \<Rightarrow> None | None \<Rightarrow> FindMidMethod env method e)
          in if uploaded_macro_code e method = None \<and> mid_method = None then Done (e, g)
             else bind_run (CompileMethod method mid_method e) (\<lambda>e.
               case macro_cache e method of
                 None \<Rightarrow> Undefined
               | Some info \<Rightarrow>
                   bind_run
                     (case (env_hle env (hash info), disable_macro_hle env) of
                        (Some hle, False) \<Rightarrow>
                          Done (e\<lparr>macro_cache := (macro_cache e)(method \<mapsto> info\<lparr>has_hle_program := True\<rparr>)\<rparr>,
                                hle params method g)
                      | _ \<Rightarrow> RunLle env n method params (e, g)) (\<lambda>eg.
                     if dump_macros env \<and> mid_method \<noteq> None then Undefined else Done eg)))"

section \<open>What a method runs\<close>

text \<open>A cached program has its code in the table and a consistent array of parameters.\<close>

definition engine_ok :: "'g engine_env \<Rightarrow> macro_engine \<Rightarrow> bool" where
  "engine_ok env e \<longleftrightarrow> (\<forall>method info. macro_cache e method = Some info \<longrightarrow>
     uploaded_macro_code e method \<noteq> None \<and>
     length (parameters (lle_program info)) = parameters_capacity (lle_program info) \<and>
     (has_hle_program info \<longrightarrow> env_hle env (hash info) \<noteq> None))"

lemma engine_okD:
  "engine_ok env e \<Longrightarrow> macro_cache e method = Some info \<Longrightarrow> \<exists>code. uploaded_macro_code e method = Some code"
  "engine_ok env e \<Longrightarrow> macro_cache e method = Some info \<Longrightarrow>
     length (parameters (lle_program info)) = parameters_capacity (lle_program info)"
  by (auto simp: engine_ok_def)

lemma engine_ok_AddCode: "engine_ok env e \<Longrightarrow> engine_ok env (AddCode method data e)"
  by (auto simp: engine_ok_def AddCode_def Let_def)

lemma engine_ok_ClearCode: "engine_ok env e \<Longrightarrow> engine_ok env (ClearCode method e)"
  by (auto simp: engine_ok_def ClearCode_def)

lemma CompileMethod_ok:
  assumes "engine_ok env e" "CompileMethod method mid e = Done e'" "macro_cache e method = None"
  shows "engine_ok env e'" "\<exists>code. uploaded_macro_code e' method = Some code \<and>
    macro_cache e' method = Some \<lparr>lle_program = MacroInterpreterImpl, hash = HashValue code, has_hle_program = False\<rparr>"
  using assms by (auto simp: CompileMethod_def engine_ok_def MacroInterpreterImpl_def Let_def split: option.splits if_splits)

text \<open>Execution keeps the consistent array, whatever the code does.\<close>

lemma Step_buffer:
  "Step m code n d (s, g) = Done (k, s', g') \<Longrightarrow> parameters s' = parameters s \<and> parameters_capacity s' = parameters_capacity s"
proof (induction n arbitrary: d s g k s' g')
  case (Suc n)
  from Suc.prems obtain opc where o: "GetOpcode code s = Done opc" by (auto simp: Step.simps(2) bind_run_Done_iff)
  have adv: "parameters (AdvancePc s) = parameters s" "parameters_capacity (AdvancePc s) = parameters_capacity s"
    by (simp_all add: AdvancePc_def split: option.splits)
  show ?case
  proof (cases "op_operation opc = OpBranch")
    case True
    with Suc.prems o adv show ?thesis
      by (fastforce simp: Step.simps(2) Let_def bind_run_Done_iff split: if_splits dest!: Suc.IH)
  next
    case False
    with Suc.prems o obtain s1 g1 where 1: "StepOperation m opc (AdvancePc s, g) = Done (s1, g1)"
      by (auto simp: Step.simps(2) Let_def bind_run_Done_iff)
    have "parameters s1 = parameters s" "parameters_capacity s1 = parameters_capacity s"
      using StepOperation_control[OF 1] adv by (simp_all add: same_control_def)
    with Suc.prems o False 1 show ?thesis
      by (fastforce simp: Step.simps(2) Let_def bind_run_Done_iff split: if_splits dest!: Suc.IH)
  qed
qed simp

lemma Execute_loop_buffer:
  "Interpreter_loop m code n (s, g) = Done (s', g') \<Longrightarrow> parameters s' = parameters s \<and> parameters_capacity s' = parameters_capacity s"
proof (induction n arbitrary: s g)
  case (Suc n)
  then show ?case by (auto simp: bind_run_Done_iff split: if_splits dest!: Step_buffer)
qed simp

lemma Execute_buffer:
  assumes "Interpreter_Execute m code n params (s, g) = Done (s', g')" "length (parameters s) = parameters_capacity s"
  shows "length (parameters s') = parameters_capacity s'"
proof -
  have p: "params \<noteq> []" using assms(1) by (auto simp: Interpreter_Execute_def)
  have "length (parameters (LoadParameters params s)) = parameters_capacity (LoadParameters params s)"
    using LoadParameters_wf(1)[OF assms(2) p] by (simp add: macro_wf_def)
  then show ?thesis using Execute_loop_buffer[of m code n "LoadParameters params s" g s' g'] assms(1) p by (simp add: Interpreter_Execute_def)
qed

lemma RunLle_ok:
  assumes "engine_ok env e" "RunLle env n method params (e, g) = Done (e', g')"
  shows "engine_ok env e' \<and> uploaded_macro_code e' = uploaded_macro_code e"
proof -
  from assms(2) obtain info code s where 1: "macro_cache e method = Some info" "uploaded_macro_code e method = Some code"
      "Interpreter_Execute (env_maxwell env) code n (env_refresh env g params) (lle_program info, g) = Done (s, g')"
      "e' = e\<lparr>macro_cache := (macro_cache e)(method \<mapsto> info\<lparr>lle_program := s\<rparr>)\<rparr>"
    by (auto simp: RunLle_def bind_run_Done_iff split: option.splits)
  show ?thesis using assms(1) 1(1,2,4) Execute_buffer[OF 1(3) engine_okD(2)[OF assms(1) 1(1)]] by (auto simp: engine_ok_def)
qed

lemma MacroEngine_Execute_ok:
  assumes e: "engine_ok env e" and r: "MacroEngine_Execute env n method params (e, g) = Done (e', g')"
  shows "engine_ok env e'"
proof (cases "macro_cache e method")
  case (Some info)
  with r e show ?thesis by (auto simp: MacroEngine_Execute_def split: if_splits option.splits dest: RunLle_ok)
next
  case None
  let ?mid = "case uploaded_macro_code e method of Some _ \<Rightarrow> None | None \<Rightarrow> FindMidMethod env method e"
  show ?thesis
  proof (cases "uploaded_macro_code e method = None \<and> ?mid = None")
    case True
    with None r e show ?thesis by (auto simp: MacroEngine_Execute_def)
  next
    case False
    from None r obtain e1 where c: "CompileMethod method ?mid e = Done e1"
      unfolding MacroEngine_Execute_def prod.case option.case Let_def if_not_P[OF False] by (auto simp: bind_run_Done_iff)
    note ok = CompileMethod_ok[OF e c None]
    from ok(2) obtain code where code: "macro_cache e1 method = Some \<lparr>lle_program = MacroInterpreterImpl, hash = HashValue code, has_hle_program = False\<rparr>" by blast
    have hle: "engine_ok env (e1\<lparr>macro_cache := (macro_cache e1)(method \<mapsto> \<lparr>lle_program = MacroInterpreterImpl, hash = HashValue code, has_hle_program = True\<rparr>)\<rparr>)"
      if "env_hle env (HashValue code) = Some hle" for hle
      using ok that by (auto simp: engine_ok_def MacroInterpreterImpl_def)
    have "(env_hle env (HashValue code) \<noteq> None \<and>
        e' = e1\<lparr>macro_cache := (macro_cache e1)(method \<mapsto> \<lparr>lle_program = MacroInterpreterImpl, hash = HashValue code, has_hle_program = True\<rparr>)\<rparr>) \<or>
      RunLle env n method params (e1, g) = Done (e', g')"
      using r None c code unfolding MacroEngine_Execute_def prod.case option.case Let_def if_not_P[OF False]
      by (auto split: option.splits bool.splits if_splits simp: bind_run_Done_iff)
    then show ?thesis using hle RunLle_ok[OF ok(1)] by blast
  qed
qed

inductive engine_reachable :: "'g engine_env \<Rightarrow> macro_engine \<Rightarrow> bool" for env where
  new: "engine_reachable env \<lparr>macro_cache = Map.empty, uploaded_macro_code = Map.empty\<rparr>"
| add: "engine_reachable env e \<Longrightarrow> engine_reachable env (AddCode method data e)"
| clear: "engine_reachable env e \<Longrightarrow> engine_reachable env (ClearCode method e)"
| execute: "engine_reachable env e \<Longrightarrow> MacroEngine_Execute env n method params (e, g) = Done (e', g') \<Longrightarrow> engine_reachable env e'"

lemma engine_reachable_ok: "engine_reachable env e \<Longrightarrow> engine_ok env e"
proof (induction rule: engine_reachable.induct)
  case new
  show ?case by (simp add: engine_ok_def)
qed (auto intro: engine_ok_AddCode engine_ok_ClearCode MacroEngine_Execute_ok)

text \<open>No replacement program takes over: none is cached, and none is found for code that is not cached.\<close>

definition interpreted :: "'g engine_env \<Rightarrow> macro_engine \<Rightarrow> u32 \<Rightarrow> u32 list \<Rightarrow> bool" where
  "interpreted env e method code \<longleftrightarrow>
     (case macro_cache e method of
        Some info \<Rightarrow> \<not> has_hle_program info
      | None \<Rightarrow> env_hle env (HashValue code) = None \<or> disable_macro_hle env)"

lemma RunLle_uploaded:
  assumes "macro_cache e method = Some info" "uploaded_macro_code e method = Some code"
    "length (parameters (lle_program info)) = parameters_capacity (lle_program info)"
    "Interpreter_Execute (env_maxwell env) code n (env_refresh env g params) (MacroInterpreterImpl, g) = Done (s1, g1)"
  shows "\<exists>e'. RunLle env n method params (e, g) = Done (e', g1) \<and> uploaded_macro_code e' = uploaded_macro_code e"
  using Execute_any_history[OF assms(3,4)] assms(1,2) by (simp add: RunLle_def)

text \<open>
  Claim C13. A method runs the code that was uploaded for it. In every state the macro engine can reach by uploading and
  clearing code and executing methods, a cached program has its code in the upload table. Executing a method with
  uploaded code and no replacement program does to the 3D engine exactly what a new interpreter does with
  the code that the table holds now: whether the program was cached, how often it ran before and
  with which parameters makes no difference. The upload table is unchanged.
\<close>

theorem macro_engine_runs_uploaded_code:
  assumes "engine_reachable env e" "uploaded_macro_code e method = Some code" "interpreted env e method code"
    and "Interpreter_Execute (env_maxwell env) code n (env_refresh env g params) (MacroInterpreterImpl, g) = Done (s1, g1)"
  shows "\<exists>e'. MacroEngine_Execute env n method params (e, g) = Done (e', g1) \<and> uploaded_macro_code e' = uploaded_macro_code e \<and>
    engine_reachable env e' \<and> dom (macro_cache e') \<subseteq> dom (uploaded_macro_code e')"
proof -
  have ok: "engine_ok env e" by (rule engine_reachable_ok[OF assms(1)])
  have "\<exists>e'. MacroEngine_Execute env n method params (e, g) = Done (e', g1) \<and> uploaded_macro_code e' = uploaded_macro_code e"
  proof (cases "macro_cache e method")
    case (Some info)
    with assms(3) RunLle_uploaded[OF Some assms(2) engine_okD(2)[OF ok Some] assms(4)] show ?thesis
      by (simp add: MacroEngine_Execute_def interpreted_def)
  next
    case None
    let ?info = "\<lparr>lle_program = MacroInterpreterImpl, hash = HashValue code, has_hle_program = False\<rparr>"
    let ?e = "e\<lparr>macro_cache := (macro_cache e)(method \<mapsto> ?info)\<rparr>"
    have "\<exists>e'. RunLle env n method params (?e, g) = Done (e', g1) \<and> uploaded_macro_code e' = uploaded_macro_code e"
      using RunLle_uploaded[of ?e "method" ?info code env n g params s1 g1] assms(2,4) by (simp add: MacroInterpreterImpl_def)
    then show ?thesis using None assms(2,3)
      by (auto simp: MacroEngine_Execute_def CompileMethod_def interpreted_def split: option.splits bool.splits)
  qed
  then obtain e' where e': "MacroEngine_Execute env n method params (e, g) = Done (e', g1)" "uploaded_macro_code e' = uploaded_macro_code e" by blast
  have "engine_reachable env e'" by (rule engine_reachable.execute[OF assms(1) e'(1)])
  then show ?thesis using e' engine_okD(1)[OF engine_reachable_ok] by fastforce
qed


definition test_env :: "(u32 \<times> u32) list engine_env" where
  "test_env = \<lparr>env_maxwell = trace_engine, env_hle = Map.empty, env_refresh = (\<lambda>g ps. ps), env_order = (\<lambda>_. [0]),
     disable_macro_hle = False, dump_macros = False\<rparr>"

definition upload :: "u32 \<Rightarrow> u32 list \<Rightarrow> macro_engine \<Rightarrow> macro_engine" where
  "upload method ws e = fold (AddCode method) ws e"

definition new_engine :: macro_engine where
  "new_engine = \<lparr>macro_cache = Map.empty, uploaded_macro_code = Map.empty\<rparr>"

lemma upload_reachable: "engine_reachable env e \<Longrightarrow> engine_reachable env (upload method ws e)"
  unfolding upload_def by (induction ws arbitrary: e) (auto intro: engine_reachable.add)

theorem macro_engine_runs_uploaded_code_witness:
  "\<exists>e'. MacroEngine_Execute test_env 5 7 [7] (upload 7 slot_program new_engine, []) = Done (e', [(0, 6)])"
proof -
  let ?e = "upload 7 slot_program new_engine"
  have r: "engine_reachable test_env ?e" unfolding new_engine_def by (intro upload_reachable engine_reachable.new)
  have u: "uploaded_macro_code ?e 7 = Some slot_program" "interpreted test_env ?e 7 slot_program"
    by (simp_all add: upload_def slot_program_def AddCode_def new_engine_def interpreted_def test_env_def)
  have "bind_run (Interpreter_Execute trace_engine slot_program 5 [7] (MacroInterpreterImpl, [])) (\<lambda>(s, g). Done g) = Done [(0, 6)]" by code_simp
  then obtain s1 where "Interpreter_Execute (env_maxwell test_env) slot_program 5 (env_refresh test_env [] [7]) (MacroInterpreterImpl, []) = Done (s1, [(0, 6)])"
    by (auto simp: bind_run_Done_iff test_env_def)
  from macro_engine_runs_uploaded_code[OF r u this] show ?thesis by blast
qed

text \<open>
  Code that a method points into is copied for that method, and clearing the method it came from leaves the copy: after the
  code at method 0 is cleared and uploaded anew, executing method 1 still runs the old code (it sends 8, a new engine
  sends 9).
\<close>

definition run_methods :: "(macro_engine \<Rightarrow> macro_engine) \<Rightarrow> (u32 \<times> u32) list run" where
  "run_methods reload =
     bind_run (MacroEngine_Execute test_env 3 1 [5] (upload 0 [0x11, 0xcac1, 0x11] new_engine, [])) (\<lambda>(e, _).
       bind_run (MacroEngine_Execute test_env 3 1 [5] (reload e, [])) (\<lambda>(_, g). Done g))"

lemma macro_engine_stale_copy:
  "run_methods (\<lambda>e. upload 0 [0x11, 0x10ac1, 0x11] (ClearCode 0 e)) = Done [(0, 8)] \<and>
   run_methods (\<lambda>e. upload 0 [0x11, 0x10ac1, 0x11] new_engine) = Done [(0, 9)]"
  by code_simp

end
