(* ===== verification/Maxwell_Frontend.thy ===== *)
theory Maxwell_Frontend
  imports Emu_Prelude
begin

text \<open>
  The register front end of the 3D engine, \<^verbatim>\<open>src/src/video_core/engines/maxwell_3d.cpp\<close>, and the deferred register
  writes of \<^verbatim>\<open>engine_interface.h\<close>. A register write that triggers nothing is collected in the
  sink and applied later; \<open>IsMethodExecutable\<close> decides which methods may not be collected. The
  registers and the shadow registers are maps from the method number, with the field
  \<open>shadow_ram_control\<close> at its place in the shadow registers; the handlers behind the switches of
  \<open>ProcessMethodCall\<close> and of \<^verbatim>\<open>draw_manager.cpp\<close>, the macro engine and the deferred draw are arguments that may change
  everything but the sink, which only the pusher fills. Method numbers are offsets of register fields, as the assertions at the end of \<^verbatim>\<open>maxwell_3d.h\<close> state them.
\<close>

section \<open>Methods\<close>

definition MacroRegistersStart :: u32 where
  "MacroRegistersStart = 0xE00"

definition shadow_ram_control :: u32 where
  "shadow_ram_control = 0x49"

text \<open>The data words of \<open>const_buffer.buffer\<close> and the fields \<open>raw_config\<close> of \<open>bind_groups\<close>.\<close>

definition const_buffer_methods :: "u32 list" where
  "const_buffer_methods =
     [0x8E4, 0x8E5, 0x8E6, 0x8E7, 0x8E8, 0x8E9, 0x8EA, 0x8EB, 0x8EC, 0x8ED, 0x8EE, 0x8EF, 0x8F0, 0x8F1, 0x8F2, 0x8F3]"

definition bind_group_methods :: "u32 list" where
  "bind_group_methods = [0x904, 0x90C, 0x914, 0x91C, 0x924]"

text \<open>
  The methods of \<open>IsMethodExecutable\<close>, in its order: the draw methods up to \<open>draw_texture.src_y0\<close>, then
  \<open>wait_for_idle\<close>, \<open>shadow_ram_control\<close>, the three of \<open>load_mme\<close>, \<open>falcon[4]\<close>, constant buffers, \<open>topology_override\<close>,
  \<open>clear_surface\<close>, queries, synchronisation, uploads and barriers.
\<close>

definition executable_methods :: "u32 list" where
  "executable_methods =
     [0x585, 0x586, 0x35D, 0x35E, 0x5F7, 0x5F8, 0x57A, 0x5FC, 0x5FD, 0x5FE, 0x5F9, 0x5FA, 0x5FB, 0x57C, 0x4C1, 0x485,
      0x486, 0x42B, 0x44, shadow_ram_control, 0x45, 0x46, 0x48, 0x8C4] @ const_buffer_methods @ bind_group_methods @
     [0x65C, 0x674, 0x6C3, 0x556, 0x54C, 0xB2, 0x6C, 0x6D, 0x378, 0x3DD, 0x3DF]"

definition IsMethodExecutable :: "u32 \<Rightarrow> bool" where
  "IsMethodExecutable method \<longleftrightarrow> method \<ge> MacroRegistersStart \<or> method \<in> set executable_methods"

text \<open>The labels of the switch of \<open>Maxwell3D::ProcessMethodCall\<close> other than \<open>shadow_ram_control\<close>.\<close>

definition process_methods :: "u32 list" where
  "process_methods =
     [0x44, 0x45, 0x46, 0x48, 0x8C4] @ const_buffer_methods @ bind_group_methods @
     [0x6C3, 0x556, 0x54C, 0xB2, 0x6C, 0x6D, 0x378, 0x3DD, 0x3DF]"

text \<open>The labels of the switch of \<open>DrawManager::ProcessMethodCall\<close>.\<close>

definition draw_methods :: "u32 list" where
  "draw_methods =
     [0x674, 0x586, 0x585, 0x35D, 0x35E, 0x5F7, 0x5F8, 0x5FC, 0x5FD, 0x5FE, 0x5F9, 0x5FA, 0x5FB, 0x57A, 0x57C, 0x4C1,
      0x485, 0x486, 0x42B]"

section \<open>State\<close>

datatype shadow_control = Track | TrackWithFilter | Passthrough | Replay | Shadow_other

definition ShadowRamControl :: "u32 \<Rightarrow> shadow_control" where
  "ShadowRamControl v =
     (if v = 0 then Track else if v = 1 then TrackWithFilter else if v = 2 then Passthrough
      else if v = 3 then Replay else Shadow_other)"

record 'x maxwell =
  reg_array :: "u32 \<Rightarrow> u32"
  shadow_reg_array :: "u32 \<Rightarrow> u32"
  dirty_tables :: "(u32 \<Rightarrow> u8) list"
  dirty_flags :: "u8 \<Rightarrow> bool"
  current_dma_segment :: u64
  current_dirty :: bool
  executing_macro :: u32
  macro_params :: "u32 list"
  macro_addresses :: "u64 list"
  macro_segments :: "(u64 \<times> nat) list"
  current_macro_dirty :: bool
  macro_positions :: "u32 list"
  others :: 'x

record 'x engine =
  method_sink :: "(u32 \<times> u32) list"
  maxwell :: "'x maxwell"

record 'x handlers =
  handle_method :: "u32 \<Rightarrow> u32 \<Rightarrow> bool \<Rightarrow> 'x maxwell \<Rightarrow> 'x maxwell"
  handle_draw :: "u32 \<Rightarrow> u32 \<Rightarrow> 'x maxwell \<Rightarrow> 'x maxwell"
  macro_execute :: "u32 \<Rightarrow> u32 list \<Rightarrow> 'x maxwell \<Rightarrow> 'x maxwell"
  draw_deferred :: "'x maxwell \<Rightarrow> 'x maxwell"

section \<open>Operations\<close>

definition ProcessShadowRam :: "u32 \<Rightarrow> u32 \<Rightarrow> 'x maxwell \<Rightarrow> u32 \<times> 'x maxwell" where
  "ProcessShadowRam method argument s =
     (let control = ShadowRamControl (shadow_reg_array s shadow_ram_control) in
      if control = Track \<or> control = TrackWithFilter
      then (argument, s\<lparr>shadow_reg_array := (shadow_reg_array s)(method := argument)\<rparr>)
      else if control = Replay then (shadow_reg_array s method, s)
      else (argument, s))"

definition ProcessDirtyRegisters :: "u32 \<Rightarrow> u32 \<Rightarrow> 'x maxwell \<Rightarrow> 'x maxwell" where
  "ProcessDirtyRegisters method argument s =
     (if reg_array s method = argument then s
      else s\<lparr>reg_array := (reg_array s)(method := argument),
             dirty_flags := fold (\<lambda>table flags. flags(table method := True)) (dirty_tables s) (dirty_flags s)\<rparr>)"

definition ConsumeSinkImpl :: "'x engine \<Rightarrow> 'x engine" where
  "ConsumeSinkImpl e =
     (let control = ShadowRamControl (shadow_reg_array (maxwell e) shadow_ram_control);
          sink = method_sink e;
          s = (if control = Track \<or> control = TrackWithFilter then
                 fold (\<lambda>(method, value) s.
                   ProcessDirtyRegisters method value
                     (s\<lparr>shadow_reg_array := (shadow_reg_array s)(method := value)\<rparr>)) sink (maxwell e)
               else if control = Replay then
                 fold (\<lambda>(method, value) s. ProcessDirtyRegisters method (shadow_reg_array s method) s) sink (maxwell e)
               else fold (\<lambda>(method, value) s. ProcessDirtyRegisters method value s) sink (maxwell e))
      in e\<lparr>maxwell := s, method_sink := []\<rparr>)"

definition ConsumeSink :: "'x engine \<Rightarrow> 'x engine" where
  "ConsumeSink e = (if method_sink e = [] then e else ConsumeSinkImpl e)"

definition DrawManager_ProcessMethodCall :: "'x handlers \<Rightarrow> u32 \<Rightarrow> u32 \<Rightarrow> 'x maxwell \<Rightarrow> 'x maxwell" where
  "DrawManager_ProcessMethodCall h method argument s =
     (if method \<in> set draw_methods then handle_draw h method argument s else s)"

definition ProcessMethodCall :: "'x handlers \<Rightarrow> u32 \<Rightarrow> u32 \<Rightarrow> u32 \<Rightarrow> bool \<Rightarrow> 'x maxwell \<Rightarrow> 'x maxwell" where
  "ProcessMethodCall h method argument nonshadow_argument is_last_call s =
     (if method = shadow_ram_control
      then s\<lparr>shadow_reg_array := (shadow_reg_array s)(shadow_ram_control := nonshadow_argument)\<rparr>
      else if method \<in> set process_methods then handle_method h method argument is_last_call s
      else DrawManager_ProcessMethodCall h method argument s)"

definition CallMacroMethod :: "'x handlers \<Rightarrow> u32 \<Rightarrow> u32 list \<Rightarrow> 'x maxwell \<Rightarrow> 'x maxwell" where
  "CallMacroMethod h method params s =
     (let s = s\<lparr>executing_macro := 0\<rparr>;
          entry = unat (drop_bit 1 (method - MacroRegistersStart)) mod length (macro_positions s)
      in draw_deferred h (macro_execute h (macro_positions s ! entry) params s))"

definition ProcessMacro :: "'x handlers \<Rightarrow> u32 \<Rightarrow> u32 list \<Rightarrow> bool \<Rightarrow> 'x engine \<Rightarrow> 'x engine" where
  "ProcessMacro h method args is_last_call e =
     (let s = maxwell e;
          s = (if executing_macro s = 0 then s\<lparr>executing_macro := method\<rparr> else s);
          s = s\<lparr>macro_params := macro_params s @ args,
                macro_addresses := macro_addresses s @
                  map (\<lambda>i. current_dma_segment s + of_nat i * 4) [0..<length args],
                macro_segments := macro_segments s @ [(current_dma_segment s, length args)],
                current_macro_dirty := current_macro_dirty s \<or> current_dirty s,
                current_dirty := False\<rparr>;
          e = e\<lparr>maxwell := s\<rparr>
      in if is_last_call then
           let e = ConsumeSink e;
               s = CallMacroMethod h (executing_macro (maxwell e)) (macro_params (maxwell e)) (maxwell e)
           in e\<lparr>maxwell := s\<lparr>macro_params := [], macro_addresses := [], macro_segments := [],
                             current_macro_dirty := False\<rparr>\<rparr>
         else e)"

definition Maxwell3D_CallMethod :: "'x handlers \<Rightarrow> u32 \<Rightarrow> u32 \<Rightarrow> bool \<Rightarrow> 'x engine \<Rightarrow> 'x engine" where
  "Maxwell3D_CallMethod h method method_argument is_last_call e =
     (if method \<ge> MacroRegistersStart then ProcessMacro h method [method_argument] is_last_call e
      else
        let (argument, s) = ProcessShadowRam method method_argument (maxwell e);
            s = ProcessDirtyRegisters method argument s
        in e\<lparr>maxwell := ProcessMethodCall h method argument method_argument is_last_call s\<rparr>)"

text \<open>The end of \<open>DmaPusher::CallMethod\<close>: collect the write, or apply the collected ones and call the engine.\<close>

definition PushSink :: "u32 \<Rightarrow> u32 \<Rightarrow> 'x engine \<Rightarrow> 'x engine" where
  "PushSink method argument e = e\<lparr>method_sink := method_sink e @ [(method, argument)]\<rparr>"

definition SetSegment :: "u64 \<Rightarrow> 'x engine \<Rightarrow> 'x engine" where
  "SetSegment segment e = e\<lparr>maxwell := (maxwell e)\<lparr>current_dma_segment := segment\<rparr>\<rparr>"

definition Sink_CallMethod :: "'x handlers \<Rightarrow> u64 \<Rightarrow> u32 \<Rightarrow> u32 \<Rightarrow> bool \<Rightarrow> 'x engine \<Rightarrow> 'x engine" where
  "Sink_CallMethod h segment method argument is_last_call e =
     (if \<not> IsMethodExecutable method then PushSink method argument e
      else Maxwell3D_CallMethod h method argument is_last_call (SetSegment segment (ConsumeSink e)))"

text \<open>
  \<open>Maxwell3D::CallMultiMethod\<close> for \<open>amount\<close> arguments of one method: a macro takes them all at once, constant buffer data
  and inline data have their own handlers, and any other method is called once for each.
\<close>

definition Maxwell3D_CallMultiMethod ::
  "'x handlers \<Rightarrow> (u32 \<Rightarrow> u32 list \<Rightarrow> 'x maxwell \<Rightarrow> 'x maxwell) \<Rightarrow> u32 \<Rightarrow> u32 list \<Rightarrow> nat \<Rightarrow> 'x engine \<Rightarrow> 'x engine" where
  "Maxwell3D_CallMultiMethod h handle_multi method args methods_pending e =
     (if method \<ge> MacroRegistersStart then ProcessMacro h method args (length args = methods_pending) e
      else if method \<in> set const_buffer_methods \<or> method = 0x6D
      then e\<lparr>maxwell := handle_multi method args (maxwell e)\<rparr>
      else fold (\<lambda>i e. Maxwell3D_CallMethod h method (args ! i) (methods_pending - i \<le> 1) e) [0..<length args] e)"

section \<open>Engines with deferred writes\<close>

text \<open>
  What the pusher relies on: collecting a write that is not executable and applying the collected writes later
  is the same as applying them and calling the method at once, and a call leaves nothing to apply.
\<close>

locale deferred_engine =
  fixes executable :: "u32 \<Rightarrow> bool"
    and push :: "u32 \<Rightarrow> u32 \<Rightarrow> 'e \<Rightarrow> 'e"
    and consume :: "'e \<Rightarrow> 'e"
    and call :: "u64 \<Rightarrow> u32 \<Rightarrow> u32 \<Rightarrow> bool \<Rightarrow> 'e \<Rightarrow> 'e"
    and ok :: "'e \<Rightarrow> bool"
  assumes push_ok: "ok e \<Longrightarrow> \<not> executable m \<Longrightarrow> ok (push m a e)"
    and call_ok: "ok e \<Longrightarrow> executable m \<Longrightarrow> ok (call seg m a l (consume e))"
    and consume_push: "ok e \<Longrightarrow> \<not> executable m \<Longrightarrow> consume (push m a e) = call seg m a l (consume e)"
    and consume_call: "ok e \<Longrightarrow> executable m \<Longrightarrow> consume (call seg m a l (consume e)) = call seg m a l (consume e)"
begin

lemma deferred_call:
  assumes "ok e"
  shows "ok (if \<not> executable m then push m a e else call seg m a l (consume e))"
    "consume (if \<not> executable m then push m a e else call seg m a l (consume e)) = call seg m a l (consume e)"
  using assms push_ok call_ok consume_push consume_call by auto

lemma deferred_calls:
  assumes "ok e"
  shows "consume (fold (\<lambda>(seg, m, a, l) e. if \<not> executable m then push m a e else call seg m a l (consume e)) cs e) =
    fold (\<lambda>(seg, m, a, l) e. call seg m a l e) cs (consume e)"
  using assms
proof (induction cs arbitrary: e)
  case (Cons c cs)
  obtain seg m a l where c: "c = (seg, m, a, l)" by (metis prod_cases4)
  from deferred_call[OF Cons.prems, of m a seg l] show ?case using Cons.IH by (simp add: c)
qed simp

end

section \<open>The 3D engine defers its plain writes\<close>

text \<open>One register write with the shadow registers, without what a method may trigger.\<close>

definition plain_write :: "u32 \<times> u32 \<Rightarrow> 'x maxwell \<Rightarrow> 'x maxwell" where
  "plain_write w s = (let (argument, s) = ProcessShadowRam (fst w) (snd w) s in ProcessDirtyRegisters (fst w) argument s)"

lemma handled_methods_executable:
  "set process_methods \<subseteq> set executable_methods" "set draw_methods \<subseteq> set executable_methods" "shadow_ram_control \<in> set executable_methods"
  by (auto simp: process_methods_def draw_methods_def executable_methods_def)

lemma CallMethod_plain:
  assumes "\<not> IsMethodExecutable m"
  shows "Maxwell3D_CallMethod h m a l e = e\<lparr>maxwell := plain_write (m, a) (maxwell e)\<rparr>"
proof -
  have "m \<notin> set process_methods" "m \<notin> set draw_methods" "m \<noteq> shadow_ram_control" "\<not> m \<ge> MacroRegistersStart"
    using assms handled_methods_executable by (auto simp: IsMethodExecutable_def)
  then show ?thesis
    by (simp add: Maxwell3D_CallMethod_def ProcessMethodCall_def DrawManager_ProcessMethodCall_def plain_write_def
        split: prod.splits)
qed

lemma ProcessDirty_shadow [simp]: "shadow_reg_array (ProcessDirtyRegisters m a s) = shadow_reg_array s"
  by (simp add: ProcessDirtyRegisters_def)

lemma plain_write_control: "fst w \<noteq> shadow_ram_control \<Longrightarrow>
    shadow_reg_array (plain_write w s) shadow_ram_control = shadow_reg_array s shadow_ram_control"
  by (auto simp: plain_write_def ProcessShadowRam_def Let_def)

text \<open>The control register is read once for the whole sink, and no collected write changes it.\<close>

lemma fold_plain_write:
  assumes "\<forall>w \<in> set ws. fst w \<noteq> shadow_ram_control" "control = ShadowRamControl (shadow_reg_array s shadow_ram_control)"
  shows "fold plain_write ws s =
    (if control = Track \<or> control = TrackWithFilter then
       fold (\<lambda>(m, v) s. ProcessDirtyRegisters m v (s\<lparr>shadow_reg_array := (shadow_reg_array s)(m := v)\<rparr>)) ws s
     else if control = Replay then fold (\<lambda>(m, v) s. ProcessDirtyRegisters m (shadow_reg_array s m) s) ws s
     else fold (\<lambda>(m, v) s. ProcessDirtyRegisters m v s) ws s)"
  using assms
proof (induction ws arbitrary: s)
  case (Cons w ws)
  have "ShadowRamControl (shadow_reg_array (plain_write w s) shadow_ram_control) = control"
    using plain_write_control[of w s] Cons.prems by simp
  then have IH: "fold plain_write ws (plain_write w s) =
    (if control = Track \<or> control = TrackWithFilter then
       fold (\<lambda>(m, v) s. ProcessDirtyRegisters m v (s\<lparr>shadow_reg_array := (shadow_reg_array s)(m := v)\<rparr>)) ws (plain_write w s)
     else if control = Replay then fold (\<lambda>(m, v) s. ProcessDirtyRegisters m (shadow_reg_array s m) s) ws (plain_write w s)
     else fold (\<lambda>(m, v) s. ProcessDirtyRegisters m v s) ws (plain_write w s))"
    using Cons.IH[of "plain_write w s"] Cons.prems(1) by simp
  have "plain_write w s = (case w of (m, v) \<Rightarrow>
     if control = Track \<or> control = TrackWithFilter then ProcessDirtyRegisters m v (s\<lparr>shadow_reg_array := (shadow_reg_array s)(m := v)\<rparr>)
     else if control = Replay then ProcessDirtyRegisters m (shadow_reg_array s m) s else ProcessDirtyRegisters m v s)"
    using Cons.prems(2) by (cases w) (simp add: plain_write_def ProcessShadowRam_def Let_def)
  then show ?case using IH by (cases w) simp
qed simp

definition sink_ok :: "'x engine \<Rightarrow> bool" where
  "sink_ok e \<longleftrightarrow> (\<forall>w \<in> set (method_sink e). \<not> IsMethodExecutable (fst w))"

lemma ConsumeSink_writes:
  assumes "sink_ok e"
  shows "ConsumeSink e = e\<lparr>maxwell := fold plain_write (method_sink e) (maxwell e), method_sink := []\<rparr>"
proof (cases "method_sink e = []")
  case True
  then show ?thesis by (simp add: ConsumeSink_def)
next
  case False
  have "\<forall>w \<in> set (method_sink e). fst w \<noteq> shadow_ram_control"
    using assms handled_methods_executable(3) by (auto simp: sink_ok_def IsMethodExecutable_def)
  from fold_plain_write[OF this refl, of "maxwell e"] False show ?thesis
    by (simp add: ConsumeSink_def ConsumeSinkImpl_def Let_def)
qed

lemma ConsumeSink_empty: "method_sink e = [] \<Longrightarrow> ConsumeSink e = e"
  by (simp add: ConsumeSink_def)

lemma CallMethod_sink: "method_sink e = [] \<Longrightarrow> method_sink (Maxwell3D_CallMethod h m a l e) = []"
  by (simp add: Maxwell3D_CallMethod_def ProcessMacro_def ConsumeSink_def Let_def split: prod.splits)

text \<open>A call at once: the segment is that of an executed method.\<close>

definition DirectCall :: "'x handlers \<Rightarrow> u64 \<Rightarrow> u32 \<Rightarrow> u32 \<Rightarrow> bool \<Rightarrow> 'x engine \<Rightarrow> 'x engine" where
  "DirectCall h seg m a l e = Maxwell3D_CallMethod h m a l (if IsMethodExecutable m then SetSegment seg e else e)"

interpretation sink: deferred_engine IsMethodExecutable PushSink ConsumeSink "DirectCall h" sink_ok for h :: "'x handlers"
proof
  fix e :: "'x engine" and m a seg l
  assume e: "sink_ok e"
  have c: "method_sink (ConsumeSink e) = []" using ConsumeSink_writes[OF e] by simp
  show "sink_ok (PushSink m a e)" if "\<not> IsMethodExecutable m" using e that by (auto simp: sink_ok_def PushSink_def)
  have s: "method_sink (DirectCall h seg m a l (ConsumeSink e)) = []" unfolding DirectCall_def
    using c by (intro CallMethod_sink) (simp add: SetSegment_def)
  then show "sink_ok (DirectCall h seg m a l (ConsumeSink e))" by (simp add: sink_ok_def)
  show "ConsumeSink (DirectCall h seg m a l (ConsumeSink e)) = DirectCall h seg m a l (ConsumeSink e)"
    using s by (rule ConsumeSink_empty)
  show "ConsumeSink (PushSink m a e) = DirectCall h seg m a l (ConsumeSink e)" if m: "\<not> IsMethodExecutable m"
  proof -
    have "sink_ok (PushSink m a e)" using e m by (auto simp: sink_ok_def PushSink_def)
    from ConsumeSink_writes[OF this] ConsumeSink_writes[OF e] CallMethod_plain[OF m, of h a l] show ?thesis
      using m by (simp add: DirectCall_def PushSink_def)
  qed
qed

text \<open>
  Deferred register writes are invisible. For every sequence of method calls, handing them to the pusher's
  \<open>CallMethod\<close>, which collects the writes that \<open>IsMethodExecutable\<close> does not list and applies them before
  the next listed method, and applying what is left at the end, gives the same registers, shadow
  registers, dirty flags, macro state and effects of the handlers as calling every method of the 3D engine at once, in
  all four shadow modes: the list names every method with an effect of its own, and no collected write
  can change the mode the collected writes are applied in.
\<close>

theorem deferred_writes_equivalent:
  fixes e :: "'x engine"
  assumes "method_sink e = []"
  shows "ConsumeSink (fold (\<lambda>(seg, m, a, l). Sink_CallMethod h seg m a l) calls e) =
    fold (\<lambda>(seg, m, a, l). DirectCall h seg m a l) calls e"
proof -
  have "sink_ok e" using assms by (simp add: sink_ok_def)
  moreover have "(\<lambda>(seg, m, a, l). Sink_CallMethod h seg m a l) =
      (\<lambda>(seg, m, a, l) e. if \<not> IsMethodExecutable m then PushSink m a e else DirectCall h seg m a l (ConsumeSink e))"
    by (auto simp: fun_eq_iff Sink_CallMethod_def DirectCall_def)
  ultimately show ?thesis using sink.deferred_calls[of e h calls] ConsumeSink_empty[OF assms] by simp
qed


definition idle_engine :: "nat engine" where
  "idle_engine = \<lparr>method_sink = [], maxwell = \<lparr>reg_array = (\<lambda>_. 0), shadow_reg_array = (\<lambda>_. 0), dirty_tables = [\<lambda>_. 1], dirty_flags = (\<lambda>_. False),
     current_dma_segment = 0, current_dirty = False, executing_macro = 0, macro_params = [], macro_addresses = [], macro_segments = [],
     current_macro_dirty = False, macro_positions = replicate 128 0, others = 0\<rparr>\<rparr>"

text \<open>Handlers that add up the register that a draw reads.\<close>

definition summing_handlers :: "nat handlers" where
  "summing_handlers = \<lparr>handle_method = (\<lambda>_ _ _ s. s), handle_draw = (\<lambda>_ _ s. s\<lparr>others := others s + unat (reg_array s 0x100)\<rparr>),
     macro_execute = (\<lambda>_ _ s. s), draw_deferred = id\<rparr>"

theorem deferred_writes_equivalent_witness:
  "method_sink idle_engine = [] \<and>
   others (maxwell (ConsumeSink (fold (\<lambda>(seg, m, a, l). Sink_CallMethod summing_handlers seg m a l)
     [(0, 0x100, 3, True), (0, 0x585, 0, True), (0, 0x100, 4, True), (0, 0x585, 0, True)] idle_engine))) = 7"
proof
  show i: "method_sink idle_engine = []" by (simp add: idle_engine_def)
  have "others (maxwell (fold (\<lambda>(seg, m, a, l). DirectCall summing_handlers seg m a l)
      [(0, 0x100, 3, True), (0, 0x585, 0, True), (0, 0x100, 4, True), (0, 0x585, 0, True)] idle_engine)) = 7"
    by code_simp
  then show "others (maxwell (ConsumeSink (fold (\<lambda>(seg, m, a, l). Sink_CallMethod summing_handlers seg m a l)
     [(0, 0x100, 3, True), (0, 0x585, 0, True), (0, 0x100, 4, True), (0, 0x585, 0, True)] idle_engine))) = 7"
    unfolding deferred_writes_equivalent[OF i] .
qed

end
