(* ===== verification/Dma_Pusher.thy ===== *)
theory Dma_Pusher
  imports Macro_Interpreter Maxwell_Frontend
begin

text \<open>
  The command processor, \<^verbatim>\<open>src/src/video_core/dma_pusher.cpp\<close>: a stream of 32-bit words, headers followed by data,
  is turned into method calls. What the calls do is an argument, a record of the puller's two methods and of the calls of the engine
  bound to a subchannel (for the 3D engine those are \<open>Sink_CallMethod\<close> and the multi-method call of
  the register front end), which have no value when no engine is bound. The position of the word
  that a call comes from is part of the state, as in the code. Reading the words from memory, the
  queue of command lists and the synchronisation of fences are not modelled.
\<close>

section \<open>Headers\<close>

datatype submission_mode =
  IncreasingOld | Increasing | NonIncreasingOld | NonIncreasing | Inline | IncreaseOnce | Mode_other

definition SubmissionMode :: "u32 \<Rightarrow> submission_mode" where
  "SubmissionMode v =
     (if v = 0 then IncreasingOld else if v = 1 then Increasing else if v = 2 then NonIncreasingOld
      else if v = 3 then NonIncreasing else if v = 4 then Inline else if v = 5 then IncreaseOnce else Mode_other)"

definition ch_method :: "u32 \<Rightarrow> u32" where
  "ch_method w = bf_extract 0 13 w"

definition ch_subchannel :: "u32 \<Rightarrow> u32" where
  "ch_subchannel w = bf_extract 13 3 w"

definition ch_arg_count :: "u32 \<Rightarrow> u32" where
  "ch_arg_count w = bf_extract 16 13 w"

definition ch_mode :: "u32 \<Rightarrow> submission_mode" where
  "ch_mode w = SubmissionMode (bf_extract 29 3 w)"

text \<open>\<open>BuildCommandHeader\<close> leaves the subchannel at 0; the headers of a program have all four fields.\<close>

definition BuildCommandHeader :: "u32 \<Rightarrow> u32 \<Rightarrow> u32 \<Rightarrow> u32" where
  "BuildCommandHeader method arg_count mode =
     bf_assign 29 3 (bf_assign 16 13 (bf_assign 0 13 0 method) arg_count) mode"

section \<open>State and calls\<close>

record pusher =
  ds_method :: u32
  ds_subchannel :: u32
  ds_method_count :: u32
  ds_dma_get :: u64
  ds_dma_word_offset :: u64
  ds_non_incrementing :: bool
  ds_is_last_call :: bool
  dma_increment_once :: bool

record 'w bus =
  CallPullerMethod :: "u32 \<Rightarrow> u32 \<Rightarrow> u32 \<Rightarrow> u32 \<Rightarrow> 'w \<Rightarrow> 'w"
  PullerCallMultiMethod :: "u32 \<Rightarrow> u32 \<Rightarrow> u32 list \<Rightarrow> u32 \<Rightarrow> 'w \<Rightarrow> 'w"
  EngineCallMethod :: "u32 \<Rightarrow> u64 \<Rightarrow> u32 \<Rightarrow> u32 \<Rightarrow> bool \<Rightarrow> 'w \<Rightarrow> 'w option"
  EngineCallMultiMethod :: "u32 \<Rightarrow> u64 \<Rightarrow> u32 \<Rightarrow> u32 list \<Rightarrow> u32 \<Rightarrow> 'w \<Rightarrow> 'w option"

definition non_puller_methods :: u32 where
  "non_puller_methods = 0x40"

definition bound :: "'w option \<Rightarrow> 'w run" where
  "bound r = (case r of Some w \<Rightarrow> Done w | None \<Rightarrow> Undefined)"

definition SetState :: "u32 \<Rightarrow> pusher \<Rightarrow> pusher" where
  "SetState command_header st =
     st\<lparr>ds_method := ch_method command_header, ds_subchannel := ch_subchannel command_header,
        ds_method_count := ch_arg_count command_header\<rparr>"

definition Pusher_CallMethod :: "'w bus \<Rightarrow> u32 \<Rightarrow> pusher \<Rightarrow> 'w \<Rightarrow> 'w run" where
  "Pusher_CallMethod bus argument st w =
     (if ds_method st < non_puller_methods
      then Done (CallPullerMethod bus (ds_method st) argument (ds_subchannel st) (ds_method_count st) w)
      else bound (EngineCallMethod bus (ds_subchannel st) (ds_dma_get st + ds_dma_word_offset st) (ds_method st) argument
                    (ds_is_last_call st) w))"

definition Pusher_CallMultiMethod :: "'w bus \<Rightarrow> u32 list \<Rightarrow> pusher \<Rightarrow> 'w \<Rightarrow> 'w run" where
  "Pusher_CallMultiMethod bus args st w =
     (if ds_method st < non_puller_methods
      then Done (PullerCallMultiMethod bus (ds_method st) (ds_subchannel st) args (ds_method_count st) w)
      else bound (EngineCallMultiMethod bus (ds_subchannel st) (ds_dma_get st + ds_dma_word_offset st) (ds_method st) args
                    (ds_method_count st) w))"

section \<open>The loop over the words\<close>

text \<open>A data word of a method that is still pending, or the first word of a new command.\<close>

definition DataWord :: "'w bus \<Rightarrow> u32 \<Rightarrow> nat \<Rightarrow> pusher \<Rightarrow> 'w \<Rightarrow> (pusher \<times> 'w) run" where
  "DataWord bus word index st w =
     (let st = st\<lparr>ds_dma_word_offset := ucast (of_nat (index * 4) :: u32), ds_is_last_call := ds_method_count st \<le> 1\<rparr>
      in bind_run (Pusher_CallMethod bus word st w) (\<lambda>w.
           Done (st\<lparr>ds_method := ds_method st + 1,
                    ds_non_incrementing := (dma_increment_once st \<or> ds_non_incrementing st),
                    ds_method_count := ds_method_count st - 1\<rparr>, w)))"

definition HeaderWord :: "'w bus \<Rightarrow> u32 \<Rightarrow> pusher \<Rightarrow> 'w \<Rightarrow> (pusher \<times> 'w) run" where
  "HeaderWord bus word st w =
     (case ch_mode word of
        Increasing \<Rightarrow> Done ((SetState word st)\<lparr>ds_non_incrementing := False, dma_increment_once := False\<rparr>, w)
      | NonIncreasing \<Rightarrow> Done ((SetState word st)\<lparr>ds_non_incrementing := True, dma_increment_once := False\<rparr>, w)
      | Inline \<Rightarrow>
          let st = st\<lparr>ds_method := ch_method word, ds_subchannel := ch_subchannel word,
                      ds_dma_word_offset := - ds_dma_get st\<rparr>
          in bind_run (Pusher_CallMethod bus (ch_arg_count word) st w) (\<lambda>w.
               Done (st\<lparr>ds_non_incrementing := True, dma_increment_once := False\<rparr>, w))
      | IncreaseOnce \<Rightarrow> Done ((SetState word st)\<lparr>ds_non_incrementing := False, dma_increment_once := True\<rparr>, w)
      | _ \<Rightarrow> Done (st, w))"

function ProcessCommands_loop :: "'w bus \<Rightarrow> u32 list \<Rightarrow> nat \<Rightarrow> pusher \<times> 'w \<Rightarrow> (pusher \<times> 'w) run" where
  "ProcessCommands_loop bus commands index (st, w) =
     (if index \<ge> length commands then Done (st, w)
      else if ds_method_count st \<noteq> 0 then
        (if ds_non_incrementing st then
           let st = st\<lparr>ds_dma_word_offset := ucast (of_nat (index * 4) :: u32)\<rparr>;
               max_write = min (index + unat (ds_method_count st)) (length commands) - index
           in bind_run (Pusher_CallMultiMethod bus (take max_write (drop index commands)) st w) (\<lambda>w.
                ProcessCommands_loop bus commands (index + max_write)
                  (st\<lparr>ds_method_count := ds_method_count st - of_nat max_write, ds_is_last_call := True\<rparr>, w))
         else bind_run (DataWord bus (commands ! index) index st w) (ProcessCommands_loop bus commands (index + 1)))
      else bind_run (HeaderWord bus (commands ! index) st w) (ProcessCommands_loop bus commands (index + 1)))"
  by pat_completeness auto
termination
proof (relation "measure (\<lambda>(bus, commands, index, sw). length commands - index)", goal_cases)
  case (2 bus commands index st w st' k w')
  then have "0 < unat (ds_method_count st)" by (simp add: unat_gt_0)
  then show ?case using 2 by simp
qed auto

definition ProcessCommands :: "'w bus \<Rightarrow> u32 list \<Rightarrow> pusher \<times> 'w \<Rightarrow> (pusher \<times> 'w) run" where
  "ProcessCommands bus commands sw = ProcessCommands_loop bus commands 0 sw"

section \<open>Programs of commands\<close>

text \<open>
  A program is a list of commands; its words are a header for each command, with the four fields, and the arguments. What it
  means is the list of calls below, each with the address of the word it comes from.
\<close>

datatype command =
    Incr u32 u32 "u32 list"
  | NonIncr u32 u32 "u32 list"
  | Once u32 u32 "u32 list"
  | InlineArg u32 u32 u32

definition header :: "u32 \<Rightarrow> u32 \<Rightarrow> u32 \<Rightarrow> u32 \<Rightarrow> u32" where
  "header mode sub method count = bf_assign 13 3 (BuildCommandHeader method count mode) sub"

fun encode :: "command \<Rightarrow> u32 list" where
  "encode (Incr sub m args) = header 1 sub m (of_nat (length args)) # args"
| "encode (NonIncr sub m args) = header 3 sub m (of_nat (length args)) # args"
| "encode (Once sub m args) = header 5 sub m (of_nat (length args)) # args"
| "encode (InlineArg sub m arg) = [header 4 sub m arg]"

fun command_ok :: "command \<Rightarrow> bool" where
  "command_ok (Incr sub m args) \<longleftrightarrow> sub < 8 \<and> m < 0x2000 \<and> length args < 0x2000"
| "command_ok (NonIncr sub m args) \<longleftrightarrow> sub < 8 \<and> m < 0x2000 \<and> length args < 0x2000"
| "command_ok (Once sub m args) \<longleftrightarrow> sub < 8 \<and> m < 0x2000 \<and> length args < 0x2000"
| "command_ok (InlineArg sub m arg) \<longleftrightarrow> sub < 8 \<and> m < 0x2000 \<and> arg < 0x2000"

text \<open>A call: method, subchannel, number of calls left with this one, address, and the arguments.\<close>

datatype bus_call = Single u32 u32 nat u64 u32 | Multi u32 u32 nat u64 "u32 list"

fun run_call :: "'w bus \<Rightarrow> bus_call \<Rightarrow> 'w \<Rightarrow> 'w run" where
  "run_call bus (Single m sub n seg arg) w =
     (if m < non_puller_methods then Done (CallPullerMethod bus m arg sub (of_nat n) w)
      else bound (EngineCallMethod bus sub seg m arg (n \<le> 1) w))"
| "run_call bus (Multi m sub n seg args) w =
     (if m < non_puller_methods then Done (PullerCallMultiMethod bus m sub args (of_nat n) w)
      else bound (EngineCallMultiMethod bus sub seg m args (of_nat n) w))"

fun run_calls :: "'w bus \<Rightarrow> bus_call list \<Rightarrow> 'w \<Rightarrow> 'w run" where
  "run_calls bus [] w = Done w"
| "run_calls bus (c # cs) w = bind_run (run_call bus c w) (run_calls bus cs)"

definition word_address :: "u64 \<Rightarrow> nat \<Rightarrow> u64" where
  "word_address get index = get + of_nat (index * 4)"

fun increasing_calls :: "u64 \<Rightarrow> nat \<Rightarrow> u32 \<Rightarrow> u32 \<Rightarrow> u32 list \<Rightarrow> bus_call list" where
  "increasing_calls get index sub m [] = []"
| "increasing_calls get index sub m (a # args) =
     Single m sub (length (a # args)) (word_address get index) a # increasing_calls get (index + 1) sub (m + 1) args"

definition repeated_calls :: "u64 \<Rightarrow> nat \<Rightarrow> u32 \<Rightarrow> u32 \<Rightarrow> u32 list \<Rightarrow> bus_call list" where
  "repeated_calls get index sub m args =
     (if args = [] then [] else [Multi m sub (length args) (word_address get index) args])"

fun calls :: "u64 \<Rightarrow> nat \<Rightarrow> command \<Rightarrow> bus_call list" where
  "calls get index (Incr sub m args) = increasing_calls get (index + 1) sub m args"
| "calls get index (NonIncr sub m args) = repeated_calls get (index + 1) sub m args"
| "calls get index (Once sub m args) =
     (case args of [] \<Rightarrow> []
      | a # rest \<Rightarrow> Single m sub (length args) (word_address get (index + 1)) a # repeated_calls get (index + 2) sub (m + 1) rest)"
| "calls get index (InlineArg sub m arg) = [Single m sub 0 0 arg]"

fun program_calls :: "u64 \<Rightarrow> nat \<Rightarrow> command list \<Rightarrow> bus_call list" where
  "program_calls get index [] = []"
| "program_calls get index (c # cs) = calls get index c @ program_calls get (index + length (encode c)) cs"

lemma run_calls_Nil: "run_calls bus [] = Done"
  by (intro ext) simp

lemma run_calls_append: "run_calls bus (xs @ ys) w = bind_run (run_calls bus xs w) (run_calls bus ys)"
proof (induction xs arbitrary: w)
  case (Cons x xs)
  then have "run_calls bus (xs @ ys) = (\<lambda>w. bind_run (run_calls bus xs w) (run_calls bus ys))" by (intro ext)
  then show ?case by (simp add: bind_run_assoc)
qed simp

lemma header_fields:
  assumes "sub < 8" "m < 0x2000" "n < 0x2000"
  shows "ch_method (header mode sub m n) = m" "ch_subchannel (header mode sub m n) = sub" "ch_arg_count (header mode sub m n) = n"
    "ch_mode (header mode sub m n) = SubmissionMode (take_bit 3 mode)"
proof -
  have t: "unat x < 2 ^ k \<Longrightarrow> take_bit k x = x" for k and x :: u32
    by (simp add: word_unat_eq_iff unsigned_take_bit_eq take_bit_nat_eq_self)
  have "take_bit 3 sub = sub" "take_bit 13 m = m" "take_bit 13 n = n" using assms by (auto intro!: t simp: word_less_nat_alt)
  then show "ch_method (header mode sub m n) = m" "ch_subchannel (header mode sub m n) = sub" "ch_arg_count (header mode sub m n) = n"
    "ch_mode (header mode sub m n) = SubmissionMode (take_bit 3 mode)"
    by (simp_all add: ch_method_def ch_subchannel_def ch_arg_count_def ch_mode_def header_def BuildCommandHeader_def bf_simps)
qed


section \<open>Running a program\<close>

lemmas loop_step = ProcessCommands_loop.simps[simp del]

lemma word_offset: "index < 2 ^ 30 \<Longrightarrow> ucast (of_nat (index * 4) :: u32) = (of_nat (index * 4) :: u64)"
proof -
  assume "index < 2 ^ 30"
  then have "unat (of_nat (index * 4) :: u32) = index * 4" by (simp only: unsigned_of_nat) (simp add: take_bit_nat_eq_self)
  then show ?thesis using of_nat_unat[of "of_nat (index * 4) :: u32", where 'a = "64 word"] by metis
qed

text \<open>The data of an increasing command: one call for each word.\<close>

lemma count_word:
  assumes "0 < n" "n < 2 ^ 32"
  shows "(of_nat n :: u32) \<noteq> 0" "(of_nat n :: u32) \<le> 1 \<longleftrightarrow> n \<le> 1" "unat (of_nat n :: u32) = n"
proof -
  show u: "unat (of_nat n :: u32) = n" using assms(2) by (simp only: unsigned_of_nat) (simp add: take_bit_nat_eq_self)
  then show "(of_nat n :: u32) \<noteq> 0" using assms(1) by auto
  show "(of_nat n :: u32) \<le> 1 \<longleftrightarrow> n \<le> 1" by (simp add: word_le_nat_alt u)
qed

text \<open>A stretch of the words that runs a list of calls and leaves the state it ends in.\<close>

definition segment :: "'w bus \<Rightarrow> u32 list \<Rightarrow> nat \<Rightarrow> nat \<Rightarrow> bus_call list \<Rightarrow> pusher \<Rightarrow> pusher \<Rightarrow> bool" where
  "segment bus commands i j cs st st' \<longleftrightarrow> ds_dma_get st' = ds_dma_get st \<and>
     (\<forall>w. ProcessCommands_loop bus commands i (st, w) =
        bind_run (run_calls bus cs w) (\<lambda>w. ProcessCommands_loop bus commands j (st', w)))"

lemma segment_refl: "segment bus commands i i [] st st"
  by (simp add: segment_def)

lemma segment_trans:
  assumes "segment bus commands i j cs st st1" "segment bus commands j k ds st1 st2"
  shows "segment bus commands i k (cs @ ds) st st2"
  using assms by (simp add: segment_def run_calls_append bind_run_assoc)

lemma segment_single:
  assumes "ds_dma_get st' = ds_dma_get st"
    "\<And>w. ProcessCommands_loop bus commands i (st, w) = bind_run (run_call bus c w) (\<lambda>w. ProcessCommands_loop bus commands j (st', w))"
  shows "segment bus commands i j [c] st st'"
  using assms by (simp add: segment_def run_calls_Nil bind_run_right)

text \<open>Between two commands nothing is pending and the last call was the last of its command.\<close>

definition idle :: "pusher \<Rightarrow> bool" where
  "idle st \<longleftrightarrow> ds_method_count st = 0 \<and> ds_is_last_call st"

lemma data_word:
  assumes "length commands < 2 ^ 30" "index < length commands" "0 < n" "n < 2 ^ 32"
    "ds_method_count st = of_nat n" "\<not> ds_non_incrementing st"
  shows "segment bus commands index (index + 1)
    [Single (ds_method st) (ds_subchannel st) n (word_address (ds_dma_get st) index) (commands ! index)] st
    (st\<lparr>ds_dma_word_offset := of_nat (index * 4), ds_is_last_call := n \<le> 1, ds_method := ds_method st + 1,
       ds_non_incrementing := dma_increment_once st, ds_method_count := of_nat (n - 1)\<rparr>)"
proof (rule segment_single, goal_cases)
  case (2 w)
  note c = count_word[OF assms(3,4)]
  have m: "(of_nat n :: u32) - 1 = of_nat (n - 1)" using assms(3) by simp
  have o: "ucast (of_nat (index * 4) :: u32) = (of_nat (index * 4) :: u64)" using assms(1,2) by (intro word_offset) simp
  show ?case
    unfolding loop_step[of bus commands index st w]
    using assms(2,5,6) c(1,2) by (simp add: DataWord_def Pusher_CallMethod_def Let_def o[simplified] m word_address_def bind_run_assoc)
qed simp

lemma increasing_loop:
  assumes "length (pre @ args @ post) < 2 ^ 30" "ds_method_count st = of_nat (length args)"
    "\<not> ds_non_incrementing st" "\<not> dma_increment_once st" "args = [] \<longrightarrow> ds_is_last_call st"
  shows "\<exists>st'. idle st' \<and> segment bus (pre @ args @ post) (length pre) (length (pre @ args))
    (increasing_calls (ds_dma_get st) (length pre) (ds_subchannel st) (ds_method st) args) st st'"
  using assms
proof (induction args arbitrary: pre st)
  case Nil
  then show ?case by (intro exI[of _ st]) (simp add: idle_def segment_refl)
next
  case (Cons a args)
  let ?all = "pre @ (a # args) @ post"
  define st1 where "st1 = st\<lparr>ds_dma_word_offset := of_nat (length pre * 4), ds_is_last_call := length (a # args) \<le> 1,
    ds_method := ds_method st + 1, ds_non_incrementing := dma_increment_once st, ds_method_count := of_nat (length (a # args) - 1)\<rparr>"
  have step: "segment bus ?all (length pre) (length pre + 1)
      [Single (ds_method st) (ds_subchannel st) (length (a # args)) (word_address (ds_dma_get st) (length pre)) a] st st1"
    unfolding st1_def using data_word[of ?all "length pre" "length (a # args)" st bus] Cons.prems by simp
  have "length ((pre @ [a]) @ args @ post) < 2 ^ 30" "ds_method_count st1 = of_nat (length args)" "\<not> ds_non_incrementing st1"
    "\<not> dma_increment_once st1" "args = [] \<longrightarrow> ds_is_last_call st1"
    using Cons.prems by (simp_all add: st1_def)
  from Cons.IH[OF this] obtain st' where st': "idle st'" "segment bus ((pre @ [a]) @ args @ post) (length (pre @ [a])) (length ((pre @ [a]) @ args))
    (increasing_calls (ds_dma_get st1) (length (pre @ [a])) (ds_subchannel st1) (ds_method st1) args) st1 st'" by (elim exE conjE)
  have "ds_dma_get st1 = ds_dma_get st" "ds_subchannel st1 = ds_subchannel st" "ds_method st1 = ds_method st + 1" by (simp_all add: st1_def)
  with st'(1) segment_trans[OF step, of "length (pre @ a # args)"] st'(2) show ?case by (intro exI[of _ st']) simp
qed

lemma repeated_loop:
  assumes "length (pre @ args @ post) < 2 ^ 30" "ds_method_count st = of_nat (length args)"
    "ds_non_incrementing st" "args = [] \<longrightarrow> ds_is_last_call st"
  shows "\<exists>st'. idle st' \<and> segment bus (pre @ args @ post) (length pre) (length (pre @ args))
    (repeated_calls (ds_dma_get st) (length pre) (ds_subchannel st) (ds_method st) args) st st'"
proof (cases "args = []")
  case True
  then show ?thesis using assms(2,4) by (intro exI[of _ st]) (simp add: repeated_calls_def idle_def segment_refl)
next
  case False
  let ?n = "length args"
  have n: "0 < ?n" "?n < 2 ^ 32" using False assms(1) by simp_all
  note c = count_word[OF n]
  have o: "ucast (of_nat (length pre * 4) :: u32) = (of_nat (length pre * 4) :: u64)" using assms(1) by (intro word_offset) simp
  have mw: "min (length pre + unat (ds_method_count st)) (length (pre @ args @ post)) - length pre = ?n" using c(3) assms(2) by simp
  let ?st = "st\<lparr>ds_dma_word_offset := of_nat (length pre * 4), ds_method_count := 0, ds_is_last_call := True\<rparr>"
  have "ProcessCommands_loop bus (pre @ args @ post) (length pre) (st, w) =
    bind_run (run_call bus (Multi (ds_method st) (ds_subchannel st) ?n (word_address (ds_dma_get st) (length pre)) args) w)
      (\<lambda>w. ProcessCommands_loop bus (pre @ args @ post) (length (pre @ args)) (?st, w))" for w
    unfolding loop_step[of bus "pre @ args @ post" "length pre" st w]
    using False c assms(2,3) by (simp add: Let_def mw[simplified] o[simplified] Pusher_CallMultiMethod_def word_address_def)
  then show ?thesis using False by (intro exI[of _ ?st]) (simp add: repeated_calls_def idle_def segment_single)
qed

lemma header_step:
  assumes "idle st" "ds_dma_get st' = ds_dma_get st" "\<And>w. HeaderWord bus h st w = Done (st', w)"
  shows "segment bus (pre @ h # post) (length pre) (Suc (length pre)) [] st st'"
  using assms by (simp add: segment_def idle_def loop_step[of bus "pre @ h # post" "length pre"])

lemma command_count:
  assumes "n < 0x2000"
  shows "(of_nat n :: u32) < 0x2000"
proof -
  have "unat (of_nat n :: u32) = n" using assms by (simp only: unsigned_of_nat) (simp add: take_bit_nat_eq_self)
  then show ?thesis using assms by (simp add: word_less_nat_alt)
qed

text \<open>The state that the header of a command with arguments leaves.\<close>

definition started :: "u32 \<Rightarrow> u32 \<Rightarrow> u32 list \<Rightarrow> bool \<Rightarrow> bool \<Rightarrow> pusher \<Rightarrow> pusher" where
  "started sub m args non_incrementing once st =
     st\<lparr>ds_method := m, ds_subchannel := sub, ds_method_count := of_nat (length args),
        ds_non_incrementing := non_incrementing, dma_increment_once := once\<rparr>"

lemma started_simps [simp]:
  "ds_method (started sub m args ni once st) = m" "ds_subchannel (started sub m args ni once st) = sub"
  "ds_method_count (started sub m args ni once st) = of_nat (length args)"
  "ds_non_incrementing (started sub m args ni once st) = ni" "dma_increment_once (started sub m args ni once st) = once"
  "ds_dma_get (started sub m args ni once st) = ds_dma_get st" "ds_is_last_call (started sub m args ni once st) = ds_is_last_call st"
  by (simp_all add: started_def)

lemma command_header:
  assumes "sub < 8" "m < 0x2000" "length args < 0x2000" "idle st"
    "mode = 1 \<and> \<not> ni \<and> \<not> once \<or> mode = 3 \<and> ni \<and> \<not> once \<or> mode = 5 \<and> \<not> ni \<and> once"
  shows "segment bus (pre @ header mode sub m (of_nat (length args)) # post) (length pre) (Suc (length pre)) [] st
    (started sub m args ni once st)"
proof (intro header_step assms(4))
  note fields = header_fields[OF assms(1,2) command_count[OF assms(3)]]
  show "HeaderWord bus (header mode sub m (of_nat (length args))) st w = Done (started sub m args ni once st, w)" for w
    using assms(5) by (elim disjE conjE) (simp_all add: fields started_def HeaderWord_def SubmissionMode_def SetState_def)
qed simp

lemma command_loop_Incr:
  assumes len: "length (pre @ encode c @ post) < 2 ^ 30" and ok: "command_ok c" and st: "idle st"
    and Incr: "c = Incr sub m args"
  shows "\<exists>st'. idle st' \<and> segment bus (pre @ encode c @ post) (length pre) (length (pre @ encode c)) (calls (ds_dma_get st) (length pre) c) st st'"
proof -
  let ?h = "header 1 sub m (of_nat (length args))" and ?st = "started sub m args False False st"
  have "segment bus (pre @ ?h # args @ post) (length pre) (Suc (length pre)) [] st ?st" using Incr ok st by (intro command_header) simp_all
  note trans = segment_trans[OF this]
  have "length ((pre @ [?h]) @ args @ post) < 2 ^ 30" using len Incr by simp
  from increasing_loop[OF this, of ?st bus] st obtain st' where "idle st'" "segment bus ((pre @ [?h]) @ args @ post) (length (pre @ [?h]))
    (length ((pre @ [?h]) @ args)) (increasing_calls (ds_dma_get st) (length (pre @ [?h])) sub m args) ?st st'" by (auto simp: idle_def)
  then show ?thesis using trans[of "length ((pre @ [?h]) @ args)"] Incr by (intro exI[of _ st']) simp
qed

lemma command_loop_NonIncr:
  assumes len: "length (pre @ encode c @ post) < 2 ^ 30" and ok: "command_ok c" and st: "idle st"
    and NonIncr: "c = NonIncr sub m args"
  shows "\<exists>st'. idle st' \<and> segment bus (pre @ encode c @ post) (length pre) (length (pre @ encode c)) (calls (ds_dma_get st) (length pre) c) st st'"
proof -
  let ?h = "header 3 sub m (of_nat (length args))" and ?st = "started sub m args True False st"
  have "segment bus (pre @ ?h # args @ post) (length pre) (Suc (length pre)) [] st ?st" using NonIncr ok st by (intro command_header) simp_all
  note trans = segment_trans[OF this]
  have "length ((pre @ [?h]) @ args @ post) < 2 ^ 30" using len NonIncr by simp
  from repeated_loop[OF this, of ?st bus] st obtain st' where "idle st'" "segment bus ((pre @ [?h]) @ args @ post) (length (pre @ [?h]))
    (length ((pre @ [?h]) @ args)) (repeated_calls (ds_dma_get st) (length (pre @ [?h])) sub m args) ?st st'" by (auto simp: idle_def)
  then show ?thesis using trans[of "length ((pre @ [?h]) @ args)"] NonIncr by (intro exI[of _ st']) simp
qed

lemma command_loop_Once:
  assumes len: "length (pre @ encode c @ post) < 2 ^ 30" and ok: "command_ok c" and st: "idle st"
    and Once: "c = Once sub m args"
  shows "\<exists>st'. idle st' \<and> segment bus (pre @ encode c @ post) (length pre) (length (pre @ encode c)) (calls (ds_dma_get st) (length pre) c) st st'"
proof -
  let ?h = "header 5 sub m (of_nat (length args))" and ?st = "started sub m args False True st"
  have head: "segment bus (pre @ ?h # args @ post) (length pre) (Suc (length pre)) [] st ?st" using Once ok st by (intro command_header) simp_all
  show ?thesis
  proof (cases args)
    case Nil
    then show ?thesis using Once head st by (intro exI[of _ ?st]) (simp add: idle_def)
  next
    case (Cons a rest)
    let ?st1 = "?st\<lparr>ds_dma_word_offset := of_nat ((length pre + 1) * 4), ds_is_last_call := length args \<le> 1, ds_method := m + 1,
      ds_non_incrementing := True, ds_method_count := of_nat (length args - 1)\<rparr>"
    have "segment bus (pre @ ?h # args @ post) (Suc (length pre)) (Suc (Suc (length pre)))
        [Single m sub (length args) (word_address (ds_dma_get st) (length pre + 1)) a] ?st ?st1"
      using data_word[of "pre @ ?h # args @ post" "length pre + 1" "length args" ?st bus] len Once Cons by (simp add: nth_append)
    note trans = segment_trans[OF segment_trans[OF head this]]
    have "length ((pre @ [?h, a]) @ rest @ post) < 2 ^ 30" using len Once Cons by simp
    from repeated_loop[OF this, of ?st1 bus] Cons obtain st' where "idle st'" "segment bus ((pre @ [?h, a]) @ rest @ post) (length (pre @ [?h, a]))
      (length ((pre @ [?h, a]) @ rest)) (repeated_calls (ds_dma_get st) (length (pre @ [?h, a])) sub (m + 1) rest) ?st1 st'" by auto
    then show ?thesis using trans[of "length ((pre @ [?h, a]) @ rest)"] Once Cons by (intro exI[of _ st']) simp
  qed
qed

lemma command_loop_InlineArg:
  assumes len: "length (pre @ encode c @ post) < 2 ^ 30" and ok: "command_ok c" and st: "idle st"
    and InlineArg: "c = InlineArg sub m arg"
  shows "\<exists>st'. idle st' \<and> segment bus (pre @ encode c @ post) (length pre) (length (pre @ encode c)) (calls (ds_dma_get st) (length pre) c) st st'"
proof -
  have h: "sub < 8" "m < 0x2000" "arg < 0x2000" using ok InlineArg by simp_all
  let ?st = "st\<lparr>ds_method := m, ds_subchannel := sub, ds_dma_word_offset := - ds_dma_get st, ds_non_incrementing := True, dma_increment_once := False\<rparr>"
  have "HeaderWord bus (header 4 sub m arg) st w = bind_run (run_call bus (Single m sub 0 0 arg) w) (\<lambda>w. Done (?st, w))" for w
    using header_fields[OF h, of 4] st by (simp add: idle_def HeaderWord_def SubmissionMode_def Pusher_CallMethod_def Let_def)
  then have "segment bus (pre @ encode c @ post) (length pre) (Suc (length pre)) [Single m sub 0 0 arg] st ?st"
    using st InlineArg by (intro segment_single) (simp_all add: idle_def bind_run_assoc loop_step[of bus "pre @ header 4 sub m arg # post"])
  then show ?thesis using InlineArg st by (intro exI[of _ ?st]) (simp add: idle_def)
qed

lemma command_loop:
  assumes len: "length (pre @ encode c @ post) < 2 ^ 30" and ok: "command_ok c" and st: "idle st"
  shows "\<exists>st'. idle st' \<and> segment bus (pre @ encode c @ post) (length pre) (length (pre @ encode c)) (calls (ds_dma_get st) (length pre) c) st st'"
  by (cases c)
    (erule command_loop_Incr[OF assms] command_loop_NonIncr[OF assms] command_loop_Once[OF assms] command_loop_InlineArg[OF assms])+

lemma program_loop:
  assumes "length (pre @ concat (map encode cs)) < 2 ^ 30" "list_all command_ok cs" "idle st"
  shows "\<exists>st'. idle st' \<and> segment bus (pre @ concat (map encode cs)) (length pre) (length (pre @ concat (map encode cs)))
    (program_calls (ds_dma_get st) (length pre) cs) st st'"
  using assms
proof (induction cs arbitrary: pre st)
  case Nil
  then show ?case using segment_refl by (intro exI[of _ st]) simp
next
  case (Cons c cs)
  let ?post = "concat (map encode cs)"
  have "length (pre @ encode c @ ?post) < 2 ^ 30" "command_ok c" using Cons.prems(1,2) by simp_all
  from command_loop[OF this Cons.prems(3), of bus] obtain st1 where st1: "idle st1" "segment bus (pre @ encode c @ ?post) (length pre)
    (length (pre @ encode c)) (calls (ds_dma_get st) (length pre) c) st st1" by (elim exE conjE)
  have "length ((pre @ encode c) @ ?post) < 2 ^ 30" "list_all command_ok cs" using Cons.prems(1,2) by simp_all
  from Cons.IH[OF this st1(1)] obtain st' where st': "idle st'" "segment bus ((pre @ encode c) @ ?post) (length (pre @ encode c))
    (length ((pre @ encode c) @ ?post)) (program_calls (ds_dma_get st1) (length (pre @ encode c)) cs) st1 st'" by (elim exE conjE)
  have "ds_dma_get st1 = ds_dma_get st" using st1(2) by (simp add: segment_def)
  then show ?case using st'(1) segment_trans[OF st1(2)] st'(2) by (intro exI[of _ st']) simp
qed

text \<open>
  Claim C11. A stream of words that encodes a program of commands is run completely and in order: from a state between
  two commands, \<open>ProcessCommands\<close> makes exactly the calls of the program (one call for each word of an increasing
  command, the method counted up; one call for all the words of a repeated one; one call and then one for the rest when the
  method is counted up once; the argument itself for an inline one), each with its method, its subchannel, the count of arguments left
  and the address of its word, stops early only where a call does, and ends between two commands again.
\<close>

theorem dma_pusher_runs_program:
  assumes "length (concat (map encode cs)) < 2 ^ 30" "list_all command_ok cs" "idle st"
  shows "\<exists>st'. idle st' \<and> ProcessCommands bus (concat (map encode cs)) (st, w) =
    bind_run (run_calls bus (program_calls (ds_dma_get st) 0 cs) w) (\<lambda>w'. Done (st', w'))"
proof -
  from program_loop[of "[]" cs st bus] assms obtain st' where "idle st'"
    and s: "segment bus (concat (map encode cs)) 0 (length (concat (map encode cs))) (program_calls (ds_dma_get st) 0 cs) st st'" by auto
  then show ?thesis by (intro exI[of _ st']) (simp add: ProcessCommands_def segment_def loop_step[of bus _ "length (concat (map encode cs))"])
qed

section \<open>The pusher on the 3D engine\<close>

text \<open>
  Two implementations of the calls, the second on abstract states. Where every call of the first keeps its
  invariant and the abstraction commutes with it, so does every stream of words.
\<close>

locale bus_simulation =
  fixes bus :: "'w bus" and bus' :: "'v bus" and view :: "'w \<Rightarrow> 'v" and ok :: "'w \<Rightarrow> bool"
  assumes puller_ok: "ok w \<Longrightarrow> ok (CallPullerMethod bus m a sub n w)" "ok w \<Longrightarrow> ok (PullerCallMultiMethod bus m sub args n w)"
    and puller_abs: "ok w \<Longrightarrow> view (CallPullerMethod bus m a sub n w) = CallPullerMethod bus' m a sub n (view w)"
      "ok w \<Longrightarrow> view (PullerCallMultiMethod bus m sub args n w) = PullerCallMultiMethod bus' m sub args n (view w)"
    and engine_ok: "ok w \<Longrightarrow> pred_option ok (EngineCallMethod bus sub seg m a l w)"
      "ok w \<Longrightarrow> pred_option ok (EngineCallMultiMethod bus sub seg m args n w)"
    and engine_abs: "ok w \<Longrightarrow> map_option view (EngineCallMethod bus sub seg m a l w) = EngineCallMethod bus' sub seg m a l (view w)"
      "ok w \<Longrightarrow> map_option view (EngineCallMultiMethod bus sub seg m args n w) = EngineCallMultiMethod bus' sub seg m args n (view w)"
begin

lemma bound_sim:
  assumes "pred_option ok r" "map_option view r = r'"
  shows "pred_run ok (bound r)" "bound r' = map_run view (bound r)"
proof -
  show "pred_run ok (bound r)" using assms(1) by (cases r) (simp_all add: bound_def)
  show "bound r' = map_run view (bound r)" unfolding assms(2)[symmetric] by (cases r) (simp_all add: bound_def)
qed

lemma call_sim:
  assumes "ok w"
  shows "pred_run ok (Pusher_CallMethod bus a st w)" "Pusher_CallMethod bus' a st (view w) = map_run view (Pusher_CallMethod bus a st w)"
    "pred_run ok (Pusher_CallMultiMethod bus args st w)"
    "Pusher_CallMultiMethod bus' args st (view w) = map_run view (Pusher_CallMultiMethod bus args st w)"
  using assms puller_ok puller_abs bound_sim[OF engine_ok(1) engine_abs(1)] bound_sim[OF engine_ok(2) engine_abs(2)]
  by (auto simp: Pusher_CallMethod_def Pusher_CallMultiMethod_def)

definition ok_state :: "pusher \<times> 'w \<Rightarrow> bool" where
  "ok_state sw = ok (snd sw)"

text \<open>Related runs of one word and of the words after it.\<close>

definition sim_run :: "(pusher \<times> 'w) run \<Rightarrow> (pusher \<times> 'v) run \<Rightarrow> bool" where
  "sim_run r r' \<longleftrightarrow> pred_run ok_state r \<and> r' = map_run (apsnd view) r"

lemma sim_Done: "ok w \<Longrightarrow> sim_run (Done (st, w)) (Done (st, view w))"
  by (simp add: sim_run_def ok_state_def)

lemma sim_bind_call:
  assumes "pred_run ok r" "\<And>w. ok w \<Longrightarrow> sim_run (f w) (f' (view w))"
  shows "sim_run (bind_run r f) (bind_run (map_run view r) f')"
  using assms by (cases r) (simp_all add: sim_run_def)

lemma sim_bind:
  assumes "sim_run r r'" "\<And>st w. ok w \<Longrightarrow> sim_run (f (st, w)) (f' (st, view w))"
  shows "sim_run (bind_run r f) (bind_run r' f')"
proof (cases r)
  case (Done sw)
  then show ?thesis using assms by (cases sw) (simp add: sim_run_def ok_state_def)
qed (use assms(1) in \<open>simp_all add: sim_run_def\<close>)

lemma word_sim:
  assumes "ok w"
  shows "sim_run (DataWord bus word index st w) (DataWord bus' word index st (view w))"
    "sim_run (HeaderWord bus word st w) (HeaderWord bus' word st (view w))"
proof -
  note bind = sim_bind_call[OF call_sim(1)[OF assms]]
  show "sim_run (DataWord bus word index st w) (DataWord bus' word index st (view w))"
    unfolding DataWord_def Let_def call_sim(2)[OF assms] by (rule bind) (rule sim_Done)
  show "sim_run (HeaderWord bus word st w) (HeaderWord bus' word st (view w))"
    unfolding HeaderWord_def Let_def call_sim(2)[OF assms]
    by (cases "ch_mode word") (simp_all add: sim_Done[OF assms] bind sim_Done)
qed

lemma stream_sim:
  assumes "ok w"
  shows "sim_run (ProcessCommands_loop bus commands index (st, w)) (ProcessCommands_loop bus' commands index (st, view w))"
  using assms
proof (induction "length commands - index" arbitrary: index st w rule: less_induct)
  case less
  note IH = less.hyps
  consider "index \<ge> length commands" | "index < length commands" "ds_method_count st = 0"
    | "index < length commands" "ds_method_count st \<noteq> 0" "\<not> ds_non_incrementing st"
    | "index < length commands" "ds_method_count st \<noteq> 0" "ds_non_incrementing st" by linarith
  then show ?case
  proof cases
    case 1
    then show ?thesis using less.prems by (simp add: loop_step sim_Done)
  next
    case 2
    then have "length commands - (index + 1) < length commands - index" by linarith
    with 2 show ?thesis unfolding loop_step[of _ commands index] by (simp add: sim_bind[OF word_sim(2)[OF less.prems]] IH)
  next
    case 3
    then have "length commands - (index + 1) < length commands - index" by linarith
    with 3 show ?thesis unfolding loop_step[of _ commands index] by (simp add: sim_bind[OF word_sim(1)[OF less.prems]] IH)
  next
    case 4
    then have "0 < unat (ds_method_count st)" by (simp add: unat_gt_0)
    then show ?thesis using 4 unfolding loop_step[of _ commands index] 
      by (auto simp: Let_def call_sim(4)[OF less.prems] intro!: sim_bind_call[OF call_sim(3)[OF less.prems]] IH)
  qed
qed

end

text \<open>
  The calls of a channel: the puller, and on every subchannel the 3D engine or another engine. Everything that is
  not the 3D engine is a state of its own, with the bindings that \<open>BindSubchannel\<close> makes.
\<close>

record ('p, 'x) channel =
  puller_call :: "u32 \<Rightarrow> u32 \<Rightarrow> u32 \<Rightarrow> u32 \<Rightarrow> 'p \<Rightarrow> 'p"
  puller_multi :: "u32 \<Rightarrow> u32 \<Rightarrow> u32 list \<Rightarrow> u32 \<Rightarrow> 'p \<Rightarrow> 'p"
  bound_3d :: "u32 \<Rightarrow> 'p \<Rightarrow> bool"
  other_call :: "u32 \<Rightarrow> u64 \<Rightarrow> u32 \<Rightarrow> u32 \<Rightarrow> bool \<Rightarrow> 'p \<Rightarrow> 'p option"
  other_multi :: "u32 \<Rightarrow> u64 \<Rightarrow> u32 \<Rightarrow> u32 list \<Rightarrow> u32 \<Rightarrow> 'p \<Rightarrow> 'p option"
  handlers_3d :: "'x handlers"
  multi_3d :: "u32 \<Rightarrow> u32 list \<Rightarrow> 'x maxwell \<Rightarrow> 'x maxwell"

text \<open>The calls with one engine call each way; \<open>consume\<close> is what happens before a call of many arguments.\<close>

definition channel_bus ::
  "('p, 'x) channel \<Rightarrow> ('x handlers \<Rightarrow> u64 \<Rightarrow> u32 \<Rightarrow> u32 \<Rightarrow> bool \<Rightarrow> 'x engine \<Rightarrow> 'x engine) \<Rightarrow>
   ('x engine \<Rightarrow> 'x engine) \<Rightarrow> ('p \<times> 'x engine) bus" where
  "channel_bus ch call_3d consume =
     \<lparr>CallPullerMethod = (\<lambda>m a sub n. apfst (puller_call ch m a sub n)),
      PullerCallMultiMethod = (\<lambda>m sub args n. apfst (puller_multi ch m sub args n)),
      EngineCallMethod = (\<lambda>sub seg m a l (p, e).
        if bound_3d ch sub p then Some (p, call_3d (handlers_3d ch) seg m a l e)
        else map_option (\<lambda>p. (p, e)) (other_call ch sub seg m a l p)),
      EngineCallMultiMethod = (\<lambda>sub seg m args n (p, e).
        if bound_3d ch sub p
        then Some (p, Maxwell3D_CallMultiMethod (handlers_3d ch) (multi_3d ch) m args (unat n) (SetSegment seg (consume e)))
        else map_option (\<lambda>p. (p, e)) (other_multi ch sub seg m args n p))\<rparr>"

text \<open>The bus of the code, and one that hands every call to the engine at once.\<close>

definition deferred_bus :: "('p, 'x) channel \<Rightarrow> ('p \<times> 'x engine) bus" where
  "deferred_bus ch = channel_bus ch Sink_CallMethod ConsumeSink"

definition direct_bus :: "('p, 'x) channel \<Rightarrow> ('p \<times> 'x engine) bus" where
  "direct_bus ch = channel_bus ch DirectCall id"

lemma CallMultiMethod_sink:
  assumes "method_sink e = []"
  shows "method_sink (Maxwell3D_CallMultiMethod h hm m args n e) = []"
proof -
  have "method_sink (fold (\<lambda>i. Maxwell3D_CallMethod h m (args ! i) (n - i \<le> 1)) is e) = []" for "is"
    using assms by (induction "is" arbitrary: e) (simp_all add: CallMethod_sink)
  then show ?thesis using assms
    by (simp add: Maxwell3D_CallMultiMethod_def ProcessMacro_def ConsumeSink_def Let_def)
qed

lemma Sink_CallMethod_sim:
  assumes "sink_ok e"
  shows "sink_ok (Sink_CallMethod h seg m a l e)" "ConsumeSink (Sink_CallMethod h seg m a l e) = DirectCall h seg m a l (ConsumeSink e)"
proof -
  have "Sink_CallMethod h seg m a l e =
      (if \<not> IsMethodExecutable m then PushSink m a e else DirectCall h seg m a l (ConsumeSink e))"
    by (simp add: Sink_CallMethod_def DirectCall_def)
  with sink.deferred_call[OF assms, of m a h seg l]
  show "sink_ok (Sink_CallMethod h seg m a l e)" "ConsumeSink (Sink_CallMethod h seg m a l e) = DirectCall h seg m a l (ConsumeSink e)"
    by simp_all
qed

lemma sink_ok_empty: "method_sink e = [] \<Longrightarrow> sink_ok e"
  by (simp add: sink_ok_def)

interpretation stream: bus_simulation "deferred_bus ch" "direct_bus ch" "apsnd ConsumeSink" "\<lambda>w. sink_ok (snd w)"
  for ch :: "('p, 'x) channel"
proof (unfold_locales, goal_cases)
  case (5 w sub seg m a l)
  then show ?case by (cases w) (simp add: deferred_bus_def channel_bus_def Sink_CallMethod_sim option.pred_True option.pred_map comp_def)
next
  case (6 w sub seg m args n)
  then have "method_sink (SetSegment seg (ConsumeSink (snd w))) = []" using ConsumeSink_writes[of "snd w"] by (simp add: SetSegment_def)
  from CallMultiMethod_sink[OF this] 6 show ?case
    by (cases w) (simp add: deferred_bus_def channel_bus_def option.pred_map option.pred_True comp_def sink_ok_empty)
next
  case (7 w sub seg m a l)
  then show ?case by (cases w) (simp add: deferred_bus_def direct_bus_def channel_bus_def Sink_CallMethod_sim option.map_comp comp_def)
next
  case (8 w sub seg m args n)
  then have "method_sink (SetSegment seg (ConsumeSink (snd w))) = []" using ConsumeSink_writes[of "snd w"] by (simp add: SetSegment_def)
  from ConsumeSink_empty[OF CallMultiMethod_sink[OF this]] show ?case
    by (cases w) (simp add: deferred_bus_def direct_bus_def channel_bus_def option.map_comp comp_def)
qed (simp_all add: deferred_bus_def direct_bus_def channel_bus_def)

text \<open>
  Claim C9. Deferring register writes is invisible to every command stream: for all words, well formed or not, and any
  state of the command processor, running the stream with the sink of the 3D engine and applying what is left in it at the end
  gives the same state of the command processor, of the 3D engine and of everything else on the channel as
  handing every method to the engine at once, and stops for an unbound subchannel in the same cases.
\<close>

theorem dma_stream_deferral_invisible:
  assumes "method_sink e = []"
  shows "map_run (apsnd (apsnd ConsumeSink)) (ProcessCommands (deferred_bus ch) commands (st, p, e)) =
    ProcessCommands (direct_bus ch) commands (st, p, e)"
  using stream.stream_sim[of "(p, e)" ch commands 0 st] sink_ok_empty[OF assms] ConsumeSink_empty[OF assms]
  by (simp add: ProcessCommands_def stream.sim_run_def)

text \<open>A bus that notes its calls, with no engine on the subchannels from 4.\<close>

definition tracing_bus :: "(u32 \<times> u32 list \<times> u64) list bus" where
  "tracing_bus =
     \<lparr>CallPullerMethod = (\<lambda>m a sub n w. w @ [(m, [a, sub, n], 0)]),
      PullerCallMultiMethod = (\<lambda>m sub args n w. w @ [(m, args, 0)]),
      EngineCallMethod = (\<lambda>sub seg m a l w. if sub < 4 then Some (w @ [(m, [a], seg)]) else None),
      EngineCallMultiMethod = (\<lambda>sub seg m args n w. if sub < 4 then Some (w @ [(m, args, seg)]) else None)\<rparr>"

definition idle_pusher :: pusher where
  "idle_pusher = \<lparr>ds_method = 0, ds_subchannel = 0, ds_method_count = 0, ds_dma_get = 0x1000, ds_dma_word_offset = 0,
     ds_non_incrementing = False, ds_is_last_call = True, dma_increment_once = False\<rparr>"

theorem dma_pusher_runs_program_witness:
  "length (concat (map encode [Incr 0 0x100 [7, 8], NonIncr 1 0x200 [1, 2, 3], Once 2 0x300 [4, 5, 6], InlineArg 0 2 9])) < 2 ^ 30 \<and>
   list_all command_ok [Incr 0 0x100 [7, 8], NonIncr 1 0x200 [1, 2, 3], Once 2 0x300 [4, 5, 6], InlineArg 0 2 9] \<and> idle idle_pusher \<and>
   (\<exists>st'. idle st' \<and> ProcessCommands tracing_bus
      (concat (map encode [Incr 0 0x100 [7, 8], NonIncr 1 0x200 [1, 2, 3], Once 2 0x300 [4, 5, 6], InlineArg 0 2 9])) (idle_pusher, []) =
     Done (st', [(0x100, [7], 0x1004), (0x101, [8], 0x1008), (0x200, [1, 2, 3], 0x1010), (0x300, [4], 0x1020),
       (0x301, [5, 6], 0x1024), (2, [9, 0, 0], 0)]))"
proof -
  let ?cs = "[Incr 0 0x100 [7, 8], NonIncr 1 0x200 [1, 2, 3], Once 2 0x300 [4, 5, 6], InlineArg 0 2 9]"
  have l: "length (concat (map encode ?cs)) < 2 ^ 30" by simp
  have ok: "list_all command_ok ?cs" by simp
  have i: "idle idle_pusher" by (simp add: idle_def idle_pusher_def)
  have "run_calls tracing_bus (program_calls (ds_dma_get idle_pusher) 0 ?cs) [] = Done [(0x100, [7], 0x1004), (0x101, [8], 0x1008),
      (0x200, [1, 2, 3], 0x1010), (0x300, [4], 0x1020), (0x301, [5, 6], 0x1024), (2, [9, 0, 0], 0)]"
    by code_simp
  then show ?thesis using dma_pusher_runs_program[OF l ok i, of tracing_bus "[]"] l ok i by simp
qed

text \<open>A channel with the 3D engine on subchannel 0 and nothing else; the stream writes a register and draws twice.\<close>

definition small_channel :: "(nat, nat) channel" where
  "small_channel = \<lparr>puller_call = (\<lambda>_ _ _ _ p. p + 1), puller_multi = (\<lambda>_ _ _ _ p. p), bound_3d = (\<lambda>sub _. sub = 0),
     other_call = (\<lambda>_ _ _ _ _ _. None), other_multi = (\<lambda>_ _ _ _ _ _. None), handlers_3d = summing_handlers, multi_3d = (\<lambda>_ _ s. s)\<rparr>"

definition drawn :: "(pusher \<times> nat \<times> nat engine) run \<Rightarrow> nat" where
  "drawn r = (case r of Done (st, p, e) \<Rightarrow> others (maxwell e) | _ \<Rightarrow> 0)"

theorem dma_stream_deferral_invisible_witness:
  "method_sink idle_engine = [] \<and>
   drawn (map_run (apsnd (apsnd ConsumeSink)) (ProcessCommands (deferred_bus small_channel)
     (concat (map encode [Incr 0 0x100 [3], NonIncr 0 0x585 [0, 0]])) (idle_pusher, 0, idle_engine))) = 6"
proof
  show i: "method_sink idle_engine = []" by (simp add: idle_engine_def)
  show "drawn (map_run (apsnd (apsnd ConsumeSink)) (ProcessCommands (deferred_bus small_channel)
     (concat (map encode [Incr 0 0x100 [3], NonIncr 0 0x585 [0, 0]])) (idle_pusher, 0, idle_engine))) = 6"
    unfolding dma_stream_deferral_invisible[OF i] by code_simp
qed

end
