(* ===== verification/Command_Queue.thy ===== *)
theory Command_Queue
  imports Dma_Pusher
begin

text \<open>
  The queue of command lists in front of the command processor, \<^verbatim>\<open>src/src/video_core/dma_pusher.cpp\<close> (\<open>Push\<close>,
  \<open>DispatchCalls\<close>, \<open>Step\<close>). What surrounds it is an argument: whether the machine is powered on, the two ways of reading the words of a
  segment from guest memory, the note that an engine takes of changed memory, the setting of the emulation level, and
  what happens at the end of a dispatch.
\<close>

section \<open>State and operations\<close>

definition clh_addr :: "u64 \<Rightarrow> u64" where
  "clh_addr raw = bf_extract 0 40 raw"

definition clh_size :: "u64 \<Rightarrow> u64" where
  "clh_size raw = bf_extract 42 21 raw"

record command_list =
  command_lists :: "u64 list"
  prefetch_command_list :: "u32 list"

record dma_queue =
  dma_pushbuffer :: "command_list list"
  dma_pushbuffer_subindex :: nat
  dma_state :: pusher

record 'w dma_env =
  env_bus :: "'w bus"
  IsPoweredOn :: "'w \<Rightarrow> bool"
  IsGPULevelHigh :: bool
  note_dirty :: "u32 \<Rightarrow> u64 \<Rightarrow> u64 \<Rightarrow> 'w \<Rightarrow> 'w"
  is_kepler_compute :: "u32 \<Rightarrow> 'w \<Rightarrow> bool"
  safe_read :: "u64 \<Rightarrow> u64 \<Rightarrow> 'w \<Rightarrow> u32 list \<times> 'w"
  unsafe_read :: "u64 \<Rightarrow> u64 \<Rightarrow> 'w \<Rightarrow> u32 list \<times> 'w"
  finish_dispatch :: "'w \<Rightarrow> 'w"

definition ComputeInline :: u32 where
  "ComputeInline = 0x6D"

definition Push :: "command_list \<Rightarrow> dma_queue \<Rightarrow> dma_queue" where
  "Push entries d = d\<lparr>dma_pushbuffer := dma_pushbuffer d @ [entries]\<rparr>"

text \<open>The part of \<open>Step\<close> after a header has been taken from the queue.\<close>

definition ProcessSegment :: "'w dma_env \<Rightarrow> u64 \<Rightarrow> pusher \<times> 'w \<Rightarrow> (pusher \<times> 'w) run" where
  "ProcessSegment env command_list_header sw =
     (let (st, w) = sw;
          st = st\<lparr>ds_dma_get := clh_addr command_list_header\<rparr>;
          size = clh_size command_list_header
      in if size = 0 then Done (st, w)
         else
           let w = (if ds_method st \<ge> MacroRegistersStart then note_dirty env (ds_subchannel st) (ds_dma_get st) (size * 4) w else w);
               safe = (IsGPULevelHigh env \<and> \<not> ds_method st \<ge> MacroRegistersStart \<and>
                       \<not> (is_kepler_compute env (ds_subchannel st) w \<and> ds_method st = ComputeInline));
               (headers, w) = (if safe then safe_read env else unsafe_read env) (ds_dma_get st) size w
           in ProcessCommands (env_bus env) headers (st, w))"

definition Dma_Step :: "'w dma_env \<Rightarrow> dma_queue \<times> 'w \<Rightarrow> (bool \<times> dma_queue \<times> 'w) run" where
  "Dma_Step env dw =
     (let (d, w) = dw in
      case dma_pushbuffer d of
        [] \<Rightarrow> Done (False, d, w)
      | command_list # rest \<Rightarrow>
          if command_lists command_list = [] \<and> prefetch_command_list command_list = []
          then Done (True, d\<lparr>dma_pushbuffer := rest, dma_pushbuffer_subindex := 0\<rparr>, w)
          else if prefetch_command_list command_list \<noteq> [] then
            bind_run (ProcessCommands (env_bus env) (prefetch_command_list command_list) (dma_state d, w)) (\<lambda>(st, w).
              Done (True, d\<lparr>dma_pushbuffer := rest, dma_state := st\<rparr>, w))
          else
            let index = dma_pushbuffer_subindex d in
            if index \<ge> length (command_lists command_list) then Undefined
            else
              let d = (if index + 1 \<ge> length (command_lists command_list)
                       then d\<lparr>dma_pushbuffer := rest, dma_pushbuffer_subindex := 0\<rparr>
                       else d\<lparr>dma_pushbuffer_subindex := index + 1\<rparr>)
              in bind_run (ProcessSegment env (command_lists command_list ! index) (dma_state d, w)) (\<lambda>(st, w).
                   Done (True, d\<lparr>dma_state := st\<rparr>, w)))"

text \<open>Every round of the loop drops a list or takes a header of the first one.\<close>

definition headers_left :: "dma_queue \<Rightarrow> nat" where
  "headers_left d = (case dma_pushbuffer d of [] \<Rightarrow> 0 | cl # _ \<Rightarrow> length (command_lists cl) - dma_pushbuffer_subindex d)"

lemma Dma_Step_progress:
  assumes "Dma_Step env (d, w) = Done (True, d', w')"
  shows "length (dma_pushbuffer d') < length (dma_pushbuffer d) \<or>
    length (dma_pushbuffer d') = length (dma_pushbuffer d) \<and> headers_left d' < headers_left d"
  using assms
  by (auto simp: Dma_Step_def headers_left_def Let_def bind_run_Done_iff split: list.splits if_splits)

declare bind_run_cong [fundef_cong]

function Dispatch_loop :: "'w dma_env \<Rightarrow> dma_queue \<times> 'w \<Rightarrow> (dma_queue \<times> 'w) run" where
  "Dispatch_loop env (d, w) =
     (if \<not> IsPoweredOn env w then Done (d, w)
      else bind_run (Dma_Step env (d, w)) (\<lambda>(again, dw). if again then Dispatch_loop env dw else Done dw))"
  by pat_completeness auto
termination
proof (relation "measures [\<lambda>(env, d, w). length (dma_pushbuffer d), \<lambda>(env, d, w). headers_left d]", goal_cases)
  case (2 env d w r again dw)
  then show ?case using Dma_Step_progress[of env d w] by (cases dw) auto
qed simp

definition DispatchCalls :: "'w dma_env \<Rightarrow> dma_queue \<times> 'w \<Rightarrow> (dma_queue \<times> 'w) run" where
  "DispatchCalls env dw =
     (let (d, w) = dw;
          d = d\<lparr>dma_pushbuffer_subindex := 0, dma_state := (dma_state d)\<lparr>ds_is_last_call := True\<rparr>\<rparr>
      in bind_run (Dispatch_loop env (d, w)) (\<lambda>(d, w). Done (d, finish_dispatch env w)))"

section \<open>The order of the segments\<close>

text \<open>What a queue asks for: the segments of all lists in order, and nothing for an empty list.\<close>

datatype segment_source = Prefetched "u32 list" | Fetched u64

definition list_segments :: "command_list \<Rightarrow> segment_source list" where
  "list_segments cl = (if prefetch_command_list cl \<noteq> [] then [Prefetched (prefetch_command_list cl)] else map Fetched (command_lists cl))"

definition queue_segments :: "command_list list \<Rightarrow> segment_source list" where
  "queue_segments q = concat (map list_segments q)"

fun run_segment :: "'w dma_env \<Rightarrow> segment_source \<Rightarrow> pusher \<times> 'w \<Rightarrow> (pusher \<times> 'w) run" where
  "run_segment env (Prefetched ws) sw = ProcessCommands (env_bus env) ws sw"
| "run_segment env (Fetched h) sw = ProcessSegment env h sw"

fun run_segments :: "'w dma_env \<Rightarrow> segment_source list \<Rightarrow> pusher \<times> 'w \<Rightarrow> (pusher \<times> 'w) run" where
  "run_segments env [] sw = Done sw"
| "run_segments env (s # ss) sw = (if \<not> IsPoweredOn env (snd sw) then Done sw else bind_run (run_segment env s sw) (run_segments env ss))"

text \<open>The segments left in the middle of a dispatch.\<close>

definition segments_left :: "dma_queue \<Rightarrow> segment_source list" where
  "segments_left d = (case dma_pushbuffer d of [] \<Rightarrow> []
     | cl # rest \<Rightarrow> (if prefetch_command_list cl \<noteq> [] then list_segments cl
         else drop (dma_pushbuffer_subindex d) (list_segments cl)) @ queue_segments rest)"

definition subindex_ok :: "dma_queue \<Rightarrow> bool" where
  "subindex_ok d \<longleftrightarrow> (case dma_pushbuffer d of [] \<Rightarrow> dma_pushbuffer_subindex d = 0
     | cl # _ \<Rightarrow> if prefetch_command_list cl \<noteq> [] then dma_pushbuffer_subindex d = 0
         else dma_pushbuffer_subindex d < max 1 (length (command_lists cl)))"


declare Dispatch_loop.simps [simp del]

lemma segments_left_start:
  "dma_pushbuffer_subindex d = 0 \<Longrightarrow> segments_left d = queue_segments (dma_pushbuffer d) \<and> subindex_ok d"
  by (cases "dma_pushbuffer d") (auto simp: segments_left_def subindex_ok_def queue_segments_def)

text \<open>A round drops an empty list, or runs the first segment that is left.\<close>

lemma Dma_Step_segments:
  assumes "subindex_ok d" "dma_pushbuffer d \<noteq> []"
  obtains d' where "Dma_Step env (d, w) = Done (True, d', w)" "segments_left d' = segments_left d" "subindex_ok d'"
      "dma_state d' = dma_state d"
  | seg d' where "segments_left d = seg # segments_left d'" "subindex_ok d'"
      "Dma_Step env (d, w) = bind_run (run_segment env seg (dma_state d, w)) (\<lambda>(st, w). Done (True, d'\<lparr>dma_state := st\<rparr>, w))"
proof -
  obtain cl rest where q: "dma_pushbuffer d = cl # rest" using assms(2) by (cases "dma_pushbuffer d") auto
  let ?rest = "d\<lparr>dma_pushbuffer := rest, dma_pushbuffer_subindex := 0\<rparr>"
  have rest: "segments_left ?rest = queue_segments rest" "subindex_ok ?rest" using segments_left_start[of ?rest] by simp_all
  consider "command_lists cl = [] \<and> prefetch_command_list cl = []" | "prefetch_command_list cl \<noteq> []"
    | "prefetch_command_list cl = []" "command_lists cl \<noteq> []" by blast
  then show thesis
  proof cases
    case 1
    then show thesis using that(1)[of ?rest] rest q by (simp add: Dma_Step_def segments_left_def list_segments_def)
  next
    case 2
    then have "d\<lparr>dma_pushbuffer := rest\<rparr> = ?rest" using assms(1) q by (simp add: subindex_ok_def)
    then show thesis using that(2)[of "Prefetched (prefetch_command_list cl)" ?rest] rest q 2
      by (simp add: Dma_Step_def segments_left_def list_segments_def)
  next
    case 3
    let ?i = "dma_pushbuffer_subindex d" and ?next = "d\<lparr>dma_pushbuffer_subindex := dma_pushbuffer_subindex d + 1\<rparr>"
    have i: "?i < length (command_lists cl)" using assms(1) q 3 by (simp add: subindex_ok_def max_def split: if_splits)
    have left: "segments_left d = Fetched (command_lists cl ! ?i) # drop (Suc ?i) (map Fetched (command_lists cl)) @ queue_segments rest"
      using q 3 Cons_nth_drop_Suc[of ?i "map Fetched (command_lists cl)"] i by (simp add: segments_left_def list_segments_def)
    show thesis
    proof (cases "?i + 1 \<ge> length (command_lists cl)")
      case True
      then show thesis using that(2)[of "Fetched (command_lists cl ! ?i)" ?rest] rest q 3 i left by (simp add: Dma_Step_def Let_def)
    next
      case False
      then have "segments_left ?next = drop (Suc ?i) (map Fetched (command_lists cl)) @ queue_segments rest" "subindex_ok ?next"
        using q 3 by (simp_all add: segments_left_def subindex_ok_def list_segments_def)
      then show thesis using that(2)[of "Fetched (command_lists cl ! ?i)" ?next] q 3 i left False by (simp add: Dma_Step_def Let_def)
    qed
  qed
qed

lemma state_update_segments [simp]:
  "segments_left (d\<lparr>dma_state := st\<rparr>) = segments_left d" "subindex_ok (d\<lparr>dma_state := st\<rparr>) = subindex_ok d"
  by (cases "dma_pushbuffer d"; simp add: segments_left_def subindex_ok_def)+

lemma Dispatch_loop_segments:
  "subindex_ok d \<Longrightarrow> map_run (apfst dma_state) (Dispatch_loop env (d, w)) = run_segments env (segments_left d) (dma_state d, w) \<and>
    pred_run (\<lambda>(d', w'). IsPoweredOn env w' \<longrightarrow> dma_pushbuffer d' = []) (Dispatch_loop env (d, w))"
proof (induction env "(d, w)" arbitrary: d w rule: Dispatch_loop.induct)
  case (1 env d w)
  note loop = Dispatch_loop.simps[of env d w]
  note IH = "1.hyps"
  consider "\<not> IsPoweredOn env w" | "IsPoweredOn env w" "dma_pushbuffer d = []" | "IsPoweredOn env w" "dma_pushbuffer d \<noteq> []" by blast
  then show ?case
  proof cases
    case 1
    then show ?thesis by (cases "segments_left d") (simp_all add: loop)
  next
    case 2
    then show ?thesis by (simp add: loop Dma_Step_def segments_left_def)
  next
    case on: 3
    from \<open>subindex_ok d\<close> on(2) show ?thesis
    proof (cases rule: Dma_Step_segments[where env = env and w = w])
      case (1 d')
      then show ?thesis using IH[OF _ 1(1)] on by (simp add: loop)
    next
      case (2 seg d')
      show ?thesis
      proof (cases "run_segment env seg (dma_state d, w)")
        case (Done sw)
        obtain st w' where sw: "sw = (st, w')" by fastforce
        then have s: "Dma_Step env (d, w) = Done (True, d'\<lparr>dma_state := st\<rparr>, w')" using 2(3) Done by simp
        then show ?thesis using IH[OF _ s] on 2 Done sw by (simp add: loop)
      qed (use on 2 in \<open>simp_all add: loop\<close>)
    qed
  qed
qed

text \<open>
  Claim C15. A dispatch always ends and runs the queue in order: the words of every prefetched list and of every header
  of the other lists, each once, first list first, as long as the machine is powered on, and an empty list is skipped. The command
  state is carried from one segment to the next, the index of the next header never passes the end of its list, and
  when the machine is still on at the end, the queue is empty.
\<close>

theorem dma_dispatch_in_order:
  "map_run (apfst dma_state) (DispatchCalls env (d, w)) =
     map_run (apsnd (finish_dispatch env))
       (run_segments env (queue_segments (dma_pushbuffer d)) ((dma_state d)\<lparr>ds_is_last_call := True\<rparr>, w)) \<and>
   pred_run (\<lambda>(d', w'). dma_pushbuffer d' = [] \<or> (\<exists>w0. w' = finish_dispatch env w0 \<and> \<not> IsPoweredOn env w0)) (DispatchCalls env (d, w))"
proof -
  let ?d = "d\<lparr>dma_pushbuffer_subindex := 0, dma_state := (dma_state d)\<lparr>ds_is_last_call := True\<rparr>\<rparr>"
  have start: "segments_left ?d = queue_segments (dma_pushbuffer d)" "subindex_ok ?d" using segments_left_start[of ?d] by simp_all
  have run: "DispatchCalls env (d, w) = map_run (apsnd (finish_dispatch env)) (Dispatch_loop env (?d, w))"
    by (cases "Dispatch_loop env (?d, w)") (auto simp: DispatchCalls_def Let_def)
  note loop = Dispatch_loop_segments[OF start(2), of env w, unfolded start(1)]
  then have "run_segments env (queue_segments (dma_pushbuffer d)) ((dma_state d)\<lparr>ds_is_last_call := True\<rparr>, w) =
      map_run (apfst dma_state) (Dispatch_loop env (?d, w))" by simp
  then show ?thesis unfolding run using conjunct2[OF loop] by (cases "Dispatch_loop env (?d, w)") auto
qed

text \<open>Two segments in guest memory, an empty list and a prefetched list.\<close>

definition small_env :: "(u32 \<times> u32 list \<times> u64) list dma_env" where
  "small_env = \<lparr>env_bus = tracing_bus, IsPoweredOn = (\<lambda>_. True), IsGPULevelHigh = False, note_dirty = (\<lambda>_ _ _ w. w),
     is_kepler_compute = (\<lambda>_ _. False), safe_read = (\<lambda>_ _ w. ([], w)),
     unsafe_read = (\<lambda>addr size w. (if addr = 0x1000 then encode (Incr 0 0x100 [7]) else encode (NonIncr 1 0x200 [1, 2]), w)),
     finish_dispatch = id\<rparr>"

definition small_queue :: dma_queue where
  "small_queue = \<lparr>dma_pushbuffer = [\<lparr>command_lists = [0x80000001000, 0xC0000002000], prefetch_command_list = []\<rparr>,
     \<lparr>command_lists = [], prefetch_command_list = []\<rparr>,
     \<lparr>command_lists = [], prefetch_command_list = encode (InlineArg 0 2 9)\<rparr>],
     dma_pushbuffer_subindex = 0, dma_state = idle_pusher\<rparr>"

theorem dma_dispatch_in_order_witness:
  "\<exists>d'. DispatchCalls small_env (small_queue, []) = Done (d', [(0x100, [7], 0x1004), (0x200, [1, 2], 0x2004), (2, [9, 0, 0], 0)]) \<and>
     dma_pushbuffer d' = []"
proof -
  let ?start = "((dma_state small_queue)\<lparr>ds_is_last_call := True\<rparr>, [])"
  have "map_run snd (run_segments small_env (queue_segments (dma_pushbuffer small_queue)) ?start) =
      Done [(0x100, [7], 0x1004), (0x200, [1, 2], 0x2004), (2, [9, 0, 0], 0)]"
    by code_simp
  then obtain st where r: "run_segments small_env (queue_segments (dma_pushbuffer small_queue)) ?start =
      Done (st, [(0x100, [7], 0x1004), (0x200, [1, 2], 0x2004), (2, [9, 0, 0], 0)])"
    by (cases "run_segments small_env (queue_segments (dma_pushbuffer small_queue)) ?start") auto
  have e: "finish_dispatch small_env = id" "IsPoweredOn small_env = (\<lambda>_. True)" by (simp_all add: small_env_def)
  from dma_dispatch_in_order[of small_env small_queue "[]", unfolded r e] show ?thesis
    by (cases "DispatchCalls small_env (small_queue, [])") auto
qed

end
