(* ===== verification/Spec2Isabelle.thy ===== *)
theory Spec2Isabelle
  imports Handle_Table Block_Manager Resource_Limit Page_Heap Cheat_Parser Macro_JIT Macro_Engine Command_Queue
begin

text \<open>
  \<^bold>\<open>Verification of the kernel bookkeeping, the cheat engine and the command front end of the emulator\<close>

  The repository is a console emulator (\<^verbatim>\<open>src/src\<close>): a core that loads a guest program, runs its code
  through a recompiler, answers its supervisor calls with a reimplementation of the guest kernel
  (\<^verbatim>\<open>core/hle/kernel\<close>) and of the system services (\<^verbatim>\<open>core/hle/service\<close>), emulates the graphics and audio
  processors, and applies user-written memory patches (\<^verbatim>\<open>core/memory\<close>). This development models the parts
  that are pure bookkeeping over the emulator's own data, where a mistake corrupts every guest: the
  handle table, the memory blocks and their manager, the resource limits, the allocator of physical pages with its bitmaps and
  random source, the cheat machine with its parser and engine, and the front end of the graphics processor that
  turns command streams into register writes and macro runs.

  \<^bold>\<open>How the parts interact.\<close> A process owns a handle table, whose entries hold references to kernel
  objects counted in \<^verbatim>\<open>k_auto_object.h\<close>; an address space, whose ranges are memory blocks kept in order by
  the block manager; and a resource limit that every allocation reserves from and every release
  returns to. Physical pages come from the page heap, whose free-block bitmaps draw random numbers from a twister. Once
  per frame the cheat engine runs the cheat machine over the memory of the process; the machine's
  program comes from the text the cheat parser reads. On the graphics side the command processor reads words,
  writes the registers of the 3D engine through a sink of deferred writes, and starts macros, small programs
  that the guest uploads; the macro engine keeps them and runs them interpreted or compiled, and they write registers in turn.

  \<^bold>\<open>Conventions.\<close> Integers of fixed width are words and wrap; the signed 64-bit values of the resource
  limit are integers with the range check written out, because signed overflow is undefined. A result
  is \<open>Ok\<close>, \<open>Err\<close> with a kernel result code, or \<open>UB\<close> for undefined behaviour (an access out of an array,
  a null or end iterator, a shift by the width, \<open>UNREACHABLE\<close>); \<open>ASSERT\<close> only logs in release builds, so
  that a failed assertion is followed by what the code does next. Objects behind pointers are values,
  and a pointer that can be null is an option. Operations that hold one lock for their whole body are
  functions; where a lock is given up, as in a waiting \<open>Reserve\<close>, the pieces are steps of a relation.

  \<^bold>\<open>The theories.\<close>

  \<^item> \<open>Emu_Prelude\<close>: the integer types of \<^verbatim>\<open>common/common_types.h\<close>, the result codes of
    \<^verbatim>\<open>svc_results.h\<close>, the result type with its bind, \<^verbatim>\<open>common/alignment.h\<close>, the bit fields of
    \<^verbatim>\<open>common/bit_field.h\<close>, the collections \<open>bf_simps\<close> and \<open>unat_facts\<close>, and shared lemmas on words
    and lists.
  \<^item> \<open>Handle_Table\<close>: \<open>KHandleTable\<close> of \<^verbatim>\<open>k_handle_table.h\<close> and \<^verbatim>\<open>k_handle_table.cpp\<close>. The record
    \<open>handle_table\<close> has the two arrays, the head of the free list threaded through the info array, the
    count and the next linear id. The invariant \<open>ht_inv\<close> says that the threaded list visits every free
    entry once. The interface of a map from handles to objects is the locale \<open>handle_map\<close>,
    interpreted on \<open>Add\<close>, \<open>Remove\<close> and \<open>GetObjectImpl\<close>; \<open>ht_reach\<close> is reachability by all operations that change the
    table, \<open>Initialize\<close> and \<open>Finalize\<close> included, together with the set of outstanding reservations. \<open>Register\<close> and \<open>Unreserve\<close>
    are called with a handle of that set, which the code does not test.
    The lemmas show what every lookup returns after an operation, that reservations can be completed or
    undone, how long a removed handle stays invalid, and that a failed multiple lookup leaks no
    reference.
  \<^item> \<open>Memory_Block\<close>: \<open>KMemoryBlock\<close> and \<open>KMemoryInfo\<close> of \<^verbatim>\<open>k_memory_block.h\<close>, with every flag word, permission,
    attribute and counter. The lemmas show that locking and sharing are undone exactly by unlocking and
    unsharing, that splitting is undone by adding, and what the guest sees of a block.
  \<^item> \<open>Block_Manager\<close>: \<open>KMemoryBlockManager\<close> of \<^verbatim>\<open>k_memory_block_manager.cpp\<close> and the update allocator. The
    tree is the ordered list of its blocks, an iterator a position in it. Each of the four range
    operations is its loop of cuts followed by coalescing. The abstract specification is \<open>view\<close>, the map
    from page addresses to properties; the locales \<open>range_update\<close> and \<open>props_update\<close> carry the proof from
    one loop to the whole operation, and are interpreted on the loops of \<open>Update\<close>, \<open>UpdateIfMatch\<close>,
    \<open>UpdateAttribute\<close> and \<open>UpdateLock\<close>. The operations complete under the condition \<open>coalesce_ok\<close> on the start of the range and are
    undefined without it; \<open>op_allowed\<close> is what their callers respect about flags and counters.
  \<^item> \<open>Resource_Limit\<close>: \<open>KResourceLimit\<close> of \<^verbatim>\<open>k_resource_limit.cpp\<close>. An attempt of the reserve loop is a
    function whose outcome may be to wait; \<open>rl_step\<close> interleaves calls, waits and wake-ups, with a log of the
    releases; releases are bound by the assertions that \<open>Release\<close> makes about its arguments, and no more. The locale
    \<open>resource_account\<close> states the contract of an account that grants requests up to a limit.
  \<^item> \<open>Tiny_MT\<close> and \<open>Page_Bitmap\<close>: the twister of \<^verbatim>\<open>common/tiny_mt.h\<close>, the buffered random bits and the
    hierarchical bitmap of \<^verbatim>\<open>k_page_bitmap.h\<close>. The invariant \<open>bitmap_inv\<close> links every bit of an upper level to
    the word below it; the abstract value \<open>bits_of\<close> is the set of free blocks. The locale
    \<open>free_block_set\<close> is the interface the page heap uses, interpreted on the bitmap's operations.
  \<^item> \<open>Page_Heap\<close>: \<open>KPageHeap\<close> of \<^verbatim>\<open>k_page_heap.h\<close> and \<^verbatim>\<open>k_page_heap.cpp\<close>, a buddy allocator of physical pages with
    seven block sizes over the bitmaps. The invariant \<open>heap_ok\<close> says that the blocks of every size cover the
    heap at aligned addresses and that no address is free twice; the abstract value \<open>total_free\<close> is the set
    of free addresses. The lemmas follow a freed range through its cut into blocks and their merging
    (\<open>adds\<close>), and an allocation through popping and cutting a block (\<open>takes\<close>).
  \<^item> \<open>Cheat_VM\<close>, \<open>Cheat_Execution\<close>, \<open>Cheat_Assembler\<close>: the cheat machine of \<^verbatim>\<open>dmnt_cheat_vm.cpp\<close>, from
    decoding to the handler of every opcode; what a run can and cannot change (locale \<open>run_relation\<close>, with
    the interpretations \<open>safe\<close> and \<open>logged\<close>), and an assembler, for the layout the decoder's code reads, whose output the decoder reads
    back.
  \<^item> \<open>Cheat_Parser\<close>: the parser and the engine of \<^verbatim>\<open>cheat_engine.cpp\<close>, from the text of a file to a frame.

  \<^item> \<open>Macro_Interpreter\<close>: the interpreter of \<^verbatim>\<open>video_core/macro/macro_interpreter.cpp\<close> with the instruction fields of
    \<^verbatim>\<open>macro.h\<close>. The outcome of a run (\<open>run\<close>) is a state, a thrown exception, undefined behaviour, or no fuel left. A
    reference machine (\<open>Tick\<close>) executes one instruction at a time and remembers the slot it is in; the interpreter is
    equivalent to it. A read of an engine register past the array of registers is undefined. A static check on the code (\<open>macro_checked\<close>), which
    allows reads at constant addresses in range only, is enough for a run to end without an exception or
    undefined behaviour; a run does not depend on the runs before it.
  \<^item> \<open>Macro_JIT\<close>: the x64 code that \<^verbatim>\<open>macro_jit_x64.cpp\<close> emits for one instruction, run on a model of the registers and flags
    it uses, against the interpreter: equal on the instructions that \<open>jit_exact\<close> admits, the carry flag included, which the two keep with
    opposite polarity after a subtraction (\<open>carry_source\<close>); different on the examples at the end of the theory.
  \<^item> \<open>Macro_Engine\<close>: the upload table and the cache of \<^verbatim>\<open>macro.cpp\<close> over the interpreter, with the hash of
    \<^verbatim>\<open>common/container_hash.h\<close>; \<open>engine_reachable\<close> is reachability by its three operations.
  \<^item> \<open>Maxwell_Frontend\<close>: registers, shadow registers, dirty flags, macro calls and deferred writes of
    \<^verbatim>\<open>engines/maxwell_3d.cpp\<close> and \<^verbatim>\<open>engine_interface.h\<close>. The locale \<open>deferred_engine\<close> is what the command processor relies
    on, interpreted on the 3D engine for arbitrary handlers.
  \<^item> \<open>Dma_Pusher\<close>: the command processor of \<^verbatim>\<open>dma_pusher.cpp\<close>, against programs of commands and their calls, and composed
    with the 3D engine. The locale \<open>bus_simulation\<close> carries a simulation of the single calls to whole streams, and is
    interpreted on the deferred and the direct calls of the 3D engine.
  \<^item> \<open>Command_Queue\<close>: the queue of command lists in front of it (\<open>Push\<close>, \<open>DispatchCalls\<close>, \<open>Step\<close>), against the list of segments
    that a queue asks for.

  \<^bold>\<open>Termination and bounds.\<close> Loops over lists and counters are recursive functions with a termination
  proof; the update loops of the block manager decrease the pages left to visit. One loop that can run
  for ever is \<open>Execute\<close> of the cheat machine: it is a partial function into options, shown to return for
  programs that close no loop and not to return for a two-instruction program. The capacity bound of
  the range search, and the bound of 41 bits on the addresses of a heap, keep the random requests below 32
  bits; a bitmap has at most four levels, that is 2 to the 24 blocks, which bounds a heap to 32 gigabytes in
  the theorem on its initialisation.

  A macro can loop for ever too: the interpreter takes fuel, one unit for each instruction of a run. More fuel never changes an outcome
  other than running out, the equivalence with the reference machine is for some fuel on both sides, and a checked macro
  ends with as much fuel as it has words. The command processor uses up at least one word in each round, the dispatch of the queue one header or one list. Its word offsets
  are 32 bits wide, hence the bound of 2 to the 30 words on a program.

  \<^bold>\<open>Not modelled.\<close> Of the graphics side: the branches, labels and delay slots of the compiled macros, the replacement
  programs for known macros, the handlers behind the method switches (draws, constant buffers, queries, uploads), the
  handlers of the puller, how guest memory is read, and everything behind the rasterizer interface. The user interfaces and the audio, input and network code work on host resources and
  have no specification in the sources. Within the kernel, the page table works on the host mapping of
  device memory, and threads, the scheduler and sessions on host threads, fibers and copied messages;
  locks appear here only as atomic operations. The services, file systems and loaders are formats and
  commands over host files. The processor cores call a recompiler that is a submodule and not in the tree.
  Of the modelled parts, left out are: logging of the cheat machine, invalidation of translated code after a
  cheat writes memory, the kernel's lists of live objects and destruction callbacks, the floating-point and
  raw-memory outputs of the twister, and the dispatch and light locks.
\<close>

end
